(* ===== verification/Prelude.thy ===== *)
theory Prelude
  imports Main "HOL-Library.Word" "HOL-Library.Product_Lexorder" "HOL-Library.Multiset"
begin

text \<open>
  Shared vocabulary of the development: the machine integer types of the C++ code, the
  error values of \<^verbatim>\<open>src/error.h\<close> together with the LMDB and wire errors the storage code
  returns, the result type \<open>expect\<close> (\<^verbatim>\<open>expect<T>\<close> of the C++ code) with its sequencing
  operators, and generic lemmas on words, lists and results.
\<close>

section \<open>Machine integers\<close>

type_synonym u8 = "8 word"
type_synonym u32 = "32 word"
type_synonym u64 = "64 word"
type_synonym u128 = "128 word"

text \<open>
  The 32-byte values of the code (hashes, public keys, key images, secret keys) are read as
  the 256-bit number with the first byte most significant, so that \<open><\<close> on the number is
  \<^verbatim>\<open>memcmp\<close> on the bytes. A 16-byte uuid is read the same way.
\<close>

type_synonym key256 = "256 word"
type_synonym uuid = "128 word"

definition max_u32 :: u32 where
  "max_u32 = - 1"

definition max_u64 :: u64 where
  "max_u64 = - 1"

lemma unat_of_nat_u64: "i < 2 ^ 64 \<Longrightarrow> unat (of_nat i :: u64) = i"
  by (simp add: unat_of_nat)

lemma of_nat_u64_inj:
  "i < 2 ^ 64 \<Longrightarrow> j < 2 ^ 64 \<Longrightarrow> (of_nat i :: u64) = of_nat j \<longleftrightarrow> i = j"
  by (metis unat_of_nat_u64)

lemma unat_add_u64:
  "unat (h :: u64) + i < 2 ^ 64 \<Longrightarrow> unat (h + of_nat i) = unat h + i"
  by (simp add: unat_word_ariths unat_of_nat)

lemma unat_u64_less: "unat (h :: u64) < 2 ^ 64"
  using unsigned_less [of h] by simp

lemma unat_Suc_u64: "(h :: u64) < h + 1 \<Longrightarrow> unat (h + 1) = unat h + 1"
  by unat_arith

section \<open>Errors and results\<close>

datatype error =
    account_exists | account_list_change | account_max | account_not_found | bad_address
  | bad_view_key | bad_blockchain | bad_client_tx | bad_daemon_response | bad_height | bad_url
  | bad_verb | bad_webhook | blockchain_reorg | configuration | crypto_failure | create_queue_max
  | daemon_timeout | duplicate_request | exceeded_blockchain_buffer | exceeded_rest_request_limit
  | exchange_rates_disabled | exchange_rates_fetch | exchange_rates_old | http_server
  | invalid_range | json_rpc | load | max_subaddresses | not_enough_mixin | not_enough_amount
  | signal_abort_process | signal_abort_scan | signal_unknown | system_clock_invalid_range
  | rmq_failure | tx_relay_failed
  | MDB_NOTFOUND | MDB_KEYEXIST | MDB_MAP_FULL | MDB_CORRUPTED
  | schema_array | schema_binary | kInvalidArgument
  | std_out_of_range | std_invalid_argument | std_logic_error | std_runtime_error | std_bad_cast
  | Thrown error \<comment> \<open>a C++ exception that leaves the function (\<^verbatim>\<open>MONERO_UNWRAP\<close>, \<^verbatim>\<open>MONERO_THROW\<close>)\<close>

type_synonym 'a expect = "error + 'a"

text \<open>\<^verbatim>\<open>MONERO_CHECK\<close> and the \<^verbatim>\<open>if (!x) return x.error()\<close> idiom: continue with the value.\<close>

definition ebind :: "'a expect \<Rightarrow> ('a \<Rightarrow> 'b expect) \<Rightarrow> 'b expect" where
  "ebind r f = (case r of Inl e \<Rightarrow> Inl e | Inr x \<Rightarrow> f x)"

text \<open>A lookup whose absence is the given error.\<close>

definition eget :: "error \<Rightarrow> 'a option \<Rightarrow> 'a expect" where
  "eget e x = (case x of None \<Rightarrow> Inl e | Some y \<Rightarrow> Inr y)"

text \<open>\<^verbatim>\<open>MONERO_UNWRAP\<close>: an error value becomes an exception.\<close>

definition eunwrap :: "'a expect \<Rightarrow> 'a expect" where
  "eunwrap r = (case r of Inl e \<Rightarrow> Inl (Thrown e) | Inr x \<Rightarrow> Inr x)"

text \<open>A loop over a sequence whose body may return early with an error.\<close>

fun efold :: "('a \<Rightarrow> 's \<Rightarrow> 's expect) \<Rightarrow> 'a list \<Rightarrow> 's \<Rightarrow> 's expect" where
  "efold f [] s = Inr s"
| "efold f (x # xs) s = (case f x s of Inl e \<Rightarrow> Inl e | Inr s' \<Rightarrow> efold f xs s')"

named_theorems expect_simps "sequencing of results"

lemma ebind_simps [simp, expect_simps]:
  "ebind (Inl e) f = Inl e"
  "ebind (Inr x) f = f x"
  by (simp_all add: ebind_def)

lemma eget_simps [simp, expect_simps]:
  "eget e None = Inl e"
  "eget e (Some y) = Inr y"
  by (simp_all add: eget_def)

lemma eunwrap_simps [simp, expect_simps]:
  "eunwrap (Inl e) = Inl (Thrown e)"
  "eunwrap (Inr x) = Inr x"
  by (simp_all add: eunwrap_def)

lemma ebind_eq_Inr [expect_simps]:
  "ebind r f = Inr y \<longleftrightarrow> (\<exists>x. r = Inr x \<and> f x = Inr y)"
  by (cases r) auto

lemma eget_eq_Inr [expect_simps]: "eget e x = Inr y \<longleftrightarrow> x = Some y"
  by (cases x) auto

lemma eunwrap_eq_Inr [expect_simps]: "eunwrap r = Inr y \<longleftrightarrow> r = Inr y"
  by (cases r) auto

text \<open>Induction over a successful loop: an invariant kept by every iteration.\<close>

lemma efold_invariant:
  assumes "efold f xs s = Inr s'" and "P s"
    and "\<And>x s t. x \<in> set xs \<Longrightarrow> P s \<Longrightarrow> f x s = Inr t \<Longrightarrow> P t"
  shows "P s'"
  using assms
proof (induction xs arbitrary: s)
  case (Cons x xs)
  from Cons.prems(1) obtain t where t: "f x s = Inr t" "efold f xs t = Inr s'"
    by (auto split: sum.splits)
  have "P t" using Cons.prems(3) [OF _ Cons.prems(2) t(1)] by simp
  with t(2) Cons.prems(3) show ?case by (intro Cons.IH) auto
qed simp

lemma efold_append:
  "efold f (xs @ ys) s = ebind (efold f xs s) (efold f ys)"
  by (induction xs arbitrary: s) (auto split: sum.splits)

section \<open>Generic lemmas\<close>

lemma option_eqI: "(\<And>x. a = Some x \<longleftrightarrow> b = Some x) \<Longrightarrow> a = b"
  by (cases a; cases b) auto

lemma find_Some_iff_unique:
  assumes "\<And>x y. x \<in> set xs \<Longrightarrow> y \<in> set xs \<Longrightarrow> P x \<Longrightarrow> P y \<Longrightarrow> x = y"
  shows "find P xs = Some x \<longleftrightarrow> x \<in> set xs \<and> P x"
  using assms by (induction xs) auto

lemma sorted_wrt_filter_mono: "sorted_wrt R xs \<Longrightarrow> sorted_wrt R (filter P xs)"
  by (rule sorted_wrt_filter)

lemma sorted_wrt_map_keep:
  assumes "sorted_wrt R xs" and "\<And>x y. R x y \<Longrightarrow> R (f x) (f y)"
  shows "sorted_wrt R (map f xs)"
  using assms by (auto simp: sorted_wrt_map elim!: sorted_wrt_mono_rel [rotated])

lemma sorted_wrt_less_set_unique:
  fixes f :: "'a \<Rightarrow> 'b::linorder"
  assumes "sorted_wrt (\<lambda>x y. f x < f y) xs" and "sorted_wrt (\<lambda>x y. f x < f y) ys"
    and "set xs = set ys"
  shows "xs = ys"
  using assms
proof (induction xs arbitrary: ys)
  case (Cons x xs)
  from Cons.prems(3) obtain y ys' where ys: "ys = y # ys'" by (cases ys) auto
  have xy: "x = y"
  proof (rule ccontr)
    assume "x \<noteq> y"
    with Cons.prems(3) ys have "x \<in> set ys'" "y \<in> set xs" by auto
    with Cons.prems(1,2) ys have "f y < f x" "f x < f y" by auto
    then show False by simp
  qed
  have "x \<notin> set xs" "y \<notin> set ys'" using Cons.prems(1,2) ys by auto
  with Cons.prems(3) ys xy have "set xs = set ys'" by auto
  with Cons ys xy show ?case by simp
qed simp

section \<open>Sorted vectors\<close>

text \<open>\<^verbatim>\<open>std::lower_bound\<close> on a sorted vector: the position of the first element not below the value.\<close>

definition lower_bound :: "'a::linorder list \<Rightarrow> 'a \<Rightarrow> nat" where
  "lower_bound xs x = length (takeWhile (\<lambda>y. y < x) xs)"

definition insert_at :: "nat \<Rightarrow> 'a \<Rightarrow> 'a list \<Rightarrow> 'a list" where
  "insert_at i x xs = take i xs @ x # drop i xs"

lemma insert_at_lower_bound: "insert_at (lower_bound xs x) x xs = insort x xs"
  by (induction xs) (auto simp: insert_at_def lower_bound_def)

lemma lower_bound_le: "lower_bound xs x \<le> length xs"
  by (simp add: lower_bound_def length_takeWhile_le)

lemma lower_bound_Cons: "lower_bound (y # ys) x = (if y < x then Suc (lower_bound ys x) else 0)"
  by (simp add: lower_bound_def)

lemma lower_bound_min:
  assumes "sorted xs" and "lower_bound xs x < length xs" and "y \<in> set xs" and "x \<le> y"
  shows "xs ! lower_bound xs x \<le> y"
  using assms
proof (induction xs)
  case (Cons z zs)
  then show ?case by (auto simp: lower_bound_Cons not_less split: if_splits)
qed simp

lemma lower_bound_found:
  assumes "y \<in> set xs" and "x \<le> y"
  shows "lower_bound xs x < length xs"
  using assms by (induction xs) (auto simp: lower_bound_Cons)

lemma lower_bound_ge: "lower_bound xs x < length xs \<Longrightarrow> x \<le> xs ! lower_bound xs x"
  unfolding lower_bound_def using nth_length_takeWhile [of "\<lambda>y. y < x" xs] by (simp add: not_less)

lemma lower_bound_mem:
  "sorted xs \<Longrightarrow> lower_bound xs x \<noteq> length xs \<and> xs ! lower_bound xs x = x \<longleftrightarrow> x \<in> set xs"
proof
  assume "sorted xs" and x: "x \<in> set xs"
  then have lt: "lower_bound xs x < length xs" by (intro lower_bound_found) auto
  with \<open>sorted xs\<close> x have "xs ! lower_bound xs x \<le> x" by (intro lower_bound_min) auto
  with lower_bound_ge [OF lt] lt show "lower_bound xs x \<noteq> length xs \<and> xs ! lower_bound xs x = x" by simp
next
  assume "lower_bound xs x \<noteq> length xs \<and> xs ! lower_bound xs x = x"
  then show "x \<in> set xs" using lower_bound_le [of xs x] by (metis le_neq_implies_less nth_mem)
qed

end
