(* ===== verification/Lmdb_Table.thy ===== *)
theory Lmdb_Table
  imports Prelude
begin

text \<open>
  The interface of LMDB the storage code is written against. LMDB itself is not part of the
  repository, so its operations are parameters: a record \<open>mdb\<close> of functions for one table
  opened with \<^verbatim>\<open>MDB_DUPSORT\<close>, and a locale \<open>dupsort_table\<close> with the documented behaviour the
  code relies on. The content of a table is the sequence of its rows in cursor order; \<open>sk\<close>
  extracts from a value the part that the comparison function of the table looks at. The
  concrete \<open>list_table\<close> shows that the laws can hold.
\<close>

section \<open>Operations\<close>

type_synonym ('k, 'v) rows = "('k \<times> 'v) list"

record ('k, 's, 'v) mdb =
  get_both :: "('k, 'v) rows \<Rightarrow> 'k \<Rightarrow> 's \<Rightarrow> 'v option"
    \<comment> \<open>\<^verbatim>\<open>MDB_GET_BOTH\<close>; \<open>None\<close> is \<^verbatim>\<open>MDB_NOTFOUND\<close>\<close>
  dups :: "('k, 'v) rows \<Rightarrow> 'k \<Rightarrow> 'v list"
    \<comment> \<open>\<^verbatim>\<open>MDB_SET\<close>/\<^verbatim>\<open>MDB_SET_KEY\<close>, then \<^verbatim>\<open>MDB_NEXT_DUP\<close> until \<^verbatim>\<open>MDB_NOTFOUND\<close>\<close>
  dups_from :: "('k, 'v) rows \<Rightarrow> 'k \<Rightarrow> 's \<Rightarrow> 'v list"
    \<comment> \<open>\<^verbatim>\<open>MDB_GET_BOTH_RANGE\<close>, then \<^verbatim>\<open>MDB_NEXT_DUP\<close> until \<^verbatim>\<open>MDB_NOTFOUND\<close>\<close>
  dups_back :: "('k, 'v) rows \<Rightarrow> 'k \<Rightarrow> 's \<Rightarrow> 'v list"
    \<comment> \<open>from the row at a position, \<^verbatim>\<open>MDB_PREV_DUP\<close> until \<^verbatim>\<open>MDB_NOTFOUND\<close>\<close>
  rows_from :: "('k, 'v) rows \<Rightarrow> 'k \<Rightarrow> ('k, 'v) rows"
    \<comment> \<open>\<^verbatim>\<open>MDB_SET_RANGE\<close>, then \<^verbatim>\<open>MDB_NEXT\<close> until \<^verbatim>\<open>MDB_NOTFOUND\<close>\<close>
  all_rows :: "('k, 'v) rows \<Rightarrow> ('k, 'v) rows"
    \<comment> \<open>\<^verbatim>\<open>MDB_FIRST\<close>, then \<^verbatim>\<open>MDB_NEXT\<close> until \<^verbatim>\<open>MDB_NOTFOUND\<close>\<close>
  put :: "('k, 'v) rows \<Rightarrow> 'k \<Rightarrow> 'v \<Rightarrow> ('k, 'v) rows"
    \<comment> \<open>\<^verbatim>\<open>mdb_cursor_put\<close> with no flag: an equal row is overwritten\<close>
  put_nodup :: "('k, 'v) rows \<Rightarrow> 'k \<Rightarrow> 'v \<Rightarrow> ('k, 'v) rows option"
    \<comment> \<open>\<^verbatim>\<open>mdb_cursor_put\<close> with \<^verbatim>\<open>MDB_NODUPDATA\<close>; \<open>None\<close> is \<^verbatim>\<open>MDB_KEYEXIST\<close>\<close>
  put_current :: "('k, 'v) rows \<Rightarrow> 'k \<Rightarrow> 's \<Rightarrow> 'v \<Rightarrow> ('k, 'v) rows"
    \<comment> \<open>\<^verbatim>\<open>mdb_cursor_put\<close> with \<^verbatim>\<open>MDB_CURRENT\<close> on the cursor positioned at a row\<close>
  del_at :: "('k, 'v) rows \<Rightarrow> 'k \<Rightarrow> 's \<Rightarrow> ('k, 'v) rows"
    \<comment> \<open>\<^verbatim>\<open>mdb_cursor_del\<close> on the cursor positioned at a row\<close>
  del_dups :: "('k, 'v) rows \<Rightarrow> 'k \<Rightarrow> ('k, 'v) rows"
    \<comment> \<open>\<^verbatim>\<open>mdb_cursor_del\<close> with \<^verbatim>\<open>MDB_NODUPDATA\<close>: every value of the key\<close>

section \<open>Rows in cursor order\<close>

definition row_key :: "('v \<Rightarrow> 's) \<Rightarrow> 'k \<times> 'v \<Rightarrow> 'k \<times> 's" where
  "row_key sk r = (fst r, sk (snd r))"

definition at_row :: "('v \<Rightarrow> 's) \<Rightarrow> 'k \<Rightarrow> 's \<Rightarrow> 'k \<times> 'v \<Rightarrow> bool" where
  "at_row sk k s r \<longleftrightarrow> fst r = k \<and> sk (snd r) = s"

definition table_wf :: "('v \<Rightarrow> 's::linorder) \<Rightarrow> ('k::linorder, 'v) rows \<Rightarrow> bool" where
  "table_wf sk t \<longleftrightarrow> sorted_wrt (\<lambda>r r'. row_key sk r < row_key sk r') t"

fun t_put :: "('v \<Rightarrow> 's::linorder) \<Rightarrow> ('k::linorder, 'v) rows \<Rightarrow> 'k \<Rightarrow> 'v \<Rightarrow> ('k, 'v) rows" where
  "t_put sk [] k v = [(k, v)]"
| "t_put sk (r # t) k v =
     (if (k, sk v) < row_key sk r then (k, v) # r # t
      else if (k, sk v) = row_key sk r then (k, v) # t
      else r # t_put sk t k v)"

definition t_get :: "('v \<Rightarrow> 's) \<Rightarrow> ('k, 'v) rows \<Rightarrow> 'k \<Rightarrow> 's \<Rightarrow> 'v option" where
  "t_get sk t k s = map_option snd (find (at_row sk k s) t)"

definition t_dups :: "('k, 'v) rows \<Rightarrow> 'k \<Rightarrow> 'v list" where
  "t_dups t k = map snd (filter (\<lambda>r. fst r = k) t)"

definition t_del :: "('v \<Rightarrow> 's) \<Rightarrow> ('k, 'v) rows \<Rightarrow> 'k \<Rightarrow> 's \<Rightarrow> ('k, 'v) rows" where
  "t_del sk t k s = filter (\<lambda>r. \<not> at_row sk k s r) t"

definition t_set :: "('v \<Rightarrow> 's) \<Rightarrow> ('k, 'v) rows \<Rightarrow> 'k \<Rightarrow> 's \<Rightarrow> 'v \<Rightarrow> ('k, 'v) rows" where
  "t_set sk t k s v = map (\<lambda>r. if at_row sk k s r then (k, v) else r) t"

section \<open>The laws\<close>

locale dupsort_table =
  fixes T :: "('k::linorder, 's::linorder, 'v) mdb" and sk :: "'v \<Rightarrow> 's"
  assumes get_both_law: "get_both T t k s = t_get sk t k s"
    and dups_law: "dups T t k = t_dups t k"
    and dups_from_law: "dups_from T t k s = filter (\<lambda>v. s \<le> sk v) (t_dups t k)"
    and dups_back_law: "dups_back T t k s = rev (filter (\<lambda>v. sk v \<le> s) (t_dups t k))"
    and rows_from_law: "rows_from T t k = filter (\<lambda>r. k \<le> fst r) t"
    and all_rows_law: "all_rows T t = t"
    and put_law: "put T t k v = t_put sk t k v"
    and put_nodup_law:
      "put_nodup T t k v = (if t_get sk t k (sk v) = None then Some (t_put sk t k v) else None)"
    and put_current_law: "sk v = s \<Longrightarrow> put_current T t k s v = t_set sk t k s v"
    and del_at_law: "del_at T t k s = t_del sk t k s"
    and del_dups_law: "del_dups T t k = filter (\<lambda>r. fst r \<noteq> k) t"
begin

lemmas laws = get_both_law dups_law dups_from_law dups_back_law rows_from_law all_rows_law put_law
  put_nodup_law put_current_law del_at_law del_dups_law

end

text \<open>A table kept as a sorted list has these operations.\<close>

definition list_table :: "('v \<Rightarrow> 's::linorder) \<Rightarrow> ('k::linorder, 's, 'v) mdb" where
  "list_table sk = \<lparr>
     get_both = t_get sk,
     dups = t_dups,
     dups_from = (\<lambda>t k s. filter (\<lambda>v. s \<le> sk v) (t_dups t k)),
     dups_back = (\<lambda>t k s. rev (filter (\<lambda>v. sk v \<le> s) (t_dups t k))),
     rows_from = (\<lambda>t k. filter (\<lambda>r. k \<le> fst r) t),
     all_rows = (\<lambda>t. t),
     put = t_put sk,
     put_nodup = (\<lambda>t k v. if t_get sk t k (sk v) = None then Some (t_put sk t k v) else None),
     put_current = t_set sk,
     del_at = t_del sk,
     del_dups = (\<lambda>t k. filter (\<lambda>r. fst r \<noteq> k) t)\<rparr>"

interpretation list_tbl: dupsort_table "list_table sk" sk
  by unfold_locales (simp_all add: list_table_def)

lemmas list_table_simps = list_tbl.laws

section \<open>Consequences for sorted contents\<close>

lemma table_wf_Nil [simp]: "table_wf sk []"
  by (simp add: table_wf_def)

lemma table_wf_Cons:
  "table_wf sk (r # t) \<longleftrightarrow> (\<forall>r' \<in> set t. row_key sk r < row_key sk r') \<and> table_wf sk t"
  by (simp add: table_wf_def)

lemma table_wf_inj:
  "table_wf sk t \<Longrightarrow> r \<in> set t \<Longrightarrow> r' \<in> set t \<Longrightarrow> row_key sk r = row_key sk r' \<Longrightarrow> r = r'"
proof (induction t)
  case (Cons x t)
  then show ?case by (metis order_less_irrefl set_ConsD table_wf_Cons)
qed simp

lemma table_wf_distinct: "table_wf sk t \<Longrightarrow> distinct t"
proof (induction t)
  case (Cons x t)
  then show ?case by (metis distinct.simps(2) order_less_irrefl table_wf_Cons)
qed simp

lemma table_wf_unique:
  "table_wf sk t \<Longrightarrow> table_wf sk u \<Longrightarrow> set t = set u \<Longrightarrow> t = u"
  unfolding table_wf_def by (rule sorted_wrt_less_set_unique)

lemma at_row_iff: "at_row sk k s r \<longleftrightarrow> row_key sk r = (k, s)"
  by (cases r) (auto simp: at_row_def row_key_def)

lemma t_get_Some_iff:
  "table_wf sk t \<Longrightarrow> t_get sk t k s = Some v \<longleftrightarrow> (k, v) \<in> set t \<and> sk v = s"
proof -
  assume wf: "table_wf sk t"
  have "find (at_row sk k s) t = Some r \<longleftrightarrow> r \<in> set t \<and> at_row sk k s r" for r
    by (rule find_Some_iff_unique) (metis at_row_iff table_wf_inj [OF wf])
  then show ?thesis by (auto simp: t_get_def at_row_def)
qed

lemma t_get_None_iff: "t_get sk t k s = None \<longleftrightarrow> (\<forall>v. (k, v) \<in> set t \<longrightarrow> sk v \<noteq> s)"
  by (auto simp: t_get_def find_None_iff at_row_def)

lemma t_get_SomeD: "t_get sk t k s = Some v \<Longrightarrow> (k, v) \<in> set t \<and> sk v = s"
  by (auto simp: t_get_def find_Some_iff at_row_def) (metis nth_mem snd_conv surjective_pairing)+

lemma set_t_dups [simp]: "set (t_dups t k) = {v. (k, v) \<in> set t}"
  by (force simp: t_dups_def)

lemma set_t_del: "set (t_del sk t k s) = {r \<in> set t. row_key sk r \<noteq> (k, s)}"
  by (auto simp: t_del_def at_row_iff)

lemma set_t_put:
  "table_wf sk t \<Longrightarrow> set (t_put sk t k v) = insert (k, v) {r \<in> set t. row_key sk r \<noteq> (k, sk v)}"
proof (induction t)
  case (Cons r t)
  then show ?case by (auto simp: table_wf_Cons row_key_def not_less)
qed (simp add: row_key_def)

lemma set_t_set:
  "set (t_set sk t k s v) =
     (if (\<exists>v'. (k, v') \<in> set t \<and> sk v' = s) then {(k, v)} else {}) \<union> {r \<in> set t. row_key sk r \<noteq> (k, s)}"
  by (force simp: t_set_def at_row_iff row_key_def)

lemma table_wf_put: "table_wf sk t \<Longrightarrow> table_wf sk (t_put sk t k v)"
proof (induction t)
  case (Cons r t)
  have lt: "(k, sk v) < row_key sk r' \<or> (k, sk v) = row_key sk r' \<or> row_key sk r' < (k, sk v)" for r'
    by (rule linorder_less_linear)
  have rk: "row_key sk (k, v) = (k, sk v)" by (simp add: row_key_def)
  from Cons lt [of r] show ?case
    by (auto simp: table_wf_Cons set_t_put rk simp del: less_prod_simp dest: less_trans)
qed (simp add: table_wf_Cons)

lemma table_wf_del: "table_wf sk t \<Longrightarrow> table_wf sk (t_del sk t k s)"
  by (simp add: table_wf_def t_del_def sorted_wrt_filter)

lemma table_wf_filter: "table_wf sk t \<Longrightarrow> table_wf sk (filter P t)"
  by (simp add: table_wf_def sorted_wrt_filter)

lemma table_wf_set: "table_wf sk t \<Longrightarrow> sk v = s \<Longrightarrow> table_wf sk (t_set sk t k s v)"
  unfolding table_wf_def t_set_def
  by (erule sorted_wrt_map_keep) (auto simp: at_row_iff row_key_def split: if_splits)

lemma t_dups_sorted: "table_wf sk t \<Longrightarrow> sorted_wrt (\<lambda>v w. sk v < sk w) (t_dups t k)"
  unfolding t_dups_def sorted_wrt_map
proof (induction t)
  case (Cons r t)
  then show ?case by (auto simp: table_wf_Cons row_key_def)
qed simp

lemma fold_t_del:
  "fold (\<lambda>v t. t_del sk t k (sk v)) vs t = filter (\<lambda>r. \<not> (fst r = k \<and> sk (snd r) \<in> sk ` set vs)) t"
proof (induction vs arbitrary: t)
  case (Cons v vs)
  then show ?case by (auto simp: t_del_def at_row_def intro!: filter_cong)
qed simp

text \<open>Deleting every value of a key at or above a position.\<close>

lemma fold_t_del_from:
  "fold (\<lambda>v t. t_del sk t k (sk v)) (filter (\<lambda>v. s \<le> sk v) (t_dups t k)) t =
     filter (\<lambda>r. \<not> (fst r = k \<and> s \<le> sk (snd r))) t"
  unfolding fold_t_del by (rule filter_cong) auto

lemma t_dups_filter:
  "t_dups (filter P t) k = filter (\<lambda>v. P (k, v)) (t_dups t k)"
  by (induction t) (auto simp: t_dups_def)

lemma t_get_filter:
  assumes "table_wf sk t"
  shows "t_get sk (filter P t) k s =
     (case t_get sk t k s of None \<Rightarrow> None | Some v \<Rightarrow> if P (k, v) then Some v else None)" (is "?l = ?r")
proof -
  note iff = t_get_Some_iff [OF assms] t_get_Some_iff [OF table_wf_filter [OF assms]]
  have "?l = Some x \<longleftrightarrow> ?r = Some x" for x
  proof (cases "t_get sk t k s")
    case None
    then have "\<forall>v. (k, v) \<in> set t \<longrightarrow> sk v \<noteq> s" by (simp only: t_get_None_iff)
    then show ?thesis unfolding None by (auto simp: iff(2))
  next
    case (Some v)
    then have v: "(k, v) \<in> set t" "sk v = s" by (simp_all add: iff(1))
    then have "(k, x) \<in> set t \<Longrightarrow> sk x = s \<Longrightarrow> x = v"
      using table_wf_inj [OF assms, of "(k, v)" "(k, x)"] by (simp add: row_key_def)
    with v show ?thesis unfolding Some by (auto simp: iff(2))
  qed
  then show ?thesis by (rule option_eqI)
qed

end
