(* ===== verification/Data.thy ===== *)
theory Data
  imports Prelude
begin

unbundle bit_operations_syntax

text \<open>
  The plain data of \<^verbatim>\<open>src/db/data.h\<close> and \<^verbatim>\<open>src/db/data.cpp\<close>: identifiers, the structs stored in
  LMDB, the orders their tables are sorted by, the packing of flags and payment-id length,
  128-bit difficulties, the check of subaddress ranges, subaddress keys, and the wire form of
  outputs and spends. The \<^verbatim>\<open>reserved\<close> padding members hold no information and are left out.
\<close>

section \<open>Identifiers\<close>

type_synonym account_id = u32
type_synonym account_time = u32
type_synonym block_id = u64
type_synonym major_index = u32
type_synonym minor_index = u32
type_synonym hash = key256
type_synonym public_key = key256
type_synonym view_key = key256
type_synonym key_image_value = key256
type_synonym account_flags = u8

definition invalid_account :: account_id where
  "invalid_account = - 1"

definition txpool_block :: block_id where
  "txpool_block = - 1"

definition admin_account :: account_flags where
  "admin_account = 1"

definition account_generated_locally :: account_flags where
  "account_generated_locally = 2"

datatype output_id = Output_id (oid_high: u64) (oid_low: u64)

definition txpool_output :: output_id where
  "txpool_output = Output_id 0 max_u64"

datatype account_status = active | inactive | hidden

datatype request = create | import_scan

datatype webhook_type = tx_confirmation | new_account | tx_spend

datatype account_address = Account_address (view_public: public_key) (spend_public: public_key)

datatype address_index = Address_index (maj_i: major_index) (min_i: minor_index)

definition is_zero :: "address_index \<Rightarrow> bool" where
  "is_zero a \<longleftrightarrow> maj_i a = 0 \<and> min_i a = 0"

datatype transaction_link = Transaction_link (link_height: block_id) (tx_hash: hash)

datatype webhook_key = Webhook_key (wk_user: account_id) (wk_type: webhook_type)

datatype webhook_dupsort = Webhook_dupsort (wd_payment_id: u64) (wd_event_id: uuid)

datatype webhook_output = Webhook_output (wo_tx: transaction_link) (wo_out: output_id)

datatype webhook_event = Webhook_event (we_link: webhook_output) (we_hook: webhook_dupsort)

section \<open>The orders of the tables\<close>

primrec status_rank :: "account_status \<Rightarrow> nat" where
  "status_rank active = 0"
| "status_rank inactive = 1"
| "status_rank hidden = 2"

primrec request_rank :: "request \<Rightarrow> nat" where
  "request_rank create = 0"
| "request_rank import_scan = 1"

primrec webhook_rank :: "webhook_type \<Rightarrow> nat" where
  "webhook_rank tx_confirmation = 0"
| "webhook_rank new_account = 1"
| "webhook_rank tx_spend = 2"

lemma status_rank_inj [simp]: "status_rank a = status_rank b \<longleftrightarrow> a = b"
  by (cases a; cases b) simp_all

lemma request_rank_inj [simp]: "request_rank a = request_rank b \<longleftrightarrow> a = b"
  by (cases a; cases b) simp_all

lemma webhook_rank_inj [simp]: "webhook_rank a = webhook_rank b \<longleftrightarrow> a = b"
  by (cases a; cases b) simp_all

instantiation account_status :: linorder
begin

definition less_eq_account_status :: "account_status \<Rightarrow> account_status \<Rightarrow> bool" where
  "x \<le> y \<longleftrightarrow> status_rank x \<le> status_rank y"

definition less_account_status :: "account_status \<Rightarrow> account_status \<Rightarrow> bool" where
  "x < y \<longleftrightarrow> status_rank x < status_rank y"

instance
  by standard (auto simp: less_eq_account_status_def less_account_status_def)

end

instantiation request :: linorder
begin

definition less_eq_request :: "request \<Rightarrow> request \<Rightarrow> bool" where
  "x \<le> y \<longleftrightarrow> request_rank x \<le> request_rank y"

definition less_request :: "request \<Rightarrow> request \<Rightarrow> bool" where
  "x < y \<longleftrightarrow> request_rank x < request_rank y"

instance
  by standard (auto simp: less_eq_request_def less_request_def)

end

instantiation webhook_type :: linorder
begin

definition less_eq_webhook_type :: "webhook_type \<Rightarrow> webhook_type \<Rightarrow> bool" where
  "x \<le> y \<longleftrightarrow> webhook_rank x \<le> webhook_rank y"

definition less_webhook_type :: "webhook_type \<Rightarrow> webhook_type \<Rightarrow> bool" where
  "x < y \<longleftrightarrow> webhook_rank x < webhook_rank y"

instance
  by standard (auto simp: less_eq_webhook_type_def less_webhook_type_def)

end

instantiation output_id :: linorder
begin

definition less_eq_output_id :: "output_id \<Rightarrow> output_id \<Rightarrow> bool" where
  "x \<le> y \<longleftrightarrow> (if oid_high x = oid_high y then oid_low x \<le> oid_low y else oid_high x < oid_high y)"

definition less_output_id :: "output_id \<Rightarrow> output_id \<Rightarrow> bool" where
  "x < y \<longleftrightarrow> (if oid_high x = oid_high y then oid_low x < oid_low y else oid_high x < oid_high y)"

instance
  by standard (auto simp: less_eq_output_id_def less_output_id_def output_id.expand split: if_splits)

end

instantiation address_index :: linorder
begin

definition less_eq_address_index :: "address_index \<Rightarrow> address_index \<Rightarrow> bool" where
  "x \<le> y \<longleftrightarrow> (if maj_i x = maj_i y then min_i x \<le> min_i y else maj_i x < maj_i y)"

definition less_address_index :: "address_index \<Rightarrow> address_index \<Rightarrow> bool" where
  "x < y \<longleftrightarrow> (if maj_i x = maj_i y then min_i x < min_i y else maj_i x < maj_i y)"

instance
  by standard (auto simp: less_eq_address_index_def less_address_index_def address_index.expand split: if_splits)

end

instantiation transaction_link :: linorder
begin

definition less_eq_transaction_link :: "transaction_link \<Rightarrow> transaction_link \<Rightarrow> bool" where
  "x \<le> y \<longleftrightarrow> (if link_height y = link_height x then tx_hash x \<le> tx_hash y else link_height x < link_height y)"

definition less_transaction_link :: "transaction_link \<Rightarrow> transaction_link \<Rightarrow> bool" where
  "x < y \<longleftrightarrow> (if link_height x = link_height y then tx_hash x < tx_hash y else link_height x < link_height y)"

instance
  by standard
    (auto simp: less_eq_transaction_link_def less_transaction_link_def transaction_link.expand split: if_splits)

end

instantiation webhook_key :: linorder
begin

definition less_eq_webhook_key :: "webhook_key \<Rightarrow> webhook_key \<Rightarrow> bool" where
  "x \<le> y \<longleftrightarrow> (if wk_user x = wk_user y then wk_type x \<le> wk_type y else wk_user x < wk_user y)"

definition less_webhook_key :: "webhook_key \<Rightarrow> webhook_key \<Rightarrow> bool" where
  "x < y \<longleftrightarrow> (if wk_user x = wk_user y then wk_type x < wk_type y else wk_user x < wk_user y)"

instance
  by standard (auto simp: less_eq_webhook_key_def less_webhook_key_def webhook_key.expand split: if_splits)

end

instantiation webhook_dupsort :: linorder
begin

definition less_eq_webhook_dupsort :: "webhook_dupsort \<Rightarrow> webhook_dupsort \<Rightarrow> bool" where
  "x \<le> y \<longleftrightarrow> (if wd_payment_id x = wd_payment_id y then wd_event_id x \<le> wd_event_id y
              else wd_payment_id x < wd_payment_id y)"

definition less_webhook_dupsort :: "webhook_dupsort \<Rightarrow> webhook_dupsort \<Rightarrow> bool" where
  "x < y \<longleftrightarrow> (if wd_payment_id x = wd_payment_id y then wd_event_id x < wd_event_id y
              else wd_payment_id x < wd_payment_id y)"

instance
  by standard
    (auto simp: less_eq_webhook_dupsort_def less_webhook_dupsort_def webhook_dupsort.expand split: if_splits)

end

instantiation webhook_output :: linorder
begin

definition less_eq_webhook_output :: "webhook_output \<Rightarrow> webhook_output \<Rightarrow> bool" where
  "x \<le> y \<longleftrightarrow> (if wo_tx x = wo_tx y then wo_out x \<le> wo_out y else wo_tx x < wo_tx y)"

definition less_webhook_output :: "webhook_output \<Rightarrow> webhook_output \<Rightarrow> bool" where
  "x < y \<longleftrightarrow> (if wo_tx x = wo_tx y then wo_out x < wo_out y else wo_tx x < wo_tx y)"

instance
  by standard
    (auto simp: less_eq_webhook_output_def less_webhook_output_def webhook_output.expand split: if_splits)

end

instantiation webhook_event :: linorder
begin

definition less_eq_webhook_event :: "webhook_event \<Rightarrow> webhook_event \<Rightarrow> bool" where
  "x \<le> y \<longleftrightarrow> (if we_link x = we_link y then we_hook x \<le> we_hook y else we_link x < we_link y)"

definition less_webhook_event :: "webhook_event \<Rightarrow> webhook_event \<Rightarrow> bool" where
  "x < y \<longleftrightarrow> (if we_link x = we_link y then we_hook x < we_hook y else we_link x < we_link y)"

instance
  by standard
    (auto simp: less_eq_webhook_event_def less_webhook_event_def webhook_event.expand split: if_splits)

end

section \<open>Rows of the tables\<close>

record account =
  acc_id :: account_id
  acc_access :: account_time
  acc_address :: account_address
  acc_key :: view_key
  acc_scan_height :: block_id
  acc_start_height :: block_id
  acc_creation :: account_time
  acc_flags :: account_flags
  acc_lookahead :: address_index
  acc_lookahead_fail :: block_id

record block_info =
  bi_id :: block_id
  bi_hash :: hash

datatype block_difficulty = Block_difficulty (bd_high: u64) (bd_low: u64)

record block_pow =
  bp_id :: block_id
  bp_timestamp :: u64
  bp_cumulative_diff :: block_difficulty

record pow_sync =
  ps_timestamp :: u64
  ps_cumulative_diff :: block_difficulty

record spend_meta =
  sm_id :: output_id
  sm_amount :: u64
  sm_mixin_count :: u32
  sm_index :: u32
  sm_tx_public :: public_key

record db_output =
  out_link :: transaction_link
  out_spend_meta :: spend_meta
  out_timestamp :: u64
  out_unlock_time :: u64
  out_tx_prefix_hash :: hash
  out_pub :: public_key
  out_ringct_mask :: key256
  out_extra :: u8
  out_payment_id :: "u8 list" \<comment> \<open>the 32 bytes of the union; \<^verbatim>\<open>short_\<close> is the first 8\<close>
  out_fee :: u64
  out_recipient :: address_index

record spend =
  sp_link :: transaction_link
  sp_image :: key_image_value
  sp_source :: output_id
  sp_timestamp :: u64
  sp_unlock_time :: u64
  sp_mixin_count :: u32
  sp_length :: u8
  sp_payment_id :: hash
  sp_sender :: address_index

record key_image =
  ki_value :: key_image_value
  ki_link :: transaction_link

record request_info =
  ri_address :: account_address
  ri_key :: view_key
  ri_start_height :: block_id
  ri_creation :: account_time
  ri_creation_flags :: account_flags
  ri_lookahead :: address_index

type_synonym index_range = "minor_index \<times> minor_index"
type_synonym index_ranges = "index_range list"
type_synonym subaddress_dict = "major_index \<times> index_ranges"

record subaddress_map =
  sa_subaddress :: public_key
  sa_index :: address_index

record webhook_data =
  wh_url :: string
  wh_token :: string
  wh_confirmations :: u32

type_synonym webhook_value = "webhook_dupsort \<times> webhook_data"

record webhook_tx_confirmation =
  tc_key :: webhook_key
  tc_value :: webhook_value
  tc_tx_info :: db_output

record webhook_tx_spend =
  ts_key :: webhook_key
  ts_value :: webhook_value
  ts_input :: spend
  ts_source :: spend_meta

record webhook_new_account =
  wn_value :: webhook_value
  wn_account :: account_address

section \<open>Packed flags and length\<close>

definition coinbase_output :: u8 where
  "coinbase_output = 1"

definition ringct_output :: u8 where
  "ringct_output = 2"

definition pack :: "u8 \<Rightarrow> u8 \<Rightarrow> u8" where
  "pack val len = push_bit 6 val OR (len AND 0x3f)"

definition unpack :: "u8 \<Rightarrow> u8 \<times> u8" where
  "unpack val = (drop_bit 6 val, val AND 0x3f)"

text \<open>A statement about bytes checked bit by bit.\<close>

lemma u8_eqI: "(\<And>n. n < 8 \<Longrightarrow> bit (a :: u8) n = bit b n) \<Longrightarrow> a = b"
  by (rule bit_word_eqI) simp

lemma bit_u8_small: "(val :: u8) < 4 \<Longrightarrow> bit val n \<Longrightarrow> n < 2"
proof -
  assume lt: "val < 4" and b: "bit val n"
  from lt have "take_bit 2 val = val"
    by (simp add: take_bit_word_eq_self word_unat_eq_iff take_bit_nat_eq_self unsigned_take_bit_eq
        word_less_nat_alt)
  with b show "n < 2" by (metis bit_take_bit_iff)
qed

section \<open>Difficulties of 128 bits\<close>

definition set_difficulty :: "u128 \<Rightarrow> block_difficulty" where
  "set_difficulty x =
     Block_difficulty (ucast (drop_bit 64 x AND 0xffffffffffffffff)) (ucast (x AND 0xffffffffffffffff))"

definition get_difficulty :: "block_difficulty \<Rightarrow> u128" where
  "get_difficulty d = push_bit 64 (ucast (bd_high d)) + ucast (bd_low d)"

lemma get_difficulty_or:
  "get_difficulty d = push_bit 64 (ucast (bd_high d)) OR ucast (bd_low d)"
  unfolding get_difficulty_def
  by (rule disjunctive_add) (auto simp: bit_simps dest: bit_imp_le_length)

lemma mask_64: "(0xffffffffffffffff :: u128) = mask 64"
  by (simp add: mask_eq_exp_minus_1)

lemma mask_6: "(0x3f :: u8) = mask 6"
  by (simp add: mask_eq_exp_minus_1)

lemma bit_u64_high [simp]: "\<not> bit (w :: u64) (64 + n)"
  by (auto dest: bit_imp_le_length)

section \<open>Subaddresses\<close>

text \<open>The loop of \<open>check_subaddress_dict\<close>: \<open>prev\<close> is \<open>None\<close> while \<^verbatim>\<open>is_first\<close> holds.\<close>

fun check_ranges :: "minor_index option \<Rightarrow> index_ranges \<Rightarrow> bool" where
  "check_ranges prev [] = True"
| "check_ranges prev (e # es) =
     (if snd e < fst e then False
      else if (case prev of None \<Rightarrow> False | Some l \<Rightarrow> unat (fst e) \<le> unat l + 1) then False
      else check_ranges (Some (snd e)) es)"

definition check_subaddress_dict :: "subaddress_dict \<Rightarrow> bool" where
  "check_subaddress_dict d = check_ranges None (snd d)"

text \<open>The minor indexes a list of ranges stands for.\<close>

definition range_set :: "index_range \<Rightarrow> nat set" where
  "range_set r = {unat (fst r)..unat (snd r)}"

definition ranges_set :: "index_ranges \<Rightarrow> nat set" where
  "ranges_set rs = (\<Union>r \<in> set rs. range_set r)"

text \<open>
  The code's primitives for subaddress keys are \<^verbatim>\<open>crypto::hash_to_scalar\<close>,
  \<^verbatim>\<open>crypto::secret_key_to_public_key\<close> (its result and its out parameter) and \<^verbatim>\<open>rct::addKeys\<close>
  of the Monero libraries, and the constant \<^verbatim>\<open>config::HASH_KEY_SUBADDRESS\<close>.
\<close>

record crypto =
  hash_to_scalar :: "u8 list \<Rightarrow> key256"
  secret_key_to_public_key :: "key256 \<Rightarrow> bool \<times> public_key"
  addKeys :: "key256 \<Rightarrow> key256 \<Rightarrow> key256"
  hash_key_subaddress :: "u8 list"

definition bytes_le :: "nat \<Rightarrow> 'a::len word \<Rightarrow> u8 list" where
  "bytes_le n w = map (\<lambda>i. ucast (drop_bit (8 * i) w)) [0..<n]"

definition bytes_be :: "nat \<Rightarrow> 'a::len word \<Rightarrow> u8 list" where
  "bytes_be n w = rev (bytes_le n w)"

definition get_subaddress_secret_key :: "crypto \<Rightarrow> view_key \<Rightarrow> u32 \<Rightarrow> u32 \<Rightarrow> key256" where
  "get_subaddress_secret_key C a major minor =
     hash_to_scalar C (hash_key_subaddress C @ bytes_be 32 a @ bytes_le 4 major @ bytes_le 4 minor)"

definition get_spend_public :: "crypto \<Rightarrow> address_index \<Rightarrow> account_address \<Rightarrow> view_key \<Rightarrow> public_key" where
  "get_spend_public C idx base view =
     (if is_zero idx then spend_public base
      else let m = get_subaddress_secret_key C view (maj_i idx) (min_i idx);
               M = snd (secret_key_to_public_key C m)
           in addKeys C (spend_public base) M)"

section \<open>Wire form of outputs and spends\<close>

text \<open>The \<^verbatim>\<open>uint64\<close> that \<^verbatim>\<open>memcpy\<close> makes of the first 8 bytes on a little-endian host.\<close>

definition le_u64 :: "u8 list \<Rightarrow> u64" where
  "le_u64 bs = foldr (\<lambda>b acc. ucast b + 256 * acc) (take 8 bs) 0"

text \<open>The fields of the wire object, optional ones as \<open>option\<close>.\<close>

record wire_output =
  wf_id :: "output_id option"
  wf_block :: "block_id option"
  wf_index :: u32
  wf_amount :: u64
  wf_timestamp :: u64
  wf_tx_hash :: hash
  wf_tx_prefix_hash :: hash
  wf_tx_public :: public_key
  wf_rct_mask :: "key256 option"
  wf_payment_id :: "u8 list option"
  wf_unlock_time :: u64
  wf_mixin_count :: u32
  wf_coinbase :: bool
  wf_fee :: u64
  wf_recipient :: address_index
  wf_pub :: public_key

definition write_output :: "db_output \<Rightarrow> wire_output" where
  "write_output self =
     (let unpacked = unpack (out_extra self);
          coinbase = (fst unpacked AND coinbase_output \<noteq> 0);
          rct = (fst unpacked AND ringct_output \<noteq> 0);
          payment_bytes =
            (if snd unpacked = 32 then out_payment_id self
             else if snd unpacked = 8 then take 8 (out_payment_id self) else [])
      in \<lparr>wf_id = (if sm_id (out_spend_meta self) = txpool_output then None
                   else Some (sm_id (out_spend_meta self))),
          wf_block = (if link_height (out_link self) = txpool_block then None
                      else Some (link_height (out_link self))),
          wf_index = sm_index (out_spend_meta self),
          wf_amount = sm_amount (out_spend_meta self),
          wf_timestamp = out_timestamp self,
          wf_tx_hash = tx_hash (out_link self),
          wf_tx_prefix_hash = out_tx_prefix_hash self,
          wf_tx_public = sm_tx_public (out_spend_meta self),
          wf_rct_mask = (if rct then Some (out_ringct_mask self) else None),
          wf_payment_id = (if payment_bytes = [] then None else Some payment_bytes),
          wf_unlock_time = out_unlock_time self,
          wf_mixin_count = sm_mixin_count (out_spend_meta self),
          wf_coinbase = coinbase,
          wf_fee = out_fee self,
          wf_recipient = out_recipient self,
          wf_pub = out_pub self\<rparr>)"

definition read_flags :: "bool \<Rightarrow> bool \<Rightarrow> u8" where
  "read_flags coinbase rct =
     (let flags = (if coinbase then coinbase_output else 0)
      in if rct then ringct_output OR flags else flags)"

text \<open>
  \<open>old\<close> is what the payment-id bytes hold before the read; the length is stored in a
  \<^verbatim>\<open>std::uint8_t\<close>, so only its low eight bits are looked at.
\<close>

definition read_output :: "u8 list \<Rightarrow> wire_output \<Rightarrow> db_output expect" where
  "read_output old w =
     (let pay_length = (case wf_payment_id w of None \<Rightarrow> 0 | Some p \<Rightarrow> length p mod 256);
          p = (case wf_payment_id w of None \<Rightarrow> [] | Some p \<Rightarrow> p)
      in if pay_length \<noteq> 0 \<and> pay_length \<noteq> 8 \<and> pay_length \<noteq> 32 then Inl schema_binary
         else
           let payment = (if pay_length = 8 then take 8 p @ drop 8 old
                          else if pay_length = 32 then take 32 p else old);
               flags = read_flags (wf_coinbase w) (wf_rct_mask w \<noteq> None)
           in Inr \<lparr>out_link = Transaction_link
                      (case wf_block w of None \<Rightarrow> txpool_block | Some b \<Rightarrow> b) (wf_tx_hash w),
                   out_spend_meta = \<lparr>sm_id = (case wf_id w of None \<Rightarrow> txpool_output | Some i \<Rightarrow> i),
                      sm_amount = wf_amount w, sm_mixin_count = wf_mixin_count w,
                      sm_index = wf_index w, sm_tx_public = wf_tx_public w\<rparr>,
                   out_timestamp = wf_timestamp w,
                   out_unlock_time = wf_unlock_time w,
                   out_tx_prefix_hash = wf_tx_prefix_hash w,
                   out_pub = wf_pub w,
                   out_ringct_mask = (case wf_rct_mask w of None \<Rightarrow> 0 | Some m \<Rightarrow> m),
                   out_extra = pack flags (of_nat pay_length),
                   out_payment_id = payment,
                   out_fee = wf_fee w,
                   out_recipient = wf_recipient w\<rparr>)"

record wire_spend =
  ws_height :: block_id
  ws_tx_hash :: hash
  ws_image :: key_image_value
  ws_source :: output_id
  ws_timestamp :: u64
  ws_unlock_time :: u64
  ws_mixin_count :: u32
  ws_payment_id :: "hash option"
  ws_sender :: address_index

definition write_spend :: "spend \<Rightarrow> wire_spend" where
  "write_spend s =
     \<lparr>ws_height = link_height (sp_link s), ws_tx_hash = tx_hash (sp_link s),
      ws_image = sp_image s, ws_source = sp_source s, ws_timestamp = sp_timestamp s,
      ws_unlock_time = sp_unlock_time s, ws_mixin_count = sp_mixin_count s,
      ws_payment_id = (if sp_length s = 32 then Some (sp_payment_id s) else None),
      ws_sender = sp_sender s\<rparr>"

definition read_spend :: "hash \<Rightarrow> wire_spend \<Rightarrow> spend" where
  "read_spend old w =
     \<lparr>sp_link = Transaction_link (ws_height w) (ws_tx_hash w),
      sp_image = ws_image w, sp_source = ws_source w, sp_timestamp = ws_timestamp w,
      sp_unlock_time = ws_unlock_time w, sp_mixin_count = ws_mixin_count w,
      sp_length = (case ws_payment_id w of None \<Rightarrow> 0 | Some _ \<Rightarrow> 32),
      sp_payment_id = (case ws_payment_id w of None \<Rightarrow> old | Some p \<Rightarrow> p),
      sp_sender = ws_sender w\<rparr>"

section \<open>Round trips and checks\<close>

lemma pack_unpack: "pack (fst (unpack b)) (snd (unpack b)) = b"
  unfolding pack_def unpack_def mask_6 fst_conv snd_conv
  by (auto intro!: bit_word_eqI simp: bit_simps dest: bit_u8_small)

lemma u8_less4: "(f::u8) < 4 \<Longrightarrow> f \<in> {0, 1, 2, 3}"
proof -
  assume "f < 4"
  then have "unat f < 4" by (simp add: word_less_nat_alt)
  then have "unat f = 0 \<or> unat f = 1 \<or> unat f = 2 \<or> unat f = 3" by linarith
  then show ?thesis by (auto simp: word_unat_eq_iff) 
qed

lemma unat_u8: "unat (b :: u8) < 256"
  using unsigned_less [of b] by simp

lemma unpack_flags: "fst (unpack b) < 4"
  using unat_u8 [of b] by (simp add: unpack_def word_less_nat_alt unat_div drop_bit_eq_div)

lemma read_flags_inverse:
  assumes "f < 4"
  shows "read_flags (f AND coinbase_output \<noteq> 0) (f AND ringct_output \<noteq> 0) = f"
  using u8_less4 [OF assms] by (auto simp: read_flags_def ringct_output_def coinbase_output_def)

lemma write_output_sel:
  assumes "unpack (out_extra o1) = (f, l)"
  shows "wf_id (write_output o1) = (if sm_id (out_spend_meta o1) = txpool_output then None
           else Some (sm_id (out_spend_meta o1)))"
    "wf_block (write_output o1) = (if link_height (out_link o1) = txpool_block then None
       else Some (link_height (out_link o1)))"
    "wf_rct_mask (write_output o1) = (if f AND ringct_output \<noteq> 0 then Some (out_ringct_mask o1) else None)"
    "wf_coinbase (write_output o1) \<longleftrightarrow> f AND coinbase_output \<noteq> 0"
    "wf_index (write_output o1) = sm_index (out_spend_meta o1)"
    "wf_amount (write_output o1) = sm_amount (out_spend_meta o1)"
    "wf_mixin_count (write_output o1) = sm_mixin_count (out_spend_meta o1)"
    "wf_tx_public (write_output o1) = sm_tx_public (out_spend_meta o1)"
    "wf_timestamp (write_output o1) = out_timestamp o1"
    "wf_tx_hash (write_output o1) = tx_hash (out_link o1)"
    "wf_tx_prefix_hash (write_output o1) = out_tx_prefix_hash o1"
    "wf_unlock_time (write_output o1) = out_unlock_time o1"
    "wf_fee (write_output o1) = out_fee o1"
    "wf_recipient (write_output o1) = out_recipient o1"
    "wf_pub (write_output o1) = out_pub o1"
  using assms by (simp_all add: write_output_def Let_def)

lemma write_output_payment:
  assumes "unpack (out_extra o1) = (f, l)" "length (out_payment_id o1) = 32"
  shows "wf_payment_id (write_output o1) =
    (if l = 32 then Some (out_payment_id o1)
     else if l = 8 then Some (take 8 (out_payment_id o1)) else None)"
  using assms by (auto simp: write_output_def Let_def)

text \<open>
  Packing the two flag bits and a payment-id length below 64 into one byte loses nothing:
  unpacking gives both back. Conversely packing what any byte unpacks to is that byte.
\<close>

theorem unpack_pack_roundtrip:
  assumes "val < 4" and "len < 64"
  shows "unpack (pack val len) = (val, len) \<and> pack (fst (unpack b)) (snd (unpack b)) = b"
proof
  have "unat len < 2 ^ 6" using assms(2) by (simp add: word_less_nat_alt)
  then have "len AND mask 6 = len"
    by (intro less_mask_eq) (simp add: word_less_nat_alt)
  moreover have "unpack (pack val len) = (val, len AND mask 6)"
    using assms(1) unfolding pack_def unpack_def mask_6
    by (auto intro!: bit_word_eqI simp: bit_simps dest: bit_u8_small)
  ultimately show "unpack (pack val len) = (val, len)" by simp
  show "pack (fst (unpack b)) (snd (unpack b)) = b" by (rule pack_unpack)
qed

theorem unpack_pack_roundtrip_witness:
  "unpack (pack 3 32) = (3, 32) \<and> pack (fst (unpack 200)) (snd (unpack 200)) = 200"
  by (rule unpack_pack_roundtrip) simp_all

text \<open>
  A 128-bit difficulty split into two 64-bit halves by \<^verbatim>\<open>set_difficulty\<close> is rebuilt by
  \<^verbatim>\<open>get_difficulty\<close>, and the other way round.
\<close>

theorem difficulty_roundtrip:
  "get_difficulty (set_difficulty x) = x \<and> set_difficulty (get_difficulty d) = d"
proof
  show "get_difficulty (set_difficulty x) = x"
    unfolding get_difficulty_or set_difficulty_def mask_64
    by (rule bit_word_eqI) (auto simp: bit_simps)
  show "set_difficulty (get_difficulty d) = d"
    unfolding get_difficulty_or set_difficulty_def mask_64
    by (rule block_difficulty.expand) (auto intro!: bit_word_eqI simp: bit_simps)
qed

text \<open>
  The outputs the code stores: the length field is one of the three it can write, the
  payment-id union has its 32 bytes, and an output that is not RingCT has a zero mask.
\<close>

definition output_canonical :: "db_output \<Rightarrow> bool" where
  "output_canonical o1 \<longleftrightarrow>
     snd (unpack (out_extra o1)) \<in> {0, 8, 32} \<and> length (out_payment_id o1) = 32
     \<and> (fst (unpack (out_extra o1)) AND ringct_output = 0 \<longrightarrow> out_ringct_mask o1 = 0)"

text \<open>
  Writing a stored output to its wire object and reading it back gives the same output:
  the optional id, block, mask and payment id and both flags are recovered.
\<close>

theorem output_roundtrip:
  assumes "output_canonical o1"
  shows "read_output (out_payment_id o1) (write_output o1) = Inr o1"
proof -
  obtain f l where fl: "unpack (out_extra o1) = (f, l)" by fastforce
  have f4: "f < 4" using unpack_flags [of "out_extra o1"] fl by simp
  have ex: "pack f l = out_extra o1" using pack_unpack [of "out_extra o1"] fl by simp
  from assms fl have l: "l = 0 \<or> l = 8 \<or> l = 32" and len: "length (out_payment_id o1) = 32"
    and m: "f AND ringct_output = 0 \<Longrightarrow> out_ringct_mask o1 = 0" by (auto simp: output_canonical_def)
  have rct: "(wf_rct_mask (write_output o1) \<noteq> None) = (f AND ringct_output \<noteq> 0)"
    and mask: "(case wf_rct_mask (write_output o1) of None \<Rightarrow> 0 | Some k \<Rightarrow> k) = out_ringct_mask o1"
    and id: "(case wf_id (write_output o1) of None \<Rightarrow> txpool_output | Some i \<Rightarrow> i) = sm_id (out_spend_meta o1)"
    and blk: "(case wf_block (write_output o1) of None \<Rightarrow> txpool_block | Some i \<Rightarrow> i) = link_height (out_link o1)"
    by (simp_all add: write_output_sel [OF fl] m)
  have eta: "\<lparr>out_link = out_link o1,
      out_spend_meta = \<lparr>sm_id = sm_id (out_spend_meta o1), sm_amount = sm_amount (out_spend_meta o1),
        sm_mixin_count = sm_mixin_count (out_spend_meta o1), sm_index = sm_index (out_spend_meta o1),
        sm_tx_public = sm_tx_public (out_spend_meta o1)\<rparr>,
      out_timestamp = out_timestamp o1, out_unlock_time = out_unlock_time o1,
      out_tx_prefix_hash = out_tx_prefix_hash o1, out_pub = out_pub o1,
      out_ringct_mask = out_ringct_mask o1, out_extra = out_extra o1,
      out_payment_id = out_payment_id o1, out_fee = out_fee o1, out_recipient = out_recipient o1\<rparr> = o1"
    by (intro db_output.equality spend_meta.equality) simp_all
  note sel = write_output_sel(5-) [OF fl] write_output_sel(4) [OF fl]
  show ?thesis using l ex
    by (elim disjE; simp only: read_output_def write_output_payment [OF fl len] Let_def rct mask id blk sel
      read_flags_inverse [OF f4] option.case; simp add: len eta)
qed

definition sample_output :: db_output where
  "sample_output = \<lparr>out_link = Transaction_link 5 7,
     out_spend_meta = \<lparr>sm_id = Output_id 0 9, sm_amount = 40, sm_mixin_count = 15, sm_index = 1, sm_tx_public = 3\<rparr>,
     out_timestamp = 1000, out_unlock_time = 0, out_tx_prefix_hash = 11, out_pub = 12,
     out_ringct_mask = 13, out_extra = pack ringct_output 8, out_payment_id = replicate 32 1,
     out_fee = 2, out_recipient = Address_index 0 1\<rparr>"

theorem output_roundtrip_witness:
  "output_canonical sample_output
   \<and> read_output (out_payment_id sample_output) (write_output sample_output) = Inr sample_output"
proof -
  have "output_canonical sample_output"
    by (simp add: sample_output_def output_canonical_def pack_def unpack_def ringct_output_def)
  with output_roundtrip [OF this] show ?thesis by blast
qed

text \<open>
  The same for spends: the payment id is sent exactly when the length is 32.
\<close>

theorem spend_roundtrip:
  assumes "sp_length s = 0 \<or> sp_length s = 32"
  shows "read_spend (sp_payment_id s) (write_spend s) = s"
  using assms by (auto simp: read_spend_def write_spend_def intro: spend.equality)

definition sample_spend :: spend where
  "sample_spend = \<lparr>sp_link = Transaction_link 6 7, sp_image = 1, sp_source = Output_id 0 9,
     sp_timestamp = 10, sp_unlock_time = 0, sp_mixin_count = 15, sp_length = 32, sp_payment_id = 77,
     sp_sender = Address_index 0 0\<rparr>"

theorem spend_roundtrip_witness:
  "sp_length sample_spend = 32
   \<and> read_spend (sp_payment_id sample_spend) (write_spend sample_spend) = sample_spend"
proof -
  have len: "sp_length sample_spend = 32" by (simp add: sample_spend_def)
  then have "sp_length sample_spend = 0 \<or> sp_length sample_spend = 32" by simp
  from len spend_roundtrip [OF this] show ?thesis by blast
qed

lemma check_ranges_iff:
  "check_ranges prev es \<longleftrightarrow>
     list_all (\<lambda>e. fst e \<le> snd e \<and> (case prev of None \<Rightarrow> True | Some l \<Rightarrow> unat l + 1 < unat (fst e))) es
     \<and> sorted_wrt (\<lambda>e e'. unat (snd e) + 1 < unat (fst e')) es"
proof (induction es arbitrary: prev)
  case (Cons e es)
  show ?case
    by (cases prev) (auto simp: Cons.IH list_all_iff word_le_nat_alt word_less_nat_alt dest: bspec)
qed (simp split: option.split)

text \<open>
  \<^verbatim>\<open>check_subaddress_dict\<close> accepts exactly the dictionaries whose ranges are non-empty, in
  increasing order, and separated by at least one unused minor index (so that no two ranges
  overlap or could be joined), with the sum \<^verbatim>\<open>last + 1\<close> taken without wrap-around.
\<close>

theorem check_subaddress_dict_iff:
  "check_subaddress_dict d \<longleftrightarrow>
     list_all (\<lambda>r. fst r \<le> snd r) (snd d)
     \<and> sorted_wrt (\<lambda>r r'. unat (snd r) + 1 < unat (fst r')) (snd d)"
  by (simp add: check_subaddress_dict_def check_ranges_iff)

end
