(* ===== verification/Storage_State.thy ===== *)
theory Storage_State
  imports Lmdb_Table Data
begin

text \<open>
  The state of \<^verbatim>\<open>lws::db::storage\<close> (\<^verbatim>\<open>src/db/storage.cpp\<close>): the content of its LMDB tables, the
  part of each value its table is sorted by, and the environment of parameters the code
  calls (LMDB, the Monero crypto and checkpoint code, the system clock, URL parsing) with the
  locale \<open>storage_env\<close> of what is relied on. The C++ type of a table fixes the size of its
  values, so the errors for a value of the wrong size do not occur in the model, and neither do
  I/O errors of LMDB.
\<close>

section \<open>Tables\<close>

record account_lookup =
  lk_id :: account_id
  lk_status :: account_status

record account_by_address =
  ba_address :: account_address
  ba_lookup :: account_lookup

definition blocks_version :: nat where
  "blocks_version = 0"

definition by_address_version :: nat where
  "by_address_version = 0"

definition pows_version :: nat where
  "pows_version = 0"

record db =
  db_blocks :: "(nat, block_info) rows"
  db_pows :: "(nat, block_pow) rows"
  db_accounts :: "(account_status, account) rows"
  db_accounts_ba :: "(nat, account_by_address) rows"
  db_accounts_bh :: "(block_id, account_lookup) rows"
  db_outputs :: "(account_id, db_output) rows"
  db_spends :: "(account_id, spend) rows"
  db_images :: "(output_id, key_image) rows"
  db_requests :: "(request, request_info) rows"
  db_webhooks :: "(webhook_key, webhook_value) rows"
  db_events :: "(account_id, webhook_event) rows"
  db_ranges :: "(account_id, subaddress_dict) rows"
  db_indexes :: "(account_id, subaddress_map) rows"

section \<open>What the tables are sorted by\<close>

definition ba_sort :: "account_by_address \<Rightarrow> public_key" where
  "ba_sort r = view_public (ba_address r)"

text \<open>
  \<^verbatim>\<open>output_compare\<close> and \<^verbatim>\<open>spend_compare\<close>: height, transaction hash (, key image), output id. A
  query that holds a height only compares below every row of that height, so it is the least
  sort key with that height.
\<close>

type_synonym output_key = "block_id \<times> hash \<times> output_id"
type_synonym spend_key = "block_id \<times> hash \<times> key_image_value \<times> output_id"

definition output_sort :: "db_output \<Rightarrow> output_key" where
  "output_sort r = (link_height (out_link r), tx_hash (out_link r), sm_id (out_spend_meta r))"

definition output_height_query :: "block_id \<Rightarrow> output_key" where
  "output_height_query h = (h, 0, Output_id 0 0)"

definition spend_sort :: "spend \<Rightarrow> spend_key" where
  "spend_sort r = (link_height (sp_link r), tx_hash (sp_link r), sp_image r, sp_source r)"

definition spend_height_query :: "block_id \<Rightarrow> spend_key" where
  "spend_height_query h = (h, 0, 0, Output_id 0 0)"

definition request_sort :: "request_info \<Rightarrow> public_key" where
  "request_sort r = spend_public (ri_address r)"

section \<open>Environment\<close>

record env =
  tb_blocks :: "(nat, block_id, block_info) mdb"
  tb_pows :: "(nat, block_id, block_pow) mdb"
  tb_accounts :: "(account_status, account_id, account) mdb"
  tb_accounts_ba :: "(nat, public_key, account_by_address) mdb"
  tb_accounts_bh :: "(block_id, account_id, account_lookup) mdb"
  tb_outputs :: "(account_id, output_key, db_output) mdb"
  tb_spends :: "(account_id, spend_key, spend) mdb"
  tb_images :: "(output_id, key_image_value, key_image) mdb"
  tb_requests :: "(request, public_key, request_info) mdb"
  tb_webhooks :: "(webhook_key, webhook_dupsort, webhook_value) mdb"
  tb_events :: "(account_id, webhook_event, webhook_event) mdb"
  tb_ranges :: "(account_id, major_index, subaddress_dict) mdb"
  tb_indexes :: "(account_id, public_key, subaddress_map) mdb"
  env_crypto :: crypto
  env_now :: int \<comment> \<open>seconds of \<^verbatim>\<open>std::chrono::system_clock\<close>\<close>
  env_points :: "(u64 \<times> hash) list" \<comment> \<open>\<^verbatim>\<open>cryptonote::checkpoints::get_points\<close>, in key order\<close>
  env_max_height :: u64 \<comment> \<open>\<^verbatim>\<open>cryptonote::checkpoints::get_max_height\<close>\<close>
  env_create_queue_max :: u32 \<comment> \<open>\<^verbatim>\<open>storage_internal::create_queue_max\<close>\<close>
  env_parse_url :: "string \<Rightarrow> string option" \<comment> \<open>\<^verbatim>\<open>epee::net_utils::parse_url\<close>, the schema\<close>
  env_difficulty_blocks_count :: u64 \<comment> \<open>\<^verbatim>\<open>DIFFICULTY_BLOCKS_COUNT\<close>\<close>
  env_timestamp_window :: u64 \<comment> \<open>\<^verbatim>\<open>BLOCKCHAIN_TIMESTAMP_CHECK_WINDOW\<close>\<close>

locale storage_env =
  fixes E :: env
  assumes blocks: "dupsort_table (tb_blocks E) bi_id"
    and pows: "dupsort_table (tb_pows E) bp_id"
    and accounts: "dupsort_table (tb_accounts E) acc_id"
    and accounts_ba: "dupsort_table (tb_accounts_ba E) ba_sort"
    and accounts_bh: "dupsort_table (tb_accounts_bh E) lk_id"
    and outputs: "dupsort_table (tb_outputs E) output_sort"
    and spends: "dupsort_table (tb_spends E) spend_sort"
    and images: "dupsort_table (tb_images E) ki_value"
    and requests: "dupsort_table (tb_requests E) request_sort"
    and webhooks: "dupsort_table (tb_webhooks E) fst"
    and events: "dupsort_table (tb_events E) (\<lambda>e. e)"
    and ranges: "dupsort_table (tb_ranges E) fst"
    and indexes: "dupsort_table (tb_indexes E) sa_subaddress"
begin

lemmas blocks_laws [simp] = dupsort_table.laws [OF blocks]
lemmas pows_laws [simp] = dupsort_table.laws [OF pows]
lemmas accounts_laws [simp] = dupsort_table.laws [OF accounts]
lemmas accounts_ba_laws [simp] = dupsort_table.laws [OF accounts_ba]
lemmas accounts_bh_laws [simp] = dupsort_table.laws [OF accounts_bh]
lemmas outputs_laws [simp] = dupsort_table.laws [OF outputs]
lemmas spends_laws [simp] = dupsort_table.laws [OF spends]
lemmas images_laws [simp] = dupsort_table.laws [OF images]
lemmas requests_laws [simp] = dupsort_table.laws [OF requests]
lemmas webhooks_laws [simp] = dupsort_table.laws [OF webhooks]
lemmas events_laws [simp] = dupsort_table.laws [OF events]
lemmas ranges_laws [simp] = dupsort_table.laws [OF ranges]
lemmas indexes_laws [simp] = dupsort_table.laws [OF indexes]

end

text \<open>An environment over sorted lists; the crypto, clock and checkpoints stay arbitrary.\<close>

definition list_env :: "crypto \<Rightarrow> int \<Rightarrow> (u64 \<times> hash) list \<Rightarrow> u64 \<Rightarrow> u32 \<Rightarrow> (string \<Rightarrow> string option) \<Rightarrow> u64 \<Rightarrow> u64 \<Rightarrow> env" where
  "list_env C now points max_height queue_max url dcount twindow = \<lparr>
     tb_blocks = list_table bi_id, tb_pows = list_table bp_id, tb_accounts = list_table acc_id,
     tb_accounts_ba = list_table ba_sort, tb_accounts_bh = list_table lk_id,
     tb_outputs = list_table output_sort, tb_spends = list_table spend_sort,
     tb_images = list_table ki_value, tb_requests = list_table request_sort,
     tb_webhooks = list_table fst, tb_events = list_table (\<lambda>e. e), tb_ranges = list_table fst,
     tb_indexes = list_table sa_subaddress,
     env_crypto = C, env_now = now, env_points = points, env_max_height = max_height,
     env_create_queue_max = queue_max, env_parse_url = url,
     env_difficulty_blocks_count = dcount, env_timestamp_window = twindow\<rparr>"

interpretation list_env: storage_env "list_env C now points max_height queue_max url dcount twindow"
  by unfold_locales (simp_all add: list_env_def list_table_simps)

definition sample_crypto :: crypto where
  "sample_crypto = \<lparr>hash_to_scalar = (\<lambda>bs. of_nat (sum_list (map unat bs))),
     secret_key_to_public_key = (\<lambda>k. (True, k + 1000)), addKeys = (\<lambda>a b. a + b),
     hash_key_subaddress = [83]\<rparr>"

definition sample_env :: env where
  "sample_env = list_env sample_crypto 1000 [(0, 100)] 0 10 (\<lambda>u. Some ''https'') 735 60"

lemma sample_env_ok: "storage_env sample_env"
  unfolding sample_env_def by (rule list_env.storage_env_axioms)

section \<open>Well-formed tables\<close>

text \<open>LMDB keeps every table in its order; every write of the model must too.\<close>

definition db_wf :: "db \<Rightarrow> bool" where
  "db_wf d \<longleftrightarrow>
     table_wf bi_id (db_blocks d) \<and> table_wf bp_id (db_pows d) \<and> table_wf acc_id (db_accounts d)
     \<and> table_wf ba_sort (db_accounts_ba d) \<and> table_wf lk_id (db_accounts_bh d)
     \<and> table_wf output_sort (db_outputs d) \<and> table_wf spend_sort (db_spends d)
     \<and> table_wf ki_value (db_images d) \<and> table_wf request_sort (db_requests d)
     \<and> table_wf fst (db_webhooks d) \<and> table_wf (\<lambda>e. e) (db_events d)
     \<and> table_wf fst (db_ranges d) \<and> table_wf sa_subaddress (db_indexes d)"

definition empty_db :: db where
  "empty_db = \<lparr>db_blocks = [], db_pows = [], db_accounts = [], db_accounts_ba = [],
     db_accounts_bh = [], db_outputs = [], db_spends = [], db_images = [], db_requests = [],
     db_webhooks = [], db_events = [], db_ranges = [], db_indexes = []\<rparr>"

lemma empty_db_wf [simp]: "db_wf empty_db"
  by (simp add: db_wf_def empty_db_def)

text \<open>Height queries: the rows at or above a height.\<close>

lemma output_height_query_le [simp]:
  "output_height_query h \<le> output_sort r \<longleftrightarrow> h \<le> link_height (out_link r)"
  by (auto simp: output_height_query_def output_sort_def less_eq_output_id_def less_le)

lemma spend_height_query_le [simp]:
  "spend_height_query h \<le> spend_sort r \<longleftrightarrow> h \<le> link_height (sp_link r)"
  by (auto simp: spend_height_query_def spend_sort_def less_eq_output_id_def less_le)

section \<open>Bulk inserts\<close>

text \<open>
  \<^verbatim>\<open>bulk_insert\<close> with \<^verbatim>\<open>MDB_NODUPDATA\<close>: a value that is already there is skipped. With no flag
  it is overwritten.
\<close>

fun bulk_insert :: "('k, 's, 'v) mdb \<Rightarrow> ('k, 'v) rows \<Rightarrow> 'k \<Rightarrow> 'v list \<Rightarrow> ('k, 'v) rows" where
  "bulk_insert T t k [] = t"
| "bulk_insert T t k (v # vs) =
     bulk_insert T (case put_nodup T t k v of None \<Rightarrow> t | Some t' \<Rightarrow> t') k vs"

fun bulk_overwrite :: "('k, 's, 'v) mdb \<Rightarrow> ('k, 'v) rows \<Rightarrow> 'k \<Rightarrow> 'v list \<Rightarrow> ('k, 'v) rows" where
  "bulk_overwrite T t k [] = t"
| "bulk_overwrite T t k (v # vs) = bulk_overwrite T (put T t k v) k vs"

context dupsort_table
begin

lemma bulk_insert_wf: "table_wf sk t \<Longrightarrow> table_wf sk (bulk_insert T t k vs)"
  by (induction vs arbitrary: t) (auto simp: put_nodup_law table_wf_put)

lemma bulk_overwrite_wf: "table_wf sk t \<Longrightarrow> table_wf sk (bulk_overwrite T t k vs)"
  by (induction vs arbitrary: t) (auto simp: put_law table_wf_put)

text \<open>Values with distinct sort keys that are all new are all added.\<close>

lemma set_bulk_insert_new:
  assumes "table_wf sk t" and "distinct (map sk vs)"
    and "\<And>v w. v \<in> set vs \<Longrightarrow> (k, w) \<in> set t \<Longrightarrow> sk v \<noteq> sk w"
  shows "set (bulk_insert T t k vs) = set t \<union> {k} \<times> set vs"
  using assms
proof (induction vs arbitrary: t)
  case (Cons v vs)
  have new: "t_get sk t k (sk v) = None"
    using Cons.prems(3) by (auto simp: t_get_None_iff dest: sym)
  have set: "set (t_put sk t k v) = insert (k, v) (set t)"
    using Cons.prems(1) new by (auto simp: set_t_put t_get_None_iff row_key_def)
  have "set (bulk_insert T (t_put sk t k v) k vs) = set (t_put sk t k v) \<union> {k} \<times> set vs"
    using Cons.prems by (intro Cons.IH) (auto simp: table_wf_put set, metis imageI)
  with new set show ?case by (auto simp: put_nodup_law)
qed simp

lemma bulk_insert_subset: "table_wf sk t \<Longrightarrow> set t \<subseteq> set (bulk_insert T t k vs)"
proof (induction vs arbitrary: t)
  case (Cons v vs)
  show ?case
  proof (cases "t_get sk t k (sk v) = None")
    case True
    then have "set t \<subseteq> set (t_put sk t k v)"
      using Cons.prems by (auto simp: set_t_put t_get_None_iff row_key_def)
    then show ?thesis using True Cons.IH [of "t_put sk t k v"] Cons.prems
      by (auto simp: put_nodup_law table_wf_put)
  qed (use Cons in \<open>auto simp: put_nodup_law\<close>)
qed simp

lemma bulk_insert_other:
  "table_wf sk t \<Longrightarrow> r \<in> set (bulk_insert T t k vs) \<Longrightarrow> r \<in> set t \<or> fst r = k \<and> snd r \<in> set vs"
proof (induction vs arbitrary: t)
  case (Cons v vs)
  then show ?case
    by (cases "t_get sk t k (sk v) = None")
      (auto simp: put_nodup_law table_wf_put set_t_put dest!: Cons.IH [rotated])
qed simp

lemma bulk_insert_keys:
  "table_wf sk t \<Longrightarrow> v \<in> set vs \<Longrightarrow> \<exists>w. (k, w) \<in> set (bulk_insert T t k vs) \<and> sk w = sk v"
proof (induction vs arbitrary: t)
  case (Cons x vs)
  let ?t = "case put_nodup T t k x of None \<Rightarrow> t | Some t' \<Rightarrow> t'"
  have wf: "table_wf sk ?t" using Cons.prems(1) by (simp add: put_nodup_law table_wf_put)
  show ?case
  proof (cases "v = x")
    case True
    have "\<exists>w. (k, w) \<in> set ?t \<and> sk w = sk x"
      using Cons.prems(1) by (auto simp: put_nodup_law set_t_put t_get_None_iff)
    then show ?thesis using True bulk_insert_subset [OF wf, of k vs] by auto
  next
    case False
    then show ?thesis using Cons.IH [OF wf] Cons.prems(2) by simp
  qed
qed simp

lemma bulk_insert_row_keys:
  assumes "table_wf sk t"
  shows "row_key sk ` set (bulk_insert T t k vs) = row_key sk ` set t \<union> (\<lambda>v. (k, sk v)) ` set vs"
proof
  show "row_key sk ` set (bulk_insert T t k vs) \<subseteq> row_key sk ` set t \<union> (\<lambda>v. (k, sk v)) ` set vs"
  proof
    fix x assume "x \<in> row_key sk ` set (bulk_insert T t k vs)"
    then obtain r where r: "r \<in> set (bulk_insert T t k vs)" "x = row_key sk r" by blast
    from bulk_insert_other [OF assms r(1)] show "x \<in> row_key sk ` set t \<union> (\<lambda>v. (k, sk v)) ` set vs"
      using r(2) by (auto simp: row_key_def)
  qed
  show "row_key sk ` set t \<union> (\<lambda>v. (k, sk v)) ` set vs \<subseteq> row_key sk ` set (bulk_insert T t k vs)"
  proof (intro Un_least image_subsetI)
    fix v assume "v \<in> set vs"
    from bulk_insert_keys [OF assms this, of k] obtain w where "(k, w) \<in> set (bulk_insert T t k vs)" "sk w = sk v" by blast
    then show "(k, sk v) \<in> row_key sk ` set (bulk_insert T t k vs)" by (force simp: row_key_def)
  qed (use bulk_insert_subset [OF assms, of k vs] in auto)
qed

lemma bulk_overwrite_append:
  "bulk_overwrite T t k (vs @ ws) = bulk_overwrite T (bulk_overwrite T t k vs) k ws"
  by (induction vs arbitrary: t) auto

lemma set_bulk_overwrite:
  assumes "table_wf sk t" and "distinct (map sk vs)"
  shows "set (bulk_overwrite T t k vs) =
    {k} \<times> set vs \<union> {r \<in> set t. \<not> (fst r = k \<and> sk (snd r) \<in> sk ` set vs)}"
  using assms
proof (induction vs arbitrary: t)
  case (Cons v vs)
  then have "set (bulk_overwrite T (t_put sk t k v) k vs) =
     {k} \<times> set vs \<union> {r \<in> set (t_put sk t k v). \<not> (fst r = k \<and> sk (snd r) \<in> sk ` set vs)}"
    by (intro Cons.IH) (auto simp: table_wf_put)
  with Cons.prems show ?case by (auto simp: put_law set_t_put row_key_def)
qed simp

end

end
