(* ===== verification/Storage_Chain.thy ===== *)
theory Storage_Chain
  imports Storage_State
begin

text \<open>
  The block and proof-of-work tables of \<^verbatim>\<open>src/db/storage.cpp\<close>: reading the chain for
  synchronisation, and rolling back and appending blocks in \<^verbatim>\<open>rollback\<close>, \<^verbatim>\<open>sync_chain\<close> and
  \<^verbatim>\<open>sync_pow\<close>. A write operation returns the new tables or an error; \<^verbatim>\<open>try_write\<close> commits
  only in the first case, so an error leaves the database as it was.
\<close>

section \<open>Reading\<close>

definition do_get_block_hash :: "env \<Rightarrow> db \<Rightarrow> block_id \<Rightarrow> hash expect" where
  "do_get_block_hash E d i =
     eget MDB_NOTFOUND (map_option bi_hash (get_both (tb_blocks E) (db_blocks d) blocks_version i))"

definition get_block_hash :: "env \<Rightarrow> db \<Rightarrow> block_id \<Rightarrow> hash expect" where
  "get_block_hash E d height = do_get_block_hash E d height"

definition get_last_block :: "env \<Rightarrow> db \<Rightarrow> block_info expect" where
  "get_last_block E d =
     (case dups (tb_blocks E) (db_blocks d) blocks_version of
        [] \<Rightarrow> Inl MDB_NOTFOUND
      | b # bs \<Rightarrow> Inr (last (b # bs)))"

definition get_last_pow_block :: "env \<Rightarrow> db \<Rightarrow> block_pow expect" where
  "get_last_pow_block E d =
     (case dups (tb_pows E) (db_pows d) pows_version of
        [] \<Rightarrow> Inl MDB_NOTFOUND
      | b # bs \<Rightarrow> Inr (last (b # bs)))"

text \<open>
  The first loop of \<^verbatim>\<open>get_blocks_tail\<close> over the blocks at and before the cursor, newest first.
  The flag says that the loop returned because there is no earlier block.
\<close>

fun tail_loop :: "nat \<Rightarrow> block_info list \<Rightarrow> (block_info list \<times> bool) expect" where
  "tail_loop 0 bs = Inr ([], False)"
| "tail_loop (Suc n) [] = Inr ([], False)"
| "tail_loop (Suc n) [b] = (if bi_id b \<noteq> 0 then Inl bad_blockchain else Inr ([b], True))"
| "tail_loop (Suc n) (b # c # bs) =
     (case tail_loop n (c # bs) of
        Inl e \<Rightarrow> Inl e
      | Inr (out, done) \<Rightarrow> Inr (b # out, done))"

definition add_block :: "env \<Rightarrow> db \<Rightarrow> u64 \<Rightarrow> block_info list \<Rightarrow> block_info list expect" where
  "add_block E d i out =
     ebind (do_get_block_hash E d i) (\<lambda>h. Inr (out @ [\<lparr>bi_id = i, bi_hash = h\<rparr>]))"

text \<open>\<^verbatim>\<open>2 << i\<close> has type \<^verbatim>\<open>int\<close> and is then converted to 64 bits, so it is sign extended.\<close>

definition back_offset :: "nat \<Rightarrow> u64" where
  "back_offset i = scast (push_bit i (2 :: u32))"

fun add_internal :: "env \<Rightarrow> db \<Rightarrow> u64 \<Rightarrow> u64 \<Rightarrow> nat list \<Rightarrow> block_info list \<Rightarrow> block_info list expect" where
  "add_internal E d anchor checkpoint [] out = Inr out"
| "add_internal E d anchor checkpoint (i # is) out =
     (let offset = back_offset i in
      if anchor < offset \<or> anchor - offset < checkpoint then Inr out
      else ebind (add_block E d (anchor - offset) out) (add_internal E d anchor checkpoint is))"

definition get_blocks_tail :: "env \<Rightarrow> db \<Rightarrow> block_info list \<Rightarrow> nat \<Rightarrow> block_info list expect" where
  "get_blocks_tail E d back max_internal =
     ebind (tail_loop 10 back) (\<lambda>(out, done).
       if done then Inr out
       else
         let checkpoint = env_max_height E; anchor = bi_id (last out) in
         ebind (add_internal E d anchor checkpoint [1..<max_internal + 1] out) (\<lambda>out.
         ebind (if checkpoint < bi_id (last out) then add_block E d checkpoint out else Inr out) (\<lambda>out.
         if bi_id (last out) \<noteq> 0 then add_block E d 0 out else Inr out)))"

definition get_blocks :: "env \<Rightarrow> db \<Rightarrow> nat \<Rightarrow> block_info list expect" where
  "get_blocks E d max_internal =
     ebind (get_last_block E d) (\<lambda>b.
       get_blocks_tail E d (dups_back (tb_blocks E) (db_blocks d) blocks_version (bi_id b)) (min 64 max_internal))"

definition get_blocks_from_height :: "env \<Rightarrow> db \<Rightarrow> nat \<Rightarrow> block_id \<Rightarrow> block_info list expect" where
  "get_blocks_from_height E d max_internal last_pow =
     ebind (eget MDB_NOTFOUND (get_both (tb_blocks E) (db_blocks d) blocks_version last_pow)) (\<lambda>b.
       get_blocks_tail E d (dups_back (tb_blocks E) (db_blocks d) blocks_version last_pow) (min 64 max_internal))"

definition get_chain_sync :: "env \<Rightarrow> db \<Rightarrow> hash list expect" where
  "get_chain_sync E d = ebind (get_blocks E d 64) (\<lambda>bs. Inr (map bi_hash bs))"

definition get_pow_sync :: "env \<Rightarrow> db \<Rightarrow> hash list expect" where
  "get_pow_sync E d =
     ebind (get_last_pow_block E d) (\<lambda>p.
     ebind (get_blocks_from_height E d 64 (bp_id p)) (\<lambda>bs. Inr (map bi_hash bs)))"

text \<open>\<^verbatim>\<open>get_pow_blocks\<close>: the newest \<open>n\<close> rows of the proof-of-work table, newest first.\<close>

fun pow_tail_loop :: "nat \<Rightarrow> block_pow list \<Rightarrow> block_pow list expect" where
  "pow_tail_loop 0 bs = Inr []"
| "pow_tail_loop (Suc n) [] = Inr []"
| "pow_tail_loop (Suc n) [b] = (if bp_id b \<noteq> 0 then Inl bad_blockchain else Inr [b])"
| "pow_tail_loop (Suc n) (b # c # bs) = ebind (pow_tail_loop n (c # bs)) (\<lambda>out. Inr (b # out))"

definition get_pow_blocks :: "env \<Rightarrow> db \<Rightarrow> nat \<Rightarrow> block_pow list expect" where
  "get_pow_blocks E d max_internal =
     ebind (get_last_pow_block E d) (\<lambda>b.
       pow_tail_loop (min 64 max_internal) (dups_back (tb_pows E) (db_pows d) pows_version (bp_id b)))"

record pow_window =
  pw_pow_timestamps :: "u64 list"
  pw_cumulative_diffs :: "u128 list"
  pw_median_timestamps :: "u64 list"

text \<open>The two loops of \<^verbatim>\<open>get_pow_window\<close>, over the rows from \<open>next\<close> on.\<close>

fun window_loop :: "u64 \<Rightarrow> u64 \<Rightarrow> block_pow list \<Rightarrow> block_pow list expect" where
  "window_loop next last_id [] = Inl MDB_NOTFOUND"
| "window_loop next last_id (r # rs) =
     (if next + 1 = last_id + 1 then Inr [r]
      else ebind (window_loop (next + 1) last_id rs) (\<lambda>out. Inr (r # out)))"

definition window_rows :: "env \<Rightarrow> db \<Rightarrow> u64 \<Rightarrow> u64 \<Rightarrow> block_pow list expect" where
  "window_rows E d next last_id =
     ebind (eget MDB_NOTFOUND (get_both (tb_pows E) (db_pows d) pows_version next)) (\<lambda>_.
       window_loop next last_id (dups_from (tb_pows E) (db_pows d) pows_version next))"

definition get_pow_window :: "env \<Rightarrow> db \<Rightarrow> block_id \<Rightarrow> pow_window expect" where
  "get_pow_window E d last_id =
     (if last_id = 0
      then Inr \<lparr>pw_pow_timestamps = [], pw_cumulative_diffs = [], pw_median_timestamps = []\<rparr>
      else
        let next = (if env_difficulty_blocks_count E < last_id
                    then last_id - (env_difficulty_blocks_count E - 1) else 0) in
        ebind (window_rows E d next last_id) (\<lambda>rows.
          let out = \<lparr>pw_pow_timestamps = map bp_timestamp rows,
                     pw_cumulative_diffs = map (\<lambda>r. get_difficulty (bp_cumulative_diff r)) rows,
                     pw_median_timestamps = []\<rparr> in
          if last_id < env_timestamp_window E then Inr out
          else ebind (window_rows E d (last_id - (env_timestamp_window E - 1)) last_id) (\<lambda>rows.
                 Inr (out\<lparr>pw_median_timestamps := map bp_timestamp rows\<rparr>))))"

section \<open>Rolling back\<close>

definition rollback_spends :: "env \<Rightarrow> account_id \<Rightarrow> block_id \<Rightarrow> db \<Rightarrow> db expect" where
  "rollback_spends E user height d =
     efold (\<lambda>s d.
       case get_both (tb_images E) (db_images d) (sp_source s) (sp_image s) of
         None \<Rightarrow> Inl MDB_NOTFOUND
       | Some _ \<Rightarrow>
           Inr (d\<lparr>db_images := del_at (tb_images E) (db_images d) (sp_source s) (sp_image s),
                  db_spends := del_at (tb_spends E) (db_spends d) user (spend_sort s)\<rparr>))
       (dups_from (tb_spends E) (db_spends d) user (spend_height_query height)) d"

definition rollback_outputs :: "env \<Rightarrow> account_id \<Rightarrow> block_id \<Rightarrow> db \<Rightarrow> db" where
  "rollback_outputs E user height d =
     d\<lparr>db_outputs := fold (\<lambda>r t. del_at (tb_outputs E) t user (output_sort r))
         (dups_from (tb_outputs E) (db_outputs d) user (output_height_query height)) (db_outputs d)\<rparr>"

text \<open>One iteration of \<^verbatim>\<open>rollback_accounts\<close>, for a row of the by-height table.\<close>

definition rollback_account :: "env \<Rightarrow> block_id \<Rightarrow> u64 \<Rightarrow> block_id \<times> account_lookup \<Rightarrow> db \<times> account_lookup list \<Rightarrow> (db \<times> account_lookup list) expect" where
  "rollback_account E height new_height row s =
     (case (row, s) of ((k, lookup), (d, new_by_heights)) \<Rightarrow>
       ebind (eget MDB_NOTFOUND (get_both (tb_accounts E) (db_accounts d) (lk_status lookup) (lk_id lookup))) (\<lambda>user.
         let user = user\<lparr>acc_scan_height := new_height,
                         acc_start_height := min new_height (acc_start_height user)\<rparr>;
             d = d\<lparr>db_accounts :=
                   put_current (tb_accounts E) (db_accounts d) (lk_status lookup) (lk_id lookup) user\<rparr>;
             d = rollback_outputs E (acc_id user) height d in
         ebind (rollback_spends E (acc_id user) height d) (\<lambda>d.
           Inr (d\<lparr>db_accounts_bh := del_at (tb_accounts_bh E) (db_accounts_bh d) k (lk_id lookup)\<rparr>,
                new_by_heights @ [\<lparr>lk_id = acc_id user, lk_status = lk_status lookup\<rparr>]))))"

definition rollback_accounts :: "env \<Rightarrow> block_id \<Rightarrow> db \<Rightarrow> db expect" where
  "rollback_accounts E height d =
     (case rows_from (tb_accounts_bh E) (db_accounts_bh d) height of
        [] \<Rightarrow> Inr d
      | r # rs \<Rightarrow>
          let new_height = max height 1 - 1 in
          ebind (efold (rollback_account E height new_height) (r # rs) (d, [])) (\<lambda>(d, new_by_heights).
            Inr (d\<lparr>db_accounts_bh :=
                   bulk_insert (tb_accounts_bh E) (db_accounts_bh d) new_height new_by_heights\<rparr>)))"

text \<open>
  \<^verbatim>\<open>rollback_events\<close> walks the events backwards: an event below the height ends the inner loop,
  and \<^verbatim>\<open>MDB_PREV_NODUP\<close> goes on with the previous account.
\<close>

function rollback_events_loop :: "env \<Rightarrow> block_id \<Rightarrow> (account_id \<times> webhook_event) list \<Rightarrow> (account_id, webhook_event) rows \<Rightarrow> (account_id, webhook_event) rows" where
  "rollback_events_loop E height [] t = t"
| "rollback_events_loop E height ((user, event) # rest) t =
     (if link_height (wo_tx (we_link event)) < height
      then rollback_events_loop E height (dropWhile (\<lambda>r. fst r = user) rest) t
      else rollback_events_loop E height rest (del_at (tb_events E) t user event))"
  by pat_completeness auto
termination
  by (relation "measure (\<lambda>(E, height, rows, t). length rows)") (auto simp: length_dropWhile_le le_imp_less_Suc)

definition rollback_events :: "env \<Rightarrow> block_id \<Rightarrow> db \<Rightarrow> db" where
  "rollback_events E height d =
     d\<lparr>db_events := rollback_events_loop E height (rev (all_rows (tb_events E) (db_events d))) (db_events d)\<rparr>"

text \<open>
  \<^verbatim>\<open>rollback_chain\<close>: \<open>first\<close> is the height of the block under the cursor, from which the
  blocks are deleted; \<open>height\<close> is the argument of the code.
\<close>

definition rollback_chain :: "env \<Rightarrow> block_id \<Rightarrow> block_id \<Rightarrow> db \<Rightarrow> db expect" where
  "rollback_chain E first height d =
     (let d = d\<lparr>db_blocks := fold (\<lambda>b t. del_at (tb_blocks E) t blocks_version (bi_id b))
                 (dups_from (tb_blocks E) (db_blocks d) blocks_version first) (db_blocks d)\<rparr>;
          d = (case get_both (tb_pows E) (db_pows d) pows_version height of
                 None \<Rightarrow> d
               | Some _ \<Rightarrow>
                   d\<lparr>db_pows := fold (\<lambda>b t. del_at (tb_pows E) t pows_version (bp_id b))
                      (dups_from (tb_pows E) (db_pows d) pows_version height) (db_pows d)\<rparr>) in
      ebind (rollback_accounts E height d) (\<lambda>d. Inr (rollback_events E height d)))"

definition rollback :: "env \<Rightarrow> block_id \<Rightarrow> db \<Rightarrow> db expect" where
  "rollback E height d =
     (case get_both (tb_blocks E) (db_blocks d) blocks_version height of
        None \<Rightarrow> Inr d
      | Some _ \<Rightarrow> rollback_chain E height height d)"

section \<open>Appending\<close>

text \<open>Blocks are buffered and written 25 at a time, proof-of-work rows 31 at a time.\<close>

fun append_block_hashes :: "env \<Rightarrow> u64 \<Rightarrow> hash list \<Rightarrow> block_info list \<Rightarrow> (nat, block_info) rows \<Rightarrow> (nat, block_info) rows" where
  "append_block_hashes E height [] hashes t = bulk_overwrite (tb_blocks E) t blocks_version hashes"
| "append_block_hashes E height (h # chain) hashes t =
     (if length hashes = 25
      then append_block_hashes E (height + 1) chain [\<lparr>bi_id = height, bi_hash = h\<rparr>]
             (bulk_overwrite (tb_blocks E) t blocks_version hashes)
      else append_block_hashes E (height + 1) chain (hashes @ [\<lparr>bi_id = height, bi_hash = h\<rparr>]) t)"

fun append_pow :: "env \<Rightarrow> u64 \<Rightarrow> pow_sync list \<Rightarrow> block_pow list \<Rightarrow> (nat, block_pow) rows \<Rightarrow> (nat, block_pow) rows" where
  "append_pow E height [] pows t = bulk_insert (tb_pows E) t pows_version pows"
| "append_pow E height (p # chain) pows t =
     (let row = \<lparr>bp_id = height, bp_timestamp = ps_timestamp p, bp_cumulative_diff = ps_cumulative_diff p\<rparr> in
      if length pows = 31
      then append_pow E (height + 1) chain [row] (bulk_insert (tb_pows E) t pows_version pows)
      else append_pow E (height + 1) chain (pows @ [row]) t)"

section \<open>Synchronising\<close>

text \<open>
  The comparison loop of \<^verbatim>\<open>sync_chain\<close> over the stored blocks after \<open>height\<close>: it gives the
  database, the next height and the hashes still to be stored.
\<close>

fun sync_loop :: "env \<Rightarrow> bool \<Rightarrow> block_info list \<Rightarrow> u64 \<Rightarrow> hash list \<Rightarrow> db \<Rightarrow> (db \<times> u64 \<times> hash list) expect" where
  "sync_loop E regtest rows current [] d = Inr (d, current, [])"
| "sync_loop E regtest [] current (h # chain) d = Inr (d, current, h # chain)"
| "sync_loop E regtest (r # rows) current (h # chain) d =
     (if bi_hash r \<noteq> h
      then if \<not> regtest \<and> current \<le> env_max_height E then Inl bad_blockchain
           else ebind (rollback_chain E (bi_id r) current d) (\<lambda>d. Inr (d, current, h # chain))
      else sync_loop E regtest rows (current + 1) chain d)"

definition sync_chain :: "env \<Rightarrow> block_id \<Rightarrow> hash list \<Rightarrow> bool \<Rightarrow> db \<Rightarrow> db expect" where
  "sync_chain E height hashes regtest d =
     (case hashes of
        [] \<Rightarrow> Inl kInvalidArgument
      | h # chain \<Rightarrow>
          ebind (do_get_block_hash E d height) (\<lambda>hash.
          if hash \<noteq> h then Inl bad_blockchain
          else
            ebind (sync_loop E regtest
                (tl (dups_from (tb_blocks E) (db_blocks d) blocks_version height)) (height + 1) chain d)
              (\<lambda>(d, current, chain).
                Inr (d\<lparr>db_blocks := append_block_hashes E current chain [] (db_blocks d)\<rparr>))))"

definition missed_checkpoint :: "env \<Rightarrow> u64 \<Rightarrow> hash \<Rightarrow> bool" where
  "missed_checkpoint E current h =
     (case map_of (env_points E) current of None \<Rightarrow> False | Some c \<Rightarrow> c \<noteq> h)"

fun sync_pow_loop :: "env \<Rightarrow> block_info list \<Rightarrow> u64 \<Rightarrow> hash list \<Rightarrow> db \<Rightarrow> (db \<times> u64 \<times> hash list) expect" where
  "sync_pow_loop E rows current [] d = Inr (d, current, [])"
| "sync_pow_loop E rows current (h # chain) d =
     (if missed_checkpoint E current h then Inl bad_blockchain
      else case rows of
        [] \<Rightarrow> Inr (d, current, h # chain)
      | r # rows \<Rightarrow>
          if bi_id r \<noteq> current then Inr (d, current, h # chain)
          else if bi_hash r \<noteq> h
          then if current \<le> env_max_height E then Inl bad_blockchain
               else ebind (rollback_chain E (bi_id r) current d) (\<lambda>d. Inr (d, current, h # chain))
          else sync_pow_loop E rows (current + 1) chain d)"

fun scan_checkpoints :: "env \<Rightarrow> u64 \<Rightarrow> hash list \<Rightarrow> bool" where
  "scan_checkpoints E current [] = True"
| "scan_checkpoints E current (h # chain) =
     (\<not> missed_checkpoint E current h \<and> scan_checkpoints E (current + 1) chain)"

definition sync_pow :: "env \<Rightarrow> block_id \<Rightarrow> hash list \<Rightarrow> pow_sync list \<Rightarrow> db \<Rightarrow> db expect" where
  "sync_pow E height hashes pow d =
     (if hashes = [] \<or> length hashes \<noteq> length pow then Inl kInvalidArgument
      else
        ebind (do_get_block_hash E d height) (\<lambda>hash.
        if hash \<noteq> hd hashes then Inl bad_blockchain
        else
          ebind (sync_pow_loop E
              (tl (dups_from (tb_blocks E) (db_blocks d) blocks_version height)) (height + 1) (tl hashes) d)
            (\<lambda>(d, current, chain).
              if \<not> scan_checkpoints E current chain then Inl bad_blockchain
              else
                Inr (d\<lparr>db_blocks := append_block_hashes E current chain [] (db_blocks d),
                       db_pows := append_pow E current (drop (length hashes - length chain) pow) [] (db_pows d)\<rparr>))))"

section \<open>Blocks as a numbered chain\<close>

fun numbered :: "u64 \<Rightarrow> hash list \<Rightarrow> block_info list" where
  "numbered h [] = []"
| "numbered h (x # xs) = \<lparr>bi_id = h, bi_hash = x\<rparr> # numbered (h + 1) xs"

lemma length_numbered [simp]: "length (numbered h xs) = length xs"
  by (induction xs arbitrary: h) auto

lemma nth_numbered: "i < length xs \<Longrightarrow> numbered h xs ! i = \<lparr>bi_id = h + of_nat i, bi_hash = xs ! i\<rparr>"
proof (induction xs arbitrary: h i)
  case (Cons x xs)
  then show ?case by (cases i) (auto simp: algebra_simps)
qed simp

lemma numbered_unat:
  "unat h + length xs \<le> 2 ^ 64 \<Longrightarrow> i < length xs \<Longrightarrow> unat (bi_id (numbered h xs ! i)) = unat h + i"
  by (simp add: nth_numbered unat_add_u64)

lemma numbered_distinct: "unat h + length xs \<le> 2 ^ 64 \<Longrightarrow> distinct (map bi_id (numbered h xs))"
proof -
  assume "unat h + length xs \<le> 2 ^ 64"
  then have "map unat (map bi_id (numbered h xs)) = [unat h ..< unat h + length xs]"
    by (intro nth_equalityI) (simp_all add: numbered_unat)
  then have "distinct (map unat (map bi_id (numbered h xs)))" by simp
  then show ?thesis by (simp only: distinct_map)
qed

fun consecutive :: "u64 \<Rightarrow> block_info list \<Rightarrow> bool" where
  "consecutive h [] = True"
| "consecutive h (b # bs) = (bi_id b = h \<and> consecutive (h + 1) bs)"

lemma consecutive_unat:
  "consecutive h bs \<Longrightarrow> sorted_wrt (\<lambda>a b. bi_id a < bi_id b) bs \<Longrightarrow> j < length bs \<Longrightarrow>
     unat (bi_id (bs ! j)) = unat h + j"
proof (induction bs arbitrary: h j)
  case (Cons b bs)
  show ?case
  proof (cases j)
    case (Suc k)
    then obtain c cs where bs: "bs = c # cs" using Cons.prems(3) by (cases bs) auto
    with Cons.prems have "h < h + 1" by auto
    then have h1: "unat (h + 1) = unat h + 1"
      by (rule unat_Suc_u64)
    from Cons.prems Suc have "unat (bi_id (bs ! k)) = unat (h + 1) + k"
      by (intro Cons.IH) auto
    with Suc h1 show ?thesis by simp
  qed (use Cons.prems in simp)
qed simp

abbreviation stored_from :: "block_id \<Rightarrow> db \<Rightarrow> block_info list" where
  "stored_from h d \<equiv> filter (\<lambda>b. h \<le> bi_id b) (t_dups (db_blocks d) blocks_version)"

definition contiguous_from :: "block_id \<Rightarrow> db \<Rightarrow> bool" where
  "contiguous_from h d \<longleftrightarrow> consecutive h (stored_from h d)"

lemma sync_loop_result:
  assumes "sync_loop E rt rows cur chain d = Inr (d', cur', rest)"
  shows "\<exists>pre. chain = pre @ rest \<and> cur' = cur + of_nat (length pre) \<and> length pre \<le> length rows
     \<and> map bi_hash (take (length pre) rows) = pre
     \<and> (d' = d \<and> (rest = [] \<or> length pre = length rows)
       \<or> rest \<noteq> [] \<and> length pre < length rows \<and> bi_hash (rows ! length pre) \<noteq> hd rest
         \<and> (rt \<or> env_max_height E < cur')
         \<and> rollback_chain E (bi_id (rows ! length pre)) cur' d = Inr d')"
  using assms
proof (induction E rt rows cur chain d rule: sync_loop.induct)
  case (3 E rt r rows cur h chain d)
  show ?case
  proof (cases "bi_hash r = h")
    case True
    with "3.prems" have "sync_loop E rt rows (cur + 1) chain d = Inr (d', cur', rest)" by simp
    from "3.IH" [OF _ this] True obtain pre where pre: "chain = pre @ rest"
      "cur' = cur + 1 + of_nat (length pre)" "length pre \<le> length rows"
      "map bi_hash (take (length pre) rows) = pre"
      "d' = d \<and> (rest = [] \<or> length pre = length rows)
       \<or> rest \<noteq> [] \<and> length pre < length rows \<and> bi_hash (rows ! length pre) \<noteq> hd rest
         \<and> (rt \<or> env_max_height E < cur') \<and> rollback_chain E (bi_id (rows ! length pre)) cur' d = Inr d'"
      by auto
    then show ?thesis using True by (intro exI [of _ "h # pre"]) (auto simp: algebra_simps)
  next
    case False
    with "3.prems" show ?thesis
      by (intro exI [of _ "[]"]) (auto simp: ebind_eq_Inr split: if_splits)
  qed
qed auto

lemma block_info_eta [simp]: "\<lparr>bi_id = bi_id b, bi_hash = bi_hash b\<rparr> = b"
  by (cases b) simp

section \<open>Which tables a rollback touches\<close>

definition without_spends :: "db \<Rightarrow> db" where
  "without_spends d = d\<lparr>db_images := [], db_spends := []\<rparr>"

definition without_scan :: "db \<Rightarrow> db" where
  "without_scan d = d\<lparr>db_accounts := [], db_accounts_bh := [], db_outputs := [], db_images := [], db_spends := []\<rparr>"

lemma without_scanD:
  assumes "without_scan d' = without_scan d"
  shows "db_blocks d' = db_blocks d" "db_pows d' = db_pows d" "db_accounts_ba d' = db_accounts_ba d"
    "db_requests d' = db_requests d" "db_webhooks d' = db_webhooks d" "db_events d' = db_events d"
    "db_ranges d' = db_ranges d" "db_indexes d' = db_indexes d"
  using assms by (cases d; cases d'; simp add: without_scan_def)+

lemma without_spendsD:
  assumes "without_spends d' = without_spends d"
  shows "without_scan d' = without_scan d" "db_accounts d' = db_accounts d"
    "db_accounts_bh d' = db_accounts_bh d" "db_outputs d' = db_outputs d"
  using assms by (cases d; cases d'; simp add: without_scan_def without_spends_def)+

lemma without_scan_simps [simp]:
  "without_scan (d\<lparr>db_accounts := x1\<rparr>) = without_scan d"
  "without_scan (d\<lparr>db_accounts_bh := x2\<rparr>) = without_scan d"
  "without_scan (d\<lparr>db_outputs := x3\<rparr>) = without_scan d"
  by (simp_all add: without_scan_def)

text \<open>
  What a successful synchronisation leaves in the block table: \<open>n\<close> given hashes agree with
  stored blocks, the others are stored after them, and older blocks stay.
\<close>

definition sync_rows :: "env \<Rightarrow> block_id \<Rightarrow> hash list \<Rightarrow> bool \<Rightarrow> db \<Rightarrow> db \<Rightarrow> nat \<Rightarrow> bool" where
  "sync_rows E h hashes rt d d' n \<longleftrightarrow>
     1 \<le> n \<and> n \<le> length hashes \<and> n \<le> length (stored_from h d)
     \<and> map bi_hash (take n (stored_from h d)) = take n hashes
     \<and> (\<forall>b. (blocks_version, b) \<in> set (db_blocks d') \<longleftrightarrow>
          b \<in> set (numbered (h + of_nat n) (drop n hashes))
          \<or> (blocks_version, b) \<in> set (db_blocks d) \<and> (n = length hashes \<or> unat (bi_id b) < unat h + n))
     \<and> (rt \<or> n = length hashes \<or> n = length (stored_from h d) \<or> unat (env_max_height E) < unat h + n)
     \<and> (n = length hashes \<or> n = length (stored_from h d) \<or> bi_hash (stored_from h d ! n) \<noteq> hashes ! n)
     \<and> table_wf bi_id (db_blocks d')"

context storage_env
begin

lemma rollback_spends_frame:
  assumes "rollback_spends E u h d = Inr d'"
  shows "without_spends d' = without_spends d"
  using assms unfolding rollback_spends_def
  by (rule efold_invariant) (auto simp: without_spends_def split: option.splits)

lemma rollback_outputs_eq:
  "rollback_outputs E u h d =
    d\<lparr>db_outputs := filter (\<lambda>r. \<not> (fst r = u \<and> h \<le> link_height (out_link (snd r)))) (db_outputs d)\<rparr>"
  using fold_t_del_from [of output_sort u "output_height_query h" "db_outputs d"]
  by (simp add: rollback_outputs_def)

lemma rollback_account_frame:
  assumes "rollback_account E h nh r s = Inr s'"
  shows "without_scan (fst s') = without_scan (fst s)"
  using assms
  by (auto simp: rollback_account_def Let_def ebind_eq_Inr rollback_outputs_eq
      dest!: rollback_spends_frame without_spendsD(1) split: prod.splits)

lemma rollback_accounts_frame:
  assumes "rollback_accounts E h d = Inr d'"
  shows "without_scan d' = without_scan d"
proof -
  have "without_scan (fst s) = without_scan d"
    if "efold (rollback_account E h nh) rows (d, []) = Inr s" for nh rows s
    using that by (rule efold_invariant) (auto dest!: rollback_account_frame)
  with assms show ?thesis
    by (fastforce simp: rollback_accounts_def Let_def ebind_eq_Inr simp del: efold.simps split: list.splits)
qed

lemma rollback_chain_blocks:
  assumes "rollback_chain E f h d = Inr d'"
  shows "db_blocks d' = filter (\<lambda>r. \<not> (fst r = blocks_version \<and> f \<le> bi_id (snd r))) (db_blocks d)"
  using assms
  by (auto simp: rollback_chain_def Let_def ebind_eq_Inr fold_t_del_from rollback_events_def
     dest!: rollback_accounts_frame without_scanD(1) split: option.splits)


lemma append_block_hashes_eq:
  "append_block_hashes E h chain buf t = bulk_overwrite (tb_blocks E) t blocks_version (buf @ numbered h chain)"
proof (induction chain arbitrary: h buf t)
  case (Cons x xs)
  then show ?case by (simp add: dupsort_table.bulk_overwrite_append [OF blocks])
qed simp

lemma stored_from_hd:
  assumes "db_wf d" and "t_get bi_id (db_blocks d) blocks_version h = Some b"
  shows "\<exists>bs. stored_from h d = b # bs"
proof -
  from assms have b: "b \<in> set (stored_from h d)" "bi_id b = h"
    by (auto simp: t_get_Some_iff db_wf_def)
  have "sorted_wrt (\<lambda>a b. bi_id a < bi_id b) (stored_from h d)"
    using assms(1) by (auto simp: db_wf_def intro!: sorted_wrt_filter t_dups_sorted)
  with b show ?thesis
    by (cases "stored_from h d") (auto dest!: filter_eq_ConsD)
qed

lemma sync_chain_steps:
  assumes wf: "db_wf d" and ok: "sync_chain E h hashes rt d = Inr d'"
  obtains n d1 where "1 \<le> n" "n \<le> length hashes" "n \<le> length (stored_from h d)"
    "map bi_hash (take n (stored_from h d)) = take n hashes"
    "d' = d1\<lparr>db_blocks := bulk_overwrite (tb_blocks E) (db_blocks d1) blocks_version
       (numbered (h + of_nat n) (drop n hashes))\<rparr>"
    "d1 = d \<and> (n = length hashes \<or> n = length (stored_from h d))
     \<or> n < length hashes \<and> n < length (stored_from h d)
       \<and> bi_hash (stored_from h d ! n) \<noteq> hashes ! n \<and> (rt \<or> env_max_height E < h + of_nat n)
       \<and> rollback_chain E (bi_id (stored_from h d ! n)) (h + of_nat n) d = Inr d1"
proof -
  from ok obtain h0 chain b where hs: "hashes = h0 # chain"
    and b: "t_get bi_id (db_blocks d) blocks_version h = Some b" "bi_hash b = h0"
    by (auto simp: sync_chain_def do_get_block_hash_def ebind_eq_Inr eget_eq_Inr split: list.splits if_splits)
  from stored_from_hd [OF wf b(1)] obtain bs where bs: "stored_from h d = b # bs" by auto
  from ok hs b bs obtain d1 cur rest where loop: "sync_loop E rt bs (h + 1) chain d = Inr (d1, cur, rest)"
    and d': "d' = d1\<lparr>db_blocks := append_block_hashes E cur rest [] (db_blocks d1)\<rparr>"
    by (auto simp: sync_chain_def do_get_block_hash_def ebind_eq_Inr eget_eq_Inr split: if_splits)
  from sync_loop_result [OF loop] obtain pre where pre: "chain = pre @ rest"
    "cur = h + 1 + of_nat (length pre)" "length pre \<le> length bs"
    "map bi_hash (take (length pre) bs) = pre"
    "d1 = d \<and> (rest = [] \<or> length pre = length bs)
     \<or> rest \<noteq> [] \<and> length pre < length bs \<and> bi_hash (bs ! length pre) \<noteq> hd rest
       \<and> (rt \<or> env_max_height E < cur) \<and> rollback_chain E (bi_id (bs ! length pre)) cur d = Inr d1"
    by auto
  show thesis
    by (rule that [of "Suc (length pre)" d1])
      (use hs b bs pre d' in \<open>auto simp: append_block_hashes_eq algebra_simps nth_append hd_conv_nth\<close>)
qed

lemma sync_chain_rows:
  assumes wf: "db_wf d" and ok: "sync_chain E h hashes rt d = Inr d'"
    and cont: "contiguous_from h d" and nowrap: "unat h + length hashes \<le> 2 ^ 64"
  shows "\<exists>n. sync_rows E h hashes rt d d' n"
proof -
  let ?bs = "stored_from h d"
  from sync_chain_steps [OF wf ok] obtain n d1 where n: "1 \<le> n" "n \<le> length hashes" "n \<le> length ?bs"
    and hash: "map bi_hash (take n ?bs) = take n hashes"
    and d': "d' = d1\<lparr>db_blocks := bulk_overwrite (tb_blocks E) (db_blocks d1) blocks_version
       (numbered (h + of_nat n) (drop n hashes))\<rparr>"
    and d1: "d1 = d \<and> (n = length hashes \<or> n = length ?bs)
     \<or> n < length hashes \<and> n < length ?bs
       \<and> bi_hash (?bs ! n) \<noteq> hashes ! n \<and> (rt \<or> env_max_height E < h + of_nat n)
       \<and> rollback_chain E (bi_id (?bs ! n)) (h + of_nat n) d = Inr d1" by blast
  have wfb: "table_wf bi_id (db_blocks d)" using wf by (simp add: db_wf_def)
  have sorted: "sorted_wrt (\<lambda>a b. bi_id a < bi_id b) ?bs"
    using wfb by (intro sorted_wrt_filter t_dups_sorted)
  have ids: "unat (bi_id (?bs ! j)) = unat h + j" if "j < length ?bs" for j
    using cont sorted that by (intro consecutive_unat) (auto simp: contiguous_from_def)
  have in_bs: "\<exists>j < length ?bs. b = ?bs ! j" if "(blocks_version, b) \<in> set (db_blocks d)" "h \<le> bi_id b" for b
  proof -
    from that have "b \<in> set ?bs" by simp
    then show ?thesis by (metis in_set_conv_nth)
  qed
  have nat_n: "unat (h + of_nat n) = unat h + n" if "n < length hashes"
    using that nowrap by (intro unat_add_u64) simp
  have d1wf: "table_wf bi_id (db_blocks d1)"
    using d1 wfb by (auto simp: rollback_chain_blocks table_wf_filter)
  have d1rows: "(blocks_version, b) \<in> set (db_blocks d1) \<longleftrightarrow>
     (blocks_version, b) \<in> set (db_blocks d) \<and> (n = length hashes \<or> unat (bi_id b) < unat h + n)" for b
  proof (cases "n < length hashes \<and> n < length ?bs")
    case True
    with d1 have "rollback_chain E (bi_id (?bs ! n)) (h + of_nat n) d = Inr d1" by auto
    from rollback_chain_blocks [OF this] True ids [of n] show ?thesis
      by (auto simp: word_le_nat_alt)
  next
    case False
    with d1 n have same: "d1 = d" and "n = length hashes \<or> n = length ?bs" by auto
    then show ?thesis using in_bs [of b] ids
      by (auto simp: word_le_nat_alt)
  qed
  have dis: "distinct (map bi_id (numbered (h + of_nat n) (drop n hashes)))"
  proof (cases "n = length hashes")
    case False
    then show ?thesis using nat_n n nowrap by (intro numbered_distinct) simp
  qed simp
  have high: "unat h + n \<le> unat (bi_id c)" if c: "c \<in> set (numbered (h + of_nat n) (drop n hashes))" for c
  proof -
    from c obtain i where i: "i < length (drop n hashes)" "c = numbered (h + of_nat n) (drop n hashes) ! i"
      by (auto simp: in_set_conv_nth)
    then have "n < length hashes" by simp
    from nat_n [OF this] i nowrap show ?thesis by (simp add: numbered_unat)
  qed
  have rows: "(blocks_version, b) \<in> set (db_blocks d') \<longleftrightarrow>
       b \<in> set (numbered (h + of_nat n) (drop n hashes))
       \<or> (blocks_version, b) \<in> set (db_blocks d) \<and> (n = length hashes \<or> unat (bi_id b) < unat h + n)" for b
  proof -
    have "bi_id b \<notin> bi_id ` set (numbered (h + of_nat n) (drop n hashes))"
      if "n = length hashes \<or> unat (bi_id b) < unat h + n"
      using that high by fastforce
    then show ?thesis
      unfolding d' by (auto simp: dupsort_table.set_bulk_overwrite [OF blocks d1wf dis] d1rows)
  qed
  show ?thesis
    unfolding sync_rows_def
  proof (intro exI [of _ n] conjI allI n hash rows)
    show "rt \<or> n = length hashes \<or> n = length ?bs \<or> unat (env_max_height E) < unat h + n"
      using d1 nat_n by (auto simp: word_less_nat_alt)
    show "n = length hashes \<or> n = length ?bs \<or> bi_hash (?bs ! n) \<noteq> hashes ! n" using d1 by auto
    show "table_wf bi_id (db_blocks d')"
      unfolding d' using dupsort_table.bulk_overwrite_wf [OF blocks d1wf] by simp
  qed
qed

lemma get_block_hash_iff:
  "table_wf bi_id (db_blocks d) \<Longrightarrow> get_block_hash E d i = Inr x \<longleftrightarrow>
     (blocks_version, \<lparr>bi_id = i, bi_hash = x\<rparr>) \<in> set (db_blocks d)"
  by (auto simp: get_block_hash_def do_get_block_hash_def eget_eq_Inr t_get_Some_iff)

lemma sync_chain_stores:
  assumes wf: "db_wf d" and ok: "sync_chain E h hashes rt d = Inr d'"
    and cont: "contiguous_from h d" and nowrap: "unat h + length hashes \<le> 2 ^ 64" and i: "i < length hashes"
  shows "get_block_hash E d' (h + of_nat i) = Inr (hashes ! i)"
proof -
  let ?bs = "stored_from h d"
  from sync_chain_rows [OF wf ok cont nowrap] obtain n where "sync_rows E h hashes rt d d' n" ..
  then have n: "1 \<le> n" "n \<le> length hashes" "n \<le> length ?bs"
    and hash: "map bi_hash (take n ?bs) = take n hashes"
    and rows: "\<And>b. (blocks_version, b) \<in> set (db_blocks d') \<longleftrightarrow>
       b \<in> set (numbered (h + of_nat n) (drop n hashes))
       \<or> (blocks_version, b) \<in> set (db_blocks d) \<and> (n = length hashes \<or> unat (bi_id b) < unat h + n)"
    and wf': "table_wf bi_id (db_blocks d')" by (simp_all add: sync_rows_def)
  have wfb: "table_wf bi_id (db_blocks d)" using wf by (simp add: db_wf_def)
  have sorted: "sorted_wrt (\<lambda>a b. bi_id a < bi_id b) ?bs"
    using wfb by (intro sorted_wrt_filter t_dups_sorted)
  have "(blocks_version, \<lparr>bi_id = h + of_nat i, bi_hash = hashes ! i\<rparr>) \<in> set (db_blocks d')"
  proof (cases "i < n")
    case True
    then have i': "i < length ?bs" using n by simp
    have id: "unat (bi_id (?bs ! i)) = unat h + i"
      using cont sorted i' by (intro consecutive_unat) (auto simp: contiguous_from_def)
    then have "bi_id (?bs ! i) = h + of_nat i"
      using i nowrap by (simp add: word_unat_eq_iff unat_add_u64)
    moreover have "bi_hash (?bs ! i) = hashes ! i"
      using hash True i' n by (metis (no_types, lifting) length_take min.absorb2 nth_map nth_take)
    ultimately have eq: "?bs ! i = \<lparr>bi_id = h + of_nat i, bi_hash = hashes ! i\<rparr>" by (cases "?bs ! i") simp
    have "?bs ! i \<in> set ?bs" using i' by (rule nth_mem)
    then have "(blocks_version, ?bs ! i) \<in> set (db_blocks d)" by simp
    with rows [of "?bs ! i"] id True eq show ?thesis by simp
  next
    case False
    then have "numbered (h + of_nat n) (drop n hashes) ! (i - n) = \<lparr>bi_id = h + of_nat i, bi_hash = hashes ! i\<rparr>"
      using i n by (simp add: nth_numbered)
    moreover have "i - n < length (numbered (h + of_nat n) (drop n hashes))" using i False by simp
    ultimately show ?thesis using rows nth_mem by metis
  qed
  with get_block_hash_iff [OF wf'] show ?thesis by simp
qed

text \<open>The block table afterwards, row by row.\<close>

lemma sync_chain_table:
  assumes wf: "db_wf d" and ok: "sync_chain E h hashes rt d = Inr d'"
    and cont: "contiguous_from h d" and nowrap: "unat h + length hashes \<le> 2 ^ 64"
  shows "set (t_dups (db_blocks d') blocks_version) = {b \<in> set (t_dups (db_blocks d) blocks_version). bi_id b < h} \<union> set (numbered h hashes)
    \<union> (if list_all (\<lambda>i. get_block_hash E d (h + of_nat i) = Inr (hashes ! i)) [0..<length hashes]
       then {b \<in> set (t_dups (db_blocks d) blocks_version). unat h + length hashes \<le> unat (bi_id b)} else {})" (is "_ = ?R")
proof -
  let ?bs = "stored_from h d" and ?agrees = "list_all (\<lambda>i. get_block_hash E d (h + of_nat i) = Inr (hashes ! i)) [0..<length hashes]"
  from sync_chain_rows [OF wf ok cont nowrap] obtain n where "sync_rows E h hashes rt d d' n" ..
  then have n: "n \<le> length hashes" "n \<le> length ?bs"
    and hash: "map bi_hash (take n ?bs) = take n hashes"
    and rows: "\<And>b. (blocks_version, b) \<in> set (db_blocks d') \<longleftrightarrow>
       b \<in> set (numbered (h + of_nat n) (drop n hashes))
       \<or> (blocks_version, b) \<in> set (db_blocks d) \<and> (n = length hashes \<or> unat (bi_id b) < unat h + n)"
    and stop: "n = length hashes \<or> n = length ?bs \<or> bi_hash (?bs ! n) \<noteq> hashes ! n"
    and wf': "table_wf bi_id (db_blocks d')" by (simp_all add: sync_rows_def)
  have wfb: "table_wf bi_id (db_blocks d)" using wf by (simp add: db_wf_def)
  have sorted: "sorted_wrt (\<lambda>a b. bi_id a < bi_id b) ?bs"
    using wfb by (intro sorted_wrt_filter t_dups_sorted)
  have ids: "unat (bi_id (?bs ! j)) = unat h + j" if "j < length ?bs" for j
    using cont sorted that by (intro consecutive_unat) (auto simp: contiguous_from_def)
  have in_bs: "\<exists>j < length ?bs. b = ?bs ! j" if "(blocks_version, b) \<in> set (db_blocks d)" "\<not> bi_id b < h" for b
  proof -
    from that have "b \<in> set ?bs" by (simp add: not_less)
    then show ?thesis by (metis in_set_conv_nth)
  qed
  have row_d: "get_block_hash E d (h + of_nat i) = Inr (hashes ! i) \<longleftrightarrow> i < length ?bs \<and> bi_hash (?bs ! i) = hashes ! i" if i: "i < length hashes" for i
  proof -
    have nat: "unat (h + of_nat i) = unat h + i" using i nowrap by (simp add: unat_add_u64)
    have "i < length ?bs \<and> bi_hash (?bs ! i) = hashes ! i" if "(blocks_version, \<lparr>bi_id = h + of_nat i, bi_hash = hashes ! i\<rparr>) \<in> set (db_blocks d)"
    proof -
      have "\<not> h + of_nat i < h" by (simp add: word_less_nat_alt nat)
      with in_bs [OF that] obtain j where j: "j < length ?bs" "\<lparr>bi_id = h + of_nat i, bi_hash = hashes ! i\<rparr> = ?bs ! j" by auto
      then have "j = i" using ids [OF j(1)] nat by (metis add_left_cancel block_info.select_convs(1))
      then show ?thesis using j by (metis block_info.select_convs(2))
    qed
    moreover have "(blocks_version, \<lparr>bi_id = h + of_nat i, bi_hash = hashes ! i\<rparr>) \<in> set (db_blocks d)"
      if "i < length ?bs" "bi_hash (?bs ! i) = hashes ! i"
    proof -
      have "bi_id (?bs ! i) = h + of_nat i" using ids [OF that(1)] nat by (simp add: word_unat_eq_iff)
      then have "?bs ! i = \<lparr>bi_id = h + of_nat i, bi_hash = hashes ! i\<rparr>" using that(2) by (cases "?bs ! i") simp
      moreover have "?bs ! i \<in> set ?bs" using that(1) by (rule nth_mem)
      ultimately show ?thesis by simp
    qed
    ultimately show ?thesis by (auto simp: get_block_hash_iff [OF wfb])
  qed
  have pre: "bi_hash (?bs ! i) = hashes ! i" if "i < n" for i
    using hash that n by (metis (no_types, lifting) length_take min.absorb2 nth_map nth_take)
  have agrees: "?agrees \<longleftrightarrow> n = length hashes"
  proof
    assume a: ?agrees
    show "n = length hashes"
    proof (rule ccontr)
      assume "n \<noteq> length hashes"
      with n have "n < length hashes" by simp
      then have "n < length ?bs \<and> bi_hash (?bs ! n) = hashes ! n" using a row_d by (simp add: list_all_iff)
      with stop \<open>n \<noteq> length hashes\<close> show False by simp
    qed
  next
    assume "n = length hashes"
    then show ?agrees using row_d pre n by (simp add: list_all_iff)
  qed
  have num: "bi_id (?bs ! j) = h + of_nat j \<and> (j < n \<longrightarrow> ?bs ! j = numbered h hashes ! j)" if "j < length ?bs" "j < length hashes" for j
  proof -
    have id: "bi_id (?bs ! j) = h + of_nat j" using ids [OF that(1)] that(2) nowrap by (simp add: word_unat_eq_iff unat_add_u64)
    moreover have "?bs ! j = \<lparr>bi_id = h + of_nat j, bi_hash = hashes ! j\<rparr>" if "j < n"
      using id pre [OF that] by (cases "?bs ! j") simp
    ultimately show ?thesis using that(2) by (simp add: nth_numbered)
  qed
  have "(blocks_version, b) \<in> set (db_blocks d') \<longleftrightarrow> b \<in> ?R" for b
  proof
    assume "(blocks_version, b) \<in> set (db_blocks d')"
    then consider "b \<in> set (numbered (h + of_nat n) (drop n hashes))"
      | "(blocks_version, b) \<in> set (db_blocks d)" "n = length hashes \<or> unat (bi_id b) < unat h + n" using rows by blast
    then show "b \<in> ?R"
    proof cases
      case 1
      then obtain i where i: "i < length hashes - n" "b = numbered (h + of_nat n) (drop n hashes) ! i"
        by (auto simp: in_set_conv_nth)
      then have "b = numbered h hashes ! (n + i)" using n by (simp add: nth_numbered add.assoc)
      then show ?thesis using i(1) nth_mem [of "n + i" "numbered h hashes"] by simp
    next
      case 2
      show ?thesis
      proof (cases "bi_id b < h")
        case True
        then show ?thesis using 2(1) by simp
      next
        case False
        from in_bs [OF 2(1) False] obtain j where j: "j < length ?bs" "b = ?bs ! j" by blast
        show ?thesis
        proof (cases "j < n")
          case True
          then have "b = numbered h hashes ! j" using num [OF j(1)] j(2) n by simp
          then show ?thesis using True n nth_mem [of j "numbered h hashes"] by simp
        next
          case ge: False
          then have "n = length hashes" using 2(2) ids [OF j(1)] j(2) by simp
          then show ?thesis using 2(1) agrees ids [OF j(1)] j(2) ge by simp
        qed
      qed
    qed
  next
    assume "b \<in> ?R"
    then consider "(blocks_version, b) \<in> set (db_blocks d)" "bi_id b < h" | "b \<in> set (numbered h hashes)"
      | "(blocks_version, b) \<in> set (db_blocks d)" "n = length hashes" using agrees by (auto split: if_splits)
    then show "(blocks_version, b) \<in> set (db_blocks d')"
    proof cases
      case 1
      then show ?thesis using rows by (auto simp: word_less_nat_alt)
    next
      case 2
      then obtain i where i: "i < length hashes" "b = \<lparr>bi_id = h + of_nat i, bi_hash = hashes ! i\<rparr>"
        by (auto simp: in_set_conv_nth nth_numbered)
      then show ?thesis using sync_chain_stores [OF wf ok cont nowrap i(1)] by (simp add: get_block_hash_iff [OF wf'])
    next
      case 3
      then show ?thesis using rows by blast
    qed
  qed
  then show ?thesis by auto
qed

lemma sync_chain_keeps:
  assumes wf: "db_wf d" and ok: "sync_chain E h hashes rt d = Inr d'"
    and cont: "contiguous_from h d" and nowrap: "unat h + length hashes \<le> 2 ^ 64"
    and b: "get_block_hash E d i = Inr x"
    and low: "i < h \<or> \<not> rt \<and> i \<le> env_max_height E"
  shows "get_block_hash E d' i = Inr x"
proof -
  let ?bs = "stored_from h d"
  from sync_chain_rows [OF wf ok cont nowrap] obtain n where "sync_rows E h hashes rt d d' n" ..
  then have n: "1 \<le> n" "n \<le> length hashes" "n \<le> length ?bs"
    and rows: "\<And>b. (blocks_version, b) \<in> set (db_blocks d') \<longleftrightarrow>
       b \<in> set (numbered (h + of_nat n) (drop n hashes))
       \<or> (blocks_version, b) \<in> set (db_blocks d) \<and> (n = length hashes \<or> unat (bi_id b) < unat h + n)"
    and cp: "rt \<or> n = length hashes \<or> n = length ?bs \<or> unat (env_max_height E) < unat h + n"
    and wf': "table_wf bi_id (db_blocks d')" by (simp_all add: sync_rows_def)
  have wfb: "table_wf bi_id (db_blocks d)" using wf by (simp add: db_wf_def)
  have sorted: "sorted_wrt (\<lambda>a b. bi_id a < bi_id b) ?bs"
    using wfb by (intro sorted_wrt_filter t_dups_sorted)
  let ?b = "\<lparr>bi_id = i, bi_hash = x\<rparr>"
  from b get_block_hash_iff [OF wfb] have b': "(blocks_version, ?b) \<in> set (db_blocks d)" by simp
  have "n = length hashes \<or> unat i < unat h + n"
  proof (cases "n = length ?bs \<and> h \<le> i")
    case True
    with b' have "?b \<in> set ?bs" by simp
    then obtain j where j: "j < length ?bs" "?b = ?bs ! j" by (metis in_set_conv_nth)
    then have "unat (bi_id (?bs ! j)) = unat h + j"
      using cont sorted by (intro consecutive_unat) (auto simp: contiguous_from_def)
    then have "unat i = unat h + j" by (simp flip: j(2))
    then show ?thesis using True j(1) by simp
  next
    case False
    with low cp n have "unat i < unat h \<or> n = length hashes \<or> unat i \<le> unat (env_max_height E) \<and> unat (env_max_height E) < unat h + n"
      unfolding word_less_nat_alt word_le_nat_alt by linarith
    then show ?thesis by linarith
  qed
  with rows b' get_block_hash_iff [OF wf'] show ?thesis by simp
qed

end

section \<open>Events and checkpoints\<close>

lemma sync_pow_loop_checks:
  assumes "sync_pow_loop E rows cur chain d = Inr (d', cur', rest)"
  shows "\<exists>pre. chain = pre @ rest \<and> cur' = cur + of_nat (length pre)
    \<and> (\<forall>i < length pre. \<not> missed_checkpoint E (cur + of_nat i) (pre ! i))"
  using assms
proof (induction chain arbitrary: cur rows)
  case (Cons x xs)
  show ?case
  proof (cases "cur' = cur \<and> rest = x # xs")
    case True
    then show ?thesis by (intro exI [of _ "[]"]) simp
  next
    case False
    then obtain rows' where "\<not> missed_checkpoint E cur x" "sync_pow_loop E rows' (cur + 1) xs d = Inr (d', cur', rest)"
      using Cons.prems by (auto simp: ebind_eq_Inr split: if_splits list.splits)
    moreover from Cons.IH [OF this(2)] obtain pre where
      "xs = pre @ rest" "cur' = cur + 1 + of_nat (length pre)"
      "\<forall>i < length pre. \<not> missed_checkpoint E (cur + 1 + of_nat i) (pre ! i)" by auto
    ultimately show ?thesis
      by (intro exI [of _ "x # pre"]) (auto simp: nth_Cons algebra_simps split: nat.splits)
  qed
qed auto

lemma scan_checkpoints_iff:
  "scan_checkpoints E cur chain \<longleftrightarrow> (\<forall>i < length chain. \<not> missed_checkpoint E (cur + of_nat i) (chain ! i))"
proof (induction chain arbitrary: cur)
  case (Cons x xs)
  show ?case by (simp add: Cons.IH All_less_Suc2 algebra_simps)
qed simp

abbreviation event_height :: "webhook_event \<Rightarrow> block_id" where
  "event_height e \<equiv> link_height (wo_tx (we_link e))"

lemma event_height_mono: "e \<le> e' \<Longrightarrow> event_height e \<le> event_height e'"
  by (auto simp: less_eq_webhook_event_def less_webhook_output_def less_transaction_link_def split: if_splits)

context storage_env
begin

lemma rollback_events_loop_eq:
  assumes "sorted_wrt (\<lambda>r r'. r' < r) rs"
  shows "rollback_events_loop E h rs t = filter (\<lambda>r. \<not> (r \<in> set rs \<and> h \<le> event_height (snd r))) t"
  using assms
proof (induction rs arbitrary: t rule: length_induct)
  case (1 rs)
  show ?case
  proof (cases rs)
    case (Cons r rest)
    obtain u e where r: "r = (u, e)" by (cases r)
    from "1.prems" Cons have sorted: "sorted_wrt (\<lambda>r r'. r' < r) rest"
      and below: "\<And>r'. r' \<in> set rest \<Longrightarrow> r' < (u, e)" using r by auto
    show ?thesis
    proof (cases "event_height e < h")
      case True
      let ?drop = "dropWhile (\<lambda>r. fst r = u) rest"
      have "sorted_wrt (\<lambda>r r'. r' < r) ?drop"
        using sorted by (metis sorted_wrt_append takeWhile_dropWhile_id)
      moreover have "length ?drop < length rs" using Cons by (simp add: length_dropWhile_le le_imp_less_Suc)
      ultimately have "rollback_events_loop E h rs t =
          filter (\<lambda>r. \<not> (r \<in> set ?drop \<and> h \<le> event_height (snd r))) t"
        using "1.IH" True Cons r by simp
      also have "\<dots> = filter (\<lambda>r. \<not> (r \<in> set rs \<and> h \<le> event_height (snd r))) t"
      proof (rule filter_cong [OF refl])
        fix x
        have skip: "event_height (snd x) < h" if x: "x \<in> set (takeWhile (\<lambda>r. fst r = u) rest)"
        proof -
          from x have "x \<in> set rest" "fst x = u" by (auto dest: set_takeWhileD)
          with below [of x] have "snd x \<le> e" by (cases x) auto
          with event_height_mono [of "snd x" e] True show ?thesis by simp
        qed
        have "set rest = set (takeWhile (\<lambda>r. fst r = u) rest) \<union> set ?drop"
          by (simp flip: set_append)
        then have mem: "x \<in> set rs \<longleftrightarrow> x = (u, e) \<or> x \<in> set (takeWhile (\<lambda>r. fst r = u) rest) \<or> x \<in> set ?drop"
          unfolding Cons r by simp
        have "h \<le> event_height (snd x) \<Longrightarrow> x \<noteq> (u, e) \<and> x \<notin> set (takeWhile (\<lambda>r. fst r = u) rest)"
          using skip True by force
        with mem show "(\<not> (x \<in> set ?drop \<and> h \<le> event_height (snd x))) = (\<not> (x \<in> set rs \<and> h \<le> event_height (snd x)))"
          by blast
      qed
      finally show ?thesis .
    next
      case False
      have "rollback_events_loop E h rs t =
          filter (\<lambda>r. \<not> (r \<in> set rest \<and> h \<le> event_height (snd r))) (t_del (\<lambda>e. e) t u e)"
        using "1.IH" False Cons r sorted by simp
      also have "\<dots> = filter (\<lambda>r. \<not> (r \<in> set rs \<and> h \<le> event_height (snd r))) t"
        using False Cons r by (auto simp: t_del_def at_row_def not_less intro!: filter_cong)
      finally show ?thesis .
    qed
  qed simp
qed

lemma rollback_events_eq:
  assumes "table_wf (\<lambda>e. e) (db_events d)"
  shows "rollback_events E h d = d\<lparr>db_events := filter (\<lambda>r. event_height (snd r) < h) (db_events d)\<rparr>"
proof -
  have "sorted_wrt (\<lambda>r r'. r < r') (db_events d)"
    using assms by (simp add: table_wf_def row_key_def)
  then have "sorted_wrt (\<lambda>r r'. r' < r) (rev (db_events d))" by (simp add: sorted_wrt_rev)
  from rollback_events_loop_eq [OF this, of h "db_events d"] show ?thesis
    by (auto simp: rollback_events_def not_le intro!: db.fold_congs filter_cong)
qed

end

section \<open>The block list of a chain synchronisation\<close>

lemma back_offset_small: "i < 30 \<Longrightarrow> unat (back_offset i) = 2 ^ (i + 1)"
proof -
  assume "i < 30"
  then have "i \<in> set [0..<30]" by simp
  then show ?thesis by (simp add: upt_rec) (elim disjE; simp add: back_offset_def)
qed

lemma back_offset_30: "back_offset 30 = 0xFFFFFFFF80000000"
  by code_simp

definition sync_list :: "db \<Rightarrow> block_info list \<Rightarrow> bool" where
  "sync_list d out \<longleftrightarrow> out \<noteq> [] \<and> sorted_wrt (\<lambda>a b. bi_id b < bi_id a) out
     \<and> list_all (\<lambda>b. t_get bi_id (db_blocks d) blocks_version (bi_id b) = Some b) out"

lemma sync_list_snoc:
  assumes "sync_list d out" and "t_get bi_id (db_blocks d) blocks_version (bi_id b) = Some b"
    and "bi_id b < bi_id (last out)"
  shows "sync_list d (out @ [b])"
proof -
  have "bi_id b < bi_id c" if "c \<in> set out" for c
  proof -
    from assms(1) obtain xs where xs: "out = xs @ [last out]" by (metis append_butlast_last_id sync_list_def)
    have "c = last out \<or> bi_id (last out) < bi_id c"
      using assms(1) that unfolding sync_list_def by (subst (asm) (1 3) xs) (auto simp: sorted_wrt_append)
    with assms(3) show ?thesis by auto
  qed
  with assms show ?thesis by (auto simp: sync_list_def sorted_wrt_append)
qed

lemma tail_loop_result:
  assumes "tail_loop n bs = Inr (out, done)" and "bs \<noteq> []" and "0 < n"
  shows "out = take n bs \<and> (done \<longrightarrow> out = bs \<and> bi_id (last out) = 0)"
  using assms
proof (induction n bs arbitrary: out rule: tail_loop.induct)
  case (4 n b c bs)
  show ?case
  proof (cases n)
    case 0
    with "4.prems" show ?thesis by simp
  next
    case (Suc m)
    with "4.prems" obtain out' where "tail_loop n (c # bs) = Inr (out', done)" and out: "out = b # out'"
      by (auto split: sum.splits)
    with "4.IH" [of out'] Suc show ?thesis by auto
  qed
qed (auto split: if_splits)

context storage_env
begin

lemma add_block_result:
  assumes "db_wf d" and "add_block E d i out = Inr out'" and "sync_list d out" and "i < bi_id (last out)"
  shows "sync_list d out' \<and> (\<exists>b. out' = out @ [b] \<and> bi_id b = i)"
proof -
  from assms(2) obtain b where b: "t_get bi_id (db_blocks d) blocks_version i = Some b"
    and out': "out' = out @ [\<lparr>bi_id = i, bi_hash = bi_hash b\<rparr>]"
    by (auto simp: add_block_def ebind_eq_Inr do_get_block_hash_def eget_eq_Inr)
  have "bi_id b = i" using t_get_SomeD [OF b] by simp
  then have "\<lparr>bi_id = i, bi_hash = bi_hash b\<rparr> = b" by (metis block_info_eta)
  with out' b \<open>bi_id b = i\<close> assms(3,4) sync_list_snoc [OF assms(3), of b] show ?thesis by auto
qed

lemma add_internal_result:
  assumes "db_wf d" and "add_internal E d anchor cp [i..<m] out = Inr out'" and "sync_list d out"
    and "unat anchor < 2 ^ 63" and "1 \<le> i" and "i \<le> 30"
    and "unat anchor \<le> unat (bi_id (last out)) + 2 ^ i"
  shows "sync_list d out' \<and> (\<exists>xs. out' = out @ xs \<and> length xs \<le> m - i)"
  using assms(2,3,5-)
proof (induction "m - i" arbitrary: i out)
  case (Suc k)
  then have up: "[i..<m] = i # [Suc i..<m]" by (simp add: upt_conv_Cons)
  show ?case
  proof (cases "anchor < back_offset i \<or> anchor - back_offset i < cp")
    case True
    then show ?thesis using Suc.prems up by auto
  next
    case False
    then have i: "i < 30" using Suc.prems(4) back_offset_30 assms(4)
      by (cases "i = 30") (auto simp: word_less_nat_alt)
    have off: "unat (anchor - back_offset i) = unat anchor - 2 ^ (i + 1)" "2 ^ (i + 1) \<le> unat anchor"
      using False back_offset_small [OF i] by (auto simp: unat_sub word_less_nat_alt word_le_nat_alt not_less)
    from False up Suc.prems(1) obtain o1 where o1: "add_block E d (anchor - back_offset i) out = Inr o1"
      "add_internal E d anchor cp [Suc i..<m] o1 = Inr out'"
      by (auto simp: Let_def ebind_eq_Inr)
    have "anchor - back_offset i < bi_id (last out)"
    proof -
      have "(0 :: nat) < 2 ^ i" "(2 :: nat) ^ (i + 1) = 2 * 2 ^ i" by simp_all
      with off Suc.prems(5) show ?thesis unfolding word_less_nat_alt by linarith
    qed
    from add_block_result [OF assms(1) o1(1) Suc.prems(2) this] obtain b
      where b: "sync_list d o1" "o1 = out @ [b]" "bi_id b = anchor - back_offset i" by auto
    have "sync_list d out' \<and> (\<exists>xs. out' = o1 @ xs \<and> length xs \<le> m - Suc i)"
      by (rule Suc.hyps(1)) (use Suc.hyps(2) o1(2) b off i in auto)
    with b(2) Suc.hyps(2) show ?thesis by auto
  qed
qed auto

lemma get_blocks_result:
  assumes wf: "db_wf d" and ok: "get_blocks E d m = Inr out" and small: "\<And>b. get_last_block E d = Inr b \<Longrightarrow> unat (bi_id b) < 2 ^ 63"
  shows "sync_list d out \<and> get_last_block E d = Inr (hd out) \<and> bi_id (last out) = 0 \<and> length out \<le> 12 + min 64 m"
proof -
  from ok obtain b where last: "get_last_block E d = Inr b"
    and tail: "get_blocks_tail E d (rev (filter (\<lambda>v. bi_id v \<le> bi_id b) (t_dups (db_blocks d) blocks_version))) (min 64 m) = Inr out"
    by (auto simp: get_blocks_def ebind_eq_Inr)
  let ?D = "t_dups (db_blocks d) blocks_version"
  have wfb: "table_wf bi_id (db_blocks d)" using wf by (simp add: db_wf_def)
  have sorted: "sorted_wrt (\<lambda>a b. bi_id a < bi_id b) ?D" using wfb by (rule t_dups_sorted)
  from last have ne: "?D \<noteq> []" and b: "b = List.last ?D"
    by (auto simp: get_last_block_def split: list.splits)
  have le: "bi_id v \<le> bi_id b" if "v \<in> set ?D" for v
  proof -
    from ne b have D: "?D = butlast ?D @ [b]" by simp
    from that have "v = b \<or> v \<in> set (butlast ?D)" by (subst (asm) D) auto
    with sorted show ?thesis by (subst (asm) D) (auto simp: sorted_wrt_append less_imp_le)
  qed
  then have all: "filter (\<lambda>v. bi_id v \<le> bi_id b) ?D = ?D" by (simp add: filter_id_conv)
  let ?B = "rev ?D"
  from tail all obtain o1 dn where loop: "tail_loop 10 ?B = Inr (o1, dn)"
    and rest: "if dn then out = o1 else
      (\<exists>o2 o3. add_internal E d (bi_id (List.last o1)) (env_max_height E) [1..<min 64 m + 1] o1 = Inr o2
       \<and> (if env_max_height E < bi_id (List.last o2) then add_block E d (env_max_height E) o2 else Inr o2) = Inr o3
       \<and> (if bi_id (List.last o3) \<noteq> 0 then add_block E d 0 o3 else Inr o3) = Inr out)"
    by (auto simp: get_blocks_tail_def Let_def ebind_eq_Inr split: if_splits)
  have t: "o1 = take 10 ?B" "dn \<longrightarrow> o1 = ?B \<and> bi_id (List.last o1) = 0"
    using tail_loop_result [OF loop] ne by auto
  have o1: "sync_list d o1" "hd o1 = b"
  proof -
    have "sorted_wrt (\<lambda>a b. bi_id b < bi_id a) ?B" using sorted by (simp add: sorted_wrt_rev)
    then have "sorted_wrt (\<lambda>a b. bi_id b < bi_id a) o1" unfolding t(1) by (rule sorted_wrt_take)
    moreover have "set o1 \<subseteq> set ?D" unfolding t(1) by (metis set_rev set_take_subset)
    ultimately show "sync_list d o1" using ne t(1) wfb
      by (auto simp: sync_list_def list_all_iff t_get_Some_iff)
    show "hd o1 = b" using ne b t(1) by (simp add: hd_rev)
  qed
  have len1: "length o1 \<le> 10" using t(1) by simp
  have "\<exists>xs. out = o1 @ xs \<and> length xs \<le> min 64 m + 2 \<and> sync_list d out \<and> bi_id (List.last out) = 0"
  proof (cases dn)
    case True
    then show ?thesis using rest o1 t by auto
  next
    case False
    with rest obtain o2 o3 where
      i: "add_internal E d (bi_id (List.last o1)) (env_max_height E) [1..<min 64 m + 1] o1 = Inr o2"
      and ii: "(if env_max_height E < bi_id (List.last o2) then add_block E d (env_max_height E) o2 else Inr o2) = Inr o3"
      and iii: "(if bi_id (List.last o3) \<noteq> 0 then add_block E d 0 o3 else Inr o3) = Inr out" by auto
    have "List.last o1 \<in> set ?D" using o1 t(1) by (metis last_in_set set_rev set_take_subset subsetD sync_list_def)
    then have "unat (bi_id (List.last o1)) < 2 ^ 63" using le small [OF last] by (meson le_less_trans word_le_nat_alt)
    from add_internal_result [OF wf i o1(1) this] obtain xs where
      o2: "sync_list d o2" "o2 = o1 @ xs" "length xs \<le> min 64 m" by auto
    have "sync_list d o3 \<and> (\<exists>ys. o3 = o2 @ ys \<and> length ys \<le> 1)"
      using ii o2(1) by (auto split: if_splits dest: add_block_result [OF wf])
    then obtain ys where o3: "sync_list d o3" "o3 = o2 @ ys" "length ys \<le> 1" by auto
    have "sync_list d out \<and> bi_id (List.last out) = 0 \<and> (\<exists>zs. out = o3 @ zs \<and> length zs \<le> 1)"
      using iii o3(1) by (auto split: if_splits dest!: add_block_result [OF wf] simp: word_gt_0)
    with o2 o3 show ?thesis by auto
  qed
  with o1 last len1 show ?thesis by (auto simp: sync_list_def)
qed

end

section \<open>Properties\<close>

definition sample_chain :: db where
  "sample_chain = empty_db\<lparr>db_blocks := map (Pair blocks_version)
     [\<lparr>bi_id = 0, bi_hash = 100\<rparr>, \<lparr>bi_id = 1, bi_hash = 101\<rparr>, \<lparr>bi_id = 2, bi_hash = 102\<rparr>]\<rparr>"

lemma sample_chain_ok: "db_wf sample_chain" "contiguous_from 1 sample_chain"
  by code_simp+

abbreviation sample_sync :: "db expect" where
  "sample_sync \<equiv> sync_chain sample_env 1 [101, 202, 203] False sample_chain"

lemma sample_sync_ok: "sample_sync = Inr (projr sample_sync)"
proof -
  have "\<not> isl sample_sync" by code_simp
  then show ?thesis by (rule sum.collapse(2) [symmetric])
qed

text \<open>
  C27: what \<^verbatim>\<open>sync_chain\<close> leaves in the block table, when the stored blocks from the first given height on are numbered without
  gaps and the heights fit 64 bits. It holds the blocks below the first given height as before and every given hash at its height, whether it
  agreed with the stored chain, replaced a block after a reorganisation, or extended the chain. Above the last given hash it
  holds nothing, unless the stored chain agrees with all given hashes: then the stored blocks above them stay.
\<close>

theorem sync_chain_result:
  assumes "storage_env E" and "db_wf d" and "contiguous_from h d"
    and "unat h + length hashes \<le> 2 ^ 64"
    and "sync_chain E h hashes regtest d = Inr d'"
  shows "set (t_dups (db_blocks d') blocks_version) = {b \<in> set (t_dups (db_blocks d) blocks_version). bi_id b < h} \<union> set (numbered h hashes)
      \<union> (if list_all (\<lambda>i. get_block_hash E d (h + of_nat i) = Inr (hashes ! i)) [0..<length hashes]
         then {b \<in> set (t_dups (db_blocks d) blocks_version). unat h + length hashes \<le> unat (bi_id b)} else {})
    \<and> (\<forall>i < length hashes. get_block_hash E d' (h + of_nat i) = Inr (hashes ! i))"
  using storage_env.sync_chain_table [OF assms(1,2,5,3,4)] storage_env.sync_chain_stores [OF assms(1,2,5,3,4)] by blast

theorem sync_chain_result_witness:
  "map bi_hash (t_dups (db_blocks (projr sample_sync)) blocks_version) = [100, 101, 202, 203]
    \<and> set (t_dups (db_blocks (projr sample_sync)) blocks_version) = insert \<lparr>bi_id = 0, bi_hash = 100\<rparr> (set (numbered 1 [101, 202, 203]))"
proof -
  have no: "\<not> list_all (\<lambda>i. get_block_hash sample_env sample_chain (1 + of_nat i) = Inr ([101, 202, 203] ! i)) [0..<length [101, 202, 203 :: hash]]" by code_simp
  have low: "{b \<in> set (t_dups (db_blocks sample_chain) blocks_version). bi_id b < 1} = {\<lparr>bi_id = 0, bi_hash = 100\<rparr>}" by code_simp
  have new: "map bi_hash (t_dups (db_blocks (projr sample_sync)) blocks_version) = [100, 101, 202, 203]" by code_simp
  have "unat (1 :: u64) + length [101, 202, 203 :: hash] \<le> 2 ^ 64" by simp
  from conjunct1 [OF sync_chain_result [OF sample_env_ok sample_chain_ok this sample_sync_ok], unfolded low if_not_P [OF no]] new
  show ?thesis by (metis Un_empty_right Un_insert_left sup_bot_left)
qed

text \<open>
  C28: \<^verbatim>\<open>sync_chain\<close> changes no block below the first given height, and outside regtest no block
  at or below the last checkpoint: a daemon cannot make it roll back a checkpointed block.
\<close>

theorem sync_chain_keeps_blocks:
  assumes "storage_env E" and "db_wf d" and "contiguous_from h d"
    and "unat h + length hashes \<le> 2 ^ 64"
    and "sync_chain E h hashes regtest d = Inr d'"
    and "get_block_hash E d i = Inr x" and "i < h \<or> \<not> regtest \<and> i \<le> env_max_height E"
  shows "get_block_hash E d' i = Inr x"
  using storage_env.sync_chain_keeps [OF assms(1,2,5,3,4,6,7)] .

theorem sync_chain_keeps_blocks_witness:
  "get_block_hash sample_env (projr sample_sync) 0 = Inr 100"
proof -
  have b: "get_block_hash sample_env sample_chain 0 = Inr 100" by code_simp
  show ?thesis
    by (rule sync_chain_keeps_blocks [OF sample_env_ok sample_chain_ok _ sample_sync_ok b]) simp_all
qed

text \<open>
  The list of blocks that \<^verbatim>\<open>get_chain_sync\<close> sends to the daemon starts with the newest
  stored block, goes down strictly to the genesis block, holds stored blocks only, and has at
  most 12 entries beyond the requested number (heights being below \<open>2 ^ 63\<close>).
\<close>

theorem get_blocks_list:
  assumes "storage_env E" and "db_wf d" and "get_last_block E d = Inr b" and "unat (bi_id b) < 2 ^ 63"
    and "get_blocks E d n = Inr out"
  shows "out \<noteq> [] \<and> hd out = b \<and> bi_id (last out) = 0
    \<and> sorted_wrt (\<lambda>x y. bi_id y < bi_id x) out
    \<and> list_all (\<lambda>x. get_block_hash E d (bi_id x) = Inr (bi_hash x)) out
    \<and> length out \<le> 12 + min 64 n"
proof -
  have "sync_list d out \<and> get_last_block E d = Inr (hd out) \<and> bi_id (last out) = 0 \<and> length out \<le> 12 + min 64 n"
    using assms(3,4) by (intro storage_env.get_blocks_result [OF assms(1,2,5)]) simp
  moreover have "table_wf bi_id (db_blocks d)" using assms(2) by (simp add: db_wf_def)
  ultimately show ?thesis using assms(3)
    by (auto simp: sync_list_def list_all_iff storage_env.get_block_hash_iff [OF assms(1)] t_get_Some_iff)
qed

theorem get_blocks_list_witness:
  "length (projr (get_blocks sample_env sample_chain 64)) \<le> 12 + min 64 64"
proof -
  have last: "get_last_block sample_env sample_chain = Inr \<lparr>bi_id = 2, bi_hash = 102\<rparr>" by code_simp
  have "\<not> isl (get_blocks sample_env sample_chain 64)" by code_simp
  then have "get_blocks sample_env sample_chain 64 = Inr (projr (get_blocks sample_env sample_chain 64))"
    by (rule sum.collapse(2) [symmetric])
  from get_blocks_list [OF sample_env_ok sample_chain_ok(1) last _ this] show ?thesis by simp
qed

text \<open>
  \<^verbatim>\<open>rollback_events\<close> removes exactly the webhook events of transactions at or above the
  height, although its loop leaves an account at the first event below the height.
\<close>

theorem rollback_events_exact:
  assumes "storage_env E" and "db_wf d"
  shows "rollback_events E h d =
    d\<lparr>db_events := filter (\<lambda>r. link_height (wo_tx (we_link (snd r))) < h) (db_events d)\<rparr>"
  using storage_env.rollback_events_eq [OF assms(1)] assms(2) by (simp add: db_wf_def)

definition sample_event :: "u64 \<Rightarrow> webhook_event" where
  "sample_event h = Webhook_event (Webhook_output (Transaction_link h 7) (Output_id 0 9)) (Webhook_dupsort 1 2)"

definition sample_events :: db where
  "sample_events = empty_db\<lparr>db_events := [(1, sample_event 5), (1, sample_event 9), (2, sample_event 3), (2, sample_event 8)]\<rparr>"

theorem rollback_events_exact_witness:
  "rollback_events sample_env 6 sample_events =
    sample_events\<lparr>db_events := filter (\<lambda>r. link_height (wo_tx (we_link (snd r))) < 6) (db_events sample_events)\<rparr>"
proof -
  have "db_wf sample_events" by code_simp
  from rollback_events_exact [OF sample_env_ok this] show ?thesis .
qed

text \<open>
  \<^verbatim>\<open>sync_pow\<close>, the mode for an untrusted daemon, accepts no hash that contradicts a
  checkpoint: after a success every new hash at a checkpointed height is the checkpoint's.
\<close>

theorem sync_pow_respects_checkpoints:
  assumes "sync_pow E h hashes pow d = Inr d'"
    and "1 \<le> i" and "i < length hashes" and "map_of (env_points E) (h + of_nat i) = Some c"
  shows "hashes ! i = c"
proof -
  from assms(1) obtain d1 cur rest where
    loop: "sync_pow_loop E (tl (dups_from (tb_blocks E) (db_blocks d) blocks_version h)) (h + 1) (tl hashes) d = Inr (d1, cur, rest)"
    and scan: "scan_checkpoints E cur rest"
    by (auto simp: sync_pow_def ebind_eq_Inr split: if_splits prod.splits)
  from sync_pow_loop_checks [OF loop] obtain pre where pre: "tl hashes = pre @ rest"
    "cur = h + 1 + of_nat (length pre)"
    "\<forall>i < length pre. \<not> missed_checkpoint E (h + 1 + of_nat i) (pre ! i)" by auto
  obtain j where j: "i = Suc j" using assms(2) by (cases i) auto
  have at: "hashes ! i = (pre @ rest) ! j" "j < length (pre @ rest)"
    using assms(3) j pre(1) by (cases hashes; simp)+
  have "\<not> missed_checkpoint E (h + of_nat i) (hashes ! i)"
  proof (cases "j < length pre")
    case True
    then show ?thesis using pre(3) j at by (simp add: nth_append algebra_simps)
  next
    case False
    then have "cur + of_nat (j - length pre) = h + of_nat i" using pre(2) j by (simp add: algebra_simps)
    moreover have "j - length pre < length rest" using False at by simp
    ultimately have "\<not> missed_checkpoint E (h + of_nat i) (rest ! (j - length pre))"
      using scan [unfolded scan_checkpoints_iff] by fastforce
    then show ?thesis using False at by (simp add: nth_append)
  qed
  with assms(4) show ?thesis by (simp add: missed_checkpoint_def)
qed

definition sample_pow_env :: env where
  "sample_pow_env = sample_env\<lparr>env_points := [(0, 100), (3, 203)], env_max_height := 1\<rparr>"

definition sample_pow :: pow_sync where
  "sample_pow = \<lparr>ps_timestamp = 5, ps_cumulative_diff = Block_difficulty 0 9\<rparr>"

theorem sync_pow_respects_checkpoints_witness:
  "\<not> isl (sync_pow sample_pow_env 1 [101, 202, 203] (replicate 3 sample_pow) sample_chain)
    \<and> [101, 202, 203] ! 2 = (203 :: hash)"
proof -
  let ?r = "sync_pow sample_pow_env 1 [101, 202, 203] (replicate 3 sample_pow) sample_chain"
  have ok: "\<not> isl ?r" by code_simp
  then have "?r = Inr (projr ?r)" by (rule sum.collapse(2) [symmetric])
  then have "[101, 202, 203] ! 2 = (203 :: hash)"
    by (rule sync_pow_respects_checkpoints) (simp_all add: sample_pow_env_def)
  with ok show ?thesis by blast
qed

text \<open>
  Writing the hashes of a chain in batches of 25 is the same as writing every block, with
  its height counted up from the first one, in order.
\<close>

theorem append_block_hashes_batches:
  assumes "storage_env E"
  shows "append_block_hashes E h chain [] t =
    bulk_overwrite (tb_blocks E) t blocks_version (numbered h chain)"
  using storage_env.append_block_hashes_eq [OF assms, of h chain "[]" t] by simp

theorem append_block_hashes_batches_witness:
  "append_block_hashes sample_env 3 (replicate 40 7) [] [] =
    bulk_overwrite (tb_blocks sample_env) [] blocks_version (numbered 3 (replicate 40 7))"
  by (rule append_block_hashes_batches [OF sample_env_ok])

end
