(* ===== verification/Storage_Subaddress.thy ===== *)
theory Storage_Subaddress
  imports Storage_State
begin

text \<open>
  The subaddress tables of \<^verbatim>\<open>src/db/storage.cpp\<close>: per account and major index a list of
  ranges of minor indexes (\<^verbatim>\<open>subaddress_ranges\<close>), and for every provisioned subaddress a map
  from its public spend key to its index (\<^verbatim>\<open>subaddress_indexes\<close>). \<open>do_upsert\<close> merges new
  ranges into the tables; \<open>do_lookahead\<close> provisions the subaddresses ahead of those that
  received an output.

  \<^verbatim>\<open>do_lookahead\<close> and \<^verbatim>\<open>update_lookahead\<close> go on after \<^verbatim>\<open>do_upsert\<close> returned
  \<^verbatim>\<open>max_subaddresses\<close>, and their transaction is then committed. So these functions return the
  tables beside the result, also when the result is an error.
\<close>

section \<open>Reading\<close>

definition get_subaddresses :: "env \<Rightarrow> db \<Rightarrow> account_id \<Rightarrow> subaddress_dict list" where
  "get_subaddresses E d uid = dups (tb_ranges E) (db_ranges d) uid"

definition find_subaddress :: "env \<Rightarrow> db \<Rightarrow> account_id \<Rightarrow> public_key \<Rightarrow> address_index expect" where
  "find_subaddress E d uid address =
     eget MDB_NOTFOUND (map_option sa_index (get_both (tb_indexes E) (db_indexes d) uid address))"

section \<open>Merging ranges\<close>

definition add_and_clamp :: "u32 \<Rightarrow> u32 \<Rightarrow> u32" where
  "add_and_clamp start n = (if max_u32 - n < start then max_u32 else start + n)"

definition add_out :: "subaddress_dict list \<Rightarrow> major_index \<Rightarrow> index_range \<Rightarrow> subaddress_dict list" where
  "add_out out major minor =
     (if out = [] \<or> fst (last out) \<noteq> major then out @ [(major, [minor])]
      else butlast out @ [(fst (last out), snd (last out) @ [minor])])"

text \<open>
  \<^verbatim>\<open>check_max_range\<close> and \<^verbatim>\<open>check_max_ranges\<close>: the new value of \<^verbatim>\<open>subaddr_count\<close>, or \<open>None\<close> for
  \<^verbatim>\<open>false\<close>. The count is a \<^verbatim>\<open>size_t\<close>, \<open>more\<close> has 32 bits.
\<close>

definition check_max_range :: "u32 \<Rightarrow> index_range \<Rightarrow> u64 \<Rightarrow> u64 option" where
  "check_max_range max_subaddr r subaddr_count =
     (let more = snd r - fst r in
      if ucast max_subaddr - subaddr_count \<le> ucast more then None
      else Some (subaddr_count + ucast (more + 1)))"

fun check_max_ranges :: "u32 \<Rightarrow> index_ranges \<Rightarrow> u64 \<Rightarrow> u64 option" where
  "check_max_ranges max_subaddr [] subaddr_count = Some subaddr_count"
| "check_max_ranges max_subaddr (r # rs) subaddr_count =
     (case check_max_range max_subaddr r subaddr_count of
        None \<Rightarrow> None
      | Some c \<Rightarrow> check_max_ranges max_subaddr rs c)"

text \<open>
  What the merge works on: the count of subaddresses, the ranges reported to the caller, and
  \<^verbatim>\<open>new_dict\<close>.
\<close>

record upsert_state =
  up_count :: u64
  up_out :: "subaddress_dict list"
  up_new_dict :: index_ranges

text \<open>A range that is counted and reported (\<^verbatim>\<open>check_max_range\<close> followed by \<^verbatim>\<open>add_out\<close>).\<close>

definition report_range :: "u32 \<Rightarrow> major_index \<Rightarrow> index_range \<Rightarrow> upsert_state \<Rightarrow> upsert_state expect" where
  "report_range max_subaddr major r s =
     (case check_max_range max_subaddr r (up_count s) of
        None \<Rightarrow> Inl max_subaddresses
      | Some c \<Rightarrow> Inr (s\<lparr>up_count := c, up_out := add_out (up_out s) major r\<rparr>))"

definition push_range :: "index_range \<Rightarrow> upsert_state \<Rightarrow> upsert_state" where
  "push_range r s = s\<lparr>up_new_dict := up_new_dict s @ [r]\<rparr>"

text \<open>
  The merge loop. The head of the old ranges is updated in place when a new range overlaps it.
  The last two equations, for an exhausted list, are the copy of the remaining old ranges and
  the loop over the remaining new ranges.
\<close>

fun merge_ranges :: "u32 \<Rightarrow> major_index \<Rightarrow> index_ranges \<Rightarrow> index_ranges \<Rightarrow> upsert_state \<Rightarrow> upsert_state expect" where
  "merge_ranges max_subaddr major (old # olds) (new # news) s =
     (if unat (snd new) + 1 < unat (fst old)
      then ebind (report_range max_subaddr major new s) (\<lambda>s.
             merge_ranges max_subaddr major (old # olds) news (push_range new s))
      else if unat (snd old) + 1 < unat (fst new)
      then merge_ranges max_subaddr major olds (new # news) (push_range old s)
      else if fst old \<le> fst new \<and> snd new \<le> snd old
      then merge_ranges max_subaddr major (old # olds) news s
      else
        ebind (if fst new < fst old then report_range max_subaddr major (fst new, fst old - 1) s else Inr s) (\<lambda>s.
        ebind (if snd old < snd new then report_range max_subaddr major (snd old + 1, snd new) s else Inr s) (\<lambda>s.
          merge_ranges max_subaddr major
            ((min (fst new) (fst old), max (snd old) (snd new)) # olds) news s)))"
| "merge_ranges max_subaddr major olds [] s = Inr (s\<lparr>up_new_dict := up_new_dict s @ olds\<rparr>)"
| "merge_ranges max_subaddr major [] (new # news) s =
     ebind (report_range max_subaddr major new s) (\<lambda>s.
       merge_ranges max_subaddr major [] news (push_range new s))"

section \<open>Storing ranges\<close>

definition range_minors :: "index_range \<Rightarrow> minor_index list" where
  "range_minors r = map of_nat [unat (fst r)..<unat (snd r) + 1]"

definition subaddress_value :: "crypto \<Rightarrow> account_address \<Rightarrow> view_key \<Rightarrow> address_index \<Rightarrow> subaddress_map" where
  "subaddress_value C address key idx =
     \<lparr>sa_subaddress = get_spend_public C idx address key, sa_index = idx\<rparr>"

definition index_values :: "crypto \<Rightarrow> account_address \<Rightarrow> view_key \<Rightarrow> major_index \<Rightarrow> index_ranges \<Rightarrow> subaddress_map list" where
  "index_values C address key major rs =
     map (\<lambda>m. subaddress_value C address key (Address_index major m)) (concat (map range_minors rs))"

text \<open>
  The end of the loop body: every index of \<^verbatim>\<open>new_dict\<close> is added (one that is already there is
  left), then the ranges of the major index are written.
\<close>

definition store_ranges :: "env \<Rightarrow> account_id \<Rightarrow> account_address \<Rightarrow> view_key \<Rightarrow> major_index \<Rightarrow> index_ranges \<Rightarrow> db \<Rightarrow> db \<times> unit expect" where
  "store_ranges E uid address key major new_dict d =
     (let d = d\<lparr>db_indexes := bulk_insert (tb_indexes E) (db_indexes d) uid
                 (index_values (env_crypto E) address key major new_dict)\<rparr> in
      case put_nodup (tb_ranges E) (db_ranges d) uid (major, new_dict) of
        None \<Rightarrow> (d, Inl MDB_KEYEXIST)
      | Some t \<Rightarrow> (d\<lparr>db_ranges := t\<rparr>, Inr ()))"

text \<open>The stored ranges of a major index are deleted before the merge, and written at the end.\<close>

definition upsert_merge :: "env \<Rightarrow> account_id \<Rightarrow> u32 \<Rightarrow> subaddress_dict \<Rightarrow> u64 \<times> subaddress_dict list \<Rightarrow> db \<Rightarrow> db \<times> upsert_state expect" where
  "upsert_merge E uid max_subaddr entry s d =
     (case get_both (tb_ranges E) (db_ranges d) uid (fst entry) of
        None \<Rightarrow>
          (d, case check_max_ranges max_subaddr (snd entry) (fst s) of
                None \<Rightarrow> Inl max_subaddresses
              | Some c \<Rightarrow> Inr \<lparr>up_count = c, up_out = snd s @ [entry], up_new_dict = snd entry\<rparr>)
      | Some old_dict \<Rightarrow>
          (d\<lparr>db_ranges := del_at (tb_ranges E) (db_ranges d) uid (fst entry)\<rparr>,
           merge_ranges max_subaddr (fst entry) (snd old_dict) (snd entry)
             \<lparr>up_count = fst s, up_out = snd s, up_new_dict = []\<rparr>))"

fun upsert_loop :: "env \<Rightarrow> account_id \<Rightarrow> account_address \<Rightarrow> view_key \<Rightarrow> u32 \<Rightarrow> subaddress_dict list \<Rightarrow> u64 \<times> subaddress_dict list \<Rightarrow> db \<Rightarrow> db \<times> subaddress_dict list expect" where
  "upsert_loop E uid address key max_subaddr [] s d = (d, Inr (snd s))"
| "upsert_loop E uid address key max_subaddr (entry # rest) s d =
     (if \<not> check_subaddress_dict entry then (d, Inl schema_array)
      else case upsert_merge E uid max_subaddr entry s d of
        (d, Inl e) \<Rightarrow> (d, Inl e)
      | (d, Inr u) \<Rightarrow>
          (case store_ranges E uid address key (fst entry) (up_new_dict u) d of
             (d, Inl e) \<Rightarrow> (d, Inl e)
           | (d, Inr _) \<Rightarrow> upsert_loop E uid address key max_subaddr rest (up_count u, up_out u) d))"

definition do_upsert :: "env \<Rightarrow> account_id \<Rightarrow> account_address \<Rightarrow> view_key \<Rightarrow> subaddress_dict list \<Rightarrow> u32 \<Rightarrow> db \<Rightarrow> db \<times> subaddress_dict list expect" where
  "do_upsert E uid address key subaddrs max_subaddr d =
     (let subaddr_count = of_nat (length (dups (tb_indexes E) (db_indexes d) uid)) in
      if ucast max_subaddr < subaddr_count then (d, Inl max_subaddresses)
      else upsert_loop E uid address key max_subaddr subaddrs (subaddr_count, []) d)"

text \<open>\<^verbatim>\<open>std::sort\<close> on \<^verbatim>\<open>subaddress_dict\<close>: lexicographic on the major index and the ranges.\<close>

definition dict_le :: "subaddress_dict \<Rightarrow> subaddress_dict \<Rightarrow> bool" where
  "dict_le a b \<longleftrightarrow> fst a < fst b \<or> fst a = fst b \<and> ord_class.lexordp_eq (snd a) (snd b)"

fun insort_dict :: "subaddress_dict \<Rightarrow> subaddress_dict list \<Rightarrow> subaddress_dict list" where
  "insort_dict x [] = [x]"
| "insort_dict x (y # ys) = (if dict_le x y then x # y # ys else y # insort_dict x ys)"

definition upsert_subaddresses :: "env \<Rightarrow> account_id \<Rightarrow> account_address \<Rightarrow> view_key \<Rightarrow> subaddress_dict list \<Rightarrow> u32 \<Rightarrow> db \<Rightarrow> (db \<times> subaddress_dict list) expect" where
  "upsert_subaddresses E uid address key subaddrs max_subaddr d =
     (case do_upsert E uid address key (foldr insort_dict subaddrs []) max_subaddr d of
        (d, Inl e) \<Rightarrow> Inl e
      | (d, Inr out) \<Rightarrow> Inr (d, out))"

section \<open>Lookahead\<close>

definition resize :: "nat \<Rightarrow> subaddress_dict list \<Rightarrow> subaddress_dict list" where
  "resize n xs = take n xs @ replicate (n - length xs) (0, [])"

text \<open>One received output: the range of its major index is extended past its minor index.\<close>

definition lookahead_output :: "u32 \<Rightarrow> u32 \<Rightarrow> u32 \<Rightarrow> address_index \<Rightarrow> subaddress_dict list \<Rightarrow> subaddress_dict list expect" where
  "lookahead_output major minor max_sub recipient initial =
     (if is_zero recipient then Inr initial
      else
        let index = maj_i recipient;
            needed = add_and_clamp index major;
            this_minor = add_and_clamp (minor - 1) (min_i recipient) in
        if max_u32 div minor < needed then Inl max_subaddresses
        else if max_sub < needed * minor then Inl max_subaddresses
        else
          let initial = resize (max (length initial) (unat needed)) initial in
          if length initial \<le> unat index then Inl (Thrown std_out_of_range)
          else case snd (initial ! unat index) of
            [] \<Rightarrow> Inr (initial[unat index := (major, [(0, this_minor)])])
          | r # rs \<Rightarrow> Inr (initial[unat index :=
                (fst (initial ! unat index), (fst r, max (snd r) this_minor) # rs)]))"

fun fill_gaps :: "u32 \<Rightarrow> u32 \<Rightarrow> nat \<Rightarrow> u32 \<Rightarrow> subaddress_dict list \<Rightarrow> subaddress_dict list expect" where
  "fill_gaps minor max_sub i total_subs [] = Inr []"
| "fill_gaps minor max_sub i total_subs (e # es) =
     (let this_minor = (case snd e of [] \<Rightarrow> minor | r # _ \<Rightarrow> snd r);
          ranges = (case snd e of [] \<Rightarrow> [(0, minor - 1)] | _ \<Rightarrow> snd e) in
      if max_sub - total_subs < this_minor then Inl max_subaddresses
      else ebind (fill_gaps minor max_sub (i + 1) (total_subs + this_minor) es) (\<lambda>es.
             Inr ((of_nat i, ranges) # es)))"

text \<open>The dictionaries that \<^verbatim>\<open>do_lookahead\<close> gives to \<^verbatim>\<open>do_upsert\<close>.\<close>

definition lookahead_initial :: "env \<Rightarrow> account_id \<Rightarrow> u32 \<Rightarrow> u32 \<Rightarrow> u32 \<Rightarrow> db \<Rightarrow> subaddress_dict list expect" where
  "lookahead_initial E uid major minor max_sub d =
     ebind (efold (lookahead_output major minor max_sub)
         (map out_recipient (dups (tb_outputs E) (db_outputs d) uid)) (resize (unat major) []))
       (fill_gaps minor max_sub 0 0)"

definition do_lookahead :: "env \<Rightarrow> account_id \<Rightarrow> account_address \<Rightarrow> view_key \<Rightarrow> address_index \<Rightarrow> u32 \<Rightarrow> db \<Rightarrow> db \<times> unit expect" where
  "do_lookahead E uid address key lookahead max_sub d =
     (let major = maj_i lookahead; minor = min_i lookahead in
      if major = 0 \<or> minor = 0 then (d, Inr ())
      else if max_u32 div minor < major then (d, Inl max_subaddresses)
      else if max_sub < major * minor then (d, Inl max_subaddresses)
      else case lookahead_initial E uid major minor max_sub d of
        Inl e \<Rightarrow> (d, Inl e)
      | Inr initial \<Rightarrow>
          (case do_upsert E uid address key initial max_sub d of
             (d, Inl e) \<Rightarrow> (d, Inl e)
           | (d, Inr _) \<Rightarrow> (d, Inr ())))"

text \<open>The overload for an account, which records a failure in the account.\<close>

definition do_lookahead_user :: "env \<Rightarrow> account \<Rightarrow> address_index \<Rightarrow> u32 \<Rightarrow> db \<Rightarrow> db \<times> account expect" where
  "do_lookahead_user E user lookahead max_sub d =
     (case do_lookahead E (acc_id user) (acc_address user) (acc_key user) lookahead max_sub d of
        (d, Inl e) \<Rightarrow>
          if e = max_subaddresses
          then (d, Inr (user\<lparr>acc_lookahead := lookahead,
                             acc_lookahead_fail := max 1 (acc_start_height user)\<rparr>))
          else (d, Inl e)
      | (d, Inr _) \<Rightarrow> (d, Inr (user\<lparr>acc_lookahead := lookahead\<rparr>)))"

definition lookahead_upsertions :: "u32 \<Rightarrow> u32 \<Rightarrow> address_index \<Rightarrow> subaddress_dict list" where
  "lookahead_upsertions major minor match =
     map (\<lambda>i. (of_nat i,
        [(0, if i = unat (maj_i match) then add_and_clamp (min_i match) (minor - 1) else minor - 1)]))
       [0..<unat (add_and_clamp (maj_i match) major)]"

text \<open>\<^verbatim>\<open>update_lookahead\<close>: \<open>-1\<close> when the subaddresses do not fit, otherwise the number of dictionaries.\<close>

definition lookahead_upsert :: "env \<Rightarrow> account \<Rightarrow> account_address \<Rightarrow> address_index \<Rightarrow> u32 \<Rightarrow> db \<Rightarrow> db \<times> subaddress_dict list expect" where
  "lookahead_upsert E user address match max_sub d =
     (let major = maj_i (acc_lookahead user); minor = min_i (acc_lookahead user) in
      if major \<le> max_u32 div minor \<and> major * minor \<le> max_sub
      then do_upsert E (acc_id user) address (acc_key user) (lookahead_upsertions major minor match) max_sub d
      else (d, Inl max_subaddresses))"

definition update_lookahead :: "env \<Rightarrow> account_address \<Rightarrow> block_id \<Rightarrow> address_index \<Rightarrow> u32 \<Rightarrow> db \<Rightarrow> (db \<times> int) expect" where
  "update_lookahead E address height match max_sub d =
     ebind (eget account_not_found (get_both (tb_accounts_ba E) (db_accounts_ba d) by_address_version (view_public address))) (\<lambda>ba.
     let lookup = ba_lookup ba in
     ebind (eget MDB_NOTFOUND (get_both (tb_accounts E) (db_accounts d) (lk_status lookup) (lk_id lookup))) (\<lambda>user.
     if maj_i (acc_lookahead user) = 0 \<or> min_i (acc_lookahead user) = 0 then Inr (d, 0)
     else case lookahead_upsert E user address match max_sub d of
       (d, Inl e) \<Rightarrow>
         if e \<noteq> max_subaddresses then Inl e
         else
           let fail = (if acc_lookahead_fail user = 0 then max 1 height
                       else max 1 (min (acc_lookahead_fail user) height));
               user = user\<lparr>acc_lookahead_fail := fail\<rparr> in
           Inr (d\<lparr>db_accounts := put_current (tb_accounts E) (db_accounts d) (lk_status lookup) (lk_id lookup) user\<rparr>, - 1)
     | (d, Inr upserted) \<Rightarrow> Inr (d, min (uint max_u32) (int (length upserted)))))"

end
