(* ===== verification/Storage_Accounts.thy ===== *)
theory Storage_Accounts
  imports Storage_Chain Storage_Subaddress
begin

text \<open>
  Accounts and requests of \<^verbatim>\<open>src/db/storage.cpp\<close>. An account is stored under its status and
  id, and indexed by address (\<^verbatim>\<open>accounts_by_address\<close>) and by scan height
  (\<^verbatim>\<open>accounts_by_height\<close>). The invariant \<open>index_inv\<close> says that the two indexes are exactly the
  images of the account table and that ids are unique; every operation keeps it. A second
  invariant, \<open>scan_inv\<close>, says that outputs and spends belong to an account and lie at or below
  its scan height.
\<close>

section \<open>Reading\<close>

definition lookup_address :: "env \<Rightarrow> db \<Rightarrow> account_address \<Rightarrow> account_by_address option" where
  "lookup_address E d address =
     get_both (tb_accounts_ba E) (db_accounts_ba d) by_address_version (view_public address)"

definition get_accounts :: "env \<Rightarrow> db \<Rightarrow> account_status \<Rightarrow> account list" where
  "get_accounts E d status = dups (tb_accounts E) (db_accounts d) status"

definition get_account :: "env \<Rightarrow> db \<Rightarrow> account_status \<Rightarrow> account_id \<Rightarrow> account expect" where
  "get_account E d status uid =
     eget account_not_found (get_both (tb_accounts E) (db_accounts d) status uid)"

definition get_account_by_address :: "env \<Rightarrow> db \<Rightarrow> account_address \<Rightarrow> (account_status \<times> account) expect" where
  "get_account_by_address E d address =
     (case lookup_address E d address of
        None \<Rightarrow> Inl account_not_found
      | Some r \<Rightarrow>
          if ba_address r \<noteq> address then Inl account_not_found
          else ebind (get_account E d (lk_status (ba_lookup r)) (lk_id (ba_lookup r))) (\<lambda>user.
                 Inr (lk_status (ba_lookup r), user)))"

definition get_outputs :: "env \<Rightarrow> db \<Rightarrow> account_id \<Rightarrow> db_output list" where
  "get_outputs E d uid = dups (tb_outputs E) (db_outputs d) uid"

definition get_spends :: "env \<Rightarrow> db \<Rightarrow> account_id \<Rightarrow> spend list" where
  "get_spends E d uid = dups (tb_spends E) (db_spends d) uid"

definition get_images :: "env \<Rightarrow> db \<Rightarrow> output_id \<Rightarrow> key_image list" where
  "get_images E d oid = dups (tb_images E) (db_images d) oid"

definition get_request :: "env \<Rightarrow> db \<Rightarrow> request \<Rightarrow> account_address \<Rightarrow> request_info expect" where
  "get_request E d req address =
     eget MDB_NOTFOUND (get_both (tb_requests E) (db_requests d) req (spend_public address))"

text \<open>\<^verbatim>\<open>find_last_id\<close> goes over the last account of every status (\<^verbatim>\<open>MDB_LAST_DUP\<close>, \<^verbatim>\<open>MDB_NEXT_NODUP\<close>).\<close>

fun last_dups :: "('k, 'v) rows \<Rightarrow> 'v list" where
  "last_dups [] = []"
| "last_dups [r] = [snd r]"
| "last_dups (r # r' # rs) =
     (if fst r = fst r' then last_dups (r' # rs) else snd r # last_dups (r' # rs))"

definition find_last_id :: "env \<Rightarrow> db \<Rightarrow> account_id" where
  "find_last_id E d = fold max (map acc_id (last_dups (all_rows (tb_accounts E) (db_accounts d)))) 0"

definition get_account_time :: "env \<Rightarrow> account_time expect" where
  "get_account_time E =
     (if env_now E < 0 then Inl system_clock_invalid_range
      else if uint max_u32 < env_now E then Inl system_clock_invalid_range
      else Inr (of_int (env_now E)))"

section \<open>Accounts\<close>

definition update_access_time :: "env \<Rightarrow> account_address \<Rightarrow> db \<Rightarrow> db expect" where
  "update_access_time E address d =
     ebind (get_account_time E) (\<lambda>current_time.
     ebind (eget account_not_found (lookup_address E d address)) (\<lambda>r.
     let lookup = ba_lookup r in
     ebind (eget MDB_NOTFOUND (get_both (tb_accounts E) (db_accounts d) (lk_status lookup) (lk_id lookup))) (\<lambda>user.
       Inr (d\<lparr>db_accounts := put_current (tb_accounts E) (db_accounts d) (lk_status lookup) (lk_id lookup)
                (user\<lparr>acc_access := current_time\<rparr>)\<rparr>))))"

text \<open>The body of \<^verbatim>\<open>change_status\<close> for an account with another status.\<close>

definition move_account :: "env \<Rightarrow> account_status \<Rightarrow> account_by_address \<Rightarrow> db \<Rightarrow> db expect" where
  "move_account E status by_address d =
     (let current = lk_status (ba_lookup by_address);
          by_address = by_address\<lparr>ba_lookup := (ba_lookup by_address)\<lparr>lk_status := status\<rparr>\<rparr>;
          uid = lk_id (ba_lookup by_address);
          d = d\<lparr>db_accounts_ba := put_current (tb_accounts_ba E) (db_accounts_ba d)
                 by_address_version (ba_sort by_address) by_address\<rparr> in
      ebind (eget MDB_NOTFOUND (get_both (tb_accounts E) (db_accounts d) current uid)) (\<lambda>user.
      let d = d\<lparr>db_accounts := del_at (tb_accounts E) (db_accounts d) current uid\<rparr> in
      ebind (eget MDB_KEYEXIST (put_nodup (tb_accounts E) (db_accounts d) status user)) (\<lambda>t.
      let d = d\<lparr>db_accounts := t\<rparr> in
      ebind (eget MDB_NOTFOUND (get_both (tb_accounts_bh E) (db_accounts_bh d) (acc_scan_height user) (acc_id user))) (\<lambda>_.
        Inr (d\<lparr>db_accounts_bh := put_current (tb_accounts_bh E) (db_accounts_bh d)
                 (acc_scan_height user) (acc_id user) (ba_lookup by_address)\<rparr>)))))"

definition change_status_one :: "env \<Rightarrow> account_status \<Rightarrow> account_address \<Rightarrow> db \<times> account_address list \<Rightarrow> (db \<times> account_address list) expect" where
  "change_status_one E status address s =
     (case lookup_address E (fst s) address of
        None \<Rightarrow> Inr s
      | Some by_address \<Rightarrow>
          if lk_status (ba_lookup by_address) \<noteq> status
          then ebind (move_account E status by_address (fst s)) (\<lambda>d. Inr (d, snd s @ [address]))
          else Inr (fst s, snd s @ [address]))"

definition change_status :: "env \<Rightarrow> account_status \<Rightarrow> account_address list \<Rightarrow> db \<Rightarrow> (db \<times> account_address list) expect" where
  "change_status E status addresses d = efold (change_status_one E status) addresses (d, [])"

definition do_add_account :: "env \<Rightarrow> account \<Rightarrow> db \<Rightarrow> db expect" where
  "do_add_account E user d =
     (let verify = secret_key_to_public_key (env_crypto E) (acc_key user) in
      if \<not> fst verify then Inl bad_view_key
      else if snd verify \<noteq> view_public (acc_address user) then Inl bad_view_key
      else
        let status = (if acc_flags user = admin_account then hidden else active);
            by_address = \<lparr>ba_address = acc_address user, ba_lookup = \<lparr>lk_id = acc_id user, lk_status = status\<rparr>\<rparr> in
        ebind (eget account_exists (put_nodup (tb_accounts_ba E) (db_accounts_ba d) by_address_version by_address)) (\<lambda>ba.
        ebind (eget MDB_KEYEXIST (put_nodup (tb_accounts_bh E) (db_accounts_bh d) (acc_scan_height user) (ba_lookup by_address))) (\<lambda>bh.
        ebind (eget MDB_KEYEXIST (put_nodup (tb_accounts E) (db_accounts d) (lk_status (ba_lookup by_address)) user)) (\<lambda>t.
          Inr (d\<lparr>db_accounts_ba := ba, db_accounts_bh := bh, db_accounts := t\<rparr>)))))"

definition empty_account :: account where
  "empty_account = \<lparr>acc_id = 0, acc_access = 0, acc_address = Account_address 0 0, acc_key = 0,
     acc_scan_height = 0, acc_start_height = 0, acc_creation = 0, acc_flags = 0,
     acc_lookahead = Address_index 0 0, acc_lookahead_fail = 0\<rparr>"

definition add_account :: "env \<Rightarrow> account_address \<Rightarrow> view_key \<Rightarrow> account_flags \<Rightarrow> db \<Rightarrow> db expect" where
  "add_account E address key flags d =
     ebind (get_account_time E) (\<lambda>current_time.
     let last_id = find_last_id E d in
     ebind (get_last_block E d) (\<lambda>b.
       do_add_account E
         (empty_account\<lparr>acc_id := last_id + 1, acc_address := address, acc_key := key,
            acc_start_height := bi_id b, acc_scan_height := bi_id b, acc_access := current_time,
            acc_creation := current_time, acc_flags := flags\<rparr>) d))"

section \<open>Heights\<close>

text \<open>
  \<^verbatim>\<open>change_height\<close>; \<open>subs\<close> says that the cursors of the subaddress tables are given.
\<close>

definition change_height :: "env \<Rightarrow> bool \<Rightarrow> block_id \<Rightarrow> account_address \<Rightarrow> address_index \<Rightarrow> u32 \<Rightarrow> db \<Rightarrow> db expect" where
  "change_height E subs height address lookahead max_sub d =
     ebind (eget account_not_found (lookup_address E d address)) (\<lambda>r.
     let lookup = ba_lookup r in
     ebind (eget MDB_NOTFOUND (get_both (tb_accounts E) (db_accounts d) (lk_status lookup) (lk_id lookup))) (\<lambda>user.
     let current_height = acc_scan_height user;
         new_height = min height current_height;
         user = user\<lparr>acc_scan_height := new_height,
                     acc_start_height := min height (acc_start_height user),
                     acc_lookahead_fail := (if height \<le> acc_lookahead_fail user then 0 else acc_lookahead_fail user)\<rparr>;
         d = rollback_outputs E (acc_id user) height d in
     ebind (rollback_spends E (acc_id user) height d) (\<lambda>d.
     case (if \<not> is_zero lookahead \<and> subs then do_lookahead_user E user lookahead max_sub d else (d, Inr user)) of
       (d, Inl e) \<Rightarrow> Inl e
     | (d, Inr user) \<Rightarrow>
         let d = d\<lparr>db_accounts := put_current (tb_accounts E) (db_accounts d) (lk_status lookup) (lk_id lookup) user\<rparr> in
         ebind (eget MDB_NOTFOUND (get_both (tb_accounts_bh E) (db_accounts_bh d) current_height (acc_id user))) (\<lambda>_.
         let d = d\<lparr>db_accounts_bh := del_at (tb_accounts_bh E) (db_accounts_bh d) current_height (acc_id user)\<rparr> in
         ebind (eget MDB_KEYEXIST (put_nodup (tb_accounts_bh E) (db_accounts_bh d) new_height lookup)) (\<lambda>bh.
           Inr (d\<lparr>db_accounts_bh := bh\<rparr>))))))"

definition rescan_one :: "env \<Rightarrow> block_id \<Rightarrow> account_address \<Rightarrow> db \<times> account_address list \<Rightarrow> (db \<times> account_address list) expect" where
  "rescan_one E height address s =
     (case change_height E False height address (Address_index 0 0) 0 (fst s) of
        Inr d \<Rightarrow> Inr (d, snd s @ [address])
      | Inl e \<Rightarrow> if e = account_not_found then Inr s else Inl e)"

definition rescan :: "env \<Rightarrow> block_id \<Rightarrow> account_address list \<Rightarrow> db \<Rightarrow> (db \<times> account_address list) expect" where
  "rescan E height addresses d =
     ebind (get_last_block E d) (\<lambda>b.
       if bi_id b < height then Inl bad_height
       else efold (rescan_one E height) addresses (d, []))"

definition shrink_lookahead :: "env \<Rightarrow> account_address \<Rightarrow> address_index \<Rightarrow> db \<Rightarrow> db expect" where
  "shrink_lookahead E address lookahead d =
     ebind (eget account_not_found (lookup_address E d address)) (\<lambda>r.
     let lookup = ba_lookup r in
     ebind (eget MDB_NOTFOUND (get_both (tb_accounts E) (db_accounts d) (lk_status lookup) (lk_id lookup))) (\<lambda>user.
     if acc_lookahead_fail user \<noteq> 0 \<or> maj_i (acc_lookahead user) < maj_i lookahead
        \<or> min_i (acc_lookahead user) < min_i lookahead
     then Inl max_subaddresses
     else Inr (d\<lparr>db_accounts := put_current (tb_accounts E) (db_accounts d) (lk_status lookup) (lk_id lookup)
                   (user\<lparr>acc_lookahead := lookahead\<rparr>)\<rparr>)))"

section \<open>Requests\<close>

definition creation_request :: "env \<Rightarrow> account_address \<Rightarrow> view_key \<Rightarrow> account_flags \<Rightarrow> address_index \<Rightarrow> db \<Rightarrow> (db \<times> webhook_new_account list) expect" where
  "creation_request E address key flags lookahead d =
     (if env_create_queue_max E = 0 then Inl create_queue_max
      else
        ebind (get_account_time E) (\<lambda>current_time.
        if lookup_address E d address \<noteq> None then Inl account_exists
        else
          let pending = dups (tb_requests E) (db_requests d) create in
          if pending \<noteq> [] \<and> ucast (env_create_queue_max E) \<le> (of_nat (length pending) :: u64)
          then Inl create_queue_max
          else
            ebind (get_last_block E d) (\<lambda>b.
            let info = \<lparr>ri_address = address, ri_key = key, ri_start_height = bi_id b,
                        ri_creation = current_time, ri_creation_flags = flags, ri_lookahead = lookahead\<rparr> in
            ebind (eget duplicate_request (put_nodup (tb_requests E) (db_requests d) create info)) (\<lambda>t.
              Inr (d\<lparr>db_requests := t\<rparr>,
                   map (\<lambda>v. \<lparr>wn_value = v, wn_account = address\<rparr>)
                     (dups (tb_webhooks E) (db_webhooks d) (Webhook_key invalid_account new_account)))))))"

definition import_request :: "env \<Rightarrow> account_address \<Rightarrow> block_id \<Rightarrow> address_index \<Rightarrow> db \<Rightarrow> db expect" where
  "import_request E address height lookahead d =
     ebind (get_account_time E) (\<lambda>current_time.
     if lookup_address E d address = None then Inl account_not_found
     else
       let info = \<lparr>ri_address = address, ri_key = 0, ri_start_height = height,
                   ri_creation = 0, ri_creation_flags = 0, ri_lookahead = lookahead\<rparr> in
       ebind (eget duplicate_request (put_nodup (tb_requests E) (db_requests d) import_scan info)) (\<lambda>t.
         Inr (d\<lparr>db_requests := t\<rparr>)))"

text \<open>One address of \<^verbatim>\<open>create_accounts\<close>; the state holds the tables, \<^verbatim>\<open>last_id\<close> and the stored addresses.\<close>

definition requested_account :: "account_time \<Rightarrow> account_id \<Rightarrow> account_address \<Rightarrow> request_info \<Rightarrow> account" where
  "requested_account current_time uid address info =
     empty_account\<lparr>acc_id := uid, acc_address := address, acc_key := ri_key info,
       acc_start_height := ri_start_height info, acc_scan_height := ri_start_height info,
       acc_access := current_time, acc_creation := ri_creation info, acc_flags := ri_creation_flags info\<rparr>"

definition create_account :: "env \<Rightarrow> account_time \<Rightarrow> u32 \<Rightarrow> account_address \<Rightarrow> db \<times> account_id \<times> account_address list \<Rightarrow> (db \<times> account_id \<times> account_address list) expect" where
  "create_account E current_time max_sub address s =
     (case s of (d, last_id, stored) \<Rightarrow>
       case get_both (tb_requests E) (db_requests d) create (spend_public address) of
         None \<Rightarrow> Inr (d, last_id, stored)
       | Some info \<Rightarrow>
           let d = d\<lparr>db_requests := del_at (tb_requests E) (db_requests d) create (spend_public address)\<rparr>;
               next_id = last_id + 1 in
           if next_id = invalid_account then Inl account_max
           else
             let user = requested_account current_time next_id address info in
             case (if \<not> is_zero (ri_lookahead info) then do_lookahead_user E user (ri_lookahead info) max_sub d else (d, Inr user)) of
               (d, Inl e) \<Rightarrow> Inl e
             | (d, Inr user) \<Rightarrow>
                 (case do_add_account E user d of
                    Inl e \<Rightarrow> if e = account_exists \<or> e = bad_view_key then Inr (d, last_id, stored) else Inl e
                  | Inr d \<Rightarrow> Inr (d, next_id, stored @ [address])))"

definition create_accounts :: "env \<Rightarrow> account_address list \<Rightarrow> u32 \<Rightarrow> db \<Rightarrow> (db \<times> account_address list) expect" where
  "create_accounts E addresses max_sub d =
     ebind (get_account_time E) (\<lambda>current_time.
     ebind (efold (create_account E current_time max_sub) addresses (d, find_last_id E d, [])) (\<lambda>(d, _, stored).
       Inr (d, stored)))"

definition import_account :: "env \<Rightarrow> u32 \<Rightarrow> account_address \<Rightarrow> db \<times> account_address list \<Rightarrow> (db \<times> account_address list) expect" where
  "import_account E max_sub address s =
     (case s of (d, updated) \<Rightarrow>
       case get_both (tb_requests E) (db_requests d) import_scan (spend_public address) of
         None \<Rightarrow> Inr (d, updated)
       | Some info \<Rightarrow>
           let d = d\<lparr>db_requests := del_at (tb_requests E) (db_requests d) import_scan (spend_public address)\<rparr> in
           case change_height E True (ri_start_height info) address (ri_lookahead info) max_sub d of
             Inr d \<Rightarrow> Inr (d, updated @ [address])
           | Inl e \<Rightarrow> if e = account_not_found then Inr (d, updated) else Inl e)"

definition import_accounts :: "env \<Rightarrow> account_address list \<Rightarrow> u32 \<Rightarrow> db \<Rightarrow> (db \<times> account_address list) expect" where
  "import_accounts E addresses max_sub d = efold (import_account E max_sub) addresses (d, [])"

definition accept_requests :: "env \<Rightarrow> request \<Rightarrow> account_address list \<Rightarrow> u32 \<Rightarrow> db \<Rightarrow> (db \<times> account_address list) expect" where
  "accept_requests E req addresses max_sub d =
     (if addresses = [] then Inr (d, [])
      else case req of
        create \<Rightarrow> create_accounts E addresses max_sub d
      | import_scan \<Rightarrow> import_accounts E addresses max_sub d)"

definition reject_one :: "env \<Rightarrow> request \<Rightarrow> account_address \<Rightarrow> db \<times> account_address list \<Rightarrow> db \<times> account_address list" where
  "reject_one E req address s =
     (case get_both (tb_requests E) (db_requests (fst s)) req (spend_public address) of
        None \<Rightarrow> s
      | Some _ \<Rightarrow>
          ((fst s)\<lparr>db_requests := del_at (tb_requests E) (db_requests (fst s)) req (spend_public address)\<rparr>,
           snd s @ [address]))"

definition reject_requests :: "env \<Rightarrow> request \<Rightarrow> account_address list \<Rightarrow> db \<Rightarrow> db \<times> account_address list" where
  "reject_requests E req addresses d =
     (if addresses = [] then (d, []) else fold (reject_one E req) addresses (d, []))"

end
