(* ===== verification/Account.thy ===== *)
theory Account
  imports Data
begin

text \<open>
  \<^verbatim>\<open>lws::account\<close> of \<^verbatim>\<open>src/db/account.cpp\<close>: what a scanner thread tracks of an account. The
  vectors of spendable outputs and of known one-time keys are kept sorted, so that
  \<^verbatim>\<open>std::lower_bound\<close> finds entries in them. \<^verbatim>\<open>immutable_\<close> is a shared pointer that is null
  after the account was moved from.
\<close>

section \<open>State\<close>

record internal =
  in_address :: string
  in_id :: account_id
  in_pubs :: account_address
  in_view_key :: view_key

record lws_account =
  la_immutable :: "internal option"
  la_spendable :: "(output_id \<times> address_index) list"
  la_pubs :: "public_key list"
  la_spends :: "spend list"
  la_outputs :: "db_output list"
  la_height :: block_id

record account_update =
  au_spends :: "spend list"
  au_outputs :: "db_output list"
  au_old_height :: block_id
  au_new_height :: block_id

text \<open>\<^verbatim>\<open>mempool_receive\<close> is written with the same fields as \<^verbatim>\<open>account::update\<close>.\<close>

definition mempool_receive :: "db_output \<Rightarrow> account_update" where
  "mempool_receive receive =
     \<lparr>au_spends = [], au_outputs = [receive], au_old_height = txpool_block, au_new_height = txpool_block\<rparr>"

section \<open>Operations\<close>

text \<open>\<open>address_string\<close> stands for the base58 encoding of the Monero libraries.\<close>

definition make_internal :: "(account_address \<Rightarrow> string) \<Rightarrow> account \<Rightarrow> internal" where
  "make_internal address_string source =
     \<lparr>in_address = address_string (acc_address source), in_id = acc_id source,
      in_pubs = acc_address source, in_view_key = acc_key source\<rparr>"

definition make_account :: "(account_address \<Rightarrow> string) \<Rightarrow> account \<Rightarrow> (output_id \<times> address_index) list \<Rightarrow> public_key list \<Rightarrow> lws_account" where
  "make_account address_string source spendable pubs =
     \<lparr>la_immutable = Some (make_internal address_string source), la_spendable = sort spendable,
      la_pubs = sort pubs, la_spends = [], la_outputs = [], la_height = acc_scan_height source\<rparr>"

definition la_id :: "lws_account \<Rightarrow> account_id" where
  "la_id a = (case la_immutable a of Some i \<Rightarrow> in_id i | None \<Rightarrow> invalid_account)"

definition null_check :: "lws_account \<Rightarrow> internal expect" where
  "null_check a = eget (Thrown kInvalidArgument) (la_immutable a)"

definition db_address :: "lws_account \<Rightarrow> account_address expect" where
  "db_address a = ebind (null_check a) (\<lambda>i. Inr (in_pubs i))"

definition la_view_key :: "lws_account \<Rightarrow> view_key expect" where
  "la_view_key a = ebind (null_check a) (\<lambda>i. Inr (in_view_key i))"

definition la_view_public :: "lws_account \<Rightarrow> public_key expect" where
  "la_view_public a = ebind (null_check a) (\<lambda>i. Inr (view_public (in_pubs i)))"

definition la_spend_public :: "lws_account \<Rightarrow> public_key expect" where
  "la_spend_public a = ebind (null_check a) (\<lambda>i. Inr (spend_public (in_pubs i)))"

definition clone :: "lws_account \<Rightarrow> lws_account" where
  "clone a =
     (let result = \<lparr>la_immutable = la_immutable a, la_spendable = la_spendable a, la_pubs = la_pubs a,
                    la_spends = [], la_outputs = [], la_height = la_height a\<rparr> in
      result\<lparr>la_outputs := la_outputs a, la_spends := la_spends a\<rparr>)"

definition updated :: "block_id \<Rightarrow> lws_account \<Rightarrow> lws_account \<times> account_update" where
  "updated new_height a =
     (a\<lparr>la_height := max (la_height a) new_height, la_spends := [], la_outputs := []\<rparr>,
      \<lparr>au_spends = la_spends a, au_outputs = la_outputs a, au_old_height = la_height a, au_new_height = new_height\<rparr>)"

definition get_spendable :: "output_id \<Rightarrow> lws_account \<Rightarrow> address_index option" where
  "get_spendable oid a =
     (let i = lower_bound (la_spendable a) (oid, Address_index 0 0) in
      if i = length (la_spendable a) \<or> fst (la_spendable a ! i) \<noteq> oid then None
      else Some (snd (la_spendable a ! i)))"

definition add_received :: "db_output \<Rightarrow> lws_account \<Rightarrow> lws_account \<times> bool" where
  "add_received out a =
     (let existing_pub = lower_bound (la_pubs a) (out_pub out) in
      if existing_pub \<noteq> length (la_pubs a) \<and> la_pubs a ! existing_pub = out_pub out then (a, False)
      else
        let value = (sm_id (out_spend_meta out), out_recipient out) in
        (a\<lparr>la_pubs := insert_at existing_pub (out_pub out) (la_pubs a),
           la_spendable := insert_at (lower_bound (la_spendable a) value) value (la_spendable a),
           la_outputs := la_outputs a @ [out]\<rparr>, True))"

definition add_spend :: "spend \<Rightarrow> lws_account \<Rightarrow> lws_account" where
  "add_spend s a = a\<lparr>la_spends := la_spends a @ [s]\<rparr>"

section \<open>Sorted vectors\<close>

definition account_wf :: "lws_account \<Rightarrow> bool" where
  "account_wf a \<longleftrightarrow> sorted (la_spendable a) \<and> sorted (la_pubs a)"

lemma zero_index_le [simp]: "Address_index 0 0 \<le> idx"
  by (cases idx) (auto simp: less_eq_address_index_def less_le)

lemma add_received_eq:
  assumes "account_wf a"
  shows "add_received out a =
    (if out_pub out \<in> set (la_pubs a) then (a, False)
     else (a\<lparr>la_pubs := insort (out_pub out) (la_pubs a),
             la_spendable := insort (sm_id (out_spend_meta out), out_recipient out) (la_spendable a),
             la_outputs := la_outputs a @ [out]\<rparr>, True))"
  using lower_bound_mem [of "la_pubs a" "out_pub out"] assms
  by (simp add: add_received_def insert_at_lower_bound account_wf_def Let_def)

lemma account_wf_make [simp]: "account_wf (make_account f src spendable pubs)"
  by (simp add: account_wf_def make_account_def)

lemma account_wf_add_received: "account_wf a \<Longrightarrow> account_wf (fst (add_received out a))"
  by (simp add: add_received_eq) (simp add: account_wf_def sorted_insort)

lemma account_wf_updated [simp]: "account_wf (fst (updated h a)) = account_wf a"
  by (simp add: account_wf_def updated_def)

lemma account_wf_add_spend [simp]: "account_wf (add_spend s a) = account_wf a"
  by (simp add: account_wf_def add_spend_def)

lemma clone_id [simp]: "clone a = a"
  by (simp add: clone_def)

section \<open>Properties\<close>

definition sample_output :: "u64 \<Rightarrow> public_key \<Rightarrow> db_output" where
  "sample_output n pub = \<lparr>out_link = Transaction_link n 7,
     out_spend_meta = \<lparr>sm_id = Output_id 0 n, sm_amount = 5, sm_mixin_count = 15, sm_index = 0, sm_tx_public = 9\<rparr>,
     out_timestamp = 1, out_unlock_time = 0, out_tx_prefix_hash = 3, out_pub = pub, out_ringct_mask = 0,
     out_extra = 0, out_payment_id = replicate 32 0, out_fee = 1, out_recipient = Address_index 0 (ucast n)\<rparr>"

text \<open>The account as \<^verbatim>\<open>storage_reader::get_full_account\<close> loads it from the stored outputs.\<close>

definition load_account :: "(account_address \<Rightarrow> string) \<Rightarrow> account \<Rightarrow> db_output list \<Rightarrow> lws_account" where
  "load_account address_string source outs =
     make_account address_string source
       (map (\<lambda>out. (sm_id (out_spend_meta out), out_recipient out)) outs) (map out_pub outs)"

lemma load_account_Nil_outputs [simp]: "la_outputs (load_account f src outs) = []"
  by (simp add: load_account_def make_account_def)

lemma account_wf_load [simp]: "account_wf (load_account f src outs)"
  by (simp add: load_account_def)

lemma add_received_load:
  assumes "out_pub out \<notin> set (map out_pub outs)"
  shows "fst (add_received out ((load_account f src outs)\<lparr>la_outputs := new\<rparr>)) =
    (load_account f src (outs @ [out]))\<lparr>la_outputs := new @ [out]\<rparr>"
proof -
  have wf: "account_wf ((load_account f src outs)\<lparr>la_outputs := new\<rparr>)"
    by (simp add: account_wf_def load_account_def make_account_def)
  have ins: "insort x (sort xs) = sort (xs @ [x])" for x :: "'a::linorder" and xs
    by (rule properties_for_sort [symmetric]) (auto simp: sorted_insort)
  show ?thesis using assms unfolding add_received_eq [OF wf]
    by (simp add: load_account_def make_account_def ins del: set_map)
qed

lemma get_spendable_eq:
  assumes "account_wf a"
  shows "get_spendable oid a =
    (let idxs = snd ` {e \<in> set (la_spendable a). fst e = oid} in
     if idxs = {} then None else Some (Min idxs))"
proof -
  let ?xs = "la_spendable a" and ?q = "(oid, Address_index 0 0)"
  let ?i = "lower_bound ?xs ?q" and ?S = "snd ` {e \<in> set ?xs. fst e = oid}"
  have srt: "sorted ?xs" using assms by (simp add: account_wf_def)
  show ?thesis
  proof (cases "?S = {}")
    case True
    then have "?i < length ?xs \<Longrightarrow> fst (?xs ! ?i) \<noteq> oid" using nth_mem [of ?i ?xs] by blast
    then show ?thesis using True lower_bound_le [of ?xs ?q] by (auto simp: get_spendable_def Let_def)
  next
    case False
    then obtain j where j: "(oid, j) \<in> set ?xs" by force
    have lt: "?i < length ?xs" by (rule lower_bound_found [OF j]) simp
    have least: "?xs ! ?i \<le> (oid, j)" if "(oid, j) \<in> set ?xs" for j
      by (rule lower_bound_min [OF srt lt that]) simp
    obtain o' k where at: "?xs ! ?i = (o', k)" by (cases "?xs ! ?i")
    have "o' = oid" using least [OF j] lower_bound_ge [OF lt] at by (auto simp: less_le_not_le)
    moreover have "Min ?S = k"
    proof (rule Min_eqI)
      show "k \<in> ?S" using nth_mem [OF lt] at \<open>o' = oid\<close> by force
      show "k \<le> y" if "y \<in> ?S" for y using that least at \<open>o' = oid\<close> by auto
    qed simp
    ultimately show ?thesis using False at lt by (simp add: get_spendable_def Let_def)
  qed
qed

text \<open>
  \<^verbatim>\<open>account::get_spendable\<close> finds an output exactly when the account tracks it, and gives
  its subaddress index, the smallest one when the output is tracked under several.
\<close>

theorem get_spendable_correct:
  assumes "account_wf a"
  shows "get_spendable oid a =
    (let idxs = snd ` {e \<in> set (la_spendable a). fst e = oid} in
     if idxs = {} then None else Some (Min idxs))"
  using get_spendable_eq [OF assms] .

definition sample_source :: account where
  "sample_source = \<lparr>acc_id = 1, acc_access = 0, acc_address = Account_address 1005 6,
      acc_key = 5, acc_scan_height = 4, acc_start_height = 0, acc_creation = 0, acc_flags = 0,
      acc_lookahead = Address_index 0 0, acc_lookahead_fail = 0\<rparr>"

definition sample_tracked :: lws_account where
  "sample_tracked = load_account (\<lambda>_. ''addr'') sample_source [sample_output 9 21, sample_output 4 20]"

theorem get_spendable_correct_witness:
  "account_wf sample_tracked \<and> get_spendable (Output_id 0 4) sample_tracked =
    (let idxs = snd ` {e \<in> set (la_spendable sample_tracked). fst e = Output_id 0 4} in
     if idxs = {} then None else Some (Min idxs))"
  using get_spendable_correct [of sample_tracked "Output_id 0 4"] by (simp add: sample_tracked_def)

text \<open>
  The state a scanner thread keeps by adding outputs as they are found is the state the
  server would load from the database after storing them: tracking new outputs on a loaded
  account equals loading all of them, the new ones being queued for the next update.
\<close>

theorem tracking_equals_loading:
  assumes "distinct (map out_pub (stored @ new))"
  shows "fold (\<lambda>out a. fst (add_received out a)) new (load_account f src stored) =
    (load_account f src (stored @ new))\<lparr>la_outputs := new\<rparr>"
  using assms
proof (induction new rule: rev_induct)
  case Nil
  then show ?case by (simp add: load_account_def make_account_def)
next
  case (snoc out new)
  then have "out_pub out \<notin> set (map out_pub (stored @ new))" by auto
  with snoc add_received_load [where outs = "stored @ new" and new = new] show ?case by simp
qed

theorem tracking_equals_loading_witness:
  "fold (\<lambda>out a. fst (add_received out a)) [sample_output 4 20] (load_account (\<lambda>_. []) sample_source [sample_output 9 21]) =
    (load_account (\<lambda>_. []) sample_source [sample_output 9 21, sample_output 4 20])\<lparr>la_outputs := [sample_output 4 20]\<rparr>"
  using tracking_equals_loading [of "[sample_output 9 21]" "[sample_output 4 20]" "\<lambda>_. []" sample_source]
  by (simp add: sample_output_def)

text \<open>
  An output whose one-time key the account already knows is refused and changes nothing;
  any other output is tracked, keeps the vectors sorted and is spendable from then on.
\<close>

theorem add_received_result:
  assumes "account_wf a" and "add_received out a = (a', ok)"
  shows "(ok \<longleftrightarrow> out_pub out \<notin> set (la_pubs a)) \<and> (\<not> ok \<longrightarrow> a' = a) \<and> account_wf a'
    \<and> (ok \<longrightarrow> get_spendable (sm_id (out_spend_meta out)) a' \<noteq> None
          \<and> la_outputs a' = la_outputs a @ [out] \<and> out_pub out \<in> set (la_pubs a'))"
proof -
  have wf': "account_wf a'" using account_wf_add_received [OF assms(1), of out] assms(2) by simp
  have found: "get_spendable oid a' \<noteq> None" if "(oid, i) \<in> set (la_spendable a')" for oid i
  proof -
    have "snd ` {e \<in> set (la_spendable a'). fst e = oid} \<noteq> {}" using that by force
    then show ?thesis using get_spendable_eq [OF wf'] by simp
  qed
  show ?thesis
  proof (cases ok)
    case True
    then have "a' = a\<lparr>la_pubs := insort (out_pub out) (la_pubs a),
        la_spendable := insort (sm_id (out_spend_meta out), out_recipient out) (la_spendable a),
        la_outputs := la_outputs a @ [out]\<rparr>" and new: "out_pub out \<notin> set (la_pubs a)"
      using assms by (auto simp: add_received_eq split: if_splits)
    then have "(sm_id (out_spend_meta out), out_recipient out) \<in> set (la_spendable a')"
      "la_outputs a' = la_outputs a @ [out]" "out_pub out \<in> set (la_pubs a')"
      by (simp_all add: set_insort_key)
    with found True new wf' show ?thesis by blast
  qed (use assms wf' in \<open>auto simp: add_received_eq split: if_splits\<close>)
qed

theorem add_received_result_witness:
  "get_spendable (Output_id 0 6) (fst (add_received (sample_output 6 33) sample_tracked)) \<noteq> None"
proof -
  have wf: "account_wf sample_tracked" by (simp add: sample_tracked_def)
  have "snd (add_received (sample_output 6 33) sample_tracked)" by code_simp
  with add_received_result [OF wf surjective_pairing, of "sample_output 6 33"] show ?thesis
    by (simp add: sample_output_def)
qed

end
