(* ===== verification/Storage_Update.thy ===== *)
theory Storage_Update
  imports Storage_Accounts Account
begin

text \<open>
  Storing the result of a scan (\<^verbatim>\<open>storage::update\<close> of \<^verbatim>\<open>src/db/storage.cpp\<close>) and the webhook
  tables: registering and removing hooks, and the events of confirmations still to be sent.
\<close>

section \<open>Webhooks\<close>

definition find_webhook :: "env \<Rightarrow> db \<Rightarrow> webhook_key \<Rightarrow> u64 \<Rightarrow> webhook_value list" where
  "find_webhook E d key payment_id =
     takeWhile (\<lambda>v. wd_payment_id (fst v) = payment_id)
       (dups_from (tb_webhooks E) (db_webhooks d) key (Webhook_dupsort payment_id 0))"

text \<open>\<^verbatim>\<open>get_webhooks\<close>: the hooks grouped by key.\<close>

fun group_rows :: "('k, 'v) rows \<Rightarrow> ('k \<times> 'v list) list" where
  "group_rows [] = []"
| "group_rows (r # rs) =
     (case group_rows rs of
        [] \<Rightarrow> [(fst r, [snd r])]
      | (k, vs) # gs \<Rightarrow> if k = fst r then (k, snd r # vs) # gs else (fst r, [snd r]) # (k, vs) # gs)"

definition get_webhooks :: "env \<Rightarrow> db \<Rightarrow> (webhook_key \<times> webhook_value list) list" where
  "get_webhooks E d = group_rows (all_rows (tb_webhooks E) (db_webhooks d))"

definition check_url :: "env \<Rightarrow> string \<Rightarrow> bool" where
  "check_url E url =
     (if url = ''zmq'' then True
      else if url = '''' then False
      else case env_parse_url E url of
        None \<Rightarrow> False
      | Some schema \<Rightarrow> schema = ''http'' \<or> schema = ''https'')"

definition add_webhook :: "env \<Rightarrow> webhook_type \<Rightarrow> account_address option \<Rightarrow> webhook_value \<Rightarrow> db \<Rightarrow> db expect" where
  "add_webhook E type address event d =
     (if \<not> check_url E (wh_url (snd event)) then Inl bad_url
      else
        let user = (case address of
              None \<Rightarrow> invalid_account
            | Some a \<Rightarrow> (case lookup_address E d a of None \<Rightarrow> invalid_account | Some r \<Rightarrow> lk_id (ba_lookup r))) in
        if user = invalid_account \<and> (type = tx_confirmation \<or> type = tx_spend) then Inl bad_webhook
        else Inr (d\<lparr>db_webhooks := put (tb_webhooks E) (db_webhooks d) (Webhook_key user type) event\<rparr>))"

definition clear_webhooks_one :: "env \<Rightarrow> account_address \<Rightarrow> db \<Rightarrow> db expect" where
  "clear_webhooks_one E address d =
     ebind (eget MDB_NOTFOUND (lookup_address E d address)) (\<lambda>r.
     let user = lk_id (ba_lookup r) in
     Inr (d\<lparr>db_webhooks := del_dups (tb_webhooks E) (db_webhooks d) (Webhook_key user tx_confirmation),
            db_events := del_dups (tb_events E) (db_events d) user\<rparr>))"

definition clear_webhooks :: "env \<Rightarrow> account_address list \<Rightarrow> db \<Rightarrow> db expect" where
  "clear_webhooks E addresses d = efold (clear_webhooks_one E) addresses d"

text \<open>The overload for ids; \<^verbatim>\<open>std::binary_search\<close> on the sorted vector is membership.\<close>

definition clear_webhook_ids :: "env \<Rightarrow> uuid list \<Rightarrow> db \<Rightarrow> db" where
  "clear_webhook_ids E ids d =
     (if ids = [] then d
      else
        let d = d\<lparr>db_webhooks := fold (\<lambda>(k, v) t.
                if wd_event_id (fst v) \<in> set ids then del_at (tb_webhooks E) t k (fst v) else t)
              (all_rows (tb_webhooks E) (db_webhooks d)) (db_webhooks d)\<rparr> in
        d\<lparr>db_events := fold (\<lambda>(k, e) t.
                if wd_event_id (we_hook e) \<in> set ids then del_at (tb_events E) t k e else t)
              (all_rows (tb_events E) (db_events d)) (db_events d)\<rparr>)"

section \<open>Storing received outputs and spends\<close>

definition add_spends :: "env \<Rightarrow> account_id \<Rightarrow> spend list \<Rightarrow> db \<Rightarrow> db" where
  "add_spends E user sps d =
     (let d = d\<lparr>db_spends := bulk_insert (tb_spends E) (db_spends d) user sps\<rparr> in
      d\<lparr>db_images := fold (\<lambda>s t.
            case put_nodup (tb_images E) t (sp_source s) \<lparr>ki_value = sp_image s, ki_link = sp_link s\<rparr> of
              None \<Rightarrow> t
            | Some t' \<Rightarrow> t')
          sps (db_images d)\<rparr>)"

definition output_events :: "env \<Rightarrow> db \<Rightarrow> account_id \<Rightarrow> db_output \<Rightarrow> webhook_event list" where
  "output_events E d user out =
     map (\<lambda>v. Webhook_event (Webhook_output (out_link out) (sm_id (out_spend_meta out))) (fst v))
       (find_webhook E d (Webhook_key user tx_confirmation) (le_u64 (out_payment_id out)))"

definition check_hooks :: "env \<Rightarrow> lws_account \<Rightarrow> db \<Rightarrow> db" where
  "check_hooks E user d =
     d\<lparr>db_events := fold (\<lambda>out t. bulk_overwrite (tb_events E) t (la_id user) (output_events E d (la_id user) out))
         (la_outputs user) (db_events d)\<rparr>"

text \<open>
  The copies of a confirmation event for the following blocks: the confirmations after \<open>c\<close>, for
  at most \<open>n\<close> blocks and until the requested number is reached.
\<close>

fun confirm_loop :: "u32 \<Rightarrow> u32 \<Rightarrow> nat \<Rightarrow> u32 list" where
  "confirm_loop requested c 0 = []"
| "confirm_loop requested c (Suc n) =
     (if requested \<le> c then [] else (c + 1) # confirm_loop requested (c + 1) n)"

definition confirmations :: "u32 \<Rightarrow> block_id \<Rightarrow> block_id \<Rightarrow> block_id \<Rightarrow> u32 list" where
  "confirmations requested height this_begin end_height =
     (let c = ucast (this_begin - height + 1) in
      c # confirm_loop requested c (unat (end_height - (this_begin + 1))))"

definition ongoing_event :: "env \<Rightarrow> account_id \<Rightarrow> block_id \<Rightarrow> block_id \<Rightarrow> webhook_event \<Rightarrow> db \<times> webhook_tx_confirmation list \<Rightarrow> (db \<times> webhook_tx_confirmation list) expect" where
  "ongoing_event E user begin_height end_height event s =
     (case s of (d, events) \<Rightarrow>
       let height = link_height (wo_tx (we_link event));
           this_begin = max begin_height height in
       if this_begin < end_height
       then
         let hook_key = Webhook_key user tx_confirmation in
         ebind (eget MDB_NOTFOUND (get_both (tb_webhooks E) (db_webhooks d) hook_key (we_hook event))) (\<lambda>hook.
         ebind (eget MDB_NOTFOUND (get_both (tb_outputs E) (db_outputs d) user
             (height, tx_hash (wo_tx (we_link event)), wo_out (we_link event)))) (\<lambda>out.
         let cs = confirmations (wh_confirmations (snd hook)) height this_begin end_height;
             new = map (\<lambda>c. \<lparr>tc_key = hook_key, tc_value = (fst hook, (snd hook)\<lparr>wh_confirmations := c\<rparr>), tc_tx_info = out\<rparr>) cs in
         Inr (if wh_confirmations (snd hook) \<le> last cs
              then d\<lparr>db_events := del_at (tb_events E) (db_events d) user event\<rparr> else d,
              events @ new)))
       else Inr (d, events))"

definition add_ongoing_hooks :: "env \<Rightarrow> account_id \<Rightarrow> block_id \<Rightarrow> block_id \<Rightarrow> db \<times> webhook_tx_confirmation list \<Rightarrow> (db \<times> webhook_tx_confirmation list) expect" where
  "add_ongoing_hooks E user begin_height end_height s =
     (if begin_height = end_height then Inr s
      else efold (ongoing_event E user begin_height end_height)
        (dups (tb_events E) (db_events (fst s)) user) s)"

fun find_source :: "spend \<Rightarrow> db_output list \<Rightarrow> spend_meta expect" where
  "find_source s [] = Inl MDB_NOTFOUND"
| "find_source s (out # outs) =
     (if sm_id (out_spend_meta out) = sp_source s then Inr (out_spend_meta out)
      else if link_height (sp_link s) < link_height (out_link out) then Inl MDB_NOTFOUND
      else find_source s outs)"

definition spend_event :: "webhook_key \<Rightarrow> webhook_value \<Rightarrow> db_output list \<Rightarrow> spend \<Rightarrow> webhook_tx_spend list \<Rightarrow> webhook_tx_spend list expect" where
  "spend_event hook_key hook outs s events =
     ebind (find_source s outs) (\<lambda>meta.
       Inr (events @ [\<lparr>ts_key = hook_key, ts_value = hook, ts_input = s, ts_source = meta\<rparr>]))"

definition check_spends :: "env \<Rightarrow> lws_account \<Rightarrow> db \<Rightarrow> webhook_tx_spend list \<Rightarrow> webhook_tx_spend list expect" where
  "check_spends E user d events =
     (let outs = dups (tb_outputs E) (db_outputs d) (la_id user);
          hook_key = Webhook_key (la_id user) tx_spend in
      if outs = [] then Inr events
      else efold (\<lambda>hook. efold (spend_event hook_key hook outs) (la_spends user))
             (dups (tb_webhooks E) (db_webhooks d) hook_key) events)"

section \<open>Update\<close>

record update_result =
  ur_spend_pubs :: "webhook_tx_spend list"
  ur_confirm_pubs :: "webhook_tx_confirmation list"
  ur_accounts_updated :: nat

definition empty_result :: update_result where
  "empty_result = \<lparr>ur_spend_pubs = [], ur_confirm_pubs = [], ur_accounts_updated = 0\<rparr>"

text \<open>The chain part of the transaction.\<close>

definition update_blocks :: "env \<Rightarrow> block_id \<Rightarrow> hash list \<Rightarrow> pow_sync list \<Rightarrow> bool \<Rightarrow> db \<Rightarrow> db expect" where
  "update_blocks E height chain pow regtest d =
     (let last_update = height + of_nat (length chain) - 1 in
      if regtest \<or> env_max_height E \<le> last_update
      then
        ebind (get_last_block E d) (\<lambda>last_block.
        if bi_id last_block < height then Inl bad_blockchain
        else
          let last_same = min (bi_id last_block) last_update;
              offset = last_same - height in
          ebind (eunwrap (do_get_block_hash E d last_same)) (\<lambda>hash.
          if hash \<noteq> chain ! unat offset then Inl blockchain_reorg
          else
            let d = d\<lparr>db_blocks := append_block_hashes E (height + offset + 1)
                       (drop (unat offset + 1) chain) [] (db_blocks d)\<rparr> in
            Inr (if pow \<noteq> []
                 then d\<lparr>db_pows := append_pow E (height + offset + 1) (drop (unat offset + 1) pow) [] (db_pows d)\<rparr>
                 else d)))
      else
        case get_both (tb_blocks E) (db_blocks d) blocks_version last_update of
          None \<Rightarrow> Inr d
        | Some cur_block \<Rightarrow> if last chain \<noteq> bi_hash cur_block then Inl bad_blockchain else Inr d)"

text \<open>
  The stored account of a scanned account: active accounts first, then by address; \<open>None\<close> when
  there is none and the loop goes on with the next account.
\<close>

definition find_existing :: "env \<Rightarrow> lws_account \<Rightarrow> db \<Rightarrow> (account_status \<times> account) option expect" where
  "find_existing E user d =
     (case get_both (tb_accounts E) (db_accounts d) active (la_id user) of
        Some a \<Rightarrow> Inr (Some (active, a))
      | None \<Rightarrow>
          ebind (db_address user) (\<lambda>address.
          case lookup_address E d address of
            None \<Rightarrow> Inr None
          | Some r \<Rightarrow>
              ebind (eget MDB_NOTFOUND (get_both (tb_accounts E) (db_accounts d) (lk_status (ba_lookup r)) (la_id user)))
                (\<lambda>a. Inr (Some (lk_status (ba_lookup r), a)))))"

text \<open>The part of the loop body after the checks on heights.\<close>

definition store_user :: "env \<Rightarrow> u64 \<Rightarrow> u64 \<Rightarrow> lws_account \<Rightarrow> account_status \<Rightarrow> account \<Rightarrow> db \<Rightarrow> update_result \<Rightarrow> (db \<times> update_result) expect" where
  "store_user E first_new last_update user status existing d out =
     (let existing_height = acc_scan_height existing;
          uid = la_id user;
          d = d\<lparr>db_accounts := put_current (tb_accounts E) (db_accounts d) status uid
                 (existing\<lparr>acc_scan_height := last_update\<rparr>)\<rparr> in
      ebind (eget MDB_NOTFOUND (get_both (tb_accounts_bh E) (db_accounts_bh d) existing_height uid)) (\<lambda>_.
      let d = d\<lparr>db_accounts_bh := del_at (tb_accounts_bh E) (db_accounts_bh d) existing_height uid\<rparr>;
          d = d\<lparr>db_outputs := bulk_insert (tb_outputs E) (db_outputs d) uid (la_outputs user)\<rparr>;
          d = add_spends E uid (la_spends user) d;
          ongoing_start = max first_new (existing_height + 1);
          d = check_hooks E user d in
      ebind (add_ongoing_hooks E uid ongoing_start (last_update + 1) (d, ur_confirm_pubs out)) (\<lambda>(d, confirm_pubs).
      ebind (check_spends E user d (ur_spend_pubs out)) (\<lambda>spend_pubs.
        Inr (d, out\<lparr>ur_confirm_pubs := confirm_pubs, ur_spend_pubs := spend_pubs\<rparr>)))))"

text \<open>
  The loop over the accounts. The lookups of updated accounts are gathered in \<^verbatim>\<open>heights\<close> and
  written to the height index 127 at a time.
\<close>

record update_state =
  us_db :: db
  us_heights :: "account_lookup list"
  us_out :: update_result

definition flush_heights :: "env \<Rightarrow> u64 \<Rightarrow> update_state \<Rightarrow> update_state" where
  "flush_heights E last_update s =
     s\<lparr>us_db := (us_db s)\<lparr>db_accounts_bh :=
          bulk_insert (tb_accounts_bh E) (db_accounts_bh (us_db s)) last_update (us_heights s)\<rparr>,
       us_heights := []\<rparr>"

definition update_user :: "env \<Rightarrow> u64 \<Rightarrow> u64 \<Rightarrow> lws_account \<Rightarrow> update_state \<Rightarrow> update_state expect" where
  "update_user E first_new last_update user s =
     (let s = (if length (us_heights s) = 127 then flush_heights E last_update s else s) in
      ebind (find_existing E user (us_db s)) (\<lambda>found.
      case found of
        None \<Rightarrow> Inr s
      | Some (status, existing) \<Rightarrow>
          if acc_scan_height existing < la_height user then Inr s
          else
            let s = s\<lparr>us_out := (us_out s)\<lparr>ur_accounts_updated := ur_accounts_updated (us_out s) + 1\<rparr>\<rparr> in
            if last_update \<le> acc_scan_height existing then Inr s
            else
              ebind (store_user E first_new last_update user status existing (us_db s) (us_out s)) (\<lambda>(d, out).
                Inr (s\<lparr>us_db := d, us_out := out,
                       us_heights := us_heights s @ [\<lparr>lk_id = la_id user, lk_status = status\<rparr>]\<rparr>))))"

definition update :: "env \<Rightarrow> block_id \<Rightarrow> hash list \<Rightarrow> lws_account list \<Rightarrow> pow_sync list \<Rightarrow> bool \<Rightarrow> db \<Rightarrow> (db \<times> update_result) expect" where
  "update E height chain users pow regtest d =
     (if users = [] \<and> chain = [] then Inr (d, empty_result)
      else if chain = [] then Inl kInvalidArgument
      else if pow \<noteq> [] \<and> length chain \<noteq> length pow then Inl kInvalidArgument
      else
        let last_update = height + of_nat (length chain) - 1;
            first_new = height + 1 in
        ebind (update_blocks E height chain pow regtest d) (\<lambda>d.
        ebind (efold (update_user E first_new last_update) users
                 \<lparr>us_db = d, us_heights = [], us_out = empty_result\<rparr>) (\<lambda>s.
        let s = flush_heights E last_update s in
        Inr (us_db s, us_out s))))"

definition get_full_account :: "env \<Rightarrow> (account_address \<Rightarrow> string) \<Rightarrow> db \<Rightarrow> account \<Rightarrow> lws_account" where
  "get_full_account E address_string d user =
     load_account address_string user (get_outputs E d (acc_id user))"

end
