(* ===== verification/Storage_Index.thy ===== *)
theory Storage_Index
  imports Storage_Update
begin

text \<open>
  The consistency of the account tables. \<open>idx_inv\<close> describes them in the middle of an operation
  that gathers lookups (\<open>pend\<close>) to write them under one height \<open>h\<close> at the end; \<open>index_inv\<close> is
  the invariant between operations.
\<close>

lemma less_add_one_u32: "(x :: u32) \<noteq> max_u32 \<Longrightarrow> x < x + 1"
  unfolding max_u32_def using inc_less_eq_triv_imp linorder_not_less by blast

section \<open>The invariant\<close>

definition ba_row :: "account_status \<times> account \<Rightarrow> nat \<times> account_by_address" where
  "ba_row r = (by_address_version,
     \<lparr>ba_address = acc_address (snd r), ba_lookup = \<lparr>lk_id = acc_id (snd r), lk_status = fst r\<rparr>\<rparr>)"

definition bh_row :: "account_status \<times> account \<Rightarrow> block_id \<times> account_lookup" where
  "bh_row r = (acc_scan_height (snd r), \<lparr>lk_id = acc_id (snd r), lk_status = fst r\<rparr>)"

definition acc_rows_ok :: "(account_status, account) rows \<Rightarrow> (nat, account_by_address) rows \<Rightarrow> (block_id, account_lookup) rows \<Rightarrow> bool" where
  "acc_rows_ok acc ba bh \<longleftrightarrow> table_wf acc_id acc \<and> table_wf ba_sort ba \<and> table_wf lk_id bh
     \<and> distinct (map (\<lambda>r. acc_id (snd r)) acc) \<and> set ba = ba_row ` set acc"

definition idx_inv :: "block_id \<Rightarrow> account_lookup list \<Rightarrow> (account_status, account) rows \<Rightarrow> (nat, account_by_address) rows \<Rightarrow> (block_id, account_lookup) rows \<Rightarrow> bool" where
  "idx_inv h pend acc ba bh \<longleftrightarrow> acc_rows_ok acc ba bh
     \<and> bh_row ` set acc = set bh \<union> Pair h ` set pend
     \<and> distinct (map lk_id pend) \<and> (\<forall>r \<in> set bh. lk_id (snd r) \<notin> lk_id ` set pend)"

definition index_inv :: "db \<Rightarrow> bool" where
  "index_inv d \<longleftrightarrow> acc_rows_ok (db_accounts d) (db_accounts_ba d) (db_accounts_bh d)
     \<and> set (db_accounts_bh d) = bh_row ` set (db_accounts d)"

lemma index_inv_idx: "index_inv d \<longleftrightarrow> idx_inv h [] (db_accounts d) (db_accounts_ba d) (db_accounts_bh d)"
  by (auto simp: index_inv_def idx_inv_def)

lemma acc_unique:
  assumes "distinct (map (\<lambda>r. acc_id (snd r)) acc)" and "(s, a) \<in> set acc" and "(s', a') \<in> set acc"
    and "acc_id a = acc_id a'"
  shows "s = s' \<and> a = a'"
  using assms inj_onD [of "\<lambda>r. acc_id (snd r)" "set acc" "(s, a)" "(s', a')"] by (simp add: distinct_map)

lemma inj_on_bh_row: "distinct (map (\<lambda>r. acc_id (snd r)) acc) \<Longrightarrow> inj_on bh_row (set acc)"
  by (auto simp: inj_on_def bh_row_def dest: acc_unique)

lemma inj_on_ba_row: "distinct (map (\<lambda>r. acc_id (snd r)) acc) \<Longrightarrow> inj_on ba_row (set acc)"
  by (auto simp: inj_on_def ba_row_def dest: acc_unique)

lemma row_key_other:
  assumes "table_wf sk t" and "(k, v) \<in> set t"
  shows "{r \<in> set t. row_key sk r \<noteq> (k, sk v)} = set t - {(k, v)}"
proof -
  have "r = (k, v)" if "r \<in> set t" "row_key sk r = (k, sk v)" for r
    using table_wf_inj [OF assms(1) that(1) assms(2)] that(2) by (simp add: row_key_def)
  then show ?thesis by (auto simp: row_key_def)
qed

lemma set_t_set_row:
  assumes "table_wf sk t" and "(k, v) \<in> set t" and "s = sk v"
  shows "set (t_set sk t k s v') = insert (k, v') (set t - {(k, v)})"
  using assms row_key_other [OF assms(1,2)] by (auto simp: set_t_set)

lemma set_t_del_row:
  assumes "table_wf sk t" and "(k, v) \<in> set t" and "s = sk v"
  shows "set (t_del sk t k s) = set t - {(k, v)}"
  using assms row_key_other [OF assms(1,2)] by (simp add: set_t_del)

lemma set_t_put_new:
  assumes "table_wf sk t" and "\<And>w. (k, w) \<in> set t \<Longrightarrow> sk w \<noteq> sk v"
  shows "set (t_put sk t k v) = insert (k, v) (set t)"
  using assms by (auto simp: set_t_put row_key_def)

lemma acc_rows_okI:
  assumes "table_wf acc_id acc" and "table_wf ba_sort ba" and "table_wf lk_id bh"
    and "inj_on (\<lambda>r. acc_id (snd r)) (set acc)" and "set ba = ba_row ` set acc"
  shows "acc_rows_ok acc ba bh"
  using assms by (simp add: acc_rows_ok_def distinct_map table_wf_distinct)

section \<open>Replacing an account\<close>

lemma map_acc_id_t_set:
  "acc_id a' = i \<Longrightarrow> map (\<lambda>r. acc_id (snd r)) (t_set acc_id acc s i a') = map (\<lambda>r. acc_id (snd r)) acc"
  by (auto simp: t_set_def at_row_def)

lemma set_t_set_acc:
  assumes "distinct (map (\<lambda>r. acc_id (snd r)) acc)" and "(s, a) \<in> set acc"
  shows "set (t_set acc_id acc s (acc_id a) a') = insert (s, a') (set acc - {(s, a)})"
proof -
  have "r = (s, a)" if "r \<in> set acc" "fst r = s" "acc_id (snd r) = acc_id a" for r
    using acc_unique [OF assms(1), of "fst r" "snd r" s a] assms(2) that by (cases r) simp
  then have "{r \<in> set acc. row_key acc_id r \<noteq> (s, acc_id a)} = set acc - {(s, a)}"
    by (auto simp: row_key_def)
  moreover have "\<exists>v'. (s, v') \<in> set acc \<and> acc_id v' = acc_id a" using assms(2) by blast
  ultimately show ?thesis by (simp add: set_t_set)
qed

lemma acc_rows_replace:
  assumes "acc_rows_ok acc ba bh" and "(s, a) \<in> set acc" and "acc_id a' = acc_id a"
    and "acc_address a' = acc_address a" and "table_wf lk_id bh'"
  shows "acc_rows_ok (t_set acc_id acc s (acc_id a) a') ba bh'"
proof -
  have dist: "distinct (map (\<lambda>r. acc_id (snd r)) acc)" using assms(1) by (simp add: acc_rows_ok_def)
  have "ba_row (s, a') = ba_row (s, a)" using assms by (simp add: ba_row_def)
  then have "ba_row ` set (t_set acc_id acc s (acc_id a) a') = ba_row ` set acc"
    using assms(2) by (auto simp: set_t_set_acc [OF dist assms(2)])
  then show ?thesis using assms dist by (simp add: acc_rows_ok_def table_wf_set map_acc_id_t_set)
qed

text \<open>The scan height stays: both indexes stay.\<close>

lemma idx_replace:
  assumes "idx_inv h pend acc ba bh" and "(s, a) \<in> set acc" and "acc_id a' = acc_id a"
    and "acc_address a' = acc_address a" and "acc_scan_height a' = acc_scan_height a"
  shows "idx_inv h pend (t_set acc_id acc s (acc_id a) a') ba bh"
proof -
  have ok: "acc_rows_ok acc ba bh" using assms(1) by (simp add: idx_inv_def)
  then have dist: "distinct (map (\<lambda>r. acc_id (snd r)) acc)" by (simp add: acc_rows_ok_def)
  have "bh_row (s, a') = bh_row (s, a)" using assms by (simp add: bh_row_def)
  then have "bh_row ` set (t_set acc_id acc s (acc_id a) a') = bh_row ` set acc"
    using assms(2) by (auto simp: set_t_set_acc [OF dist assms(2)])
  then show ?thesis using assms(1) acc_rows_replace [OF ok assms(2-4)] ok
    unfolding idx_inv_def by (simp add: acc_rows_ok_def [of acc])
qed

text \<open>The scan height becomes \<open>h\<close>: the lookup goes from the height index to the pending ones.\<close>

lemma idx_touch:
  assumes inv: "idx_inv h pend acc ba bh" and a: "(s, a) \<in> set acc" and "acc_id a' = acc_id a"
    and "acc_address a' = acc_address a" and "acc_scan_height a' = h"
    and bh: "(acc_scan_height a, \<lparr>lk_id = acc_id a, lk_status = s\<rparr>) \<in> set bh"
  shows "idx_inv h (pend @ [\<lparr>lk_id = acc_id a, lk_status = s\<rparr>])
    (t_set acc_id acc s (acc_id a) a') ba (t_del lk_id bh (acc_scan_height a) (acc_id a))"
proof -
  have ok: "acc_rows_ok acc ba bh" and rows: "bh_row ` set acc = set bh \<union> Pair h ` set pend"
    and pd: "distinct (map lk_id pend)" "\<forall>r \<in> set bh. lk_id (snd r) \<notin> lk_id ` set pend"
    using inv by (simp_all add: idx_inv_def)
  then have dist: "distinct (map (\<lambda>r. acc_id (snd r)) acc)" and wf: "table_wf lk_id bh"
    by (simp_all add: acc_rows_ok_def)
  let ?lk = "\<lparr>lk_id = acc_id a, lk_status = s\<rparr>"
  have row: "bh_row (s, a) = (acc_scan_height a, ?lk)" "bh_row (s, a') = (h, ?lk)"
    using assms by (simp_all add: bh_row_def)
  have only: "r = bh_row (s, a)" if r: "r \<in> bh_row ` set acc" "lk_id (snd r) = acc_id a" for r
    using r a dist by (auto simp: bh_row_def dest: acc_unique)
  have id: "acc_id a \<notin> lk_id ` set pend" using pd(2) bh by auto
  have del: "set (t_del lk_id bh (acc_scan_height a) (acc_id a)) = set bh - {bh_row (s, a)}"
    using only rows row(1) by (auto simp: set_t_del row_key_def)
  have "bh_row ` (set acc - {(s, a)}) = bh_row ` set acc - {bh_row (s, a)}"
    using inj_on_image_set_diff [OF inj_on_bh_row [OF dist], of "set acc" "{(s, a)}"] a by simp
  moreover have "bh_row (s, a) \<notin> Pair h ` set pend"
    using id imageI [of ?lk "set pend" lk_id] by (auto simp: bh_row_def)
  ultimately have "bh_row ` set (t_set acc_id acc s (acc_id a) a') =
      set (t_del lk_id bh (acc_scan_height a) (acc_id a)) \<union> Pair h ` set (pend @ [?lk])"
    unfolding set_t_set_acc [OF dist a] del using rows row by auto
  moreover have "lk_id (snd r) \<noteq> acc_id a" if "r \<in> set bh - {bh_row (s, a)}" for r
    using only [of r] that rows by auto
  ultimately show ?thesis
    using acc_rows_replace [OF ok a assms(3,4) table_wf_del [OF wf]] pd id
    by (auto simp: idx_inv_def del)
qed

lemma idx_lookup:
  assumes "idx_inv h pend acc ba bh" and "t_get ba_sort ba by_address_version v = Some r"
  shows "\<exists>a. (lk_status (ba_lookup r), a) \<in> set acc \<and> r = snd (ba_row (lk_status (ba_lookup r), a))
    \<and> view_public (acc_address a) = v \<and> t_get acc_id acc (lk_status (ba_lookup r)) (lk_id (ba_lookup r)) = Some a"
proof -
  have ok: "acc_rows_ok acc ba bh" using assms(1) by (simp add: idx_inv_def)
  then have "(by_address_version, r) \<in> ba_row ` set acc" "ba_sort r = v"
    using assms(2) by (auto simp: acc_rows_ok_def t_get_Some_iff)
  with ok show ?thesis by (auto simp: ba_row_def ba_sort_def acc_rows_ok_def t_get_Some_iff)
qed

lemma idx_height:
  assumes "idx_inv h [] acc ba bh" and "(s, a) \<in> set acc"
  shows "(acc_scan_height a, \<lparr>lk_id = acc_id a, lk_status = s\<rparr>) \<in> set bh"
  using assms by (force simp: idx_inv_def bh_row_def)

context storage_env
begin

text \<open>Writing the pending lookups.\<close>

lemma idx_flush:
  assumes "idx_inv h pend acc ba bh"
  shows "idx_inv h [] acc ba (bulk_insert (tb_accounts_bh E) bh h pend)"
proof -
  have wf: "table_wf lk_id bh" using assms by (simp add: idx_inv_def acc_rows_ok_def)
  have "lk_id v \<noteq> lk_id w" if "v \<in> set pend" "(h, w) \<in> set bh" for v w
    using assms that unfolding idx_inv_def by (metis imageI snd_conv)
  then have "set (bulk_insert (tb_accounts_bh E) bh h pend) = set bh \<union> {h} \<times> set pend"
    using assms by (intro dupsort_table.set_bulk_insert_new [OF accounts_bh wf]) (simp_all add: idx_inv_def)
  moreover have "table_wf lk_id (bulk_insert (tb_accounts_bh E) bh h pend)"
    by (rule dupsort_table.bulk_insert_wf [OF accounts_bh wf])
  ultimately show ?thesis using assms by (auto simp: idx_inv_def acc_rows_ok_def)
qed

end

section \<open>Operations on one account\<close>

definition acc_tables :: "db \<Rightarrow> (account_status, account) rows \<times> (nat, account_by_address) rows \<times> (block_id, account_lookup) rows" where
  "acc_tables d = (db_accounts d, db_accounts_ba d, db_accounts_bh d)"

lemma acc_tables_simps [simp]:
  "acc_tables (d\<lparr>db_blocks := x1\<rparr>) = acc_tables d"
  "acc_tables (d\<lparr>db_pows := x2\<rparr>) = acc_tables d"
  "acc_tables (d\<lparr>db_outputs := x3\<rparr>) = acc_tables d"
  "acc_tables (d\<lparr>db_spends := x4\<rparr>) = acc_tables d"
  "acc_tables (d\<lparr>db_images := x5\<rparr>) = acc_tables d"
  "acc_tables (d\<lparr>db_requests := x6\<rparr>) = acc_tables d"
  "acc_tables (d\<lparr>db_webhooks := x7\<rparr>) = acc_tables d"
  "acc_tables (d\<lparr>db_events := x8\<rparr>) = acc_tables d"
  "acc_tables (d\<lparr>db_ranges := x9\<rparr>) = acc_tables d"
  "acc_tables (d\<lparr>db_indexes := x10\<rparr>) = acc_tables d"
  by (simp_all add: acc_tables_def)

lemma acc_tablesD:
  assumes "acc_tables d' = acc_tables d"
  shows "db_accounts d' = db_accounts d" "db_accounts_ba d' = db_accounts_ba d" "db_accounts_bh d' = db_accounts_bh d"
  using assms by (simp_all add: acc_tables_def)

lemma index_inv_cong: "acc_tables d' = acc_tables d \<Longrightarrow> index_inv d' = index_inv d"
  by (simp add: index_inv_def acc_tables_def)

context storage_env
begin

lemma lookup_addressD:
  assumes "index_inv d" and "lookup_address E d address = Some r"
  obtains s a where "(s, a) \<in> set (db_accounts d)"
    "r = \<lparr>ba_address = acc_address a, ba_lookup = \<lparr>lk_id = acc_id a, lk_status = s\<rparr>\<rparr>"
    "view_public (acc_address a) = view_public address"
    "t_get acc_id (db_accounts d) s (acc_id a) = Some a"
    "(acc_scan_height a, \<lparr>lk_id = acc_id a, lk_status = s\<rparr>) \<in> set (db_accounts_bh d)"
proof -
  have inv: "idx_inv 0 [] (db_accounts d) (db_accounts_ba d) (db_accounts_bh d)"
    using assms(1) by (simp add: index_inv_idx [of d 0])
  have "t_get ba_sort (db_accounts_ba d) by_address_version (view_public address) = Some r"
    using assms(2) by (simp add: lookup_address_def)
  from idx_lookup [OF inv this] obtain s a
    where a: "(s, a) \<in> set (db_accounts d)" "r = snd (ba_row (s, a))"
      "view_public (acc_address a) = view_public address"
      "t_get acc_id (db_accounts d) (lk_status (ba_lookup r)) (lk_id (ba_lookup r)) = Some a"
    by blast
  have r: "r = \<lparr>ba_address = acc_address a, ba_lookup = \<lparr>lk_id = acc_id a, lk_status = s\<rparr>\<rparr>"
    using a(2) by (simp add: ba_row_def)
  show thesis using that [OF a(1) r a(3)] a(4) idx_height [OF inv a(1)] by (simp add: r)
qed

lemma set_account_index:
  assumes "index_inv d" and "(s, a) \<in> set (db_accounts d)" and "acc_id a = i" and "acc_id a' = i"
    and "acc_address a' = acc_address a" and "acc_scan_height a' = acc_scan_height a"
  shows "index_inv (d\<lparr>db_accounts := put_current (tb_accounts E) (db_accounts d) s i a'\<rparr>)"
  using idx_replace [of 0 "[]" "db_accounts d" "db_accounts_ba d" "db_accounts_bh d" s a a'] assms
  by (simp add: index_inv_idx [of _ 0])

lemma update_access_time_index:
  assumes "index_inv d" and "update_access_time E address d = Inr d'"
  shows "index_inv d'"
proof -
  from assms(2) obtain t r a where r: "lookup_address E d address = Some r"
    and a: "get_both (tb_accounts E) (db_accounts d) (lk_status (ba_lookup r)) (lk_id (ba_lookup r)) = Some a"
    and d': "d' = d\<lparr>db_accounts := put_current (tb_accounts E) (db_accounts d) (lk_status (ba_lookup r)) (lk_id (ba_lookup r)) (a\<lparr>acc_access := t\<rparr>)\<rparr>"
    unfolding update_access_time_def Let_def ebind_eq_Inr eget_eq_Inr by blast
  from lookup_addressD [OF assms(1) r] obtain s b where b: "(s, b) \<in> set (db_accounts d)"
    "r = \<lparr>ba_address = acc_address b, ba_lookup = \<lparr>lk_id = acc_id b, lk_status = s\<rparr>\<rparr>"
    "t_get acc_id (db_accounts d) s (acc_id b) = Some b" by blast
  with a have "a = b" by simp
  then show ?thesis unfolding d' using set_account_index [OF assms(1) b(1)] b(2) by simp
qed

lemma shrink_lookahead_index:
  assumes "index_inv d" and "shrink_lookahead E address lookahead d = Inr d'"
  shows "index_inv d'"
proof -
  from assms(2) obtain r a where r: "lookup_address E d address = Some r"
    and a: "get_both (tb_accounts E) (db_accounts d) (lk_status (ba_lookup r)) (lk_id (ba_lookup r)) = Some a"
    and d': "d' = d\<lparr>db_accounts := put_current (tb_accounts E) (db_accounts d) (lk_status (ba_lookup r)) (lk_id (ba_lookup r)) (a\<lparr>acc_lookahead := lookahead\<rparr>)\<rparr>"
    unfolding shrink_lookahead_def Let_def ebind_eq_Inr eget_eq_Inr by (auto split: if_splits)
  from lookup_addressD [OF assms(1) r] obtain s b where b: "(s, b) \<in> set (db_accounts d)"
    "r = \<lparr>ba_address = acc_address b, ba_lookup = \<lparr>lk_id = acc_id b, lk_status = s\<rparr>\<rparr>"
    "t_get acc_id (db_accounts d) s (acc_id b) = Some b" by blast
  with a have "a = b" by simp
  then show ?thesis unfolding d' using set_account_index [OF assms(1) b(1)] b(2) by simp
qed

text \<open>Changing the status moves an account to another key and updates both indexes in place.\<close>

lemma move_account_index:
  assumes inv: "index_inv d" and r: "lookup_address E d address = Some r"
    and ne: "lk_status (ba_lookup r) \<noteq> status"
    and ok: "move_account E status r d = Inr d'"
  shows "index_inv d'"
proof -
  from lookup_addressD [OF inv r] obtain s a where a: "(s, a) \<in> set (db_accounts d)"
    and req: "r = \<lparr>ba_address = acc_address a, ba_lookup = \<lparr>lk_id = acc_id a, lk_status = s\<rparr>\<rparr>"
    and get: "t_get acc_id (db_accounts d) s (acc_id a) = Some a"
    and bh: "(acc_scan_height a, \<lparr>lk_id = acc_id a, lk_status = s\<rparr>) \<in> set (db_accounts_bh d)" by blast
  let ?lk = "\<lparr>lk_id = acc_id a, lk_status = status\<rparr>"
  let ?r = "\<lparr>ba_address = acc_address a, ba_lookup = ?lk\<rparr>"
  let ?acc = "t_put acc_id (t_del acc_id (db_accounts d) s (acc_id a)) status a"
  let ?ba = "t_set ba_sort (db_accounts_ba d) by_address_version (ba_sort ?r) ?r"
  let ?bh = "t_set lk_id (db_accounts_bh d) (acc_scan_height a) (acc_id a) ?lk"
  have d': "db_accounts d' = ?acc" "db_accounts_ba d' = ?ba" "db_accounts_bh d' = ?bh"
    using ok get by (auto simp: move_account_def Let_def ebind_eq_Inr eget_eq_Inr req split: if_splits)
  have old: "table_wf acc_id (db_accounts d)" "table_wf ba_sort (db_accounts_ba d)"
    "table_wf lk_id (db_accounts_bh d)" "distinct (map (\<lambda>r. acc_id (snd r)) (db_accounts d))"
    "set (db_accounts_ba d) = ba_row ` set (db_accounts d)" "set (db_accounts_bh d) = bh_row ` set (db_accounts d)"
    using inv by (simp_all add: index_inv_def acc_rows_ok_def)
  let ?A = "set (db_accounts d) - {(s, a)}"
  have other: "acc_id (snd x) \<noteq> acc_id a" if "x \<in> ?A" for x
    using acc_unique [OF old(4), of "fst x" "snd x" s a] a that by auto
  have del: "set (t_del acc_id (db_accounts d) s (acc_id a)) = ?A"
    by (rule set_t_del_row [OF old(1) a refl])
  have "acc_id w \<noteq> acc_id a" if "(status, w) \<in> set (t_del acc_id (db_accounts d) s (acc_id a))" for w
    using other [of "(status, w)"] that del by simp
  then have "set ?acc = insert (status, a) (set (t_del acc_id (db_accounts d) s (acc_id a)))"
    by (rule set_t_put_new [OF table_wf_del [OF old(1)]])
  then have acc: "set ?acc = insert (status, a) ?A" by (simp add: del)
  have ba: "set ?ba = ba_row ` set ?acc"
  proof -
    have "(by_address_version, r) \<in> set (db_accounts_ba d)"
      using a unfolding old(5) req by (rule rev_image_eqI) (simp add: ba_row_def)
    then have "set ?ba = insert (by_address_version, ?r) (set (db_accounts_ba d) - {(by_address_version, r)})"
      by (rule set_t_set_row [OF old(2)]) (simp add: ba_sort_def req)
    also have "set (db_accounts_ba d) - {(by_address_version, r)} = ba_row ` ?A"
      using inj_on_image_set_diff [OF inj_on_ba_row [OF old(4)], of "set (db_accounts d)" "{(s, a)}"] a
      by (simp add: old(5) ba_row_def req)
    finally show ?thesis by (simp add: acc ba_row_def)
  qed
  have bh': "set ?bh = bh_row ` set ?acc"
  proof -
    have "set ?bh = insert (acc_scan_height a, ?lk) (set (db_accounts_bh d) - {bh_row (s, a)})"
      unfolding bh_row_def using bh by (subst set_t_set_row [OF old(3)]) simp_all
    also have "set (db_accounts_bh d) - {bh_row (s, a)} = bh_row ` ?A"
      using inj_on_image_set_diff [OF inj_on_bh_row [OF old(4)], of "set (db_accounts d)" "{(s, a)}"] a
      by (simp add: old(6))
    finally show ?thesis by (simp add: acc bh_row_def)
  qed
  have "acc_id a \<notin> (\<lambda>r. acc_id (snd r)) ` ?A" by (metis (no_types, lifting) imageE other)
  moreover have "inj_on (\<lambda>r. acc_id (snd r)) ?A" using old(4) by (simp add: distinct_map inj_on_diff)
  ultimately have "inj_on (\<lambda>r. acc_id (snd r)) (set ?acc)" unfolding acc by (auto simp: inj_on_insert)
  then have "acc_rows_ok ?acc ?ba ?bh"
    using old(1-3) ba by (intro acc_rows_okI) (auto intro!: table_wf_put table_wf_del table_wf_set simp: req)
  then show ?thesis using bh' by (simp add: index_inv_def d')
qed

lemma change_status_index:
  assumes "index_inv d" and "change_status E status addresses d = Inr (d', changed)"
  shows "index_inv d'"
proof -
  have "index_inv (fst (d', changed))"
    using assms(2) unfolding change_status_def
    by (rule efold_invariant [where P = "\<lambda>s. index_inv (fst s)"])
      (use assms(1) in \<open>auto simp: change_status_one_def ebind_eq_Inr move_account_index
        split: option.splits if_splits\<close>)
  then show ?thesis by simp
qed

text \<open>A new account with an id that is not in use.\<close>

lemma do_add_account_index:
  assumes inv: "index_inv d" and fresh: "\<forall>r \<in> set (db_accounts d). acc_id (snd r) \<noteq> acc_id a"
    and ok: "do_add_account E a d = Inr d'"
  shows "index_inv d'"
proof -
  have old: "table_wf acc_id (db_accounts d)" "table_wf ba_sort (db_accounts_ba d)"
    "table_wf lk_id (db_accounts_bh d)" "inj_on (\<lambda>r. acc_id (snd r)) (set (db_accounts d))"
    "set (db_accounts_ba d) = ba_row ` set (db_accounts d)" "set (db_accounts_bh d) = bh_row ` set (db_accounts d)"
    using inv by (simp_all add: index_inv_def acc_rows_ok_def distinct_map)
  obtain s where s: "s = (if acc_flags a = admin_account then hidden else active)" by simp
  from ok obtain ba bh acc where put:
    "put_nodup (tb_accounts_ba E) (db_accounts_ba d) by_address_version (snd (ba_row (s, a))) = Some ba"
    "put_nodup (tb_accounts_bh E) (db_accounts_bh d) (acc_scan_height a) (snd (bh_row (s, a))) = Some bh"
    "put_nodup (tb_accounts E) (db_accounts d) s a = Some acc"
    and d': "d' = d\<lparr>db_accounts_ba := ba, db_accounts_bh := bh, db_accounts := acc\<rparr>"
    unfolding do_add_account_def Let_def s [symmetric]
    by (auto simp: ebind_eq_Inr eget_eq_Inr ba_row_def bh_row_def simp del: accounts_laws accounts_ba_laws accounts_bh_laws split: if_splits)
  from put have sets: "set ba = insert (ba_row (s, a)) (set (db_accounts_ba d))" "table_wf ba_sort ba"
    "set bh = insert (bh_row (s, a)) (set (db_accounts_bh d))" "table_wf lk_id bh"
    "set acc = insert (s, a) (set (db_accounts d))" "table_wf acc_id acc"
    using old(1-3)
    by (auto simp: t_get_None_iff set_t_put_new table_wf_put ba_row_def bh_row_def split: if_splits)
  have "inj_on (\<lambda>r. acc_id (snd r)) (set acc)"
    using old(4) fresh unfolding sets by (auto simp: inj_on_insert)
  then have "acc_rows_ok acc ba bh" using sets old(5) by (intro acc_rows_okI) auto
  then show ?thesis using sets old(6) by (simp add: index_inv_def d')
qed

end

lemma last_dups_bound:
  assumes "table_wf sk t" and "(k, v) \<in> set t"
  shows "\<exists>w \<in> set (last_dups t). sk v \<le> sk w"
  using assms
proof (induction t arbitrary: k v rule: last_dups.induct)
  case (3 r r' rs)
  have wf: "table_wf sk (r' # rs)" using "3.prems"(1) by (simp add: table_wf_Cons)
  show ?case
  proof (cases "fst r = fst r'")
    case True
    then have less: "sk (snd r) < sk (snd r')" using "3.prems"(1) by (auto simp: table_wf_Cons row_key_def)
    from "3.IH"(1) [OF True wf, of "fst r'" "snd r'"] obtain w where
      w: "w \<in> set (last_dups (r' # rs))" "sk (snd r') \<le> sk w" by auto
    show ?thesis
    proof (cases "(k, v) = r")
      case True
      then have "sk v \<le> sk w" using less w(2) by auto
      then show ?thesis using w(1) \<open>fst r = fst r'\<close> by auto
    next
      case False
      then show ?thesis using "3.IH"(1) [OF \<open>fst r = fst r'\<close> wf, of k v] "3.prems"(2) \<open>fst r = fst r'\<close> by auto
    qed
  next
    case False
    then show ?thesis using "3.IH"(2) [OF False wf, of k v] "3.prems"(2) by auto
  qed
qed auto

lemma fold_max_ge: "x \<in> set xs \<Longrightarrow> x \<le> fold max xs (m :: 'a::linorder)"
  by (metis List.finite_set Max.set_eq_fold Max_ge list.set_intros(2))

context storage_env
begin

lemma find_last_id_bound:
  assumes "index_inv d" and "r \<in> set (db_accounts d)"
  shows "acc_id (snd r) \<le> find_last_id E d"
proof -
  have "table_wf acc_id (db_accounts d)" using assms(1) by (simp add: index_inv_def acc_rows_ok_def)
  from last_dups_bound [OF this, of "fst r" "snd r"] assms(2)
  obtain w where w: "w \<in> set (last_dups (db_accounts d))" "acc_id (snd r) \<le> acc_id w" by auto
  have "acc_id w \<le> find_last_id E d" using w(1) by (auto simp: find_last_id_def intro: fold_max_ge)
  with w(2) show ?thesis by simp
qed

lemma next_id_fresh:
  assumes "index_inv d" and "find_last_id E d \<noteq> max_u32"
  shows "\<forall>r \<in> set (db_accounts d). acc_id (snd r) \<noteq> find_last_id E d + 1"
proof
  fix r assume "r \<in> set (db_accounts d)"
  then have "acc_id (snd r) \<le> find_last_id E d" by (rule find_last_id_bound [OF assms(1)])
  moreover have "find_last_id E d < find_last_id E d + 1"
    using assms(2) by (rule less_add_one_u32)
  ultimately show "acc_id (snd r) \<noteq> find_last_id E d + 1" by auto
qed

lemma add_account_index:
  assumes "index_inv d" and "find_last_id E d \<noteq> max_u32" and "add_account E address key flags d = Inr d'"
  shows "index_inv d'"
proof -
  from assms(3) obtain t and b :: block_info where "do_add_account E
      (empty_account\<lparr>acc_id := find_last_id E d + 1, acc_address := address, acc_key := key,
            acc_start_height := bi_id b, acc_scan_height := bi_id b, acc_access := t,
            acc_creation := t, acc_flags := flags\<rparr>) d = Inr d'"
    unfolding add_account_def Let_def ebind_eq_Inr by blast
  then show ?thesis by (rule do_add_account_index [OF assms(1), rotated]) (use next_id_fresh [OF assms(1,2)] in simp)
qed

end

section \<open>Operations that provision subaddresses\<close>

definition without_subs :: "db \<Rightarrow> db" where
  "without_subs d = d\<lparr>db_ranges := [], db_indexes := []\<rparr>"

lemma without_subsD:
  assumes "without_subs d' = without_subs d"
  shows "acc_tables d' = acc_tables d" "db_blocks d' = db_blocks d" "db_pows d' = db_pows d"
    "db_outputs d' = db_outputs d" "db_spends d' = db_spends d" "db_images d' = db_images d"
    "db_requests d' = db_requests d" "db_webhooks d' = db_webhooks d" "db_events d' = db_events d"
  using assms by (cases d; cases d'; simp add: without_subs_def acc_tables_def)+

lemma without_subs_simps [simp]:
  "without_subs (d\<lparr>db_ranges := x\<rparr>) = without_subs d"
  "without_subs (d\<lparr>db_indexes := y\<rparr>) = without_subs d"
  by (simp_all add: without_subs_def)

lemma store_ranges_frame: "without_subs (fst (store_ranges E u a k m nd d)) = without_subs d"
  by (simp add: store_ranges_def Let_def split: option.splits)

lemma upsert_merge_frame: "without_subs (fst (upsert_merge E u mx entry s d)) = without_subs d"
  by (simp add: upsert_merge_def split: option.splits)

lemma upsert_loop_frame: "without_subs (fst (upsert_loop E u a k mx subs s d)) = without_subs d"
proof (induction subs arbitrary: s d)
  case (Cons entry subs)
  show ?case
    using Cons.IH upsert_merge_frame [of E u mx entry s d] store_ranges_frame [of E u a k "fst entry"]
    by (auto split: prod.splits sum.splits) (metis fst_conv)+
qed simp

lemma do_upsert_frame: "without_subs (fst (do_upsert E u a k subs mx d)) = without_subs d"
  by (simp add: do_upsert_def Let_def upsert_loop_frame)

lemma do_lookahead_frame: "without_subs (fst (do_lookahead E u a k la mx d)) = without_subs d"
  using do_upsert_frame [of E u a k _ mx d]
  by (auto simp: do_lookahead_def Let_def split: sum.splits prod.splits) (metis fst_conv)+

lemma do_lookahead_user_frame:
  assumes "do_lookahead_user E user la mx d = (d', r)"
  shows "without_subs d' = without_subs d"
  using assms do_lookahead_frame [of E "acc_id user" "acc_address user" "acc_key user" la mx d]
  by (auto simp: do_lookahead_user_def split: sum.splits prod.splits if_splits)

lemma do_lookahead_user_account:
  assumes "do_lookahead_user E user la mx d = (d', Inr user')"
  shows "acc_id user' = acc_id user" "acc_address user' = acc_address user"
    "acc_scan_height user' = acc_scan_height user" "acc_key user' = acc_key user"
    "acc_start_height user' = acc_start_height user" "acc_flags user' = acc_flags user"
  using assms by (auto simp: do_lookahead_user_def split: sum.splits prod.splits if_splits)

text \<open>\<^verbatim>\<open>change_height\<close> as one change of the account tables, after the other tables were changed.\<close>

definition changed_account :: "block_id \<Rightarrow> account \<Rightarrow> account \<Rightarrow> bool" where
  "changed_account height a a' \<longleftrightarrow> acc_id a' = acc_id a \<and> acc_address a' = acc_address a
     \<and> acc_scan_height a' = min height (acc_scan_height a) \<and> acc_key a' = acc_key a
     \<and> acc_start_height a' = min height (acc_start_height a) \<and> acc_flags a' = acc_flags a"

text \<open>While accounts are created, the ids in use are at most \<^verbatim>\<open>last_id\<close>.\<close>

definition create_inv :: "db \<times> account_id \<times> account_address list \<Rightarrow> bool" where
  "create_inv s \<longleftrightarrow> index_inv (fst s) \<and> fst (snd s) \<noteq> max_u32
     \<and> (\<forall>r \<in> set (db_accounts (fst s)). acc_id (snd r) \<le> fst (snd s))"

definition height_change :: "env \<Rightarrow> block_id \<Rightarrow> account_address \<Rightarrow> db \<Rightarrow> db \<Rightarrow> account_status \<Rightarrow> account \<Rightarrow> account \<Rightarrow> db \<Rightarrow> db \<Rightarrow> (block_id, account_lookup) rows \<Rightarrow> bool" where
  "height_change E height address d d' s a a' d1 d2 bh \<longleftrightarrow>
     (s, a) \<in> set (db_accounts d) \<and> view_public (acc_address a) = view_public address
     \<and> changed_account height a a'
     \<and> rollback_spends E (acc_id a) height (rollback_outputs E (acc_id a) height d) = Inr d1
     \<and> without_subs d2 = without_subs d1
     \<and> (d2 = d1 \<or> (\<exists>user la mx r. acc_id user = acc_id a \<and> do_lookahead_user E user la mx d1 = (d2, r)))
     \<and> put_nodup (tb_accounts_bh E) (t_del lk_id (db_accounts_bh d) (acc_scan_height a) (acc_id a))
         (min height (acc_scan_height a)) \<lparr>lk_id = acc_id a, lk_status = s\<rparr> = Some bh
     \<and> d' = d2\<lparr>db_accounts := t_set acc_id (db_accounts d) s (acc_id a) a', db_accounts_bh := bh\<rparr>
     \<and> (acc_scan_height a, \<lparr>lk_id = acc_id a, lk_status = s\<rparr>) \<in> set (db_accounts_bh d)"

context storage_env
begin

lemma rollback_scan_acc:
  assumes "rollback_spends E u h (rollback_outputs E u h d) = Inr d'"
  shows "acc_tables d' = acc_tables d"
  using without_spendsD [OF rollback_spends_frame [OF assms]]
    without_scanD(3) [OF without_spendsD(1) [OF rollback_spends_frame [OF assms]]]
  by (simp add: acc_tables_def rollback_outputs_eq)

lemma change_heightD:
  assumes "index_inv d" and ok: "change_height E subs height address lookahead max_sub d = Inr d'"
  shows "\<exists>s a a' d1 d2 bh. height_change E height address d d' s a a' d1 d2 bh"
proof -
  from ok obtain r where r: "lookup_address E d address = Some r"
    by (auto simp: change_height_def ebind_eq_Inr eget_eq_Inr)
  from lookup_addressD [OF assms(1) r] obtain s a where a: "(s, a) \<in> set (db_accounts d)"
    and req: "r = \<lparr>ba_address = acc_address a, ba_lookup = \<lparr>lk_id = acc_id a, lk_status = s\<rparr>\<rparr>"
    and vp: "view_public (acc_address a) = view_public address"
    and get: "t_get acc_id (db_accounts d) s (acc_id a) = Some a"
    and bh: "(acc_scan_height a, \<lparr>lk_id = acc_id a, lk_status = s\<rparr>) \<in> set (db_accounts_bh d)" by blast
  let ?user = "a\<lparr>acc_scan_height := min height (acc_scan_height a),
                     acc_start_height := min height (acc_start_height a),
                     acc_lookahead_fail := (if height \<le> acc_lookahead_fail a then 0 else acc_lookahead_fail a)\<rparr>"
  from ok r req get obtain d1 where
    d1: "rollback_spends E (acc_id a) height (rollback_outputs E (acc_id a) height d) = Inr d1"
    by (auto simp: change_height_def Let_def ebind_eq_Inr eget_eq_Inr)
  obtain d2 res where d2: "(if \<not> is_zero lookahead \<and> subs then do_lookahead_user E ?user lookahead max_sub d1 else (d1, Inr ?user)) = (d2, res)"
    by (metis surj_pair)
  from ok r req get d1 d2 obtain user' bh' where res: "res = Inr user'"
    and put: "put_nodup (tb_accounts_bh E) (t_del lk_id (db_accounts_bh d2) (acc_scan_height a) (acc_id user'))
       (min height (acc_scan_height a)) \<lparr>lk_id = acc_id a, lk_status = s\<rparr> = Some bh'"
    and d': "d' = d2\<lparr>db_accounts := put_current (tb_accounts E) (db_accounts d2) s (acc_id a) user', db_accounts_bh := bh'\<rparr>"
    by (cases res) (auto simp: change_height_def Let_def ebind_eq_Inr eget_eq_Inr
        simp del: accounts_bh_laws(8) accounts_laws(9))
  have frame: "without_subs d2 = without_subs d1" and user': "changed_account height a user'"
    using d2 res by (auto simp: changed_account_def dest: do_lookahead_user_frame do_lookahead_user_account split: if_splits)
  have "acc_tables d1 = acc_tables d" by (rule rollback_scan_acc [OF d1])
  with without_subsD(1) [OF frame] have acc: "db_accounts d2 = db_accounts d" "db_accounts_bh d2 = db_accounts_bh d"
    by (simp_all add: acc_tables_def)
  have ida: "acc_id user' = acc_id a" using user' by (simp add: changed_account_def)
  have "d2 = d1 \<or> (\<exists>user la mx r. acc_id user = acc_id a \<and> do_lookahead_user E user la mx d1 = (d2, r))"
  proof (cases "\<not> is_zero lookahead \<and> subs")
    case True
    then have "do_lookahead_user E ?user lookahead max_sub d1 = (d2, res)" using d2 by simp
    then show ?thesis by (intro disjI2 exI [of _ ?user] exI [of _ lookahead] exI [of _ max_sub] exI [of _ res]) simp
  qed (use d2 in auto)
  then have "height_change E height address d d' s a user' d1 d2 bh'"
    unfolding height_change_def using a vp user' d1 frame put d' ida acc bh by simp
  then show ?thesis by blast
qed

lemma change_height_index:
  assumes "index_inv d" and ok: "change_height E subs height address lookahead max_sub d = Inr d'"
  shows "index_inv d'"
proof -
  from change_heightD [OF assms] obtain s a a' d1 d2 bh
    where hc: "height_change E height address d d' s a a' d1 d2 bh" by blast
  then have a: "(s, a) \<in> set (db_accounts d)" and a': "changed_account height a a'"
    and d1: "rollback_spends E (acc_id a) height (rollback_outputs E (acc_id a) height d) = Inr d1"
    and d2: "without_subs d2 = without_subs d1"
    and put: "put_nodup (tb_accounts_bh E) (t_del lk_id (db_accounts_bh d) (acc_scan_height a) (acc_id a))
       (min height (acc_scan_height a)) \<lparr>lk_id = acc_id a, lk_status = s\<rparr> = Some bh"
    and d': "d' = d2\<lparr>db_accounts := t_set acc_id (db_accounts d) s (acc_id a) a', db_accounts_bh := bh\<rparr>"
    and row: "(acc_scan_height a, \<lparr>lk_id = acc_id a, lk_status = s\<rparr>) \<in> set (db_accounts_bh d)"
    unfolding height_change_def by blast+
  let ?h = "min height (acc_scan_height a)"
  have "idx_inv ?h [] (db_accounts d) (db_accounts_ba d) (db_accounts_bh d)"
    using assms(1) by (simp add: index_inv_idx [of d ?h])
  from idx_flush [OF idx_touch [OF this a _ _ _ row, of a']] a' put
  have "idx_inv ?h [] (t_set acc_id (db_accounts d) s (acc_id a) a') (db_accounts_ba d) bh"
    by (simp add: changed_account_def)
  moreover have "db_accounts_ba d2 = db_accounts_ba d"
    using without_subsD(1) [OF d2] rollback_scan_acc [OF d1] by (simp add: acc_tables_def)
  ultimately show ?thesis by (simp add: d' index_inv_idx [of _ ?h])
qed

lemma rescan_index:
  assumes "index_inv d" and "rescan E height addresses d = Inr (d', done)"
  shows "index_inv d'"
proof -
  from assms(2) have "efold (rescan_one E height) addresses (d, []) = Inr (d', done)"
    by (auto simp: rescan_def ebind_eq_Inr split: if_splits)
  then have "index_inv (fst (d', done))"
    by (rule efold_invariant [where P = "\<lambda>s. index_inv (fst s)"])
      (use assms(1) change_height_index in \<open>auto simp: rescan_one_def split: sum.splits if_splits\<close>)
  then show ?thesis by simp
qed

lemma import_account_index:
  assumes "index_inv (fst s)" and "import_account E max_sub address s = Inr s'"
  shows "index_inv (fst s')"
proof -
  obtain d u where s: "s = (d, u)" by (cases s)
  let ?d = "d\<lparr>db_requests := del_at (tb_requests E) (db_requests d) import_scan (spend_public address)\<rparr>"
  have "index_inv ?d" using assms(1) s index_inv_cong [of ?d d] by simp
  then have step: "index_inv d'" if "change_height E True h address la max_sub ?d = Inr d'" for h la d'
    using that by (rule change_height_index)
  show ?thesis
  proof (cases "get_both (tb_requests E) (db_requests d) import_scan (spend_public address)")
    case None
    then show ?thesis using assms s by (auto simp: import_account_def simp del: requests_laws)
  next
    case (Some info)
    then show ?thesis using assms(2) s step \<open>index_inv ?d\<close>
      by (cases "change_height E True (ri_start_height info) address (ri_lookahead info) max_sub ?d")
        (auto simp: import_account_def Let_def simp del: requests_laws split: if_splits)
  qed
qed

lemma do_add_account_rows:
  assumes "index_inv d" and "do_add_account E a d = Inr d'"
  shows "\<exists>s. set (db_accounts d') = insert (s, a) (set (db_accounts d))"
proof -
  have wf: "table_wf acc_id (db_accounts d)" using assms(1) by (simp add: index_inv_def acc_rows_ok_def)
  from assms(2) obtain s acc where "put_nodup (tb_accounts E) (db_accounts d) s a = Some acc" "db_accounts d' = acc"
    unfolding do_add_account_def Let_def
    by (auto simp: ebind_eq_Inr eget_eq_Inr simp del: accounts_laws accounts_ba_laws accounts_bh_laws split: if_splits)
  then have "db_accounts d' = t_put acc_id (db_accounts d) s a" "t_get acc_id (db_accounts d) s (acc_id a) = None"
    by (auto split: if_splits)
  then have "set (db_accounts d') = insert (s, a) (set (db_accounts d))"
    using wf by (simp add: t_get_None_iff set_t_put_new)
  then show ?thesis ..
qed

lemma create_account_index:
  assumes "create_inv s" and ok: "create_account E t max_sub address s = Inr s'"
  shows "create_inv s'"
proof -
  obtain d l st where s: "s = (d, l, st)" by (cases s)
  have inv: "index_inv d" "l \<noteq> max_u32" "\<forall>r \<in> set (db_accounts d). acc_id (snd r) \<le> l"
    using assms(1) s by (simp_all add: create_inv_def)
  show ?thesis
  proof (cases "get_both (tb_requests E) (db_requests d) create (spend_public address)")
    case None
    then show ?thesis using ok s assms(1) by (simp add: create_account_def del: requests_laws)
  next
    case (Some info)
    let ?d = "d\<lparr>db_requests := del_at (tb_requests E) (db_requests d) create (spend_public address)\<rparr>"
    let ?user = "requested_account t (l + 1) address info"
    obtain d2 res where d2: "(if \<not> is_zero (ri_lookahead info)
      then do_lookahead_user E ?user (ri_lookahead info) max_sub ?d else (?d, Inr ?user)) = (d2, res)"
      by (metis surj_pair)
    from ok s Some d2 obtain user where res: "res = Inr user" and max: "l + 1 \<noteq> invalid_account"
      by (cases res) (auto simp: create_account_def Let_def simp del: requests_laws split: if_splits)
    have "without_subs d2 = without_subs ?d"
      using d2 do_lookahead_user_frame [of E ?user "ri_lookahead info" max_sub ?d d2 res] by (auto split: if_splits)
    from without_subsD(1) [OF this] have acc: "acc_tables d2 = acc_tables d" by simp
    have uid: "acc_id user = l + 1"
      using d2 res by (auto simp: requested_account_def dest!: do_lookahead_user_account(1) split: if_splits)
    have inv2: "index_inv d2" "\<forall>r \<in> set (db_accounts d2). acc_id (snd r) \<le> l"
      using inv acc index_inv_cong [OF acc] by (simp_all add: acc_tables_def)
    have less: "l < l + 1" by (rule less_add_one_u32 [OF inv(2)])
    show ?thesis
    proof (cases "do_add_account E user d2")
      case (Inl e)
      then have "s' = (d2, l, st)" using ok s Some d2 res max
        by (simp add: create_account_def Let_def del: requests_laws split: if_splits)
      then show ?thesis using inv inv2 by (simp add: create_inv_def)
    next
      case (Inr d3)
      have "\<forall>r \<in> set (db_accounts d2). acc_id (snd r) \<noteq> acc_id user" using inv2(2) less uid by fastforce
      then have "index_inv d3" by (rule do_add_account_index [OF inv2(1) _ Inr])
      moreover have "\<forall>r \<in> set (db_accounts d3). acc_id (snd r) \<le> l + 1"
        using do_add_account_rows [OF inv2(1) Inr] inv2(2) less uid by fastforce
      moreover have "s' = (d3, l + 1, st @ [address])"
        using ok s Some d2 res Inr max by (simp add: create_account_def Let_def del: requests_laws)
      ultimately show ?thesis using max by (simp add: create_inv_def invalid_account_def max_u32_def)
    qed
  qed
qed

lemma accept_requests_index:
  assumes "index_inv d" and "find_last_id E d \<noteq> max_u32"
    and "accept_requests E req addresses max_sub d = Inr (d', done)"
  shows "index_inv d'"
proof (cases "addresses = []")
  case True
  then show ?thesis using assms by (simp add: accept_requests_def)
next
  case False
  show ?thesis
  proof (cases req)
    case create
    with False assms(3) obtain t l where "efold (create_account E t max_sub) addresses (d, find_last_id E d, []) = Inr (d', l, done)"
      by (auto simp: accept_requests_def create_accounts_def ebind_eq_Inr)
    then have "create_inv (d', l, done)"
    proof (rule efold_invariant)
      show "create_inv (d, find_last_id E d, [])"
        using assms(1,2) find_last_id_bound [OF assms(1)] by (simp add: create_inv_def)
    qed (rule create_account_index)
    then show ?thesis by (simp add: create_inv_def)
  next
    case import_scan
    with False assms(3) have "efold (import_account E max_sub) addresses (d, []) = Inr (d', done)"
      by (simp add: accept_requests_def import_accounts_def)
    then have "index_inv (fst (d', done))"
      by (rule efold_invariant [where P = "\<lambda>s. index_inv (fst s)"])
        (simp_all add: assms(1) import_account_index)
    then show ?thesis by simp
  qed
qed

end

end
