(* ===== verification/Storage_Rollback.thy ===== *)
theory Storage_Rollback
  imports Storage_Index
begin

text \<open>
  What a rollback leaves of the accounts (\<^verbatim>\<open>rollback_accounts\<close> and its callees). \<open>scan_inv\<close> says
  that stored outputs and spends belong to an account and are not above its scan height;
  \<open>image_inv\<close> says that the key image table has an entry of its own for every stored spend.
\<close>

section \<open>Invariants of the scanned data\<close>

definition scanned :: "db \<Rightarrow> account_id \<Rightarrow> block_id \<Rightarrow> bool" where
  "scanned d uid height \<longleftrightarrow> (\<exists>r \<in> set (db_accounts d). acc_id (snd r) = uid \<and> height \<le> acc_scan_height (snd r))"

definition scan_inv :: "db \<Rightarrow> bool" where
  "scan_inv d \<longleftrightarrow> (\<forall>r \<in> set (db_outputs d). scanned d (fst r) (link_height (out_link (snd r))))
     \<and> (\<forall>r \<in> set (db_spends d). scanned d (fst r) (link_height (sp_link (snd r))))"

definition image_key :: "account_id \<times> spend \<Rightarrow> output_id \<times> key_image_value" where
  "image_key r = (sp_source (snd r), sp_image (snd r))"

definition image_inv :: "db \<Rightarrow> bool" where
  "image_inv d \<longleftrightarrow> distinct (map image_key (db_spends d))
     \<and> (\<forall>r \<in> set (db_spends d). image_key r \<in> row_key ki_value ` set (db_images d))"

section \<open>Rolling back the spends of one account\<close>

definition rollback_spend :: "env \<Rightarrow> account_id \<Rightarrow> spend \<Rightarrow> db \<Rightarrow> db expect" where
  "rollback_spend E user s d =
     (case get_both (tb_images E) (db_images d) (sp_source s) (sp_image s) of
         None \<Rightarrow> Inl MDB_NOTFOUND
       | Some _ \<Rightarrow>
           Inr (d\<lparr>db_images := del_at (tb_images E) (db_images d) (sp_source s) (sp_image s),
                  db_spends := del_at (tb_spends E) (db_spends d) user (spend_sort s)\<rparr>))"

lemma rollback_spends_fold:
  "rollback_spends E user height d =
     efold (rollback_spend E user) (dups_from (tb_spends E) (db_spends d) user (spend_height_query height)) d"
  by (simp add: rollback_spends_def rollback_spend_def [abs_def])

context storage_env
begin

lemma efold_rollback_spend:
  assumes "efold (rollback_spend E user) ss d = Inr d'"
  shows "d' = d\<lparr>db_images := fold (\<lambda>s t. t_del ki_value t (sp_source s) (sp_image s)) ss (db_images d),
                db_spends := fold (\<lambda>s t. t_del spend_sort t user (spend_sort s)) ss (db_spends d)\<rparr>"
  using assms
proof (induction ss arbitrary: d)
  case (Cons s ss)
  then obtain d1 where "rollback_spend E user s d = Inr d1" "efold (rollback_spend E user) ss d1 = Inr d'"
    by (auto split: sum.splits)
  moreover from this(1) have "d1 = d\<lparr>db_images := t_del ki_value (db_images d) (sp_source s) (sp_image s),
      db_spends := t_del spend_sort (db_spends d) user (spend_sort s)\<rparr>"
    by (auto simp: rollback_spend_def split: option.splits)
  ultimately show ?case using Cons.IH [of d1] by simp
qed simp

lemma fold_del_images:
  "fold (\<lambda>s t. t_del ki_value t (sp_source s) (sp_image s)) ss t =
     filter (\<lambda>r. row_key ki_value r \<notin> (\<lambda>s. (sp_source s, sp_image s)) ` set ss) t"
proof (induction ss arbitrary: t)
  case (Cons s ss)
  then show ?case by (auto simp: t_del_def at_row_iff intro!: filter_cong)
qed simp

lemma rollback_spends_result:
  assumes "rollback_spends E user height d = Inr d'"
  shows "d' = d\<lparr>db_images := filter (\<lambda>r. row_key ki_value r \<notin> image_key ` {r \<in> set (db_spends d). fst r = user \<and> height \<le> link_height (sp_link (snd r))}) (db_images d),
     db_spends := filter (\<lambda>r. \<not> (fst r = user \<and> height \<le> link_height (sp_link (snd r)))) (db_spends d)\<rparr>"
proof -
  let ?ss = "filter (\<lambda>v. height \<le> link_height (sp_link v)) (t_dups (db_spends d) user)"
  have "efold (rollback_spend E user) ?ss d = Inr d'"
    using assms by (simp add: rollback_spends_fold)
  from efold_rollback_spend [OF this]
  have d': "d' = d\<lparr>db_images := filter (\<lambda>r. row_key ki_value r \<notin> (\<lambda>s. (sp_source s, sp_image s)) ` set ?ss) (db_images d),
     db_spends := fold (\<lambda>s t. t_del spend_sort t user (spend_sort s)) ?ss (db_spends d)\<rparr>"
    by (simp add: fold_del_images)
  have "(\<lambda>s. (sp_source s, sp_image s)) ` set ?ss =
      image_key ` {r \<in> set (db_spends d). fst r = user \<and> height \<le> link_height (sp_link (snd r))}"
    by (force simp: image_key_def)
  moreover have "fold (\<lambda>s t. t_del spend_sort t user (spend_sort s)) ?ss (db_spends d) =
      filter (\<lambda>r. \<not> (fst r = user \<and> height \<le> link_height (sp_link (snd r)))) (db_spends d)"
    using fold_t_del_from [of spend_sort user "spend_height_query height" "db_spends d"] by simp
  ultimately show ?thesis using d' by simp
qed

lemma efold_rollback_spend_ok:
  assumes "distinct (map (\<lambda>s. (sp_source s, sp_image s)) ss)"
    and "\<forall>s \<in> set ss. (sp_source s, sp_image s) \<in> row_key ki_value ` set (db_images d)"
  shows "\<exists>d'. efold (rollback_spend E user) ss d = Inr d'"
  using assms
proof (induction ss arbitrary: d)
  case (Cons s ss)
  have get: "t_get ki_value (db_images d) (sp_source s) (sp_image s) \<noteq> None"
    using Cons.prems(2) by (auto simp: t_get_None_iff row_key_def)
  then obtain d1 where d1: "rollback_spend E user s d = Inr d1"
    "db_images d1 = t_del ki_value (db_images d) (sp_source s) (sp_image s)"
    by (auto simp: rollback_spend_def)
  have "\<forall>s' \<in> set ss. (sp_source s', sp_image s') \<in> row_key ki_value ` set (db_images d1)"
  proof
    fix s' assume s': "s' \<in> set ss"
    then obtain r where r: "r \<in> set (db_images d)" "row_key ki_value r = (sp_source s', sp_image s')"
      using Cons.prems(2) by (metis imageE list.set_intros(2))
    moreover have "(sp_source s', sp_image s') \<noteq> (sp_source s, sp_image s)"
      using Cons.prems(1) s' by (metis (mono_tags, lifting) distinct.simps(2) imageI list.set_map list.simps(9))
    ultimately have "r \<in> set (db_images d1)" by (simp add: d1(2) set_t_del)
    then show "(sp_source s', sp_image s') \<in> row_key ki_value ` set (db_images d1)" using r(2) by (metis imageI)
  qed
  with Cons.IH [of d1] Cons.prems(1) d1(1) show ?case by simp
qed simp

lemma rollback_spends_ok:
  assumes "image_inv d"
  shows "\<exists>d'. rollback_spends E user height d = Inr d'"
proof -
  let ?ss = "filter (\<lambda>v. height \<le> link_height (sp_link v)) (t_dups (db_spends d) user)"
  let ?rows = "filter (\<lambda>r. fst r = user \<and> height \<le> link_height (sp_link (snd r))) (db_spends d)"
  have ss: "?ss = map snd ?rows" by (simp add: t_dups_def filter_map o_def conj_commute)
  have "distinct (map image_key ?rows)" using assms by (simp add: image_inv_def distinct_map_filter)
  then have "distinct (map (\<lambda>s. (sp_source s, sp_image s)) ?ss)"
    unfolding ss map_map by (simp add: image_key_def [abs_def] o_def)
  moreover have "\<forall>s \<in> set ?ss. (sp_source s, sp_image s) \<in> row_key ki_value ` set (db_images d)"
    using assms unfolding ss by (auto simp: image_inv_def image_key_def)
  ultimately show ?thesis using efold_rollback_spend_ok [of ?ss d user] by (simp add: rollback_spends_fold)
qed

end

section \<open>Rolling back accounts\<close>

text \<open>The tables after the accounts in a set of ids were rolled back.\<close>

definition lower :: "account_id set \<Rightarrow> block_id \<Rightarrow> account_status \<times> account \<Rightarrow> account_status \<times> account" where
  "lower ids nh r = (if acc_id (snd r) \<in> ids
     then (fst r, (snd r)\<lparr>acc_scan_height := nh, acc_start_height := min nh (acc_start_height (snd r))\<rparr>) else r)"

definition purged :: "account_id set \<Rightarrow> block_id \<Rightarrow> block_id \<Rightarrow> db \<Rightarrow> db \<Rightarrow> bool" where
  "purged ids h nh d d' \<longleftrightarrow>
     db_accounts d' = map (lower ids nh) (db_accounts d)
     \<and> db_outputs d' = filter (\<lambda>r. \<not> (fst r \<in> ids \<and> h \<le> link_height (out_link (snd r)))) (db_outputs d)
     \<and> db_spends d' = filter (\<lambda>r. \<not> (fst r \<in> ids \<and> h \<le> link_height (sp_link (snd r)))) (db_spends d)
     \<and> db_images d' = filter (\<lambda>r. row_key ki_value r \<notin> image_key `
          {r \<in> set (db_spends d). fst r \<in> ids \<and> h \<le> link_height (sp_link (snd r))}) (db_images d)"

lemma lower_simps [simp]:
  "acc_id (snd (lower ids nh r)) = acc_id (snd r)" "fst (lower ids nh r) = fst r"
  "acc_address (snd (lower ids nh r)) = acc_address (snd r)"
  "lower {} nh r = r"
  by (simp_all add: lower_def)

lemma lower_lower: "lower I nh (lower J nh r) = lower (I \<union> J) nh r"
  by (auto simp: lower_def)

lemma purged_refl: "purged {} h nh d d"
  by (simp add: purged_def map_idI)

lemma purged_trans:
  assumes "purged I h nh d d1" and "purged J h nh d1 d2"
  shows "purged (I \<union> J) h nh d d2"
proof -
  have "{r \<in> set (db_spends d). fst r \<in> I \<and> h \<le> link_height (sp_link (snd r))} \<union>
      {r \<in> set (db_spends d1). fst r \<in> J \<and> h \<le> link_height (sp_link (snd r))} =
      {r \<in> set (db_spends d). fst r \<in> I \<union> J \<and> h \<le> link_height (sp_link (snd r))}"
    using assms(1) by (auto simp: purged_def)
  from arg_cong [OF this, of "(`) image_key"] assms show ?thesis
    by (auto simp: purged_def lower_lower Un_commute conj_disj_distribR image_Un intro!: filter_cong)
qed

lemma t_set_lower:
  assumes "distinct (map (\<lambda>r. acc_id (snd r)) acc)" and "(s, a) \<in> set acc"
  shows "t_set acc_id acc s (acc_id a) (snd (lower {acc_id a} nh (s, a))) = map (lower {acc_id a} nh) acc"
proof -
  have "(if at_row acc_id s (acc_id a) r then (s, snd (lower {acc_id a} nh (s, a))) else r) = lower {acc_id a} nh r"
    if "r \<in> set acc" for r
  proof (cases "acc_id (snd r) = acc_id a")
    case True
    then have "r = (s, a)"
      using acc_unique [OF assms(1), of "fst r" "snd r" s a] assms(2) that by (cases r) simp
    then show ?thesis by (simp add: at_row_def lower_def)
  next
    case False
    then show ?thesis by (simp add: at_row_def lower_def)
  qed
  then show ?thesis unfolding t_set_def by (rule map_cong [OF refl])
qed

context storage_env
begin

lemma rollback_account_result:
  assumes inv: "idx_inv nh pend (db_accounts d) (db_accounts_ba d) (db_accounts_bh d)"
    and row: "(k, lk) \<in> set (db_accounts_bh d)"
    and ok: "rollback_account E h nh (k, lk) (d, pend) = Inr (d', pend')"
  shows "idx_inv nh pend' (db_accounts d') (db_accounts_ba d') (db_accounts_bh d') \<and> pend' = pend @ [lk]
    \<and> purged {lk_id lk} h nh d d' \<and> set (db_accounts_bh d') = set (db_accounts_bh d) - {(k, lk)}"
proof -
  have rows: "acc_rows_ok (db_accounts d) (db_accounts_ba d) (db_accounts_bh d)"
    using inv by (simp add: idx_inv_def)
  then have wf: "table_wf acc_id (db_accounts d)" "table_wf lk_id (db_accounts_bh d)"
    "distinct (map (\<lambda>r. acc_id (snd r)) (db_accounts d))" by (simp_all add: acc_rows_ok_def)
  from inv row have "(k, lk) \<in> bh_row ` set (db_accounts d)" by (simp add: idx_inv_def)
  then obtain s a where a: "(s, a) \<in> set (db_accounts d)" "k = acc_scan_height a"
    "lk = \<lparr>lk_id = acc_id a, lk_status = s\<rparr>" by (auto simp: bh_row_def)
  have get: "t_get acc_id (db_accounts d) s (acc_id a) = Some a" using a(1) wf(1) by (simp add: t_get_Some_iff)
  let ?a = "snd (lower {acc_id a} nh (s, a))"
  let ?d = "rollback_outputs E (acc_id a) h (d\<lparr>db_accounts := t_set acc_id (db_accounts d) s (acc_id a) ?a\<rparr>)"
  from ok get obtain d1 where d1: "rollback_spends E (acc_id a) h ?d = Inr d1"
    and d': "d' = d1\<lparr>db_accounts_bh := t_del lk_id (db_accounts_bh d1) k (acc_id a)\<rparr>" and pend': "pend' = pend @ [lk]"
    by (auto simp: rollback_account_def Let_def ebind_eq_Inr a lower_def)
  have tables: "db_accounts d' = t_set acc_id (db_accounts d) s (acc_id a) ?a" "db_accounts_ba d' = db_accounts_ba d"
    "db_accounts_bh d' = t_del lk_id (db_accounts_bh d) (acc_scan_height a) (acc_id a)"
    and purge: "purged {acc_id a} h nh d d'"
    using rollback_spends_result [OF d1] t_set_lower [OF wf(3) a(1), of nh]
    by (simp_all add: d' rollback_outputs_eq a(2) purged_def)
  have "idx_inv nh (pend @ [lk]) (db_accounts d') (db_accounts_ba d') (db_accounts_bh d')"
    unfolding tables a(3) using row a(2,3) by (intro idx_touch [OF inv a(1)]) (simp_all add: lower_def)
  moreover have "set (db_accounts_bh d') = set (db_accounts_bh d) - {(k, lk)}"
    unfolding tables a(2) [symmetric] by (rule set_t_del_row [OF wf(2) row]) (simp add: a(3))
  ultimately show ?thesis using pend' purge a(3) by simp
qed

lemma efold_rollback_account:
  assumes "efold (rollback_account E h nh) rows (d, pend) = Inr (d', pend')"
    and "idx_inv nh pend (db_accounts d) (db_accounts_ba d) (db_accounts_bh d)"
    and "distinct rows" and "set rows \<subseteq> set (db_accounts_bh d)"
  shows "idx_inv nh pend' (db_accounts d') (db_accounts_ba d') (db_accounts_bh d')
    \<and> purged ((\<lambda>r. lk_id (snd r)) ` set rows) h nh d d'"
  using assms
proof (induction rows arbitrary: d pend)
  case Nil
  then show ?case by (simp add: purged_refl)
next
  case (Cons r rows)
  from Cons.prems(1) obtain d1 pend1 where step: "rollback_account E h nh (fst r, snd r) (d, pend) = Inr (d1, pend1)"
    and rest: "efold (rollback_account E h nh) rows (d1, pend1) = Inr (d', pend')"
    by (auto split: sum.splits)
  have r: "(fst r, snd r) \<in> set (db_accounts_bh d)" using Cons.prems(4) by simp
  note res = rollback_account_result [OF Cons.prems(2) r step]
  have "set rows \<subseteq> set (db_accounts_bh d1)" using res Cons.prems(3,4) by auto
  moreover have "idx_inv nh pend1 (db_accounts d1) (db_accounts_ba d1) (db_accounts_bh d1)" using res by blast
  ultimately have "idx_inv nh pend' (db_accounts d') (db_accounts_ba d') (db_accounts_bh d')"
    "purged ((\<lambda>r. lk_id (snd r)) ` set rows) h nh d1 d'"
    using Cons.IH [OF rest] Cons.prems(3) by simp_all
  with purged_trans [OF _ this(2), of "{lk_id (snd r)}" d] res show ?case by simp
qed

end

text \<open>The ids of the accounts scanned at or above a height.\<close>

definition above :: "block_id \<Rightarrow> db \<Rightarrow> account_id set" where
  "above h d = {acc_id (snd r) | r. r \<in> set (db_accounts d) \<and> h \<le> acc_scan_height (snd r)}"

lemma purged_filters:
  assumes "purged (above h d) h nh d d'" and "scan_inv d"
  shows "db_outputs d' = filter (\<lambda>r. link_height (out_link (snd r)) < h) (db_outputs d)"
    "db_spends d' = filter (\<lambda>r. link_height (sp_link (snd r)) < h) (db_spends d)"
proof -
  have sc: "u \<in> above h d" if "scanned d u x" "h \<le> x" for u x
    using that unfolding scanned_def above_def by (force intro: order_trans)
  show "db_outputs d' = filter (\<lambda>r. link_height (out_link (snd r)) < h) (db_outputs d)"
    using assms sc unfolding purged_def scan_inv_def
    by (auto simp: not_le [symmetric] simp del: not_le intro!: filter_cong)
  show "db_spends d' = filter (\<lambda>r. link_height (sp_link (snd r)) < h) (db_spends d)"
    using assms sc unfolding purged_def scan_inv_def
    by (auto simp: not_le [symmetric] simp del: not_le intro!: filter_cong)
qed

lemma below_pred: "x < h \<Longrightarrow> x \<le> max h 1 - (1 :: u64)"
  by (cases "h = 0") (auto simp: max_def word_le_nat_alt word_less_nat_alt unat_sub unat_gt_0 split: if_splits)

lemma scanned_lower:
  assumes "scanned d u x" and "x < h" and "db_accounts d' = map (lower (above h d) (max h 1 - 1)) (db_accounts d)"
  shows "scanned d' u x"
proof -
  from assms(1) obtain r where r: "r \<in> set (db_accounts d)" "acc_id (snd r) = u" "x \<le> acc_scan_height (snd r)"
    by (auto simp: scanned_def)
  let ?r = "lower (above h d) (max h 1 - 1) r"
  have "?r \<in> set (db_accounts d')" using r(1) assms(3) by simp
  moreover have "x \<le> acc_scan_height (snd ?r)" using r(3) below_pred [OF assms(2)] by (simp add: lower_def)
  ultimately show ?thesis using r(2) unfolding scanned_def by (intro bexI [of _ ?r]) simp_all
qed

lemma purged_scan_inv:
  assumes "purged (above h d) h (max h 1 - 1) d d'" and "scan_inv d"
  shows "scan_inv d'"
proof -
  have acc: "db_accounts d' = map (lower (above h d) (max h 1 - 1)) (db_accounts d)"
    using assms(1) by (simp add: purged_def)
  show ?thesis using assms(2) scanned_lower [OF _ _ acc]
    unfolding scan_inv_def purged_filters [OF assms] by simp
qed

lemma purged_image_inv:
  assumes "purged I h nh d d'" and "image_inv d"
  shows "image_inv d'"
proof -
  let ?gone = "{r \<in> set (db_spends d). fst r \<in> I \<and> h \<le> link_height (sp_link (snd r))}"
  have inj: "inj_on image_key (set (db_spends d))" using assms(2) by (simp add: image_inv_def distinct_map)
  have "image_key r \<in> row_key ki_value ` set (db_images d')" if r: "r \<in> set (db_spends d')" for r
  proof -
    have r': "r \<in> set (db_spends d) - ?gone" using r assms(1) by (auto simp: purged_def)
    then have "image_key r \<notin> image_key ` ?gone" using inj by (auto dest: inj_onD)
    moreover have "image_key r \<in> row_key ki_value ` set (db_images d)"
      using r' assms(2) by (simp add: image_inv_def)
    then obtain x where x: "image_key r = row_key ki_value x" "x \<in> set (db_images d)" by (rule imageE)
    ultimately have "x \<in> set (db_images d')" using assms(1) by (simp add: purged_def)
    then show ?thesis unfolding x(1) by (rule imageI)
  qed
  moreover have "distinct (map image_key (db_spends d'))"
    using assms by (simp add: purged_def image_inv_def distinct_map_filter)
  ultimately show ?thesis by (simp add: image_inv_def)
qed

context storage_env
begin

lemma rollback_accounts_result:
  assumes inv: "index_inv d" and ok: "rollback_accounts E h d = Inr d'"
  shows "index_inv d' \<and> purged (above h d) h (max h 1 - 1) d d'"
proof -
  let ?rows = "filter (\<lambda>r. h \<le> fst r) (db_accounts_bh d)" and ?nh = "max h 1 - 1"
  have bh: "set (db_accounts_bh d) = bh_row ` set (db_accounts d)" and wf: "table_wf lk_id (db_accounts_bh d)"
    using inv by (simp_all add: index_inv_def acc_rows_ok_def)
  have ids: "(\<lambda>r. lk_id (snd r)) ` {r \<in> set (db_accounts_bh d). h \<le> fst r} = above h d"
    unfolding bh by (force simp: above_def bh_row_def)
  show ?thesis
  proof (cases "?rows = []")
    case True
    then have "d' = d" using ok by (simp add: rollback_accounts_def)
    moreover have "above h d = {}" using True by (simp add: ids [symmetric] filter_empty_conv)
    ultimately show ?thesis using inv purged_refl [of h ?nh d] by simp
  next
    case False
    from ok False obtain d1 pend where fold: "efold (rollback_account E h ?nh) ?rows (d, []) = Inr (d1, pend)"
      and d': "d' = d1\<lparr>db_accounts_bh := bulk_insert (tb_accounts_bh E) (db_accounts_bh d1) ?nh pend\<rparr>"
      by (auto simp: rollback_accounts_def Let_def ebind_eq_Inr simp del: efold.simps split: list.splits)
    have "idx_inv ?nh [] (db_accounts d) (db_accounts_ba d) (db_accounts_bh d)"
      using inv by (simp add: index_inv_idx [of d ?nh])
    from efold_rollback_account [OF fold this] wf
    have "idx_inv ?nh pend (db_accounts d1) (db_accounts_ba d1) (db_accounts_bh d1)" "purged (above h d) h ?nh d d1"
      by (simp_all add: ids table_wf_distinct)
    with idx_flush [OF this(1)] show ?thesis
      by (simp add: d' index_inv_idx [of _ ?nh] purged_def)
  qed
qed

text \<open>A rollback finds every row it looks for.\<close>

lemma rollback_account_ok:
  assumes inv: "idx_inv nh pend (db_accounts d) (db_accounts_ba d) (db_accounts_bh d)"
    and row: "(k, lk) \<in> set (db_accounts_bh d)" and img: "image_inv d"
  shows "\<exists>s'. rollback_account E h nh (k, lk) (d, pend) = Inr s'"
proof -
  have "table_wf acc_id (db_accounts d)" using inv by (simp add: idx_inv_def acc_rows_ok_def)
  moreover from inv row have "(k, lk) \<in> bh_row ` set (db_accounts d)" by (simp add: idx_inv_def)
  ultimately obtain a where get: "t_get acc_id (db_accounts d) (lk_status lk) (lk_id lk) = Some a"
    by (auto simp: bh_row_def t_get_Some_iff)
  let ?x = "put_current (tb_accounts E) (db_accounts d) (lk_status lk) (lk_id lk)
    (a\<lparr>acc_scan_height := nh, acc_start_height := min nh (acc_start_height a)\<rparr>)"
  obtain d' where "rollback_spends E (acc_id a) h (rollback_outputs E (acc_id a) h (d\<lparr>db_accounts := ?x\<rparr>)) = Inr d'"
    using rollback_spends_ok [of "rollback_outputs E (acc_id a) h (d\<lparr>db_accounts := ?x\<rparr>)" "acc_id a" h] img
    by (auto simp: image_inv_def rollback_outputs_eq)
  then show ?thesis using get by (simp add: rollback_account_def Let_def del: accounts_laws(9))
qed

lemma efold_rollback_account_ok:
  assumes "idx_inv nh pend (db_accounts d) (db_accounts_ba d) (db_accounts_bh d)" and "image_inv d"
    and "distinct rows" and "set rows \<subseteq> set (db_accounts_bh d)"
  shows "\<exists>s'. efold (rollback_account E h nh) rows (d, pend) = Inr s'"
  using assms
proof (induction rows arbitrary: d pend)
  case (Cons r rows)
  have r: "(fst r, snd r) \<in> set (db_accounts_bh d)" using Cons.prems(4) by simp
  from rollback_account_ok [OF Cons.prems(1) r Cons.prems(2)] obtain d1 pend1 where
    step: "rollback_account E h nh (fst r, snd r) (d, pend) = Inr (d1, pend1)" by (metis surj_pair)
  note res = rollback_account_result [OF Cons.prems(1) r step]
  have "set rows \<subseteq> set (db_accounts_bh d1)" using res Cons.prems(3,4) by auto
  moreover have "image_inv d1" using res purged_image_inv Cons.prems(2) by blast
  moreover have "idx_inv nh pend1 (db_accounts d1) (db_accounts_ba d1) (db_accounts_bh d1)" using res by blast
  ultimately show ?case using Cons.IH Cons.prems(3) step by simp
qed simp

lemma rollback_accounts_ok:
  assumes "index_inv d" and "image_inv d"
  shows "\<exists>d'. rollback_accounts E h d = Inr d'"
proof -
  let ?rows = "filter (\<lambda>r. h \<le> fst r) (db_accounts_bh d)" and ?nh = "max h 1 - 1"
  have "table_wf lk_id (db_accounts_bh d)" using assms(1) by (simp add: index_inv_def acc_rows_ok_def)
  moreover have "idx_inv ?nh [] (db_accounts d) (db_accounts_ba d) (db_accounts_bh d)"
    using assms(1) by (simp add: index_inv_idx [of d ?nh])
  ultimately obtain s' where "efold (rollback_account E h ?nh) ?rows (d, []) = Inr s'"
    using efold_rollback_account_ok [of ?nh "[]" d ?rows h] assms(2) by (auto simp: table_wf_distinct)
  then show ?thesis
    by (cases ?rows) (auto simp: rollback_accounts_def Let_def simp del: efold.simps split: prod.splits)
qed

end

section \<open>Rolling back the chain\<close>

text \<open>All invariants of the tables.\<close>

definition storage_inv :: "db \<Rightarrow> bool" where
  "storage_inv d \<longleftrightarrow> db_wf d \<and> index_inv d \<and> scan_inv d \<and> image_inv d"

lemma scan_inv_cong:
  "db_accounts d' = db_accounts d \<Longrightarrow> db_outputs d' = db_outputs d \<Longrightarrow> db_spends d' = db_spends d
    \<Longrightarrow> scan_inv d' = scan_inv d"
  by (simp add: scan_inv_def scanned_def)

lemma image_inv_cong:
  "db_spends d' = db_spends d \<Longrightarrow> db_images d' = db_images d \<Longrightarrow> image_inv d' = image_inv d"
  by (simp add: image_inv_def)

definition chain_rolled :: "block_id \<Rightarrow> block_id \<Rightarrow> db \<Rightarrow> db \<Rightarrow> bool" where
  "chain_rolled f h d d' \<longleftrightarrow>
     db_blocks d' = filter (\<lambda>r. \<not> (fst r = blocks_version \<and> f \<le> bi_id (snd r))) (db_blocks d)
     \<and> (db_pows d' = db_pows d \<or> db_pows d' = filter (\<lambda>r. \<not> (fst r = pows_version \<and> h \<le> bp_id (snd r))) (db_pows d))
     \<and> db_accounts_ba d' = db_accounts_ba d \<and> db_requests d' = db_requests d \<and> db_webhooks d' = db_webhooks d
     \<and> db_ranges d' = db_ranges d \<and> db_indexes d' = db_indexes d
     \<and> db_events d' = filter (\<lambda>r. event_height (snd r) < h) (db_events d)
     \<and> purged (above h d) h (max h 1 - 1) d d'"

context storage_env
begin

lemma rollback_chain_result:
  assumes wf: "db_wf d" and inv: "index_inv d" and ok: "rollback_chain E f h d = Inr d'"
  shows "index_inv d' \<and> chain_rolled f h d d'"
proof -
  let ?d0 = "d\<lparr>db_blocks := filter (\<lambda>r. \<not> (fst r = blocks_version \<and> f \<le> bi_id (snd r))) (db_blocks d)\<rparr>"
  have same: "?d0\<lparr>db_pows := db_pows d\<rparr> = ?d0" by (cases d) simp
  from ok obtain p d1 where p: "p = db_pows d \<or> p = filter (\<lambda>r. \<not> (fst r = pows_version \<and> h \<le> bp_id (snd r))) (db_pows d)"
    and d1: "rollback_accounts E h (?d0\<lparr>db_pows := p\<rparr>) = Inr d1" and d': "d' = rollback_events E h d1"
  proof (cases "t_get bp_id (db_pows d) pows_version h")
    case None
    then show ?thesis using ok that [of "db_pows d"] unfolding same
      by (auto simp: rollback_chain_def Let_def ebind_eq_Inr fold_t_del_from)
  next
    case (Some a)
    then show ?thesis using ok that
      by (auto simp: rollback_chain_def Let_def ebind_eq_Inr fold_t_del_from)
  qed
  have frame: "without_scan d1 = without_scan (?d0\<lparr>db_pows := p\<rparr>)" by (rule rollback_accounts_frame [OF d1])
  note eq = without_scanD [OF frame]
  have "acc_tables (?d0\<lparr>db_pows := p\<rparr>) = acc_tables d" by simp
  from rollback_accounts_result [OF _ d1] index_inv_cong [OF this] inv
  have res: "index_inv d1" "purged (above h d) h (max h 1 - 1) d d1"
    by (simp_all add: purged_def above_def)
  have "table_wf (\<lambda>e. e) (db_events d1)" using eq wf by (simp add: db_wf_def)
  then have ev: "d' = d1\<lparr>db_events := filter (\<lambda>r. event_height (snd r) < h) (db_events d1)\<rparr>"
    unfolding d' by (rule rollback_events_eq)
  then have "index_inv d'" using res(1) index_inv_cong [of d' d1] by simp
  then show ?thesis using eq res(2) p by (simp add: chain_rolled_def ev purged_def)
qed

lemma rollback_chain_inv:
  assumes inv: "storage_inv d" and ok: "rollback_chain E f h d = Inr d'"
  shows "storage_inv d' \<and> chain_rolled f h d d'"
proof -
  have old: "db_wf d" "index_inv d" "scan_inv d" "image_inv d" using inv by (simp_all add: storage_inv_def)
  have new: "index_inv d'" "chain_rolled f h d d'" using rollback_chain_result [OF old(1,2) ok] by simp_all
  then have purge: "purged (above h d) h (max h 1 - 1) d d'" by (simp add: chain_rolled_def)
  have acc: "table_wf acc_id (db_accounts d')" "table_wf lk_id (db_accounts_bh d')"
    using new(1) by (simp_all add: index_inv_def acc_rows_ok_def)
  have pows: "table_wf bp_id (db_pows d')"
    using new(2) old(1) by (auto simp: chain_rolled_def db_wf_def table_wf_filter)
  have "db_wf d'"
    using old(1) new(2) acc pows by (simp add: db_wf_def chain_rolled_def purged_def table_wf_filter)
  then show ?thesis
    using new purged_scan_inv [OF purge old(3)] purged_image_inv [OF purge old(4)] by (simp add: storage_inv_def)
qed

lemma rollback_chain_ok:
  assumes "storage_inv d"
  shows "\<exists>d'. rollback_chain E f h d = Inr d'"
proof -
  have "\<exists>d'. rollback_accounts E h (d\<lparr>db_blocks := b\<rparr>) = Inr d'"
    "\<exists>d'. rollback_accounts E h (d\<lparr>db_blocks := b, db_pows := p\<rparr>) = Inr d'" for b p
    using assms by (auto intro!: rollback_accounts_ok simp: storage_inv_def
        index_inv_cong [of "d\<lparr>db_blocks := b\<rparr>" d] index_inv_cong [of "d\<lparr>db_blocks := b, db_pows := p\<rparr>" d]
        image_inv_def)
  then show ?thesis by (auto simp: rollback_chain_def Let_def ebind_eq_Inr split: option.splits)
qed

end

section \<open>Properties\<close>

definition sample_account :: "account_id \<Rightarrow> block_id \<Rightarrow> account" where
  "sample_account i h = \<lparr>acc_id = i, acc_access = 0, acc_address = Account_address (ucast i + 1000) (ucast i), acc_key = ucast i,
     acc_scan_height = h, acc_start_height = 0, acc_creation = 0, acc_flags = 0,
     acc_lookahead = Address_index 0 0, acc_lookahead_fail = 0\<rparr>"

definition sample_spend :: "block_id \<Rightarrow> spend" where
  "sample_spend h = \<lparr>sp_link = Transaction_link h 8, sp_image = ucast h, sp_source = Output_id 0 1, sp_timestamp = 1,
     sp_unlock_time = 0, sp_mixin_count = 15, sp_length = 0, sp_payment_id = 0, sp_sender = Address_index 0 0\<rparr>"

text \<open>Two accounts, one scanned to block 2 and a hidden one to block 1, with outputs and a spend.\<close>

definition sample_db :: db where
  "sample_db = sample_chain\<lparr>
     db_accounts := [(active, sample_account 1 2), (hidden, sample_account 2 1)],
     db_accounts_ba := [ba_row (active, sample_account 1 2), ba_row (hidden, sample_account 2 1)],
     db_accounts_bh := [bh_row (hidden, sample_account 2 1), bh_row (active, sample_account 1 2)],
     db_outputs := [(1, sample_output 1 20), (1, sample_output 2 21), (2, sample_output 1 22)],
     db_spends := [(1, sample_spend 2)],
     db_images := [(Output_id 0 1, \<lparr>ki_value = 2, ki_link = Transaction_link 2 8\<rparr>)]\<rparr>"

lemma sample_db_inv: "storage_inv sample_db"
proof -
  have "db_wf sample_db" by code_simp
  moreover have "index_inv sample_db" by code_simp
  moreover have "scan_inv sample_db" by code_simp
  moreover have "image_inv sample_db" by code_simp
  ultimately show ?thesis by (simp add: storage_inv_def)
qed

text \<open>
  A rollback never gets stuck: on tables that satisfy the invariants, \<^verbatim>\<open>storage::rollback\<close>
  finds every account, height row and key image it looks up, and returns without error.
\<close>

theorem rollback_succeeds:
  assumes "storage_env E" and "storage_inv d"
  shows "\<exists>d'. rollback E h d = Inr d'"
  using storage_env.rollback_chain_ok [OF assms, of h h] by (auto simp: rollback_def split: option.splits)

theorem rollback_succeeds_witness: "\<exists>d'. rollback sample_env 2 sample_db = Inr d'"
  by (rule rollback_succeeds [OF sample_env_ok sample_db_inv])

text \<open>
  C1: A rollback to a stored height removes exactly what was learnt from the blocks at or above
  it: the blocks, the outputs, the spends and the webhook events of every account, whatever its
  status. Accounts scanned that far go back to the block before, and nothing else changes
  about them.
\<close>

theorem rollback_exact:
  assumes "storage_env E" and "storage_inv d" and "get_block_hash E d h = Inr x" and "rollback E h d = Inr d'"
  shows "db_blocks d' = filter (\<lambda>r. \<not> (fst r = blocks_version \<and> h \<le> bi_id (snd r))) (db_blocks d)
    \<and> db_outputs d' = filter (\<lambda>r. link_height (out_link (snd r)) < h) (db_outputs d)
    \<and> db_spends d' = filter (\<lambda>r. link_height (sp_link (snd r)) < h) (db_spends d)
    \<and> db_events d' = filter (\<lambda>r. event_height (snd r) < h) (db_events d)
    \<and> db_accounts d' = map (\<lambda>(s, a). (s, if h \<le> acc_scan_height a
        then a\<lparr>acc_scan_height := max h 1 - 1, acc_start_height := min (max h 1 - 1) (acc_start_height a)\<rparr> else a)) (db_accounts d)"
proof -
  have chain: "rollback_chain E h h d = Inr d'"
    using assms(3,4) by (auto simp: rollback_def get_block_hash_def do_get_block_hash_def eget_eq_Inr split: option.splits)
  note rolled = storage_env.rollback_chain_inv [OF assms(1,2) chain, THEN conjunct2, unfolded chain_rolled_def]
  then have purge: "purged (above h d) h (max h 1 - 1) d d'" by blast
  have inv: "scan_inv d" "distinct (map (\<lambda>r. acc_id (snd r)) (db_accounts d))"
    using assms(2) by (simp_all add: storage_inv_def index_inv_def acc_rows_ok_def)
  have "acc_id (snd r) \<in> above h d \<longleftrightarrow> h \<le> acc_scan_height (snd r)" if "r \<in> set (db_accounts d)" for r
  proof
    assume "acc_id (snd r) \<in> above h d"
    then obtain r' where "r' \<in> set (db_accounts d)" "acc_id (snd r) = acc_id (snd r')" "h \<le> acc_scan_height (snd r')"
      by (auto simp: above_def)
    with acc_unique [OF inv(2), of "fst r" "snd r" "fst r'" "snd r'"] that show "h \<le> acc_scan_height (snd r)" by simp
  qed (use that in \<open>unfold above_def, blast\<close>)
  then have "map (lower (above h d) (max h 1 - 1)) (db_accounts d) = map (\<lambda>(s, a). (s, if h \<le> acc_scan_height a
        then a\<lparr>acc_scan_height := max h 1 - 1, acc_start_height := min (max h 1 - 1) (acc_start_height a)\<rparr> else a)) (db_accounts d)"
    by (intro map_cong [OF refl]) (simp add: lower_def split_beta)
  then show ?thesis using rolled purge purged_filters [OF purge inv(1)] by (simp add: purged_def)
qed

lemma sample_rollback: "rollback sample_env 2 sample_db = Inr (projr (rollback sample_env 2 sample_db))"
proof -
  have "\<not> isl (rollback sample_env 2 sample_db)" by code_simp
  then show ?thesis by (rule sum.collapse(2) [symmetric])
qed

theorem rollback_exact_witness:
  "db_outputs (projr (rollback sample_env 2 sample_db)) = [(1, sample_output 1 20), (2, sample_output 1 22)]"
proof -
  have b: "get_block_hash sample_env sample_db 2 = Inr 102" by code_simp
  have "filter (\<lambda>r. link_height (out_link (snd r)) < 2) (db_outputs sample_db) = [(1, sample_output 1 20), (2, sample_output 1 22)]"
    by code_simp
  with rollback_exact [OF sample_env_ok sample_db_inv b sample_rollback] show ?thesis by simp
qed

text \<open>
  Every invariant of the tables survives a rollback: the tables stay sorted, both account
  indexes agree with the account table, outputs and spends stay at or below the scan height of
  their account, and every spend keeps its key image.
\<close>

theorem rollback_keeps_invariants:
  assumes "storage_env E" and "storage_inv d" and "rollback E h d = Inr d'"
  shows "storage_inv d'"
  using assms(2,3) storage_env.rollback_chain_inv [OF assms(1,2)]
  by (auto simp: rollback_def split: option.splits)

theorem rollback_keeps_invariants_witness: "storage_inv (projr (rollback sample_env 2 sample_db))"
  by (rule rollback_keeps_invariants [OF sample_env_ok sample_db_inv sample_rollback])

end
