(* ===== verification/Storage_Steps.thy ===== *)
theory Storage_Steps
  imports Storage_Rollback
begin

text \<open>
  The writing operations of the storage as steps of a state machine, and the proof that every
  step keeps \<open>storage_inv\<close>: the tables are sorted, the account indexes agree with the accounts,
  outputs and spends are not above the scan height of their account, and spends have their key
  images. A step is a successful operation; an error aborts the transaction.
\<close>

section \<open>Scan heights\<close>

definition acc_heights :: "db \<Rightarrow> (account_id \<times> block_id) set" where
  "acc_heights d = (\<lambda>r. (acc_id (snd r), acc_scan_height (snd r))) ` set (db_accounts d)"

lemma scanned_iff: "scanned d u x \<longleftrightarrow> (\<exists>h. (u, h) \<in> acc_heights d \<and> x \<le> h)"
  unfolding scanned_def acc_heights_def by auto

lemma acc_heights_bh:
  "index_inv d \<Longrightarrow> acc_heights d = (\<lambda>r. (lk_id (snd r), fst r)) ` set (db_accounts_bh d)"
  by (simp add: index_inv_def acc_heights_def image_image bh_row_def)

lemma acc_heights_unique:
  assumes "index_inv d" and "(u, h) \<in> acc_heights d" and "(u, h') \<in> acc_heights d"
  shows "h = h'"
proof -
  have dist: "distinct (map (\<lambda>r. acc_id (snd r)) (db_accounts d))"
    using assms(1) by (simp add: index_inv_def acc_rows_ok_def)
  from assms(2,3) show ?thesis unfolding acc_heights_def using acc_unique [OF dist] by fastforce
qed

lemma scan_inv_mono:
  assumes "scan_inv d" and "acc_heights d \<subseteq> acc_heights d'"
    and "set (db_outputs d') \<subseteq> set (db_outputs d)" and "set (db_spends d') \<subseteq> set (db_spends d)"
  shows "scan_inv d'"
  using assms unfolding scan_inv_def scanned_iff by blast

section \<open>Operations on the account tables only\<close>

definition without_acc :: "db \<Rightarrow> db" where
  "without_acc d = d\<lparr>db_accounts := [], db_accounts_ba := [], db_accounts_bh := []\<rparr>"

lemma without_accD:
  assumes "without_acc d' = without_acc d"
  shows "db_blocks d' = db_blocks d" "db_pows d' = db_pows d" "db_outputs d' = db_outputs d"
    "db_spends d' = db_spends d" "db_images d' = db_images d" "db_requests d' = db_requests d"
    "db_webhooks d' = db_webhooks d" "db_events d' = db_events d" "db_ranges d' = db_ranges d"
    "db_indexes d' = db_indexes d"
  using assms by (cases d; cases d'; simp add: without_acc_def)+

lemma without_acc_simps [simp]:
  "without_acc (d\<lparr>db_accounts := x\<rparr>) = without_acc d"
  "without_acc (d\<lparr>db_accounts_ba := y\<rparr>) = without_acc d"
  "without_acc (d\<lparr>db_accounts_bh := z\<rparr>) = without_acc d"
  by (simp_all add: without_acc_def)

lemma index_inv_wf:
  assumes "index_inv d"
  shows "table_wf acc_id (db_accounts d)" "table_wf ba_sort (db_accounts_ba d)" "table_wf lk_id (db_accounts_bh d)"
  using assms by (simp_all add: index_inv_def acc_rows_ok_def)

lemma storage_inv_acc:
  assumes "storage_inv d" and "index_inv d'" and same: "without_acc d' = without_acc d"
    and "acc_heights d \<subseteq> acc_heights d'"
  shows "storage_inv d'"
proof -
  have "db_wf d'" using assms(1) without_accD [OF same] index_inv_wf [OF assms(2)]
    by (simp add: storage_inv_def db_wf_def)
  moreover have "scan_inv d'"
    by (rule scan_inv_mono [of d]) (use assms(1,4) without_accD [OF same] in \<open>simp_all add: storage_inv_def\<close>)
  moreover have "image_inv d'" using assms(1) without_accD [OF same] image_inv_cong [of d' d]
    by (simp add: storage_inv_def)
  ultimately show ?thesis using assms(2) by (simp add: storage_inv_def)
qed

lemma bh_image_t_set:
  assumes "lk_id v = i"
  shows "(\<lambda>r. (lk_id (snd r), fst r)) ` set (t_set lk_id t k i v) = (\<lambda>r. (lk_id (snd r), fst r)) ` set t"
proof -
  have "map (\<lambda>r. (lk_id (snd r), fst r)) (t_set lk_id t k i v) = map (\<lambda>r. (lk_id (snd r), fst r)) t"
    using assms by (auto simp: t_set_def at_row_def)
  from arg_cong [OF this, of set] show ?thesis by simp
qed

context storage_env
begin

lemma update_access_time_inv:
  assumes "storage_inv d" and ok: "update_access_time E address d = Inr d'"
  shows "storage_inv d'"
proof -
  have i: "index_inv d" "index_inv d'"
    using assms update_access_time_index [of d address d'] by (simp_all add: storage_inv_def)
  have "without_acc d' = without_acc d \<and> db_accounts_bh d' = db_accounts_bh d"
    using ok by (auto simp: update_access_time_def Let_def ebind_eq_Inr)
  then show ?thesis using storage_inv_acc [OF assms(1) i(2)] acc_heights_bh [OF i(1)] acc_heights_bh [OF i(2)] by simp
qed

lemma shrink_lookahead_inv:
  assumes "storage_inv d" and ok: "shrink_lookahead E address lookahead d = Inr d'"
  shows "storage_inv d'"
proof -
  have i: "index_inv d" "index_inv d'"
    using assms shrink_lookahead_index [of d address lookahead d'] by (simp_all add: storage_inv_def)
  have "without_acc d' = without_acc d \<and> db_accounts_bh d' = db_accounts_bh d"
    using ok by (auto simp: shrink_lookahead_def Let_def ebind_eq_Inr split: if_splits)
  then show ?thesis using storage_inv_acc [OF assms(1) i(2)] acc_heights_bh [OF i(1)] acc_heights_bh [OF i(2)] by simp
qed

lemma move_account_inv:
  assumes "storage_inv d" and r: "lookup_address E d address = Some r"
    and ne: "lk_status (ba_lookup r) \<noteq> status" and ok: "move_account E status r d = Inr d'"
  shows "storage_inv d'"
proof -
  have i: "index_inv d" "index_inv d'"
    using assms move_account_index [OF _ r ne ok] by (simp_all add: storage_inv_def)
  from ok obtain user where user: "without_acc d' = without_acc d"
    "db_accounts_bh d' = put_current (tb_accounts_bh E) (db_accounts_bh d) (acc_scan_height user) (acc_id user)
       ((ba_lookup r)\<lparr>lk_status := status\<rparr>)" "t_get acc_id (db_accounts d) (lk_status (ba_lookup r)) (lk_id (ba_lookup r)) = Some user"
    by (auto simp: move_account_def Let_def ebind_eq_Inr eget_eq_Inr simp del: accounts_bh_laws(9) split: if_splits)
  have "lk_id ((ba_lookup r)\<lparr>lk_status := status\<rparr>) = acc_id user" using t_get_SomeD [OF user(3)] by simp
  then have "acc_heights d' = acc_heights d"
    unfolding acc_heights_bh [OF i(1)] acc_heights_bh [OF i(2)] user(2) by (simp add: bh_image_t_set)
  then show ?thesis using storage_inv_acc [OF assms(1) i(2) user(1)] by simp
qed

lemma change_status_inv:
  assumes "storage_inv d" and "change_status E status addresses d = Inr (d', changed)"
  shows "storage_inv d'"
proof -
  have "storage_inv (fst (d', changed))"
    using assms(2) unfolding change_status_def
    by (rule efold_invariant [where P = "\<lambda>s. storage_inv (fst s)"])
      (use assms(1) in \<open>auto simp: change_status_one_def ebind_eq_Inr move_account_inv
        split: option.splits if_splits\<close>)
  then show ?thesis by simp
qed

lemma do_add_account_inv:
  assumes "storage_inv d" and "\<forall>r \<in> set (db_accounts d). acc_id (snd r) \<noteq> acc_id a"
    and ok: "do_add_account E a d = Inr d'"
  shows "storage_inv d'"
proof -
  have i: "index_inv d" using assms(1) by (simp add: storage_inv_def)
  note new = do_add_account_index [OF i assms(2) ok] do_add_account_rows [OF i ok]
  have "without_acc d' = without_acc d"
    using ok by (auto simp: do_add_account_def Let_def ebind_eq_Inr split: if_splits)
  moreover have "acc_heights d \<subseteq> acc_heights d'" using new(2) by (auto simp: acc_heights_def)
  ultimately show ?thesis using storage_inv_acc [OF assms(1) new(1)] by simp
qed

lemma add_account_inv:
  assumes "storage_inv d" and "find_last_id E d \<noteq> max_u32" and ok: "add_account E address key flags d = Inr d'"
  shows "storage_inv d'"
proof -
  have i: "index_inv d" using assms(1) by (simp add: storage_inv_def)
  from ok obtain t and b :: block_info where "do_add_account E
      (empty_account\<lparr>acc_id := find_last_id E d + 1, acc_address := address, acc_key := key,
            acc_start_height := bi_id b, acc_scan_height := bi_id b, acc_access := t,
            acc_creation := t, acc_flags := flags\<rparr>) d = Inr d'"
    unfolding add_account_def Let_def ebind_eq_Inr by blast
  then show ?thesis by (rule do_add_account_inv [OF assms(1), rotated]) (use next_id_fresh [OF i assms(2)] in simp)
qed

end

section \<open>Subaddress tables\<close>

definition subs_wf :: "db \<Rightarrow> bool" where
  "subs_wf d \<longleftrightarrow> table_wf fst (db_ranges d) \<and> table_wf sa_subaddress (db_indexes d)"

lemma storage_inv_subs:
  assumes "storage_inv d" and same: "without_subs d' = without_subs d" and "subs_wf d'"
  shows "storage_inv d'"
proof -
  note eq = without_subsD [OF same]
  have "db_wf d'" using assms(1,3) eq by (simp add: storage_inv_def db_wf_def subs_wf_def acc_tables_def)
  moreover have "index_inv d'" using assms(1) index_inv_cong [OF eq(1)] by (simp add: storage_inv_def)
  moreover have "scan_inv d'" using assms(1) eq scan_inv_cong [of d' d] by (simp add: storage_inv_def acc_tables_def)
  moreover have "image_inv d'" using assms(1) eq image_inv_cong [of d' d] by (simp add: storage_inv_def)
  ultimately show ?thesis by (simp add: storage_inv_def)
qed

context storage_env
begin

lemma store_ranges_wf: "subs_wf d \<Longrightarrow> subs_wf (fst (store_ranges E u a k m nd d))"
  by (auto simp: store_ranges_def subs_wf_def Let_def dupsort_table.bulk_insert_wf [OF indexes] table_wf_put
      split: option.splits)

lemma upsert_merge_wf: "subs_wf d \<Longrightarrow> subs_wf (fst (upsert_merge E u mx entry s d))"
  by (auto simp: upsert_merge_def subs_wf_def table_wf_del split: option.splits)

lemma upsert_loop_wf: "subs_wf d \<Longrightarrow> subs_wf (fst (upsert_loop E u a k mx subs s d))"
proof (induction subs arbitrary: s d)
  case (Cons entry subs)
  obtain d1 r1 where d1: "upsert_merge E u mx entry s d = (d1, r1)" by (cases "upsert_merge E u mx entry s d")
  have wf1: "subs_wf d1" using upsert_merge_wf [OF Cons.prems, of u mx entry s] d1 by simp
  show ?case
  proof (cases r1)
    case (Inl e)
    then show ?thesis using Cons.prems d1 wf1 by simp
  next
    case (Inr x)
    obtain d2 r2 where d2: "store_ranges E u a k (fst entry) (up_new_dict x) d1 = (d2, r2)"
      by (cases "store_ranges E u a k (fst entry) (up_new_dict x) d1")
    have "subs_wf d2" using store_ranges_wf [OF wf1, of u a k "fst entry" "up_new_dict x"] d2 by simp
    then show ?thesis using Cons.IH Cons.prems d1 Inr d2 by (auto split: sum.splits)
  qed
qed simp

lemma do_upsert_wf: "subs_wf d \<Longrightarrow> subs_wf (fst (do_upsert E u a k subs mx d))"
  by (simp add: do_upsert_def Let_def upsert_loop_wf)

lemma do_lookahead_wf: "subs_wf d \<Longrightarrow> subs_wf (fst (do_lookahead E u a k la mx d))"
  using do_upsert_wf [of d u a k _ mx]
  by (auto simp: do_lookahead_def Let_def split: sum.splits prod.splits) (metis fst_conv)+

lemma do_lookahead_user_wf: "subs_wf d \<Longrightarrow> do_lookahead_user E user la mx d = (d', r) \<Longrightarrow> subs_wf d'"
  using do_lookahead_wf [of d "acc_id user" "acc_address user" "acc_key user" la mx]
  by (auto simp: do_lookahead_user_def split: sum.splits prod.splits if_splits)

lemma storage_inv_subs_wf: "storage_inv d \<Longrightarrow> subs_wf d"
  by (simp add: storage_inv_def db_wf_def subs_wf_def)

lemma do_upsert_inv:
  assumes "storage_inv d" and "do_upsert E u a k subs mx d = (d', r)"
  shows "storage_inv d'"
  using storage_inv_subs [OF assms(1)] do_upsert_frame [of E u a k subs mx d]
    do_upsert_wf [OF storage_inv_subs_wf [OF assms(1)], of u a k subs mx] assms(2) by simp

lemma upsert_subaddresses_inv:
  assumes "storage_inv d" and "upsert_subaddresses E u a k subs mx d = Inr (d', out)"
  shows "storage_inv d'"
  using assms do_upsert_inv [OF assms(1)]
  by (auto simp: upsert_subaddresses_def split: prod.splits sum.splits)

lemma update_lookahead_inv:
  assumes "storage_inv d" and ok: "update_lookahead E address h match mx d = Inr (d', n)"
  shows "storage_inv d'"
proof -
  have i: "index_inv d" using assms(1) by (simp add: storage_inv_def)
  from ok obtain r where r: "lookup_address E d address = Some r"
    by (auto simp: update_lookahead_def lookup_address_def ebind_eq_Inr eget_eq_Inr)
  from lookup_addressD [OF i r] obtain s a where a: "(s, a) \<in> set (db_accounts d)"
    and req: "r = \<lparr>ba_address = acc_address a, ba_lookup = \<lparr>lk_id = acc_id a, lk_status = s\<rparr>\<rparr>"
    and get: "t_get acc_id (db_accounts d) s (acc_id a) = Some a" by blast
  obtain d1 res where d1: "lookahead_upsert E a address match mx d = (d1, res)"
    by (cases "lookahead_upsert E a address match mx d")
  have inv1: "storage_inv d1" and acc: "acc_tables d1 = acc_tables d"
    using d1 do_upsert_inv [OF assms(1)] assms(1) without_subsD(1) [OF do_upsert_frame]
    by (auto simp: lookahead_upsert_def Let_def split: if_splits) (metis fst_conv)
  have r': "t_get ba_sort (db_accounts_ba d) by_address_version (view_public address) = Some r"
    using r by (simp add: lookup_address_def)
  from ok r' req get d1 consider "d' = d" | "d' = d1"
    | f where "d' = d1\<lparr>db_accounts := put_current (tb_accounts E) (db_accounts d1) s (acc_id a) (a\<lparr>acc_lookahead_fail := f\<rparr>)\<rparr>"
    by (auto simp: update_lookahead_def Let_def ebind_eq_Inr eget_eq_Inr simp del: accounts_laws(9) split: if_splits sum.splits)
  then show ?thesis
  proof cases
    case 3
    have i1: "index_inv d1" and a1: "(s, a) \<in> set (db_accounts d1)"
      using inv1 a acc by (simp_all add: storage_inv_def acc_tables_def)
    have i': "index_inv d'" unfolding 3 by (rule set_account_index [OF i1 a1]) simp_all
    have "db_accounts_bh d' = db_accounts_bh d1" "without_acc d' = without_acc d1" using 3 by simp_all
    then show ?thesis using storage_inv_acc [OF inv1 i'] acc_heights_bh [OF i1] acc_heights_bh [OF i'] by simp
  qed (use assms(1) inv1 in simp_all)
qed

end

section \<open>Heights and requests\<close>

lemma storage_inv_requests:
  assumes "storage_inv d" and "table_wf request_sort t"
  shows "storage_inv (d\<lparr>db_requests := t\<rparr>)"
  using assms index_inv_cong [of "d\<lparr>db_requests := t\<rparr>" d]
  by (simp add: storage_inv_def db_wf_def scan_inv_def scanned_def image_inv_def)

context storage_env
begin

lemma height_change_scanned:
  assumes i: "index_inv d" and i': "index_inv d'" and hc: "height_change E height address d d' s a a' d1 d2 bh"
    and sc: "scanned d u x" and x: "u \<noteq> acc_id a \<or> x < height"
  shows "scanned d' u x"
proof -
  have wf: "table_wf lk_id (db_accounts_bh d)" by (rule index_inv_wf [OF i])
  let ?lk = "\<lparr>lk_id = acc_id a, lk_status = s\<rparr>" and ?old = "t_del lk_id (db_accounts_bh d) (acc_scan_height a) (acc_id a)"
  from hc have row: "(acc_scan_height a, ?lk) \<in> set (db_accounts_bh d)"
    and bh: "db_accounts_bh d' = t_put lk_id ?old (min height (acc_scan_height a)) ?lk"
      "t_get lk_id ?old (min height (acc_scan_height a)) (acc_id a) = None"
    by (auto simp: height_change_def split: if_splits)
  have del: "set ?old = set (db_accounts_bh d) - {(acc_scan_height a, ?lk)}"
    by (rule set_t_del_row [OF wf row]) simp
  have rows: "set (db_accounts_bh d') = insert (min height (acc_scan_height a), ?lk) (set ?old)"
    unfolding bh(1) using bh(2) by (intro set_t_put_new [OF table_wf_del [OF wf]]) (simp add: t_get_None_iff)
  have new: "(acc_id a, min height (acc_scan_height a)) \<in> acc_heights d'"
    unfolding acc_heights_bh [OF i'] rows by force
  from sc obtain k where k: "(u, k) \<in> acc_heights d" "x \<le> k" by (auto simp: scanned_iff)
  show ?thesis
  proof (cases "u = acc_id a")
    case True
    have "(acc_id a, acc_scan_height a) \<in> acc_heights d" unfolding acc_heights_bh [OF i] using row by force
    then have "k = acc_scan_height a" using acc_heights_unique [OF i k(1)] True by simp
    then show ?thesis using new True k x by (auto simp: scanned_iff)
  next
    case False
    then have "(u, k) \<in> acc_heights d'" using k(1) unfolding acc_heights_bh [OF i] acc_heights_bh [OF i'] rows del by force
    then show ?thesis using k(2) by (auto simp: scanned_iff)
  qed
qed

lemma change_height_inv:
  assumes inv: "storage_inv d" and ok: "change_height E subs height address lookahead max_sub d = Inr d'"
  shows "storage_inv d'"
proof -
  have i: "index_inv d" using inv by (simp add: storage_inv_def)
  from change_heightD [OF i ok] obtain s a a' d1 d2 bh
    where hc: "height_change E height address d d' s a a' d1 d2 bh" by blast
  then have a: "(s, a) \<in> set (db_accounts d)" and a': "changed_account height a a'"
    and d1: "rollback_spends E (acc_id a) height (rollback_outputs E (acc_id a) height d) = Inr d1"
    and d2: "without_subs d2 = without_subs d1" "d2 = d1 \<or> (\<exists>user la mx r. do_lookahead_user E user la mx d1 = (d2, r))"
    and put: "put_nodup (tb_accounts_bh E) (t_del lk_id (db_accounts_bh d) (acc_scan_height a) (acc_id a))
       (min height (acc_scan_height a)) \<lparr>lk_id = acc_id a, lk_status = s\<rparr> = Some bh"
    and d': "d' = d2\<lparr>db_accounts := t_set acc_id (db_accounts d) s (acc_id a) a', db_accounts_bh := bh\<rparr>"
    and row: "(acc_scan_height a, \<lparr>lk_id = acc_id a, lk_status = s\<rparr>) \<in> set (db_accounts_bh d)"
    unfolding height_change_def by blast+
  have i': "index_inv d'" by (rule change_height_index [OF i ok])
  note d1_eq = rollback_spends_result [OF d1, unfolded rollback_outputs_eq]
  have data: "db_outputs d' = filter (\<lambda>r. \<not> (fst r = acc_id a \<and> height \<le> link_height (out_link (snd r)))) (db_outputs d)"
    "db_spends d' = filter (\<lambda>r. \<not> (fst r = acc_id a \<and> height \<le> link_height (sp_link (snd r)))) (db_spends d)"
    "db_images d' = db_images d1"
    using without_subsD [OF d2(1)] by (simp_all add: d' d1_eq)
  have wf: "db_wf d" and scan: "scan_inv d" and img: "image_inv d" using inv by (simp_all add: storage_inv_def)
  have "subs_wf d1" using storage_inv_subs_wf [OF inv] by (simp add: d1_eq subs_wf_def)
  then have sw: "subs_wf d2" using d2(2) do_lookahead_user_wf by blast
  have "db_wf d'" using wf sw index_inv_wf [OF i'] without_subsD [OF d2(1)] data
    by (simp add: db_wf_def subs_wf_def d' d1_eq table_wf_filter)
  moreover have "scan_inv d'" unfolding scan_inv_def data
    using height_change_scanned [OF i i' hc] scan by (auto simp: scan_inv_def not_le)
  moreover have "image_inv d'"
  proof -
    let ?d = "d1\<lparr>db_accounts := map (lower {acc_id a} 0) (db_accounts d)\<rparr>"
    have "purged {acc_id a} height 0 d ?d" by (simp add: purged_def d1_eq)
    from purged_image_inv [OF this img] show ?thesis
      using image_inv_cong [of d' ?d] data d1_eq by simp
  qed
  ultimately show ?thesis using i' by (simp add: storage_inv_def)
qed

lemma rescan_inv:
  assumes "storage_inv d" and "rescan E height addresses d = Inr (d', done)"
  shows "storage_inv d'"
proof -
  from assms(2) have "efold (rescan_one E height) addresses (d, []) = Inr (d', done)"
    by (auto simp: rescan_def ebind_eq_Inr split: if_splits)
  then have "storage_inv (fst (d', done))"
    by (rule efold_invariant [where P = "\<lambda>s. storage_inv (fst s)"])
      (use assms(1) change_height_inv in \<open>auto simp: rescan_one_def split: sum.splits if_splits\<close>)
  then show ?thesis by simp
qed

lemma creation_request_inv:
  assumes "storage_inv d" and "creation_request E address key flags la d = Inr (d', hooks)"
  shows "storage_inv d'"
proof -
  have "table_wf request_sort (db_requests d)" using assms(1) by (simp add: storage_inv_def db_wf_def)
  with assms show ?thesis
    by (auto simp: creation_request_def Let_def ebind_eq_Inr eget_eq_Inr intro!: storage_inv_requests table_wf_put
        split: if_splits)
qed

lemma import_request_inv:
  assumes "storage_inv d" and "import_request E address h la d = Inr d'"
  shows "storage_inv d'"
proof -
  have "table_wf request_sort (db_requests d)" using assms(1) by (simp add: storage_inv_def db_wf_def)
  with assms show ?thesis
    by (auto simp: import_request_def Let_def ebind_eq_Inr eget_eq_Inr intro!: storage_inv_requests table_wf_put
        split: if_splits)
qed

lemma del_request_inv:
  "storage_inv d \<Longrightarrow> storage_inv (d\<lparr>db_requests := del_at (tb_requests E) (db_requests d) req k\<rparr>)"
  by (rule storage_inv_requests) (simp_all add: storage_inv_def db_wf_def table_wf_del)

lemma reject_requests_inv:
  assumes "storage_inv d"
  shows "storage_inv (fst (reject_requests E req addresses d))"
proof -
  have "storage_inv (fst s) \<Longrightarrow> storage_inv (fst (fold (reject_one E req) addresses s))" for s
    by (induction addresses arbitrary: s) (auto simp: reject_one_def del_request_inv simp del: requests_laws split: option.splits)
  with assms show ?thesis by (simp add: reject_requests_def)
qed

lemma import_account_inv:
  assumes "storage_inv (fst s)" and "import_account E max_sub address s = Inr s'"
  shows "storage_inv (fst s')"
proof -
  obtain d u where s: "s = (d, u)" by (cases s)
  let ?d = "d\<lparr>db_requests := del_at (tb_requests E) (db_requests d) import_scan (spend_public address)\<rparr>"
  have inv: "storage_inv ?d" using assms(1) s del_request_inv by simp
  show ?thesis
  proof (cases "get_both (tb_requests E) (db_requests d) import_scan (spend_public address)")
    case None
    then show ?thesis using assms s by (auto simp: import_account_def simp del: requests_laws)
  next
    case (Some info)
    then show ?thesis using assms(2) s inv change_height_inv [OF inv]
      by (cases "change_height E True (ri_start_height info) address (ri_lookahead info) max_sub ?d")
        (auto simp: import_account_def Let_def simp del: requests_laws split: if_splits)
  qed
qed

lemma create_account_inv:
  assumes "create_inv s" and "storage_inv (fst s)" and ok: "create_account E t max_sub address s = Inr s'"
  shows "storage_inv (fst s')"
proof -
  obtain d l st where s: "s = (d, l, st)" by (cases s)
  have inv: "storage_inv d" "l \<noteq> max_u32" "\<forall>r \<in> set (db_accounts d). acc_id (snd r) \<le> l"
    using assms(1,2) s by (simp_all add: create_inv_def)
  show ?thesis
  proof (cases "get_both (tb_requests E) (db_requests d) create (spend_public address)")
    case None
    then show ?thesis using ok s inv(1) by (auto simp: create_account_def simp del: requests_laws)
  next
    case (Some info)
    let ?d = "d\<lparr>db_requests := del_at (tb_requests E) (db_requests d) create (spend_public address)\<rparr>"
    let ?user = "requested_account t (l + 1) address info"
    have invd: "storage_inv ?d" by (rule del_request_inv [OF inv(1)])
    obtain d2 res where d2: "(if \<not> is_zero (ri_lookahead info)
      then do_lookahead_user E ?user (ri_lookahead info) max_sub ?d else (?d, Inr ?user)) = (d2, res)"
      by (metis surj_pair)
    from ok s Some d2 obtain user where res: "res = Inr user" and max: "l + 1 \<noteq> invalid_account"
      by (cases res) (auto simp: create_account_def Let_def simp del: requests_laws split: if_splits)
    have frame: "without_subs d2 = without_subs ?d"
      using d2 do_lookahead_user_frame [of E ?user "ri_lookahead info" max_sub ?d d2 res] by (auto split: if_splits)
    have "subs_wf d2"
      using d2 do_lookahead_user_wf [OF storage_inv_subs_wf [OF invd]] storage_inv_subs_wf [OF invd] by (auto split: if_splits)
    with frame have inv2: "storage_inv d2" by (intro storage_inv_subs [OF invd])
    have uid: "acc_id user = l + 1"
      using d2 res by (auto simp: requested_account_def dest!: do_lookahead_user_account(1) split: if_splits)
    have acc: "db_accounts d2 = db_accounts d" using without_subsD(1) [OF frame] by (simp add: acc_tables_def)
    have "\<forall>r \<in> set (db_accounts d2). acc_id (snd r) \<noteq> acc_id user"
      using inv(3) less_add_one_u32 [OF inv(2)] uid acc by fastforce
    from do_add_account_inv [OF inv2 this] show ?thesis using ok s Some d2 res max inv2
      by (cases "do_add_account E user d2")
        (auto simp: create_account_def Let_def simp del: requests_laws split: if_splits)
  qed
qed

lemma accept_requests_inv:
  assumes "storage_inv d" and "find_last_id E d \<noteq> max_u32"
    and "accept_requests E req addresses max_sub d = Inr (d', done)"
  shows "storage_inv d'"
proof (cases "addresses = []")
  case True
  then show ?thesis using assms by (simp add: accept_requests_def)
next
  case False
  show ?thesis
  proof (cases req)
    case create
    with False assms(3) obtain t l where "efold (create_account E t max_sub) addresses (d, find_last_id E d, []) = Inr (d', l, done)"
      by (auto simp: accept_requests_def create_accounts_def ebind_eq_Inr)
    then have "create_inv (d', l, done) \<and> storage_inv (fst (d', l, done))"
    proof (rule efold_invariant)
      have "index_inv d" using assms(1) by (simp add: storage_inv_def)
      from find_last_id_bound [OF this] show "create_inv (d, find_last_id E d, []) \<and> storage_inv (fst (d, find_last_id E d, []))"
        using assms(1,2) by (simp add: create_inv_def storage_inv_def)
    qed (use create_account_index create_account_inv in blast)
    then show ?thesis by simp
  next
    case import_scan
    with False assms(3) have "efold (import_account E max_sub) addresses (d, []) = Inr (d', done)"
      by (simp add: accept_requests_def import_accounts_def)
    then have "storage_inv (fst (d', done))"
      by (rule efold_invariant [where P = "\<lambda>s. storage_inv (fst s)"])
        (simp_all add: assms(1) import_account_inv)
    then show ?thesis by simp
  qed
qed

end

section \<open>Webhooks\<close>

lemma storage_inv_hooks:
  assumes "storage_inv d" and "table_wf fst w" and "table_wf (\<lambda>e. e) v"
  shows "storage_inv (d\<lparr>db_webhooks := w, db_events := v\<rparr>)"
  using assms index_inv_cong [of "d\<lparr>db_webhooks := w, db_events := v\<rparr>" d]
  by (simp add: storage_inv_def db_wf_def scan_inv_def scanned_def image_inv_def)

lemma fold_table_wf:
  assumes "\<And>r t. table_wf sk t \<Longrightarrow> table_wf sk (f r t)"
  shows "table_wf sk t \<Longrightarrow> table_wf sk (fold f rs t)"
  by (induction rs arbitrary: t) (auto simp: assms)

context storage_env
begin

lemma add_webhook_inv:
  assumes "storage_inv d" and "add_webhook E type address event d = Inr d'"
  shows "storage_inv d'"
proof -
  have "table_wf fst (db_webhooks d)" "table_wf (\<lambda>e. e) (db_events d)"
    using assms(1) by (simp_all add: storage_inv_def db_wf_def)
  moreover have "d\<lparr>db_webhooks := w, db_events := db_events d\<rparr> = d\<lparr>db_webhooks := w\<rparr>" for w by (cases d) simp
  ultimately show ?thesis using assms storage_inv_hooks [OF assms(1), of _ "db_events d"]
    by (auto simp: add_webhook_def Let_def table_wf_put split: if_splits)
qed

lemma clear_webhooks_inv:
  assumes "storage_inv d" and "clear_webhooks E addresses d = Inr d'"
  shows "storage_inv d'"
  using assms(2) unfolding clear_webhooks_def
proof (rule efold_invariant)
  fix a d d' assume inv: "storage_inv d" and ok: "clear_webhooks_one E a d = Inr d'"
  have "table_wf fst (db_webhooks d)" "table_wf (\<lambda>e. e) (db_events d)"
    using inv by (simp_all add: storage_inv_def db_wf_def)
  then show "storage_inv d'" using ok
    by (auto simp: clear_webhooks_one_def Let_def ebind_eq_Inr intro!: storage_inv_hooks [OF inv] table_wf_filter)
qed (rule assms(1))

lemma clear_webhook_ids_inv:
  assumes "storage_inv d"
  shows "storage_inv (clear_webhook_ids E ids d)"
proof -
  have "table_wf fst (db_webhooks d)" "table_wf (\<lambda>e. e) (db_events d)"
    using assms by (simp_all add: storage_inv_def db_wf_def)
  then show ?thesis using assms
    by (auto simp: clear_webhook_ids_def Let_def intro!: storage_inv_hooks [OF assms] fold_table_wf table_wf_del
        split: prod.splits)
qed

end

section \<open>The chain\<close>

lemma storage_inv_chain:
  assumes "storage_inv d" and "table_wf bi_id b" and "table_wf bp_id p"
  shows "storage_inv (d\<lparr>db_blocks := b, db_pows := p\<rparr>)"
  using assms index_inv_cong [of "d\<lparr>db_blocks := b, db_pows := p\<rparr>" d]
  by (simp add: storage_inv_def db_wf_def scan_inv_def scanned_def image_inv_def)

context storage_env
begin

lemma append_pow_wf: "table_wf bp_id t \<Longrightarrow> table_wf bp_id (append_pow E h chain buf t)"
  by (induction chain arbitrary: h buf t) (auto simp: Let_def dupsort_table.bulk_insert_wf [OF pows])

lemma append_block_hashes_wf: "table_wf bi_id t \<Longrightarrow> table_wf bi_id (append_block_hashes E h chain buf t)"
  by (simp add: append_block_hashes_eq dupsort_table.bulk_overwrite_wf [OF blocks])

lemma append_inv:
  assumes "storage_inv d"
  shows "storage_inv (d\<lparr>db_blocks := append_block_hashes E h chain [] (db_blocks d)\<rparr>)"
    "storage_inv (d\<lparr>db_blocks := append_block_hashes E h chain [] (db_blocks d), db_pows := append_pow E h' pow [] (db_pows d)\<rparr>)"
proof -
  have wf: "table_wf bi_id (db_blocks d)" "table_wf bp_id (db_pows d)"
    using assms by (simp_all add: storage_inv_def db_wf_def)
  have "d\<lparr>db_blocks := b, db_pows := db_pows d\<rparr> = d\<lparr>db_blocks := b\<rparr>" for b by (cases d) simp
  with storage_inv_chain [OF assms append_block_hashes_wf [OF wf(1)] wf(2)]
  show "storage_inv (d\<lparr>db_blocks := append_block_hashes E h chain [] (db_blocks d)\<rparr>)" by simp
  show "storage_inv (d\<lparr>db_blocks := append_block_hashes E h chain [] (db_blocks d), db_pows := append_pow E h' pow [] (db_pows d)\<rparr>)"
    by (rule storage_inv_chain [OF assms append_block_hashes_wf [OF wf(1)] append_pow_wf [OF wf(2)]])
qed

lemma sync_loop_inv: "storage_inv d \<Longrightarrow> sync_loop E rt rows cur chain d = Inr (d', c, l) \<Longrightarrow> storage_inv d'"
proof (induction rows arbitrary: cur chain)
  case Nil
  then show ?case by (cases chain) auto
next
  case (Cons r rows)
  then show ?case by (cases chain) (auto simp: ebind_eq_Inr dest: rollback_chain_inv split: if_splits)
qed

lemma sync_chain_inv:
  assumes "storage_inv d" and "sync_chain E h hashes rt d = Inr d'"
  shows "storage_inv d'"
  using assms by (auto simp: sync_chain_def ebind_eq_Inr intro!: append_inv dest: sync_loop_inv split: list.splits if_splits)

lemma sync_pow_loop_inv: "storage_inv d \<Longrightarrow> sync_pow_loop E rows cur chain d = Inr (d', c, l) \<Longrightarrow> storage_inv d'"
proof (induction rows arbitrary: cur chain)
  case Nil
  then show ?case by (cases chain) (auto split: if_splits)
next
  case (Cons r rows)
  then show ?case by (cases chain) (auto simp: ebind_eq_Inr dest: rollback_chain_inv split: if_splits)
qed

lemma sync_pow_inv:
  assumes "storage_inv d" and "sync_pow E h hashes pow d = Inr d'"
  shows "storage_inv d'"
  using assms by (auto simp: sync_pow_def ebind_eq_Inr intro!: append_inv dest: sync_pow_loop_inv split: if_splits)

end

end
