(* ===== verification/Storage_Reach.thy ===== *)
theory Storage_Reach
  imports Storage_Steps
begin

text \<open>
  \<^verbatim>\<open>storage::update\<close> keeps the invariants, and with it every operation: \<open>storage_step\<close> is the
  relation of all successful write operations, and every database reachable from an empty one
  with a genesis block satisfies \<open>storage_inv\<close>.
\<close>

section \<open>What a scan may report\<close>

text \<open>
  The outputs and spends a scanner reports lie at or below the last scanned block, and no two
  spends, reported or stored, share both the source output and the key image unless they are
  the same spend of the same account: the chain accepts a key image once, and an output has
  one owner.
\<close>

definition spends_unique :: "(account_id \<times> spend) set \<Rightarrow> bool" where
  "spends_unique R \<longleftrightarrow> (\<forall>r \<in> R. \<forall>r' \<in> R. image_key r = image_key r' \<longrightarrow> row_key spend_sort r = row_key spend_sort r')"

definition reported :: "lws_account list \<Rightarrow> (account_id \<times> spend) set" where
  "reported users = (\<Union>u \<in> set users. Pair (la_id u) ` set (la_spends u))"

definition below :: "block_id \<Rightarrow> lws_account \<Rightarrow> bool" where
  "below h u \<longleftrightarrow> (\<forall>out \<in> set (la_outputs u). link_height (out_link out) \<le> h)
     \<and> (\<forall>s \<in> set (la_spends u). link_height (sp_link s) \<le> h)"

definition scan_report_ok :: "block_id \<Rightarrow> hash list \<Rightarrow> lws_account list \<Rightarrow> db \<Rightarrow> bool" where
  "scan_report_ok height chain users d \<longleftrightarrow>
     (\<forall>u \<in> set users. below (height + of_nat (length chain) - 1) u)
     \<and> spends_unique (set (db_spends d) \<union> reported users)"

section \<open>Updating accounts\<close>

definition upd_inv :: "u64 \<Rightarrow> (account_id \<times> spend) set \<Rightarrow> update_state \<Rightarrow> bool" where
  "upd_inv lu R s \<longleftrightarrow>
     idx_inv lu (us_heights s) (db_accounts (us_db s)) (db_accounts_ba (us_db s)) (db_accounts_bh (us_db s))
     \<and> db_wf (us_db s) \<and> scan_inv (us_db s) \<and> set (db_spends (us_db s)) \<subseteq> R
     \<and> (\<forall>r \<in> set (db_spends (us_db s)). image_key r \<in> row_key ki_value ` set (db_images (us_db s)))"

definition without_events :: "db \<Rightarrow> db" where
  "without_events d = d\<lparr>db_events := []\<rparr>"

lemma without_eventsD:
  assumes "without_events d' = without_events d"
  shows "db_blocks d' = db_blocks d" "db_pows d' = db_pows d" "acc_tables d' = acc_tables d" "db_outputs d' = db_outputs d"
    "db_spends d' = db_spends d" "db_images d' = db_images d" "db_requests d' = db_requests d"
    "db_webhooks d' = db_webhooks d" "db_ranges d' = db_ranges d" "db_indexes d' = db_indexes d"
  using assms by (cases d; cases d'; simp add: without_events_def acc_tables_def)+

definition put_image :: "spend \<Rightarrow> (output_id, key_image) rows \<Rightarrow> (output_id, key_image) rows" where
  "put_image s t = (if t_get ki_value t (sp_source s) (sp_image s) = None
     then t_put ki_value t (sp_source s) \<lparr>ki_value = sp_image s, ki_link = sp_link s\<rparr> else t)"

lemma put_image_keys:
  assumes "table_wf ki_value t"
  shows "table_wf ki_value (put_image s t)"
    "insert (sp_source s, sp_image s) (row_key ki_value ` set t) \<subseteq> row_key ki_value ` set (put_image s t)"
proof -
  show "table_wf ki_value (put_image s t)" using assms by (simp add: put_image_def table_wf_put)
  show "insert (sp_source s, sp_image s) (row_key ki_value ` set t) \<subseteq> row_key ki_value ` set (put_image s t)"
  proof (cases "t_get ki_value t (sp_source s) (sp_image s)")
    case None
    then have "set (put_image s t) = insert (sp_source s, \<lparr>ki_value = sp_image s, ki_link = sp_link s\<rparr>) (set t)"
      using assms by (simp add: put_image_def t_get_None_iff set_t_put_new)
    then show ?thesis by (auto simp: row_key_def)
  next
    case (Some v)
    from t_get_SomeD [OF Some] have "(sp_source s, sp_image s) \<in> row_key ki_value ` set t"
      by (intro rev_image_eqI [of "(sp_source s, v)"]) (simp_all add: row_key_def)
    then show ?thesis using Some by (simp add: put_image_def)
  qed
qed

lemma put_images_keys:
  assumes "table_wf ki_value t"
  shows "table_wf ki_value (fold put_image sps t)
    \<and> row_key ki_value ` set t \<union> (\<lambda>s. (sp_source s, sp_image s)) ` set sps \<subseteq> row_key ki_value ` set (fold put_image sps t)"
  using assms
proof (induction sps arbitrary: t)
  case (Cons s sps)
  from Cons.IH [OF put_image_keys(1) [OF Cons.prems, of s]] put_image_keys(2) [OF Cons.prems, of s]
  show ?case by simp blast
qed simp

context storage_env
begin

lemma add_spends_eq:
  "add_spends E u sps d = d\<lparr>db_spends := bulk_insert (tb_spends E) (db_spends d) u sps, db_images := fold put_image sps (db_images d)\<rparr>"
proof -
  have "(\<lambda>s t. case put_nodup (tb_images E) t (sp_source s) \<lparr>ki_value = sp_image s, ki_link = sp_link s\<rparr> of
              None \<Rightarrow> t | Some t' \<Rightarrow> t') = put_image"
    by (auto simp: put_image_def fun_eq_iff)
  then show ?thesis by (simp add: add_spends_def Let_def)
qed

lemma check_hooks_frame: "without_events (check_hooks E user d) = without_events d"
  by (simp add: check_hooks_def without_events_def)

lemma check_hooks_wf:
  "table_wf (\<lambda>e. e) (db_events d) \<Longrightarrow> table_wf (\<lambda>e. e) (db_events (check_hooks E user d))"
  by (simp add: check_hooks_def fold_table_wf dupsort_table.bulk_overwrite_wf [OF events])

lemma add_ongoing_hooks_frame:
  assumes "add_ongoing_hooks E u b e s = Inr s'" and "table_wf (\<lambda>e. e) (db_events (fst s))"
  shows "without_events (fst s') = without_events (fst s) \<and> table_wf (\<lambda>e. e) (db_events (fst s'))"
proof (cases "b = e")
  case True
  then show ?thesis using assms by (simp add: add_ongoing_hooks_def)
next
  case False
  then have "efold (ongoing_event E u b e) (dups (tb_events E) (db_events (fst s)) u) s = Inr s'"
    using assms(1) by (simp add: add_ongoing_hooks_def)
  then show ?thesis
    by (rule efold_invariant) (use assms(2) in \<open>auto simp: ongoing_event_def Let_def ebind_eq_Inr without_events_def
      table_wf_del split: if_splits\<close>)
qed

text \<open>The tables after an account was stored, up to its webhook events.\<close>

lemma store_user_result:
  assumes ok: "store_user E fn lu user status existing d out = Inr (d', out')" and "db_wf d"
    and "acc_id existing = la_id user"
  shows "\<exists>lk. t_get lk_id (db_accounts_bh d) (acc_scan_height existing) (la_id user) = Some lk
    \<and> without_events d' = without_events (add_spends E (la_id user) (la_spends user)
       (d\<lparr>db_accounts := t_set acc_id (db_accounts d) status (la_id user) (existing\<lparr>acc_scan_height := lu\<rparr>),
          db_accounts_bh := t_del lk_id (db_accounts_bh d) (acc_scan_height existing) (la_id user),
          db_outputs := bulk_insert (tb_outputs E) (db_outputs d) (la_id user) (la_outputs user)\<rparr>))
    \<and> table_wf (\<lambda>e. e) (db_events d')"
proof -
  let ?d = "add_spends E (la_id user) (la_spends user)
       (d\<lparr>db_accounts := t_set acc_id (db_accounts d) status (la_id user) (existing\<lparr>acc_scan_height := lu\<rparr>),
          db_accounts_bh := t_del lk_id (db_accounts_bh d) (acc_scan_height existing) (la_id user),
          db_outputs := bulk_insert (tb_outputs E) (db_outputs d) (la_id user) (la_outputs user)\<rparr>)"
  from ok assms(3) obtain lk cp where lk: "t_get lk_id (db_accounts_bh d) (acc_scan_height existing) (la_id user) = Some lk"
    and og: "add_ongoing_hooks E (la_id user) (max fn (acc_scan_height existing + 1)) (lu + 1)
       (check_hooks E user ?d, ur_confirm_pubs out) = Inr (d', cp)"
    by (auto simp: store_user_def Let_def ebind_eq_Inr eget_eq_Inr)
  have "db_events ?d = db_events d" by (simp add: add_spends_eq)
  then have "table_wf (\<lambda>e. e) (db_events (check_hooks E user ?d))"
    using assms(2) by (intro check_hooks_wf) (simp add: db_wf_def)
  with add_ongoing_hooks_frame [OF og] check_hooks_frame [of user ?d] lk show ?thesis by simp
qed

lemma find_existing_result:
  assumes "idx_inv h pend (db_accounts d) (db_accounts_ba d) (db_accounts_bh d)"
    and "find_existing E user d = Inr (Some (status, existing))"
  shows "(status, existing) \<in> set (db_accounts d) \<and> acc_id existing = la_id user"
  using assms(2)
  by (auto simp: find_existing_def ebind_eq_Inr eget_eq_Inr dest: t_get_SomeD split: option.splits)

lemma bh_row_status:
  assumes "idx_inv h pend acc ba bh" and "(s, a) \<in> set acc"
    and "t_get lk_id bh (acc_scan_height a) (acc_id a) = Some lk"
  shows "(acc_scan_height a, \<lparr>lk_id = acc_id a, lk_status = s\<rparr>) \<in> set bh"
proof -
  have dist: "distinct (map (\<lambda>r. acc_id (snd r)) acc)" using assms(1) by (simp add: idx_inv_def acc_rows_ok_def)
  have lk: "(acc_scan_height a, lk) \<in> set bh" "lk_id lk = acc_id a" using t_get_SomeD [OF assms(3)] by simp_all
  then have "(acc_scan_height a, lk) \<in> bh_row ` set acc" using assms(1) by (simp add: idx_inv_def)
  then obtain s' a' where a': "(s', a') \<in> set acc" "lk = \<lparr>lk_id = acc_id a', lk_status = s'\<rparr>" by (auto simp: bh_row_def)
  have "acc_id a = acc_id a'" using lk(2) a'(2) by simp
  from acc_unique [OF dist assms(2) a'(1) this] have "lk = \<lparr>lk_id = acc_id a, lk_status = s\<rparr>" using a'(2) by simp
  with lk(1) show ?thesis by simp
qed

lemma flush_heights_inv:
  assumes "upd_inv lu R s"
  shows "upd_inv lu R (flush_heights E lu s)"
proof -
  have idx: "idx_inv lu [] (db_accounts (us_db s)) (db_accounts_ba (us_db s))
      (bulk_insert (tb_accounts_bh E) (db_accounts_bh (us_db s)) lu (us_heights s))"
    using assms by (intro idx_flush) (simp add: upd_inv_def)
  then have "table_wf lk_id (bulk_insert (tb_accounts_bh E) (db_accounts_bh (us_db s)) lu (us_heights s))"
    by (simp add: idx_inv_def acc_rows_ok_def)
  with idx assms show ?thesis
    by (simp add: upd_inv_def flush_heights_def db_wf_def scan_inv_def scanned_def)
qed

lemma store_user_inv:
  assumes inv: "upd_inv lu R s" and user: "below lu user" "Pair (la_id user) ` set (la_spends user) \<subseteq> R"
    and ex: "(status, existing) \<in> set (db_accounts (us_db s))" "acc_id existing = la_id user"
    and newer: "acc_scan_height existing < lu"
    and ok: "store_user E fn lu user status existing (us_db s) out = Inr (d', out')"
  shows "upd_inv lu R (s\<lparr>us_db := d', us_out := out', us_heights := us_heights s @ [\<lparr>lk_id = la_id user, lk_status = status\<rparr>]\<rparr>)"
proof -
  let ?d = "us_db s" and ?u = "la_id user" and ?ex = "existing\<lparr>acc_scan_height := lu\<rparr>"
  have idx: "idx_inv lu (us_heights s) (db_accounts ?d) (db_accounts_ba ?d) (db_accounts_bh ?d)" and wf: "db_wf ?d"
    and scan: "scan_inv ?d" and sub: "set (db_spends ?d) \<subseteq> R"
    and img: "\<forall>r \<in> set (db_spends ?d). image_key r \<in> row_key ki_value ` set (db_images ?d)"
    using inv by (simp_all add: upd_inv_def)
  from store_user_result [OF ok wf ex(2)] obtain lk where
    lk: "t_get lk_id (db_accounts_bh ?d) (acc_scan_height existing) ?u = Some lk"
    and frame: "without_events d' = without_events (add_spends E ?u (la_spends user)
       (?d\<lparr>db_accounts := t_set acc_id (db_accounts ?d) status ?u ?ex,
          db_accounts_bh := t_del lk_id (db_accounts_bh ?d) (acc_scan_height existing) ?u,
          db_outputs := bulk_insert (tb_outputs E) (db_outputs ?d) ?u (la_outputs user)\<rparr>))"
    and ev: "table_wf (\<lambda>e. e) (db_events d')" by blast
  note eq = without_eventsD [OF frame, unfolded acc_tables_def add_spends_eq, simplified]
  have dist: "distinct (map (\<lambda>r. acc_id (snd r)) (db_accounts ?d))" using idx by (simp add: idx_inv_def acc_rows_ok_def)
  have row: "(acc_scan_height existing, \<lparr>lk_id = ?u, lk_status = status\<rparr>) \<in> set (db_accounts_bh ?d)"
    using bh_row_status [OF idx ex(1)] lk ex(2) by simp
  from idx_touch [OF idx ex(1), of ?ex] row ex(2) eq(3)
  have idx': "idx_inv lu (us_heights s @ [\<lparr>lk_id = ?u, lk_status = status\<rparr>]) (db_accounts d') (db_accounts_ba d') (db_accounts_bh d')"
    by simp
  have wfs: "table_wf spend_sort (db_spends ?d)" "table_wf output_sort (db_outputs ?d)" "table_wf ki_value (db_images ?d)"
    using wf by (simp_all add: db_wf_def)
  have new_spend: "r \<in> set (db_spends ?d) \<or> fst r = ?u \<and> snd r \<in> set (la_spends user)" if "r \<in> set (db_spends d')" for r
    using that unfolding eq(5) by (rule dupsort_table.bulk_insert_other [OF spends wfs(1)])
  have new_out: "r \<in> set (db_outputs ?d) \<or> fst r = ?u \<and> snd r \<in> set (la_outputs user)" if "r \<in> set (db_outputs d')" for r
    using that unfolding eq(4) by (rule dupsort_table.bulk_insert_other [OF outputs wfs(2)])
  note images' = put_images_keys [OF wfs(3), of "la_spends user", folded eq(6)]
  have "image_key r \<in> row_key ki_value ` set (db_images d')" if "r \<in> set (db_spends d')" for r
    using new_spend [OF that] images' img by (auto simp: image_key_def)
  moreover have "set (db_spends d') \<subseteq> R" using new_spend sub user(2) by (force simp: image_subset_iff)
  moreover have "scan_inv d'"
  proof -
    have acc: "set (db_accounts d') = insert (status, ?ex) (set (db_accounts ?d) - {(status, existing)})"
      unfolding eq(3) [THEN conjunct1] using set_t_set_acc [OF dist ex(1), of ?ex] ex(2) by simp
    have mono: "scanned d' u x" if "scanned ?d u x" for u x
      using that newer ex(2) unfolding scanned_def acc by (auto intro: order_trans less_imp_le)
    have "scanned d' ?u x" if "x \<le> lu" for x using that ex(2) by (simp add: scanned_def acc)
    then show ?thesis unfolding scan_inv_def
      using new_out new_spend mono scan user(1) unfolding scan_inv_def below_def by metis
  qed
  moreover have "db_wf d'"
    using wf idx' ev images' eq
    by (simp add: db_wf_def idx_inv_def acc_rows_ok_def dupsort_table.bulk_insert_wf [OF outputs] dupsort_table.bulk_insert_wf [OF spends])
  ultimately show ?thesis using idx' by (simp add: upd_inv_def)
qed

lemma update_user_inv:
  assumes inv: "upd_inv lu R s" and user: "below lu user" "Pair (la_id user) ` set (la_spends user) \<subseteq> R"
    and ok: "update_user E fn lu user s = Inr s'"
  shows "upd_inv lu R s'"
proof -
  obtain s1 where s1: "s1 = (if length (us_heights s) = 127 then flush_heights E lu s else s)" by simp
  have inv1: "upd_inv lu R s1" using inv flush_heights_inv by (simp add: s1)
  then have idx: "idx_inv lu (us_heights s1) (db_accounts (us_db s1)) (db_accounts_ba (us_db s1)) (db_accounts_bh (us_db s1))"
    by (simp only: upd_inv_def)
  from ok obtain found where found: "find_existing E user (us_db s1) = Inr found"
    by (auto simp: update_user_def Let_def ebind_eq_Inr s1 [symmetric])
  show ?thesis
  proof (cases found)
    case None
    then show ?thesis using ok found inv1 by (simp add: update_user_def Let_def s1 [symmetric])
  next
    case (Some p)
    obtain status existing where p: "p = (status, existing)" by (cases p)
    let ?t = "s1\<lparr>us_out := (us_out s1)\<lparr>ur_accounts_updated := ur_accounts_updated (us_out s1) + 1\<rparr>\<rparr>"
    have ex: "(status, existing) \<in> set (db_accounts (us_db ?t))" "acc_id existing = la_id user"
      using find_existing_result [OF idx, of user status existing] found Some p by simp_all
    have inv2: "upd_inv lu R ?t" using inv1 by (simp add: upd_inv_def)
    have eq: "update_user E fn lu user s = (if acc_scan_height existing < la_height user then Inr s1
       else if lu \<le> acc_scan_height existing then Inr ?t
       else ebind (store_user E fn lu user status existing (us_db ?t) (us_out ?t)) (\<lambda>(d, out).
         Inr (?t\<lparr>us_db := d, us_out := out, us_heights := us_heights ?t @ [\<lparr>lk_id = la_id user, lk_status = status\<rparr>]\<rparr>)))"
      unfolding update_user_def Let_def s1 [symmetric] found Some p by simp
    show ?thesis
    proof (cases "acc_scan_height existing < la_height user \<or> lu \<le> acc_scan_height existing")
      case True
      then have "s' = s1 \<or> s' = ?t" using ok unfolding eq by (simp split: if_splits)
      then show ?thesis using inv1 inv2 by (elim disjE) (simp_all only:)
    next
      case False
      then have "ebind (store_user E fn lu user status existing (us_db ?t) (us_out ?t)) (\<lambda>(d, out).
         Inr (?t\<lparr>us_db := d, us_out := out, us_heights := us_heights ?t @ [\<lparr>lk_id = la_id user, lk_status = status\<rparr>]\<rparr>)) = Inr s'"
        using ok unfolding eq by simp
      then obtain d' out' where st: "store_user E fn lu user status existing (us_db ?t) (us_out ?t) = Inr (d', out')"
        and s': "s' = ?t\<lparr>us_db := d', us_out := out', us_heights := us_heights ?t @ [\<lparr>lk_id = la_id user, lk_status = status\<rparr>]\<rparr>"
        unfolding ebind_eq_Inr by force
      from False have "acc_scan_height existing < lu" by (simp add: not_le)
      from store_user_inv [OF inv2 user ex this st] show ?thesis unfolding s' .
    qed
  qed
qed

lemma update_blocks_inv:
  assumes "storage_inv d" and "update_blocks E h chain pow rt d = Inr d'"
  shows "storage_inv d' \<and> db_spends d' = db_spends d"
proof -
  show ?thesis using assms
    by (auto simp: update_blocks_def Let_def ebind_eq_Inr simp del: append_block_hashes.simps append_pow.simps
        intro!: append_inv split: if_splits option.splits)
qed

lemma upd_inv_start:
  assumes "storage_inv d" and "set (db_spends d) \<subseteq> R"
  shows "upd_inv lu R \<lparr>us_db = d, us_heights = [], us_out = out\<rparr>"
  using assms index_inv_idx [of d lu] by (simp add: upd_inv_def storage_inv_def image_inv_def)

lemma upd_inv_final:
  assumes "upd_inv lu R s" and "us_heights s = []" and "spends_unique R"
  shows "storage_inv (us_db s)"
proof -
  let ?d = "us_db s"
  have wf: "table_wf spend_sort (db_spends ?d)" using assms(1) by (simp add: upd_inv_def db_wf_def)
  have "inj_on image_key (set (db_spends ?d))"
  proof (rule inj_onI)
    fix r r' assume r: "r \<in> set (db_spends ?d)" "r' \<in> set (db_spends ?d)" "image_key r = image_key r'"
    then have "row_key spend_sort r = row_key spend_sort r'"
      using assms(1,3) by (auto simp: upd_inv_def spends_unique_def)
    then show "r = r'" by (rule table_wf_inj [OF wf r(1,2)])
  qed
  then have "image_inv ?d"
    using assms(1) wf by (simp add: image_inv_def upd_inv_def distinct_map table_wf_distinct)
  moreover have "index_inv ?d" using assms(1,2) by (simp add: index_inv_idx [of _ lu] upd_inv_def)
  ultimately show ?thesis using assms(1) by (simp add: storage_inv_def upd_inv_def)
qed

lemma update_inv:
  assumes inv: "storage_inv d" and rep: "scan_report_ok height chain users d"
    and ok: "update E height chain users pow rt d = Inr (d', out)"
  shows "storage_inv d'"
proof (cases "users = [] \<and> chain = []")
  case True
  then show ?thesis using ok inv by (simp add: update_def)
next
  case False
  let ?lu = "height + of_nat (length chain) - 1" and ?R = "set (db_spends d) \<union> reported users"
  from ok False obtain d1 s where d1: "update_blocks E height chain pow rt d = Inr d1"
    and fold: "efold (update_user E (height + 1) ?lu) users \<lparr>us_db = d1, us_heights = [], us_out = empty_result\<rparr> = Inr s"
    and d': "d' = us_db (flush_heights E ?lu s)"
    by (auto simp: update_def Let_def ebind_eq_Inr split: if_splits)
  have inv1: "storage_inv d1" "set (db_spends d1) \<subseteq> ?R" using update_blocks_inv [OF inv d1] by auto
  from fold have "upd_inv ?lu ?R s"
  proof (rule efold_invariant)
    fix user s t assume u: "user \<in> set users" and s: "upd_inv ?lu ?R s" "update_user E (height + 1) ?lu user s = Inr t"
    have "below ?lu user" using rep u by (simp add: scan_report_ok_def)
    moreover have "Pair (la_id user) ` set (la_spends user) \<subseteq> ?R" using u by (auto simp: reported_def)
    ultimately show "upd_inv ?lu ?R t" by (rule update_user_inv [OF s(1) _ _ s(2)])
  qed (rule upd_inv_start [OF inv1])
  then have "upd_inv ?lu ?R (flush_heights E ?lu s)" by (rule flush_heights_inv)
  then show ?thesis unfolding d'
    by (rule upd_inv_final) (use rep in \<open>simp_all add: flush_heights_def scan_report_ok_def\<close>)
qed

end

context storage_env
begin

lemma get_account_complete:
  assumes "index_inv d" and "(s, a) \<in> set (db_accounts d)"
  shows "get_account_by_address E d (acc_address a) = Inr (s, a)"
proof -
  have ok: "table_wf acc_id (db_accounts d)" "table_wf ba_sort (db_accounts_ba d)"
    "set (db_accounts_ba d) = ba_row ` set (db_accounts d)"
    using assms(1) by (simp_all add: index_inv_def acc_rows_ok_def)
  let ?r = "snd (ba_row (s, a))"
  have "(by_address_version, ?r) \<in> set (db_accounts_ba d)"
    unfolding ok(3) by (rule rev_image_eqI [OF assms(2)]) (simp add: ba_row_def)
  then have "lookup_address E d (acc_address a) = Some ?r"
    using ok(2) by (simp add: lookup_address_def t_get_Some_iff ba_row_def ba_sort_def)
  moreover have "get_account E d s (acc_id a) = Inr a"
    using assms(2) ok(1) by (simp add: get_account_def eget_eq_Inr t_get_Some_iff)
  ultimately show ?thesis by (simp add: get_account_by_address_def ba_row_def)
qed

end

section \<open>The state machine\<close>

text \<open>
  A successful transaction of each kind. The environment may differ from step to step (the clock
  moves on). \<^verbatim>\<open>add_account\<close> and \<^verbatim>\<open>accept_requests\<close> count account ids up; the steps stop when all
  32-bit ids are used.
\<close>

inductive storage_step :: "db \<Rightarrow> db \<Rightarrow> bool" where
  st_sync_chain: "storage_env E \<Longrightarrow> sync_chain E h hashes rt d = Inr d' \<Longrightarrow> storage_step d d'"
| st_sync_pow: "storage_env E \<Longrightarrow> sync_pow E h hashes pow d = Inr d' \<Longrightarrow> storage_step d d'"
| st_rollback: "storage_env E \<Longrightarrow> rollback E h d = Inr d' \<Longrightarrow> storage_step d d'"
| st_access: "storage_env E \<Longrightarrow> update_access_time E address d = Inr d' \<Longrightarrow> storage_step d d'"
| st_status: "storage_env E \<Longrightarrow> change_status E status addresses d = Inr (d', changed) \<Longrightarrow> storage_step d d'"
| st_add: "storage_env E \<Longrightarrow> find_last_id E d \<noteq> max_u32 \<Longrightarrow> add_account E address key flags d = Inr d'
    \<Longrightarrow> storage_step d d'"
| st_rescan: "storage_env E \<Longrightarrow> rescan E h addresses d = Inr (d', done) \<Longrightarrow> storage_step d d'"
| st_creation: "storage_env E \<Longrightarrow> creation_request E address key flags la d = Inr (d', hooks) \<Longrightarrow> storage_step d d'"
| st_import: "storage_env E \<Longrightarrow> import_request E address h la d = Inr d' \<Longrightarrow> storage_step d d'"
| st_shrink: "storage_env E \<Longrightarrow> shrink_lookahead E address la d = Inr d' \<Longrightarrow> storage_step d d'"
| st_accept: "storage_env E \<Longrightarrow> find_last_id E d \<noteq> max_u32 \<Longrightarrow> accept_requests E req addresses mx d = Inr (d', done)
    \<Longrightarrow> storage_step d d'"
| st_reject: "storage_env E \<Longrightarrow> reject_requests E req addresses d = (d', done) \<Longrightarrow> storage_step d d'"
| st_update: "storage_env E \<Longrightarrow> scan_report_ok h chain users d \<Longrightarrow> update E h chain users pow rt d = Inr (d', res)
    \<Longrightarrow> storage_step d d'"
| st_upsert: "storage_env E \<Longrightarrow> upsert_subaddresses E uid address key subs mx d = Inr (d', out) \<Longrightarrow> storage_step d d'"
| st_lookahead: "storage_env E \<Longrightarrow> update_lookahead E address h match mx d = Inr (d', n) \<Longrightarrow> storage_step d d'"
| st_webhook: "storage_env E \<Longrightarrow> add_webhook E type adr event d = Inr d' \<Longrightarrow> storage_step d d'"
| st_clear: "storage_env E \<Longrightarrow> clear_webhooks E addresses d = Inr d' \<Longrightarrow> storage_step d d'"
| st_clear_ids: "storage_env E \<Longrightarrow> clear_webhook_ids E ids d = d' \<Longrightarrow> storage_step d d'"

inductive reachable :: "db \<Rightarrow> bool" where
  reach_init: "table_wf bi_id b \<Longrightarrow> table_wf bp_id p \<Longrightarrow> reachable (empty_db\<lparr>db_blocks := b, db_pows := p\<rparr>)"
| reach_step: "reachable d \<Longrightarrow> storage_step d d' \<Longrightarrow> reachable d'"

lemma empty_db_inv: "storage_inv empty_db"
  by (simp add: storage_inv_def index_inv_def acc_rows_ok_def scan_inv_def image_inv_def, simp add: empty_db_def)

lemma rollback_inv:
  assumes "storage_env E" and "storage_inv d" and "rollback E h d = Inr d'"
  shows "storage_inv d'"
  using assms(2,3) storage_env.rollback_chain_inv [OF assms(1,2)]
  by (auto simp: rollback_def split: option.splits)

lemmas step_invs = storage_env.sync_chain_inv storage_env.sync_pow_inv rollback_inv
  storage_env.update_access_time_inv storage_env.change_status_inv storage_env.add_account_inv
  storage_env.rescan_inv storage_env.creation_request_inv storage_env.import_request_inv
  storage_env.shrink_lookahead_inv storage_env.accept_requests_inv storage_env.update_inv
  storage_env.upsert_subaddresses_inv storage_env.update_lookahead_inv storage_env.add_webhook_inv
  storage_env.clear_webhooks_inv

lemma storage_step_inv: "storage_step d d' \<Longrightarrow> storage_inv d \<Longrightarrow> storage_inv d'"
proof (induction rule: storage_step.induct)
  case (st_reject E req addresses d d' res)
  then show ?case using storage_env.reject_requests_inv [of E d req addresses] by simp
next
  case (st_clear_ids E ids d d')
  then show ?case using storage_env.clear_webhook_ids_inv [of E d ids] by simp
qed (blast intro: step_invs)+

lemma reachable_storage_inv: "reachable d \<Longrightarrow> storage_inv d"
  by (induction rule: reachable.induct) (auto intro: storage_step_inv storage_inv_chain [OF empty_db_inv])

section \<open>Properties\<close>

text \<open>
  C2: Every database the server can reach is consistent. Whatever sequence of synchronisations,
  reorganisations, scans, administrative changes, requests and webhook operations is run, the
  tables stay sorted, the indexes by address and by height are exactly the images of the account
  table, ids are unique, no output or spend lies above its account's scan height, and every
  spend has its key image.
\<close>

theorem reachable_consistent:
  assumes "reachable d"
  shows "db_wf d \<and> index_inv d \<and> scan_inv d \<and> image_inv d"
  using reachable_storage_inv [OF assms] by (simp add: storage_inv_def)

definition sample_reached :: db where
  "sample_reached = projr (add_account sample_env (Account_address 1005 6) 5 0 (empty_db\<lparr>db_blocks := db_blocks sample_chain, db_pows := []\<rparr>))"

lemma sample_reachable: "reachable sample_reached"
proof -
  let ?d = "empty_db\<lparr>db_blocks := db_blocks sample_chain, db_pows := []\<rparr>"
  have "\<not> isl (add_account sample_env (Account_address 1005 6) 5 0 ?d)" by code_simp
  then have "add_account sample_env (Account_address 1005 6) 5 0 ?d = Inr sample_reached"
    unfolding sample_reached_def by (rule sum.collapse(2) [symmetric])
  moreover have "find_last_id sample_env ?d \<noteq> max_u32" by code_simp
  ultimately have "storage_step ?d sample_reached" using sample_env_ok by (intro st_add)
  moreover have "reachable ?d" using sample_chain_ok(1) by (intro reach_init) (simp_all add: db_wf_def)
  ultimately show ?thesis by (rule reach_step [rotated])
qed

theorem reachable_consistent_witness:
  "length (db_accounts sample_reached) = 1 \<and> db_wf sample_reached \<and> index_inv sample_reached
    \<and> scan_inv sample_reached \<and> image_inv sample_reached"
proof -
  have "length (db_accounts sample_reached) = 1" by code_simp
  then show ?thesis using reachable_consistent [OF sample_reachable] by blast
qed

text \<open>
  Every stored account is found by its address: in every reachable database the lookup through
  the address index returns the account together with its current status.
\<close>

theorem account_found_by_address:
  assumes "storage_env E" and "reachable d" and "(s, a) \<in> set (db_accounts d)"
  shows "get_account_by_address E d (acc_address a) = Inr (s, a)"
  using storage_env.get_account_complete [OF assms(1) _ assms(3)] reachable_storage_inv [OF assms(2)]
  by (simp add: storage_inv_def)

theorem account_found_by_address_witness:
  "get_account_by_address sample_env sample_reached (acc_address (snd (hd (db_accounts sample_reached)))) =
    Inr (hd (db_accounts sample_reached))"
proof -
  have "db_accounts sample_reached \<noteq> []" by code_simp
  then have "(fst (hd (db_accounts sample_reached)), snd (hd (db_accounts sample_reached))) \<in> set (db_accounts sample_reached)"
    by simp
  from account_found_by_address [OF sample_env_ok sample_reachable this] show ?thesis by simp
qed

end
