(* ===== verification/Subaddress_Upsert.thy ===== *)
theory Subaddress_Upsert
  imports Storage_Reach
begin

text \<open>
  What \<^verbatim>\<open>do_upsert\<close> stores: the ranges of a major index afterwards cover exactly the old and the
  new minor indexes, every covered subaddress is found by its public key, and the number of
  provisioned subaddresses stays within the limit.
\<close>

section \<open>Counting\<close>

definition range_ok :: "index_range \<Rightarrow> bool" where
  "range_ok r \<longleftrightarrow> fst r \<le> snd r"

definition range_size :: "index_range \<Rightarrow> nat" where
  "range_size r = unat (snd r) - unat (fst r) + 1"

lemma card_range_set: "range_ok r \<Longrightarrow> card (range_set r) = range_size r"
  by (simp add: range_ok_def range_set_def range_size_def word_le_nat_alt Suc_diff_le)

lemma unat_u32_less: "unat (x :: u32) < 2 ^ 32"
  using unsigned_less [of x] by simp

lemma unat_ucast_u32: "unat (ucast (x :: u32) :: u64) = unat x"
proof -
  have "unat x < 2 ^ 64" using unat_u32_less [of x] by simp
  then show ?thesis by (simp add: unsigned_ucast_eq take_bit_nat_eq_self)
qed

lemma check_max_range_Some:
  assumes "check_max_range mx r c = Some c'" and "range_ok r" and "unat c \<le> unat mx"
  shows "unat c' = unat c + range_size r" "unat c' \<le> unat mx"
proof -
  let ?more = "snd r - fst r"
  have more: "unat ?more = unat (snd r) - unat (fst r)" using assms(2) by (simp add: range_ok_def unat_sub)
  have "\<not> ucast mx - c \<le> (ucast ?more :: u64)" and c': "c' = c + ucast (?more + 1)"
    using assms(1) by (auto simp: check_max_range_def Let_def split: if_splits)
  moreover have "unat (ucast mx - c) = unat mx - unat c"
    using assms(3) by (subst unat_sub) (simp_all add: word_le_nat_alt unat_ucast_u32)
  ultimately have lt: "unat ?more < unat mx - unat c" by (simp add: word_le_nat_alt unat_ucast_u32 not_le)
  have "unat mx < 2 ^ 32" using unat_u32_less [of mx] by simp
  then have one: "unat (?more + 1) = unat ?more + 1" using lt by (simp add: unat_word_ariths)
  have "unat c' = unat c + unat (?more + 1)"
    unfolding c' using lt one \<open>unat mx < 2 ^ 32\<close> by (simp add: unat_word_ariths unat_ucast_u32)
  then show "unat c' = unat c + range_size r" "unat c' \<le> unat mx"
    using one more lt by (simp_all add: range_size_def)
qed

lemma check_max_ranges_Some:
  assumes "check_max_ranges mx rs c = Some c'" and "list_all range_ok rs" and "unat c \<le> unat mx"
  shows "unat c' = unat c + sum_list (map range_size rs) \<and> unat c' \<le> unat mx"
  using assms
proof (induction rs arbitrary: c)
  case (Cons r rs)
  then obtain c1 where c1: "check_max_range mx r c = Some c1" "check_max_ranges mx rs c1 = Some c'"
    by (auto split: option.splits)
  have "range_ok r" using Cons.prems(2) by simp
  from check_max_range_Some [OF c1(1) this Cons.prems(3)] Cons.IH [OF c1(2)] Cons.prems(2) show ?case by simp
qed simp

section \<open>Merging\<close>

lemma report_range_Inr:
  assumes "report_range mx major r s = Inr s'" and "range_ok r" and "unat (up_count s) \<le> unat mx"
  shows "up_new_dict s' = up_new_dict s" "unat (up_count s') = unat (up_count s) + range_size r"
    "unat (up_count s') \<le> unat mx"
  using assms check_max_range_Some [OF _ assms(2,3)]
  by (auto simp: report_range_def split: option.splits)

lemma ranges_set_simps [simp]:
  "ranges_set [] = {}" "ranges_set (r # rs) = range_set r \<union> ranges_set rs" "ranges_set (rs @ qs) = ranges_set rs \<union> ranges_set qs"
  by (auto simp: ranges_set_def)

lemma range_set_hull:
  assumes "range_ok a" and "range_ok b" and "\<not> unat (snd a) + 1 < unat (fst b)" and "\<not> unat (snd b) + 1 < unat (fst a)"
  shows "range_set (min (fst a) (fst b), max (snd b) (snd a)) = range_set a \<union> range_set b"
  using assms by (auto simp: range_set_def range_ok_def word_le_nat_alt min_def max_def split: if_splits)

text \<open>
  A successful merge covers both lists, and the count grows by at least the number of new
  minor indexes.
\<close>

definition merged :: "index_ranges \<Rightarrow> index_ranges \<Rightarrow> upsert_state \<Rightarrow> upsert_state \<Rightarrow> nat \<Rightarrow> bool" where
  "merged old new s s' mx \<longleftrightarrow>
     ranges_set (up_new_dict s') = ranges_set (up_new_dict s) \<union> ranges_set old \<union> ranges_set new
     \<and> (list_all range_ok (up_new_dict s) \<longrightarrow> list_all range_ok (up_new_dict s'))
     \<and> unat (up_count s) + card (ranges_set new - ranges_set old) \<le> unat (up_count s')
     \<and> unat (up_count s') \<le> mx"

lemma finite_ranges_set [simp]: "finite (ranges_set rs)"
  by (simp add: ranges_set_def range_set_def)

lemma finite_range_set [simp]: "finite (range_set r)"
  by (simp add: range_set_def)

lemma card_split:
  assumes "A - B \<subseteq> C \<union> D" and "finite C" and "finite D"
  shows "card (A - B) \<le> card C + card D"
  using card_mono [OF _ assms(1)] card_Un_le [of C D] assms(2,3) by (meson finite_UnI le_trans)

text \<open>One iteration, from what the rest of the loop gives.\<close>

lemma mergedI:
  assumes "merged old' new' s1 s' mx"
    and "ranges_set (up_new_dict s1) \<union> ranges_set old' \<union> ranges_set new' = ranges_set (up_new_dict s) \<union> ranges_set old \<union> ranges_set new"
    and "list_all range_ok (up_new_dict s) \<Longrightarrow> list_all range_ok (up_new_dict s1)"
    and "unat (up_count s1) = unat (up_count s) + n" and "finite C" and "card C \<le> n"
    and "ranges_set new - ranges_set old \<subseteq> C \<union> (ranges_set new' - ranges_set old')"
  shows "merged old new s s' mx"
proof -
  have "card (ranges_set new - ranges_set old) \<le> n + card (ranges_set new' - ranges_set old')"
    using card_split [OF assms(7,5)] assms(6) by simp
  with assms(1-4) show ?thesis by (auto simp: merged_def)
qed

lemma overlap_parts:
  assumes "range_ok old" and "range_ok new"
  shows "fst new < fst old \<Longrightarrow> range_ok (fst new, fst old - 1)" "snd old < snd new \<Longrightarrow> range_ok (snd old + 1, snd new)"
    "range_set new - range_set old \<subseteq> (if fst new < fst old then range_set (fst new, fst old - 1) else {})
       \<union> (if snd old < snd new then range_set (snd old + 1, snd new) else {})"
proof -
  have a: "unat (fst old - 1) = unat (fst old) - 1" if "fst new < fst old"
    using that by (subst unat_sub) (auto simp: word_le_nat_alt word_less_nat_alt)
  have b: "unat (snd old + 1) = unat (snd old) + 1" if "snd old < snd new"
    using that unat_u32_less [of "snd new"] by (simp add: unat_word_ariths word_less_nat_alt)
  show "fst new < fst old \<Longrightarrow> range_ok (fst new, fst old - 1)"
    using a by (auto simp: range_ok_def word_le_nat_alt word_less_nat_alt)
  show "snd old < snd new \<Longrightarrow> range_ok (snd old + 1, snd new)"
    using b by (auto simp: range_ok_def word_le_nat_alt word_less_nat_alt)
  show "range_set new - range_set old \<subseteq> (if fst new < fst old then range_set (fst new, fst old - 1) else {})
       \<union> (if snd old < snd new then range_set (snd old + 1, snd new) else {})"
    using a b by (auto simp: range_set_def word_less_nat_alt)
qed

lemma merge_ranges_merged:
  assumes "merge_ranges mx major olds news s = Inr s'" and "list_all range_ok olds" and "list_all range_ok news"
    and "unat (up_count s) \<le> unat mx"
  shows "merged olds news s s' (unat mx)"
  using assms
proof (induction mx major olds news s rule: merge_ranges.induct)
  case (1 mx major old olds new news s)
  have ok: "range_ok old" "range_ok new" "list_all range_ok olds" "list_all range_ok news" using "1.prems"(2,3) by simp_all
  consider (before) "unat (snd new) + 1 < unat (fst old)"
    | (after) "\<not> unat (snd new) + 1 < unat (fst old)" "unat (snd old) + 1 < unat (fst new)"
    | (inside) "\<not> unat (snd new) + 1 < unat (fst old)" "\<not> unat (snd old) + 1 < unat (fst new)" "fst old \<le> fst new \<and> snd new \<le> snd old"
    | (overlap) "\<not> unat (snd new) + 1 < unat (fst old)" "\<not> unat (snd old) + 1 < unat (fst new)" "\<not> (fst old \<le> fst new \<and> snd new \<le> snd old)"
    by blast
  then show ?case
  proof cases
    case before
    with "1.prems"(1) obtain s1 where s1: "report_range mx major new s = Inr s1"
      and rest: "merge_ranges mx major (old # olds) news (push_range new s1) = Inr s'" by (auto simp: ebind_eq_Inr)
    note r = report_range_Inr [OF s1 ok(2) "1.prems"(4)]
    have "merged (old # olds) news (push_range new s1) s' (unat mx)"
      by (rule "1.IH"(1) [OF before rest]) (use ok r in \<open>simp_all add: push_range_def\<close>)
    then show ?thesis
      by (rule mergedI [where C = "range_set new" and n = "range_size new"]) (use r ok in \<open>auto simp: push_range_def card_range_set\<close>)
  next
    case after
    with "1.prems"(1) have rest: "merge_ranges mx major olds (new # news) (push_range old s) = Inr s'" by simp
    have "merged olds (new # news) (push_range old s) s' (unat mx)"
      by (rule "1.IH"(2) [OF after rest]) (use ok "1.prems"(4) in \<open>simp_all add: push_range_def\<close>)
    then show ?thesis
      by (rule mergedI [where C = "{}" and n = 0]) (use ok in \<open>auto simp: push_range_def\<close>)
  next
    case inside
    with "1.prems"(1) have rest: "merge_ranges mx major (old # olds) news s = Inr s'" by simp
    have sub: "range_set new \<subseteq> range_set old" using inside by (auto simp: range_set_def word_le_nat_alt)
    have "merged (old # olds) news s s' (unat mx)"
      by (rule "1.IH"(3) [OF inside rest]) (use ok "1.prems"(4) in simp_all)
    then show ?thesis by (rule mergedI [where C = "{}" and n = 0]) (use sub in auto)
  next
    case overlap
    let ?hull = "(min (fst new) (fst old), max (snd old) (snd new))"
    let ?first = "(fst new, fst old - 1)" and ?last = "(snd old + 1, snd new)"
    have "ebind (if fst new < fst old then report_range mx major ?first s else Inr s) (\<lambda>s.
        ebind (if snd old < snd new then report_range mx major ?last s else Inr s) (\<lambda>s.
          merge_ranges mx major (?hull # olds) news s)) = Inr s'"
      using "1.prems"(1) by (simp only: merge_ranges.simps(1) if_not_P [OF overlap(1)] if_not_P [OF overlap(2)] if_not_P [OF overlap(3)])
    then obtain s1 s2 where
      s1: "(if fst new < fst old then report_range mx major ?first s else Inr s) = Inr s1"
      and s2: "(if snd old < snd new then report_range mx major ?last s1 else Inr s1) = Inr s2"
      and rest: "merge_ranges mx major (?hull # olds) news s2 = Inr s'" unfolding ebind_eq_Inr by blast
    let ?A = "if fst new < fst old then range_set ?first else {}" and ?B = "if snd old < snd new then range_set ?last else {}"
    let ?m = "if fst new < fst old then range_size ?first else 0" and ?n = "if snd old < snd new then range_size ?last else 0"
    note parts = overlap_parts [OF ok(1,2)]
    have r1: "up_new_dict s1 = up_new_dict s" "unat (up_count s1) = unat (up_count s) + ?m" "unat (up_count s1) \<le> unat mx"
      using s1 report_range_Inr [of mx major ?first s s1] parts(1) "1.prems"(4) by (auto split: if_splits)
    have r2: "up_new_dict s2 = up_new_dict s1" "unat (up_count s2) = unat (up_count s1) + ?n" "unat (up_count s2) \<le> unat mx"
      using s2 report_range_Inr [of mx major ?last s1 s2] parts(2) r1(3) by (auto split: if_splits)
    have hull: "range_set ?hull = range_set new \<union> range_set old" by (rule range_set_hull [OF ok(2,1) overlap(1,2)])
    have "range_ok ?hull" using ok by (auto simp: range_ok_def min_def max_def)
    then have "merged (?hull # olds) news s2 s' (unat mx)"
      by (intro "1.IH"(4) [OF overlap rest]) (use ok r2 in simp_all)
    then show ?thesis
    proof (rule mergedI [where C = "?A \<union> ?B" and n = "?m + ?n"])
      show "card (?A \<union> ?B) \<le> ?m + ?n"
        using card_Un_le [of ?A ?B] parts(1,2) by (auto simp: card_range_set split: if_splits)
      show "ranges_set (new # news) - ranges_set (old # olds) \<subseteq> ?A \<union> ?B \<union> (ranges_set news - ranges_set (?hull # olds))"
        using parts(3) hull by auto
    qed (use r1 r2 hull in auto)
  qed
next
  case (2 mx major olds s)
  then show ?case by (auto simp: merged_def)
next
  case (3 mx major new news s)
  have ok: "range_ok new" "list_all range_ok news" using "3.prems"(3) by simp_all
  from "3.prems"(1) obtain s1 where s1: "report_range mx major new s = Inr s1"
    and rest: "merge_ranges mx major [] news (push_range new s1) = Inr s'" by (auto simp: ebind_eq_Inr)
  note r = report_range_Inr [OF s1 ok(1) "3.prems"(4)]
  have "merged [] news (push_range new s1) s' (unat mx)"
    by (rule "3.IH" [OF rest]) (use ok r in \<open>simp_all add: push_range_def\<close>)
  then show ?case
    by (rule mergedI [where C = "range_set new" and n = "range_size new"]) (use r ok in \<open>auto simp: push_range_def card_range_set\<close>)
qed

section \<open>Storing\<close>

definition stored_ranges :: "db \<Rightarrow> account_id \<Rightarrow> major_index \<Rightarrow> index_ranges" where
  "stored_ranges d uid major = (case t_get fst (db_ranges d) uid major of None \<Rightarrow> [] | Some v \<Rightarrow> snd v)"

definition covered :: "db \<Rightarrow> account_id \<Rightarrow> major_index \<Rightarrow> nat set" where
  "covered d uid major = ranges_set (stored_ranges d uid major)"

definition sub_key :: "crypto \<Rightarrow> account_address \<Rightarrow> view_key \<Rightarrow> major_index \<Rightarrow> nat \<Rightarrow> public_key" where
  "sub_key C address key major minor = get_spend_public C (Address_index major (of_nat minor)) address key"

definition sub_keys :: "db \<Rightarrow> account_id \<Rightarrow> public_key set" where
  "sub_keys d uid = sa_subaddress ` {v. (uid, v) \<in> set (db_indexes d)}"

text \<open>
  The subaddress tables of an account agree: ranges are not empty, every covered subaddress has
  its row, and every row maps a subaddress to an index that generates it.
\<close>

definition provisioned :: "crypto \<Rightarrow> account_address \<Rightarrow> view_key \<Rightarrow> account_id \<Rightarrow> db \<Rightarrow> bool" where
  "provisioned C address key uid d \<longleftrightarrow>
     (\<forall>major. list_all range_ok (stored_ranges d uid major)
        \<and> sub_key C address key major ` covered d uid major \<subseteq> sub_keys d uid)
     \<and> (\<forall>v. (uid, v) \<in> set (db_indexes d) \<longrightarrow> sa_subaddress v = get_spend_public C (sa_index v) address key)"

lemma sa_index_values:
  "set (index_values C address key major rs) = (\<lambda>m. subaddress_value C address key (Address_index major (of_nat m))) ` ranges_set rs"
proof -
  have "set (range_minors r) = of_nat ` range_set r" for r
    by (auto simp: range_minors_def range_set_def atLeastLessThanSuc_atLeastAtMost)
  then show ?thesis by (auto simp: index_values_def ranges_set_def)
qed

lemma sub_keys_index_values:
  "sa_subaddress ` set (index_values C address key major rs) = sub_key C address key major ` ranges_set rs"
  unfolding sa_index_values image_image by (simp add: subaddress_value_def sub_key_def)

lemma length_dups_card:
  assumes "table_wf sa_subaddress (db_indexes d)"
  shows "length (t_dups (db_indexes d) uid) = card (sub_keys d uid)"
proof -
  have "sorted_wrt (\<lambda>v w. sa_subaddress v < sa_subaddress w) (t_dups (db_indexes d) uid)"
    by (rule t_dups_sorted [OF assms])
  then have "sorted_wrt (<) (map sa_subaddress (t_dups (db_indexes d) uid))"
    by (simp add: sorted_wrt_map)
  then have "distinct (map sa_subaddress (t_dups (db_indexes d) uid))"
    by (simp only: strict_sorted_iff)
  from distinct_card [OF this] show ?thesis by (simp add: sub_keys_def)
qed

lemma finite_sub_keys [simp]: "finite (sub_keys d uid)"
proof -
  have "{v. (uid, v) \<in> set (db_indexes d)} = snd ` {r \<in> set (db_indexes d). fst r = uid}" by force
  then show ?thesis by (simp add: sub_keys_def)
qed

lemma card_step: "A \<subseteq> sub_keys d uid \<union> B \<Longrightarrow> finite B \<Longrightarrow> card A \<le> card (sub_keys d uid) + card B"
  by (rule order.trans [OF card_mono card_Un_le]) simp_all

text \<open>The effect of one dictionary: \<open>d\<close> before, \<open>d'\<close> after, \<open>c\<close> and \<open>c'\<close> the counts.\<close>

definition upserted :: "env \<Rightarrow> account_address \<Rightarrow> view_key \<Rightarrow> account_id \<Rightarrow> (major_index \<Rightarrow> nat set) \<Rightarrow> db \<Rightarrow> db \<Rightarrow> u64 \<Rightarrow> u64 \<Rightarrow> bool" where
  "upserted E address key uid new d d' c c' \<longleftrightarrow>
     (\<forall>major. covered d' uid major = covered d uid major \<union> new major)
     \<and> provisioned (env_crypto E) address key uid d' \<and> subs_wf d'
     \<and> card (sub_keys d' uid) + unat c \<le> card (sub_keys d uid) + unat c'"

lemma upserted_refl: "provisioned (env_crypto E) address key uid d \<Longrightarrow> subs_wf d \<Longrightarrow> upserted E address key uid (\<lambda>_. {}) d d c c"
  by (simp add: upserted_def)

lemma upserted_trans:
  assumes "upserted E address key uid f d d1 c c1" and "upserted E address key uid g d1 d2 c1 c2"
  shows "upserted E address key uid (\<lambda>m. f m \<union> g m) d d2 c c2"
  using assms unfolding upserted_def by auto

context storage_env
begin

lemma store_ranges_result:
  assumes wf: "subs_wf d" and none: "t_get fst (db_ranges d) uid major = None"
  shows "store_ranges E uid address key major nd d =
    (d\<lparr>db_indexes := bulk_insert (tb_indexes E) (db_indexes d) uid (index_values (env_crypto E) address key major nd),
       db_ranges := t_put fst (db_ranges d) uid (major, nd)\<rparr>, Inr ())"
  using none by (simp add: store_ranges_def Let_def)

lemma store_entry:
  assumes wf: "subs_wf d" and prov: "provisioned (env_crypto E) address key uid d"
    and nd: "ranges_set nd = covered d uid major \<union> N" "list_all range_ok nd"
    and fin: "finite N" and cnt: "unat c + card (N - covered d uid major) \<le> unat c'"
    and ranges: "db_ranges d1 = t_del fst (db_ranges d) uid major" "db_indexes d1 = db_indexes d"
    and st: "store_ranges E uid address key major nd d1 = (d', r)"
  shows "upserted E address key uid (\<lambda>m. if m = major then N else {}) d d' c c' \<and> r = Inr ()"
proof -
  let ?C = "env_crypto E" and ?vs = "index_values (env_crypto E) address key major nd"
  have wfs: "table_wf fst (db_ranges d)" "table_wf sa_subaddress (db_indexes d)" using wf by (simp_all add: subs_wf_def)
  have wf1: "subs_wf d1" using wfs ranges by (simp add: subs_wf_def table_wf_del)
  have none: "t_get fst (db_ranges d1) uid major = None"
    unfolding ranges by (auto simp: t_get_None_iff set_t_del row_key_def)
  have d': "d' = d1\<lparr>db_indexes := bulk_insert (tb_indexes E) (db_indexes d) uid ?vs,
      db_ranges := t_put fst (db_ranges d1) uid (major, nd)\<rparr>" and r: "r = Inr ()"
    using st store_ranges_result [OF wf1 none] ranges(2) by simp_all
  have wf': "subs_wf d'" using store_ranges_wf [OF wf1, of uid address key major nd] st by simp
  have get': "t_get fst (db_ranges d') uid m = (if m = major then Some (major, nd) else t_get fst (db_ranges d) uid m)" for m
  proof -
    have wfr: "table_wf fst (db_ranges d1)" "table_wf fst (db_ranges d')" using wf1 wf' by (simp_all add: subs_wf_def)
    have "set (db_ranges d') = insert (uid, major, nd) {r \<in> set (db_ranges d). row_key fst r \<noteq> (uid, major)}"
      unfolding d' using set_t_put [OF wfr(1), of uid "(major, nd)"] by (auto simp: ranges(1) set_t_del)
    then have "t_get fst (db_ranges d') uid m = Some v \<longleftrightarrow>
        (if m = major then Some (major, nd) else t_get fst (db_ranges d) uid m) = Some v" for v
      unfolding t_get_Some_iff [OF wfr(2)] by (auto simp: t_get_Some_iff [OF wfs(1)] row_key_def)
    then show ?thesis by (rule option_eqI)
  qed
  have stored: "stored_ranges d' uid m = (if m = major then nd else stored_ranges d uid m)" for m
    by (simp add: stored_ranges_def get')
  have idx': "db_indexes d' = bulk_insert (tb_indexes E) (db_indexes d) uid ?vs" by (simp add: d')
  have keys: "sub_keys d' uid = sub_keys d uid \<union> sub_key ?C address key major ` ranges_set nd" (is "?l = ?r")
  proof
    show "?l \<subseteq> ?r"
      unfolding sub_keys_def idx' sub_keys_index_values [symmetric]
      using dupsort_table.bulk_insert_other [OF indexes wfs(2)] by fastforce
    show "?r \<subseteq> ?l"
      unfolding sub_keys_def idx' sub_keys_index_values [symmetric]
      using dupsort_table.bulk_insert_subset [OF indexes wfs(2), of uid ?vs]
        dupsort_table.bulk_insert_keys [OF indexes wfs(2), of _ ?vs uid]
      by (intro Un_least image_subsetI) (auto simp: image_iff, metis)
  qed
  have gen: "sa_subaddress v = get_spend_public ?C (sa_index v) address key" if "(uid, v) \<in> set (db_indexes d')" for v
    using dupsort_table.bulk_insert_other [OF indexes wfs(2) that [unfolded idx']] prov
    by (auto simp: provisioned_def sa_index_values subaddress_value_def)
  have cov: "covered d' uid m = (if m = major then covered d uid m \<union> N else covered d uid m)" for m
    using nd(1) by (simp add: covered_def stored)
  have old: "sub_key ?C address key m ` covered d uid m \<subseteq> sub_keys d uid" for m
    using prov by (simp add: provisioned_def)
  have "list_all range_ok (stored_ranges d' uid m)" for m
    using prov nd(2) by (simp add: stored provisioned_def)
  moreover have "sub_key ?C address key m ` covered d' uid m \<subseteq> sub_keys d' uid" for m
    unfolding keys cov nd(1) using old [of m] by auto
  ultimately have prov': "provisioned ?C address key uid d'" using gen by (simp add: provisioned_def)
  have "sub_keys d' uid \<subseteq> sub_keys d uid \<union> sub_key ?C address key major ` (N - covered d uid major)"
    unfolding keys nd(1) using old by auto
  then have "card (sub_keys d' uid) \<le> card (sub_keys d uid) + card (sub_key ?C address key major ` (N - covered d uid major))"
    by (rule card_step) (use fin in simp)
  also have "\<dots> \<le> card (sub_keys d uid) + card (N - covered d uid major)" using fin by (simp add: card_image_le)
  finally show ?thesis using cnt cov prov' wf' r by (simp add: upserted_def)
qed

lemma t_del_None: "t_get sk t k s = None \<Longrightarrow> t_del sk t k s = t"
  by (auto simp: t_del_def t_get_None_iff at_row_def intro!: filter_True)

lemma check_dict_ok: "check_subaddress_dict entry \<Longrightarrow> list_all range_ok (snd entry)"
  by (simp add: check_subaddress_dict_def check_ranges_iff range_ok_def [abs_def])

lemma card_ranges_set_le: "list_all range_ok rs \<Longrightarrow> card (ranges_set rs) \<le> sum_list (map range_size rs)"
proof (induction rs)
  case (Cons r rs)
  have "card (ranges_set (r # rs)) \<le> card (range_set r) + card (ranges_set rs)" by (simp add: card_Un_le)
  also have "\<dots> \<le> range_size r + sum_list (map range_size rs)" using Cons by (simp add: card_range_set)
  finally show ?case by simp
qed simp

text \<open>Both ways to obtain the ranges to store: no row of the major index yet, or a merge with it.\<close>

lemma upsert_merge_result:
  assumes m: "upsert_merge E uid mx entry s d = (d1, Inr u)" and chk: "check_subaddress_dict entry"
    and prov: "provisioned (env_crypto E) address key uid d" and c: "unat (fst s) \<le> unat mx"
  shows "ranges_set (up_new_dict u) = covered d uid (fst entry) \<union> ranges_set (snd entry)"
    "list_all range_ok (up_new_dict u)"
    "unat (fst s) + card (ranges_set (snd entry) - covered d uid (fst entry)) \<le> unat (up_count u)"
    "unat (up_count u) \<le> unat mx"
    "db_ranges d1 = t_del fst (db_ranges d) uid (fst entry)" "db_indexes d1 = db_indexes d"
proof -
  note ok = check_dict_ok [OF chk]
  have "ranges_set (up_new_dict u) = covered d uid (fst entry) \<union> ranges_set (snd entry)
    \<and> list_all range_ok (up_new_dict u)
    \<and> unat (fst s) + card (ranges_set (snd entry) - covered d uid (fst entry)) \<le> unat (up_count u)
    \<and> unat (up_count u) \<le> unat mx
    \<and> db_ranges d1 = t_del fst (db_ranges d) uid (fst entry) \<and> db_indexes d1 = db_indexes d"
  proof (cases "t_get fst (db_ranges d) uid (fst entry)")
    case None
    then obtain c' where c': "check_max_ranges mx (snd entry) (fst s) = Some c'" "up_count u = c'" "up_new_dict u = snd entry" "d1 = d"
      using m by (auto simp: upsert_merge_def split: option.splits)
    have "covered d uid (fst entry) = {}" by (simp add: covered_def stored_ranges_def None)
    then show ?thesis
      using check_max_ranges_Some [OF c'(1) ok c] card_ranges_set_le [OF ok] ok c' t_del_None [OF None] by simp
  next
    case (Some old)
    then have d1: "d1 = d\<lparr>db_ranges := t_del fst (db_ranges d) uid (fst entry)\<rparr>"
      and u: "merge_ranges mx (fst entry) (snd old) (snd entry) \<lparr>up_count = fst s, up_out = snd s, up_new_dict = []\<rparr> = Inr u"
      using m by (simp_all add: upsert_merge_def)
    have old: "covered d uid (fst entry) = ranges_set (snd old)" "list_all range_ok (snd old)"
      using prov by (auto simp: covered_def stored_ranges_def Some provisioned_def dest!: spec [of _ "fst entry"])
    from merge_ranges_merged [OF u old(2) ok] c show ?thesis by (simp add: merged_def d1 old(1))
  qed
  then show "ranges_set (up_new_dict u) = covered d uid (fst entry) \<union> ranges_set (snd entry)"
    "list_all range_ok (up_new_dict u)"
    "unat (fst s) + card (ranges_set (snd entry) - covered d uid (fst entry)) \<le> unat (up_count u)"
    "unat (up_count u) \<le> unat mx"
    "db_ranges d1 = t_del fst (db_ranges d) uid (fst entry)" "db_indexes d1 = db_indexes d" by simp_all
qed

end

text \<open>The minor indexes that a list of dictionaries asks for.\<close>

definition requested :: "subaddress_dict list \<Rightarrow> major_index \<Rightarrow> nat set" where
  "requested subs major = (\<Union>e \<in> {e \<in> set subs. fst e = major}. ranges_set (snd e))"

lemma requested_Nil: "requested [] = (\<lambda>_. {})"
  by (simp add: requested_def fun_eq_iff)

lemma requested_Cons:
  "requested (e # subs) = (\<lambda>m. (if m = fst e then ranges_set (snd e) else {}) \<union> requested subs m)"
  by (auto simp: requested_def fun_eq_iff)

context storage_env
begin

lemma upsert_loop_result:
  assumes "upsert_loop E uid address key mx subs s d = (d', Inr out)"
    and "subs_wf d" and "provisioned (env_crypto E) address key uid d" and "unat (fst s) \<le> unat mx"
  shows "\<exists>c'. unat c' \<le> unat mx \<and> upserted E address key uid (requested subs) d d' (fst s) c'"
  using assms
proof (induction subs arbitrary: s d)
  case Nil
  then show ?case by (intro exI [of _ "fst s"]) (simp add: requested_Nil upserted_refl)
next
  case (Cons e subs)
  from Cons.prems(1) obtain d1 u d2 r where chk: "check_subaddress_dict e"
    and m: "upsert_merge E uid mx e s d = (d1, Inr u)"
    and st: "store_ranges E uid address key (fst e) (up_new_dict u) d1 = (d2, r)"
    and rest: "upsert_loop E uid address key mx subs (up_count u, up_out u) d2 = (d', Inr out)"
    by (auto split: if_splits prod.splits sum.splits)
  note u = upsert_merge_result [OF m chk Cons.prems(3,4)]
  have up: "upserted E address key uid (\<lambda>m. if m = fst e then ranges_set (snd e) else {}) d d2 (fst s) (up_count u)"
    using store_entry [OF Cons.prems(2,3) u(1,2) finite_ranges_set u(3,5,6) st] by (rule conjunct1)
  then have "subs_wf d2" "provisioned (env_crypto E) address key uid d2" by (simp_all add: upserted_def)
  from Cons.IH [OF rest this] u(4) obtain c' where "unat c' \<le> unat mx"
    and "upserted E address key uid (requested subs) d2 d' (up_count u) c'" by auto
  with upserted_trans [OF up] show ?case unfolding requested_Cons by blast
qed

lemma do_upsert_result:
  assumes up: "do_upsert E uid address key subs mx d = (d', Inr out)"
    and wf: "subs_wf d" and prov: "provisioned (env_crypto E) address key uid d"
    and rows: "length (t_dups (db_indexes d) uid) < 2 ^ 64"
  shows "covered d' uid major = covered d uid major \<union> requested subs major"
    "provisioned (env_crypto E) address key uid d'" "subs_wf d'"
    "length (t_dups (db_indexes d') uid) \<le> unat mx"
proof -
  let ?c = "of_nat (length (t_dups (db_indexes d) uid)) :: u64"
  have c: "unat ?c = card (sub_keys d uid)"
    using wf rows by (simp add: unat_of_nat_u64 length_dups_card subs_wf_def)
  from up have le: "\<not> ucast mx < ?c" and loop: "upsert_loop E uid address key mx subs (?c, []) d = (d', Inr out)"
    by (auto simp: do_upsert_def Let_def split: if_splits)
  have "unat ?c \<le> unat mx" using le by (simp add: word_less_nat_alt not_less unat_ucast_u32)
  with upsert_loop_result [OF loop wf prov] obtain c' where c': "unat c' \<le> unat mx"
    and u: "upserted E address key uid (requested subs) d d' ?c c'" by auto
  show "covered d' uid major = covered d uid major \<union> requested subs major"
    "provisioned (env_crypto E) address key uid d'" "subs_wf d'"
    using u by (simp_all add: upserted_def)
  then show "length (t_dups (db_indexes d') uid) \<le> unat mx"
    using u c' c by (simp add: upserted_def length_dups_card subs_wf_def)
qed

end

lemma set_insort_dict [simp]: "set (insort_dict x xs) = insert x (set xs)"
  by (induction xs) auto

lemma set_foldr_insort_dict [simp]: "set (foldr insort_dict xs []) = set xs"
  by (induction xs) auto

lemma requested_sorted: "requested (foldr insort_dict subs []) = requested subs"
  by (simp add: requested_def fun_eq_iff)

section \<open>Properties\<close>

lemma upsert_subaddresses_cases:
  assumes "upsert_subaddresses E uid address key subs mx d = Inr (d', out)"
  shows "do_upsert E uid address key (foldr insort_dict subs []) mx d = (d', Inr out)"
  using assms by (auto simp: upsert_subaddresses_def split: prod.splits sum.splits)

text \<open>
  Witnesses: an account that has the subaddresses \<open>(0, 0..1)\<close>, then is asked for \<open>(0, 1..2)\<close> and
  \<open>(1, 0)\<close>.
\<close>

definition sample_address :: account_address where
  "sample_address = Account_address 1001 1"

definition sample_upsert :: "subaddress_dict list \<Rightarrow> db \<Rightarrow> (db \<times> subaddress_dict list) expect" where
  "sample_upsert subs = upsert_subaddresses sample_env 1 sample_address 1 subs 10"

definition sample_subs :: db where
  "sample_subs = fst (projr (sample_upsert [(0, [(0, 1)])] sample_db))"

definition sample_more :: "subaddress_dict list" where
  "sample_more = [(1, [(0, 0)]), (0, [(1, 2)])]"

lemma sample_subs_eq: "sample_upsert [(0, [(0, 1)])] sample_db = Inr (sample_subs, [(0, [(0, 1)])])"
proof -
  have "\<not> isl (sample_upsert [(0, [(0, 1)])] sample_db)"
    and "snd (projr (sample_upsert [(0, [(0, 1)])] sample_db)) = [(0, [(0, 1)])]" by code_simp+
  then show ?thesis unfolding sample_subs_def by (metis prod.collapse sum.collapse(2))
qed

lemma sample_more_eq: "sample_upsert sample_more sample_subs = Inr (fst (projr (sample_upsert sample_more sample_subs)), [(0, [(2, 2)]), (1, [(0, 0)])])"
proof -
  have "\<not> isl (sample_upsert sample_more sample_subs)"
    and "snd (projr (sample_upsert sample_more sample_subs)) = [(0, [(2, 2)]), (1, [(0, 0)])]" by code_simp+
  then show ?thesis by (metis prod.collapse sum.collapse(2))
qed

lemma sample_subs_ok:
  "subs_wf sample_subs" "provisioned (env_crypto sample_env) sample_address 1 1 sample_subs"
  "length (t_dups (db_indexes sample_subs) 1) < 2 ^ 64"
proof -
  have wf: "subs_wf sample_db" by code_simp
  have empty: "db_ranges sample_db = []" "db_indexes sample_db = []" by code_simp+
  then have "provisioned (env_crypto sample_env) sample_address 1 1 sample_db"
    by (simp add: provisioned_def covered_def stored_ranges_def t_get_def)
  moreover have "length (t_dups (db_indexes sample_db) 1) < 2 ^ 64" by (simp add: empty t_dups_def)
  ultimately show "subs_wf sample_subs" "provisioned (env_crypto sample_env) sample_address 1 1 sample_subs"
    using storage_env.do_upsert_result(2,3) [OF sample_env_ok upsert_subaddresses_cases [OF sample_subs_eq [unfolded sample_upsert_def]] wf]
    by blast+
  have "length (t_dups (db_indexes sample_subs) 1) = 2" by code_simp
  then show "length (t_dups (db_indexes sample_subs) 1) < 2 ^ 64" by simp
qed

lemmas sample_more_result = sample_more_eq [unfolded sample_upsert_def]

text \<open>
  C24: after \<^verbatim>\<open>upsert_subaddresses\<close> the stored ranges of every major index of the account cover
  exactly the minor indexes covered before and those of the request: none is lost, and none
  appears that was not asked for.
\<close>

theorem upsert_covers_union:
  assumes "storage_env E" and "subs_wf d" and "provisioned (env_crypto E) address key uid d"
    and "length (t_dups (db_indexes d) uid) < 2 ^ 64"
    and "upsert_subaddresses E uid address key subs mx d = Inr (d', out)"
  shows "covered d' uid major = covered d uid major \<union> requested subs major"
  using storage_env.do_upsert_result(1) [OF assms(1) upsert_subaddresses_cases [OF assms(5)] assms(2-4)]
  by (simp add: requested_sorted)

theorem upsert_covers_union_witness:
  "covered (fst (projr (sample_upsert sample_more sample_subs))) 1 0 = {0, 1, 2}"
proof -
  have "covered sample_subs 1 0 = {0, 1}" "requested sample_more 0 = {1, 2}" by code_simp+
  then show ?thesis
    using upsert_covers_union [OF sample_env_ok sample_subs_ok sample_more_result, of 0]
    unfolding sample_upsert_def by auto
qed

text \<open>
  C25: a successful \<^verbatim>\<open>upsert_subaddresses\<close> leaves at most \<^verbatim>\<open>max_subaddr\<close> subaddresses of the
  account in the index table, although the code counts ranges with 32-bit and 64-bit words and
  without looking at what the table holds for them.
\<close>

theorem upsert_within_limit:
  assumes "storage_env E" and "subs_wf d" and "provisioned (env_crypto E) address key uid d"
    and "length (t_dups (db_indexes d) uid) < 2 ^ 64"
    and "upsert_subaddresses E uid address key subs mx d = Inr (d', out)"
  shows "length (t_dups (db_indexes d') uid) \<le> unat mx"
  by (rule storage_env.do_upsert_result(4) [OF assms(1) upsert_subaddresses_cases [OF assms(5)] assms(2-4)])

theorem upsert_within_limit_witness:
  "length (t_dups (db_indexes (fst (projr (sample_upsert sample_more sample_subs)))) 1) \<le> 10"
  using upsert_within_limit [OF sample_env_ok sample_subs_ok sample_more_result] unfolding sample_upsert_def by simp

text \<open>
  C26: after \<^verbatim>\<open>upsert_subaddresses\<close> every subaddress covered by the stored ranges is found by its
  public spend key, and the index that \<^verbatim>\<open>find_subaddress\<close> returns generates that key. So the
  scanner recognises an output sent to any of them.
\<close>

theorem upsert_then_find:
  assumes "storage_env E" and "subs_wf d" and "provisioned (env_crypto E) address key uid d"
    and "length (t_dups (db_indexes d) uid) < 2 ^ 64"
    and "upsert_subaddresses E uid address key subs mx d = Inr (d', out)"
    and "minor \<in> covered d' uid major"
  shows "\<exists>i. find_subaddress E d' uid (sub_key (env_crypto E) address key major minor) = Inr i
     \<and> get_spend_public (env_crypto E) i address key = sub_key (env_crypto E) address key major minor"
proof -
  note up = storage_env.do_upsert_result [OF assms(1) upsert_subaddresses_cases [OF assms(5)] assms(2-4)]
  from up(2) assms(6) have "sub_key (env_crypto E) address key major minor \<in> sub_keys d' uid"
    by (auto simp: provisioned_def)
  then obtain v where v: "(uid, v) \<in> set (db_indexes d')" "sa_subaddress v = sub_key (env_crypto E) address key major minor"
    by (auto simp: sub_keys_def)
  moreover have "table_wf sa_subaddress (db_indexes d')" using up(3) by (simp add: subs_wf_def)
  ultimately have "t_get sa_subaddress (db_indexes d') uid (sub_key (env_crypto E) address key major minor) = Some v"
    by (simp add: t_get_Some_iff)
  then have "find_subaddress E d' uid (sub_key (env_crypto E) address key major minor) = Inr (sa_index v)"
    by (simp add: find_subaddress_def eget_def dupsort_table.get_both_law [OF storage_env.indexes [OF assms(1)]])
  then show ?thesis using v up(2) by (auto simp: provisioned_def)
qed

theorem upsert_then_find_witness:
  "\<exists>i. find_subaddress sample_env (fst (projr (sample_upsert sample_more sample_subs))) 1 (sub_key (env_crypto sample_env) sample_address 1 0 2) = Inr i
     \<and> get_spend_public (env_crypto sample_env) i sample_address 1 = sub_key (env_crypto sample_env) sample_address 1 0 2"
proof -
  have "2 \<in> covered (fst (projr (sample_upsert sample_more sample_subs))) 1 0" by code_simp
  then show ?thesis
    using upsert_then_find [OF sample_env_ok sample_subs_ok sample_more_result] unfolding sample_upsert_def by blast
qed

end
