(* ===== verification/Storage_Directory.thy ===== *)
theory Storage_Directory
  imports Storage_Reach
begin

text \<open>
  The abstract view of the three account tables: a map from the public view key of an address to
  the status and the account. The operations of \<^verbatim>\<open>src/db/storage.cpp\<close> that administer accounts
  are refinements of updates of this map, they succeed on every consistent database, and the
  list they return names the addresses that exist.
\<close>

section \<open>The directory\<close>

type_synonym directory = "public_key \<Rightarrow> (account_status \<times> account) option"

definition directory :: "db \<Rightarrow> directory" where
  "directory d v = find (\<lambda>r. view_public (acc_address (snd r)) = v) (db_accounts d)"

lemma view_public_unique:
  assumes "index_inv d" and "r \<in> set (db_accounts d)" and "r' \<in> set (db_accounts d)"
    and "view_public (acc_address (snd r)) = view_public (acc_address (snd r'))"
  shows "r = r'"
proof -
  have ok: "table_wf ba_sort (db_accounts_ba d)" "set (db_accounts_ba d) = ba_row ` set (db_accounts d)"
    "inj_on ba_row (set (db_accounts d))"
    using assms(1) by (simp_all add: index_inv_def acc_rows_ok_def inj_on_ba_row)
  have "ba_row r = ba_row r'"
    by (rule table_wf_inj [OF ok(1)]) (use assms(2-4) ok(2) in \<open>auto simp: row_key_def ba_row_def ba_sort_def\<close>)
  then show ?thesis using inj_onD [OF ok(3)] assms(2,3) by blast
qed

lemma directory_Some_iff:
  assumes "index_inv d"
  shows "directory d v = Some r \<longleftrightarrow> r \<in> set (db_accounts d) \<and> view_public (acc_address (snd r)) = v"
  unfolding directory_def by (rule find_Some_iff_unique) (use view_public_unique [OF assms] in blast)

text \<open>Only the entry of one key differs.\<close>

lemma directory_update:
  assumes "index_inv d" and "index_inv d'" and "(s, a) \<in> set (db_accounts d')"
    and "{r \<in> set (db_accounts d'). view_public (acc_address (snd r)) \<noteq> view_public (acc_address a)} =
      {r \<in> set (db_accounts d). view_public (acc_address (snd r)) \<noteq> view_public (acc_address a)}"
  shows "directory d' = (directory d)(view_public (acc_address a) \<mapsto> (s, a))"
proof
  fix v
  show "directory d' v = ((directory d)(view_public (acc_address a) \<mapsto> (s, a))) v"
  proof (cases "v = view_public (acc_address a)")
    case True
    then show ?thesis using assms(3) by (simp add: directory_Some_iff [OF assms(2)])
  next
    case False
    then have "directory d' v = Some r \<longleftrightarrow> directory d v = Some r" for r
      using assms(4) unfolding directory_Some_iff [OF assms(1)] directory_Some_iff [OF assms(2)] by blast
    then show ?thesis using False by (simp add: option_eqI)
  qed
qed

lemma directory_replace:
  assumes "index_inv d" and "index_inv d'" and "(s, a) \<in> set (db_accounts d)"
    and "set (db_accounts d') = insert (s', a') (set (db_accounts d) - {(s, a)})"
    and "acc_address a' = acc_address a"
  shows "directory d' = (directory d)(view_public (acc_address a) \<mapsto> (s', a'))"
proof -
  have "(s', a') \<in> set (db_accounts d')" by (simp add: assms(4))
  then show ?thesis unfolding assms(5) [symmetric]
  proof (rule directory_update [OF assms(1,2)])
    show "{r \<in> set (db_accounts d'). view_public (acc_address (snd r)) \<noteq> view_public (acc_address a')} =
      {r \<in> set (db_accounts d). view_public (acc_address (snd r)) \<noteq> view_public (acc_address a')}"
      unfolding assms(4) assms(5) [symmetric] using assms(5) by auto
  qed
qed

lemma directory_insert:
  assumes "index_inv d" and "index_inv d'" and "set (db_accounts d') = insert (s, a) (set (db_accounts d))"
  shows "directory d' = (directory d)(view_public (acc_address a) \<mapsto> (s, a))"
  by (rule directory_update [OF assms(1,2)]) (use assms(3) in auto)

lemma directory_cong: "db_accounts d' = db_accounts d \<Longrightarrow> directory d' = directory d"
  by (simp add: directory_def fun_eq_iff)

context storage_env
begin

lemma lookup_directory:
  assumes "index_inv d"
  shows "lookup_address E d address = map_option (\<lambda>r. snd (ba_row r)) (directory d (view_public address))"
proof (cases "directory d (view_public address)")
  case None
  have "lookup_address E d address = None"
  proof (rule ccontr)
    assume "lookup_address E d address \<noteq> None"
    then obtain r where "lookup_address E d address = Some r" by blast
    from lookup_addressD [OF assms this] obtain s a where "(s, a) \<in> set (db_accounts d)"
      "view_public (acc_address a) = view_public address" by blast
    then have "directory d (view_public address) = Some (s, a)" by (simp add: directory_Some_iff [OF assms])
    with None show False by simp
  qed
  then show ?thesis using None by simp
next
  case (Some r)
  have ok: "table_wf ba_sort (db_accounts_ba d)" "set (db_accounts_ba d) = ba_row ` set (db_accounts d)"
    using assms by (simp_all add: index_inv_def acc_rows_ok_def)
  have "(by_address_version, snd (ba_row r)) \<in> set (db_accounts_ba d)" "ba_sort (snd (ba_row r)) = view_public address"
    using Some [unfolded directory_Some_iff [OF assms]] ok(2) by (auto simp: ba_row_def ba_sort_def)
  then show ?thesis using Some ok(1) by (simp add: lookup_address_def t_get_Some_iff)
qed

text \<open>Changing the status of an account never fails.\<close>

lemma move_account_ok:
  assumes inv: "index_inv d" and a: "(s, a) \<in> set (db_accounts d)" and ne: "s \<noteq> status"
  shows "\<exists>d'. move_account E status (snd (ba_row (s, a))) d = Inr d'
    \<and> set (db_accounts d') = insert (status, a) (set (db_accounts d) - {(s, a)})"
proof -
  have ok: "table_wf acc_id (db_accounts d)" "table_wf lk_id (db_accounts_bh d)" "distinct (map (\<lambda>r. acc_id (snd r)) (db_accounts d))"
    "bh_row (s, a) \<in> set (db_accounts_bh d)"
    using inv a by (simp_all add: index_inv_def acc_rows_ok_def)
  let ?acc = "t_del acc_id (db_accounts d) s (acc_id a)"
  have del: "set ?acc = set (db_accounts d) - {(s, a)}" by (rule set_t_del_row [OF ok(1) a]) simp
  have no: "w \<in> set (db_accounts d) \<Longrightarrow> acc_id (snd w) = acc_id a \<Longrightarrow> w = (s, a)" for w
    using acc_unique [OF ok(3) a, of "fst w" "snd w"] by (cases w) auto
  have none: "t_get acc_id ?acc status (acc_id a) = None"
    using no ne by (auto simp: t_get_None_iff del)
  have "set (t_put acc_id ?acc status a) = insert (status, a) (set ?acc)"
    by (rule set_t_put_new [OF table_wf_del [OF ok(1)]]) (use none in \<open>simp add: t_get_None_iff\<close>)
  moreover have "t_get acc_id (db_accounts d) s (acc_id a) = Some a" using a ok(1) by (simp add: t_get_Some_iff)
  moreover have "t_get lk_id (db_accounts_bh d) (acc_scan_height a) (acc_id a) = Some \<lparr>lk_id = acc_id a, lk_status = s\<rparr>"
    using ok(2,4) by (simp add: t_get_Some_iff bh_row_def)
  ultimately show ?thesis using none del by (simp add: move_account_def Let_def ba_row_def)
qed

end

definition set_status :: "account_status \<Rightarrow> public_key set \<Rightarrow> directory \<Rightarrow> directory" where
  "set_status status vs D = (\<lambda>v. if v \<in> vs then map_option (\<lambda>r. (status, snd r)) (D v) else D v)"

text \<open>The addresses of a list that have an account.\<close>

definition known :: "directory \<Rightarrow> account_address list \<Rightarrow> account_address list" where
  "known D addresses = filter (\<lambda>a. D (view_public a) \<noteq> None) addresses"

lemma set_status_simps:
  "set_status status {} D = D"
  "set_status status (insert v vs) D = set_status status vs (set_status status {v} D)"
  by (auto simp: set_status_def fun_eq_iff option.map_comp o_def)

lemma known_set_status [simp]: "known (set_status status vs D) addresses = known D addresses"
  by (auto simp: known_def set_status_def intro!: filter_cong)

context storage_env
begin

lemma change_status_one_result:
  assumes inv: "index_inv d"
  shows "\<exists>d'. change_status_one E status address (d, changed) = Inr (d', changed @ known (directory d) [address])
    \<and> index_inv d' \<and> directory d' = set_status status {view_public address} (directory d)"
proof (cases "directory d (view_public address)")
  case None
  then show ?thesis using inv
    by (auto simp: change_status_one_def lookup_directory known_def set_status_def fun_eq_iff)
next
  case (Some r)
  obtain s a where r: "r = (s, a)" by (cases r)
  have a: "(s, a) \<in> set (db_accounts d)" "view_public (acc_address a) = view_public address"
    using Some by (simp_all add: directory_Some_iff [OF inv] r)
  have look: "lookup_address E d address = Some (snd (ba_row (s, a)))" using Some r by (simp add: lookup_directory [OF inv])
  have st: "lk_status (ba_lookup (snd (ba_row (s, a)))) = s" by (simp add: ba_row_def)
  show ?thesis
  proof (cases "s = status")
    case True
    then show ?thesis using inv look st Some r
      by (auto simp: change_status_one_def known_def set_status_def fun_eq_iff)
  next
    case False
    from move_account_ok [OF inv a(1) False] obtain d' where d': "move_account E status (snd (ba_row (s, a))) d = Inr d'"
      "set (db_accounts d') = insert (status, a) (set (db_accounts d) - {(s, a)})" by blast
    have inv': "index_inv d'" by (rule move_account_index [OF inv look _ d'(1)]) (simp add: st False)
    have "directory d' = (directory d)(view_public (acc_address a) \<mapsto> (status, a))"
      by (rule directory_replace [OF inv inv' a(1) d'(2)]) simp
    then show ?thesis using inv' d'(1) look st False Some r a(2)
      by (auto simp: change_status_one_def known_def set_status_def fun_eq_iff)
  qed
qed

lemma change_status_fold:
  assumes "index_inv d"
  shows "\<exists>d'. efold (change_status_one E status) addresses (d, changed) = Inr (d', changed @ known (directory d) addresses)
    \<and> index_inv d' \<and> directory d' = set_status status (view_public ` set addresses) (directory d)"
  using assms
proof (induction addresses arbitrary: d changed)
  case Nil
  then show ?case by (simp add: known_def set_status_simps)
next
  case (Cons address addresses)
  from change_status_one_result [OF Cons.prems, of status address changed] obtain d1 where
    d1: "change_status_one E status address (d, changed) = Inr (d1, changed @ known (directory d) [address])"
      "index_inv d1" "directory d1 = set_status status {view_public address} (directory d)" by blast
  let ?changed = "changed @ known (directory d) [address]"
  from Cons.IH [OF d1(2), of ?changed] obtain d' where
    d': "efold (change_status_one E status) addresses (d1, ?changed) = Inr (d', ?changed @ known (directory d1) addresses)"
      "index_inv d'" "directory d' = set_status status (view_public ` set addresses) (directory d1)" by blast
  have "?changed @ known (directory d1) addresses = changed @ known (directory d) (address # addresses)"
    by (simp add: d1(3)) (simp add: known_def)
  moreover have "directory d' = set_status status (view_public ` set (address # addresses)) (directory d)"
    unfolding d'(3) d1(3) by (simp add: set_status_simps(2) [symmetric])
  ultimately show ?case using d1(1) d'(1,2) by simp
qed

end

section \<open>Adding an account\<close>

definition key_matches :: "crypto \<Rightarrow> account_address \<Rightarrow> view_key \<Rightarrow> bool" where
  "key_matches C address key \<longleftrightarrow> secret_key_to_public_key C key = (True, view_public address)"

definition initial_status :: "account_flags \<Rightarrow> account_status" where
  "initial_status flags = (if flags = admin_account then hidden else active)"

context storage_env
begin

lemma do_add_account_result:
  assumes inv: "index_inv d" and fresh: "\<forall>r \<in> set (db_accounts d). acc_id (snd r) \<noteq> acc_id a"
  shows "\<not> key_matches (env_crypto E) (acc_address a) (acc_key a) \<Longrightarrow> do_add_account E a d = Inl bad_view_key"
    "key_matches (env_crypto E) (acc_address a) (acc_key a) \<Longrightarrow> directory d (view_public (acc_address a)) \<noteq> None
      \<Longrightarrow> do_add_account E a d = Inl account_exists"
    "key_matches (env_crypto E) (acc_address a) (acc_key a) \<Longrightarrow> directory d (view_public (acc_address a)) = None
      \<Longrightarrow> \<not> isl (do_add_account E a d)"
    "\<not> isl (do_add_account E a d) \<Longrightarrow> directory (projr (do_add_account E a d)) =
       (directory d)(view_public (acc_address a) \<mapsto> (initial_status (acc_flags a), a))"
proof -
  let ?s = "initial_status (acc_flags a)"
  have look: "t_get ba_sort (db_accounts_ba d) by_address_version (view_public (acc_address a)) =
      map_option (\<lambda>r. snd (ba_row r)) (directory d (view_public (acc_address a)))"
    using lookup_directory [OF inv, of "acc_address a"] by (simp add: lookup_address_def)
  have ok: "set (db_accounts_bh d) = bh_row ` set (db_accounts d)" using inv by (simp add: index_inv_def)
  have bh: "t_get lk_id (db_accounts_bh d) (acc_scan_height a) (acc_id a) = None"
    using fresh by (auto simp: t_get_None_iff ok bh_row_def)
  have acc: "t_get acc_id (db_accounts d) st (acc_id a) = None" for st
    using fresh by (auto simp: t_get_None_iff)
  show "\<not> key_matches (env_crypto E) (acc_address a) (acc_key a) \<Longrightarrow> do_add_account E a d = Inl bad_view_key"
    "key_matches (env_crypto E) (acc_address a) (acc_key a) \<Longrightarrow> directory d (view_public (acc_address a)) \<noteq> None
      \<Longrightarrow> do_add_account E a d = Inl account_exists"
    "key_matches (env_crypto E) (acc_address a) (acc_key a) \<Longrightarrow> directory d (view_public (acc_address a)) = None
      \<Longrightarrow> \<not> isl (do_add_account E a d)"
    using look bh acc by (auto simp: do_add_account_def Let_def key_matches_def prod_eq_iff ba_sort_def)
  assume n: "\<not> isl (do_add_account E a d)"
  then have d': "do_add_account E a d = Inr (projr (do_add_account E a d))" by (rule sum.collapse(2) [symmetric])
  have "db_accounts (projr (do_add_account E a d)) = t_put acc_id (db_accounts d) ?s a"
    using n acc by (auto simp: do_add_account_def Let_def initial_status_def ebind_def eget_def split: if_splits option.splits)
  then have "set (db_accounts (projr (do_add_account E a d))) = insert (?s, a) (set (db_accounts d))"
    using set_t_put_new [of acc_id "db_accounts d" ?s a] inv acc [of ?s] by (auto simp: index_inv_def acc_rows_ok_def t_get_None_iff)
  from directory_insert [OF inv do_add_account_index [OF inv fresh d'] this]
  show "directory (projr (do_add_account E a d)) = (directory d)(view_public (acc_address a) \<mapsto> (?s, a))" .
qed

end

section \<open>Rescanning\<close>

definition rescan_account :: "block_id \<Rightarrow> account \<Rightarrow> account" where
  "rescan_account h a = a\<lparr>acc_scan_height := min h (acc_scan_height a), acc_start_height := min h (acc_start_height a),
     acc_lookahead_fail := (if h \<le> acc_lookahead_fail a then 0 else acc_lookahead_fail a)\<rparr>"

definition set_rescan :: "block_id \<Rightarrow> public_key set \<Rightarrow> directory \<Rightarrow> directory" where
  "set_rescan h vs D = (\<lambda>v. if v \<in> vs then map_option (\<lambda>r. (fst r, rescan_account h (snd r))) (D v) else D v)"

definition owners :: "directory \<Rightarrow> public_key set \<Rightarrow> account_id set" where
  "owners D vs = {acc_id (snd r) | r v. v \<in> vs \<and> D v = Some r}"

definition outputs_without :: "account_id set \<Rightarrow> block_id \<Rightarrow> db \<Rightarrow> (account_id, db_output) rows" where
  "outputs_without ids h d = filter (\<lambda>r. \<not> (fst r \<in> ids \<and> h \<le> link_height (out_link (snd r)))) (db_outputs d)"

lemma outputs_without_Un:
  "outputs_without (I \<union> J) h d = filter (\<lambda>r. \<not> (fst r \<in> J \<and> h \<le> link_height (out_link (snd r)))) (outputs_without I h d)"
  by (auto simp: outputs_without_def intro!: filter_cong)

lemma rescan_account_simps [simp]:
  "acc_id (rescan_account h a) = acc_id a" "acc_address (rescan_account h a) = acc_address a"
  "acc_scan_height (rescan_account h a) = min h (acc_scan_height a)"
  "rescan_account h (rescan_account h a) = rescan_account h a"
  by (auto simp: rescan_account_def)

lemma set_rescan_simps:
  "set_rescan h {} D = D"
  "set_rescan h (insert v vs) D = set_rescan h vs (set_rescan h {v} D)"
  by (auto simp: set_rescan_def fun_eq_iff option.map_comp o_def)

lemma known_set_rescan [simp]: "known (set_rescan h vs D) addresses = known D addresses"
  by (auto simp: known_def set_rescan_def intro!: filter_cong)

lemma owners_alt: "owners D vs = {i. \<exists>v \<in> vs. map_option (\<lambda>r. acc_id (snd r)) (D v) = Some i}"
  by (auto simp: owners_def)

lemma owners_set_rescan [simp]: "owners (set_rescan h us D) vs = owners D vs"
proof -
  have "map_option (\<lambda>r. acc_id (snd r)) (set_rescan h us D v) = map_option (\<lambda>r. acc_id (snd r)) (D v)" for v
    by (simp add: set_rescan_def option.map_comp o_def)
  then show ?thesis unfolding owners_alt by simp
qed

lemma owners_insert: "owners D (insert v vs) = owners D {v} \<union> owners D vs"
  by (auto simp: owners_def)

context storage_env
begin

lemma change_height_ok:
  assumes inv: "storage_inv d" and a: "directory d (view_public address) = Some (s, a)"
  shows "\<exists>d'. change_height E False h address la mx d = Inr d' \<and> storage_inv d'
    \<and> db_blocks d' = db_blocks d
    \<and> directory d' = (directory d)(view_public address \<mapsto> (s, rescan_account h a))
    \<and> db_outputs d' = outputs_without {acc_id a} h d"
proof -
  have i: "index_inv d" "image_inv d" using inv by (simp_all add: storage_inv_def)
  have acc: "(s, a) \<in> set (db_accounts d)" "view_public (acc_address a) = view_public address"
    using a by (simp_all add: directory_Some_iff [OF i(1)])
  have ok: "table_wf acc_id (db_accounts d)" "table_wf lk_id (db_accounts_bh d)" "distinct (map (\<lambda>r. acc_id (snd r)) (db_accounts d))"
    "set (db_accounts_bh d) = bh_row ` set (db_accounts d)" using i(1) by (simp_all add: index_inv_def acc_rows_ok_def)
  have look: "lookup_address E d address = Some (snd (ba_row (s, a)))" using a by (simp add: lookup_directory [OF i(1)])
  have get: "t_get acc_id (db_accounts d) s (acc_id a) = Some a" using acc(1) ok(1) by (simp add: t_get_Some_iff)
  have bh: "t_get lk_id (db_accounts_bh d) (acc_scan_height a) (acc_id a) = Some \<lparr>lk_id = acc_id a, lk_status = s\<rparr>"
    using ok(2) imageI [OF acc(1), of bh_row] by (simp add: t_get_Some_iff ok(4) bh_row_def)
  have "image_inv (rollback_outputs E (acc_id a) h d)" using i(2) image_inv_cong [of "rollback_outputs E (acc_id a) h d" d]
    by (simp add: rollback_outputs_eq)
  from rollback_spends_ok [OF this] obtain d1 where
    d1: "rollback_spends E (acc_id a) h (rollback_outputs E (acc_id a) h d) = Inr d1" by blast
  have d1f: "db_accounts d1 = db_accounts d" "db_accounts_bh d1 = db_accounts_bh d" "db_blocks d1 = db_blocks d"
    "db_outputs d1 = outputs_without {acc_id a} h d"
    by (simp_all add: rollback_spends_result [OF d1] rollback_outputs_eq outputs_without_def)
  let ?h = "min h (acc_scan_height a)" and ?del = "t_del lk_id (db_accounts_bh d) (acc_scan_height a) (acc_id a)"
  have only: "r = bh_row (s, a)" if "r \<in> set (db_accounts_bh d)" "lk_id (snd r) = acc_id a" for r
  proof -
    from that(1) obtain q where q: "q \<in> set (db_accounts d)" "r = bh_row q" unfolding ok(4) by blast
    then have "acc_id a = acc_id (snd q)" using that(2) by (simp add: bh_row_def)
    from acc_unique [OF ok(3) acc(1) _ this, of "fst q"] q(1) have "q = (s, a)" by (cases q) simp
    then show ?thesis by (simp add: q(2))
  qed
  have "set ?del = set (db_accounts_bh d) - {bh_row (s, a)}"
    unfolding bh_row_def fst_conv snd_conv
    by (rule set_t_del_row [OF ok(2)]) (use bh [unfolded t_get_Some_iff [OF ok(2)]] in simp_all)
  then have none: "t_get lk_id ?del ?h (acc_id a) = None"
    unfolding t_get_None_iff using only by (metis Diff_iff insertI1 snd_conv)
  let ?d' = "d1\<lparr>db_accounts := t_set acc_id (db_accounts d) s (acc_id a) (rescan_account h a),
      db_accounts_bh := t_put lk_id ?del ?h \<lparr>lk_id = acc_id a, lk_status = s\<rparr>\<rparr>"
  have res: "change_height E False h address la mx d = Inr ?d'"
    using look get bh d1 none d1f(1,2) by (simp add: change_height_def Let_def ba_row_def rescan_account_def)
  have inv': "storage_inv ?d'" by (rule change_height_inv [OF inv res])
  then have i': "index_inv ?d'" by (simp add: storage_inv_def)
  have "directory ?d' = (directory d)(view_public (acc_address a) \<mapsto> (s, rescan_account h a))"
    by (rule directory_replace [OF i(1) i' acc(1)]) (simp_all add: set_t_set_acc [OF ok(3) acc(1)])
  then show ?thesis using res inv' acc(2) d1f(3,4) by simp
qed

lemma rescan_one_result:
  assumes "storage_inv d"
  shows "\<exists>d'. rescan_one E h address (d, changed) = Inr (d', changed @ known (directory d) [address]) \<and> storage_inv d'
    \<and> directory d' = set_rescan h {view_public address} (directory d)
    \<and> db_outputs d' = outputs_without (owners (directory d) {view_public address}) h d"
proof (cases "directory d (view_public address)")
  case None
  have "index_inv d" using assms by (simp add: storage_inv_def)
  from lookup_directory [OF this] None have "rescan_one E h address (d, changed) = Inr (d, changed)"
    by (simp add: rescan_one_def change_height_def)
  moreover have "set_rescan h {view_public address} (directory d) = directory d" using None by (auto simp: set_rescan_def)
  moreover have "owners (directory d) {view_public address} = {}" using None by (simp add: owners_def)
  ultimately show ?thesis using assms None by (auto simp: known_def outputs_without_def)
next
  case (Some r)
  obtain s a where r: "r = (s, a)" by (cases r)
  from change_height_ok [OF assms Some [unfolded r]] obtain d' where
    d': "change_height E False h address (Address_index 0 0) 0 d = Inr d'" "storage_inv d'"
      "directory d' = (directory d)(view_public address \<mapsto> (s, rescan_account h a))"
      "db_outputs d' = outputs_without {acc_id a} h d" by blast
  have "owners (directory d) {view_public address} = {acc_id a}" using Some r by (auto simp: owners_def)
  moreover have "set_rescan h {view_public address} (directory d) = directory d'"
    using Some r by (auto simp: set_rescan_def d'(3))
  ultimately show ?thesis using d' Some by (simp add: rescan_one_def known_def)
qed

lemma rescan_fold:
  assumes "storage_inv d"
  shows "\<exists>d'. efold (rescan_one E h) addresses (d, changed) = Inr (d', changed @ known (directory d) addresses)
    \<and> directory d' = set_rescan h (view_public ` set addresses) (directory d)
    \<and> db_outputs d' = outputs_without (owners (directory d) (view_public ` set addresses)) h d"
  using assms
proof (induction addresses arbitrary: d changed)
  case Nil
  then show ?case by (simp add: known_def set_rescan_simps outputs_without_def owners_def)
next
  case (Cons address addresses)
  from rescan_one_result [OF Cons.prems, of h address changed] obtain d1 where
    d1: "rescan_one E h address (d, changed) = Inr (d1, changed @ known (directory d) [address])" "storage_inv d1"
      "directory d1 = set_rescan h {view_public address} (directory d)"
      "db_outputs d1 = outputs_without (owners (directory d) {view_public address}) h d" by blast
  let ?changed = "changed @ known (directory d) [address]"
  from Cons.IH [OF d1(2), of ?changed] obtain d' where
    d': "efold (rescan_one E h) addresses (d1, ?changed) = Inr (d', ?changed @ known (directory d1) addresses)"
      "directory d' = set_rescan h (view_public ` set addresses) (directory d1)"
      "db_outputs d' = outputs_without (owners (directory d1) (view_public ` set addresses)) h d1" by blast
  have "?changed @ known (directory d1) addresses = changed @ known (directory d) (address # addresses)"
    by (simp add: d1(3)) (simp add: known_def)
  moreover have "directory d' = set_rescan h (view_public ` set (address # addresses)) (directory d)"
    unfolding d'(2) d1(3) by (simp add: set_rescan_simps(2) [symmetric])
  moreover have "db_outputs d' = outputs_without (owners (directory d) (view_public ` set (address # addresses))) h d"
  proof -
    have "owners (directory d) (view_public ` set (address # addresses)) =
        owners (directory d) {view_public address} \<union> owners (directory d) (view_public ` set addresses)"
      unfolding list.set image_insert by (rule owners_insert)
    then show ?thesis
      by (simp add: d'(3) d1(3) outputs_without_Un) (simp add: outputs_without_def d1(4))
  qed
  ultimately show ?case using d1(1) d'(1) by simp
qed

end

section \<open>Requests\<close>

definition queued :: "db \<Rightarrow> nat" where
  "queued d = length (t_dups (db_requests d) create)"

text \<open>The account that a request asks for, after its lookahead was provisioned with or without success.\<close>

definition provisioned_account :: "account_time \<Rightarrow> account_id \<Rightarrow> account_address \<Rightarrow> request_info \<Rightarrow> block_id \<Rightarrow> account" where
  "provisioned_account t uid address info f = (requested_account t uid address info)\<lparr>acc_lookahead := ri_lookahead info, acc_lookahead_fail := f\<rparr>"

lemma below_invalid:
  assumes "(x :: u32) < max_u32 - 1"
  shows "x \<noteq> max_u32" "x + 1 \<noteq> invalid_account"
proof -
  have lt: "x < - 2" using assms by (simp add: max_u32_def)
  then show "x \<noteq> max_u32" by (auto simp: max_u32_def)
  have "x + 1 \<noteq> - 1"
  proof
    assume "x + 1 = - 1"
    then have "x = - 1 - 1" by (simp only: eq_diff_eq)
    then have "x = - 2" by simp
    then show False using lt by simp
  qed
  then show "x + 1 \<noteq> invalid_account" by (simp only: invalid_account_def not_False_eq_True)
qed

lemma length_t_put_new:
  "t_get sk t k (sk v) = None \<Longrightarrow> table_wf sk t \<Longrightarrow> length (t_dups (t_put sk t k v) k') = length (t_dups t k') + (if k' = k then 1 else 0)"
proof (induction t)
  case (Cons r t)
  have "t_get sk t k (sk v) = None" "(k, sk v) \<noteq> row_key sk r"
    using Cons.prems(1) by (cases r, auto simp: t_get_None_iff row_key_def)+
  with Cons show ?case by (auto simp: t_dups_def table_wf_Cons)
qed (simp add: t_dups_def)

context storage_env
begin

lemma creation_requestD:
  assumes "creation_request E address key flags la d = Inr (d', hooks)"
  obtains t and b :: block_info where "get_account_time E = Inr t" "get_last_block E d = Inr b"
    "lookup_address E d address = None" "t_get request_sort (db_requests d) create (spend_public address) = None"
    "queued d = 0 \<or> (of_nat (queued d) :: u64) < ucast (env_create_queue_max E)" "0 < env_create_queue_max E"
    "d' = d\<lparr>db_requests := t_put request_sort (db_requests d) create
       \<lparr>ri_address = address, ri_key = key, ri_start_height = bi_id b, ri_creation = t, ri_creation_flags = flags, ri_lookahead = la\<rparr>\<rparr>"
  using assms by (auto simp: creation_request_def Let_def ebind_eq_Inr eget_eq_Inr request_sort_def queued_def
      word_gt_0 not_le split: if_splits)

text \<open>Provisioning subaddresses fails only for lack of room, which the account records.\<close>

lemma merge_ranges_error: "merge_ranges mx major olds news s = Inl e \<Longrightarrow> e = max_subaddresses"
proof (induction mx major olds news s arbitrary: e rule: merge_ranges.induct)
  case (1 mx major old olds new news s)
  then show ?case by (auto simp: report_range_def ebind_def split: if_splits option.splits sum.splits)
next
  case (3 mx major new news s)
  then show ?case by (auto simp: report_range_def ebind_def split: option.splits sum.splits)
qed simp_all

lemma upsert_merge_ranges:
  assumes "upsert_merge E uid mx entry s d = (d1, r)"
  shows "t_get fst (db_ranges d1) uid (fst entry) = None" "\<And>e. r = Inl e \<Longrightarrow> e = max_subaddresses"
proof -
  have "t_get fst (t_del fst t uid m) uid m = None" for t :: "(account_id, subaddress_dict) rows" and m
    by (auto simp: t_get_None_iff set_t_del row_key_def)
  then show "t_get fst (db_ranges d1) uid (fst entry) = None"
    using assms by (auto simp: upsert_merge_def split: option.splits)
  show "\<And>e. r = Inl e \<Longrightarrow> e = max_subaddresses"
    using assms merge_ranges_error by (auto simp: upsert_merge_def split: option.splits)
qed

lemma upsert_loop_error:
  "upsert_loop E uid address key mx subs s d = (d', Inl e) \<Longrightarrow> list_all check_subaddress_dict subs \<Longrightarrow> e = max_subaddresses"
proof (induction subs arbitrary: s d)
  case (Cons entry subs)
  obtain d1 r where m: "upsert_merge E uid mx entry s d = (d1, r)" by fastforce
  show ?case
  proof (cases r)
    case (Inl x)
    then show ?thesis using Cons.prems m upsert_merge_ranges(2) [OF m] by simp
  next
    case (Inr u)
    then have "t_get fst (db_ranges d1) uid (fst entry) = None" using upsert_merge_ranges(1) [OF m] by simp
    then obtain d2 where "store_ranges E uid address key (fst entry) (up_new_dict u) d1 = (d2, Inr ())"
      by (simp add: store_ranges_def Let_def)
    then show ?thesis using Cons m Inr by auto
  qed
qed simp

lemma fill_gaps_new:
  assumes "0 < minor"
  shows "case fill_gaps minor mx i tot (replicate n (0, [])) of
      Inl e \<Rightarrow> e = max_subaddresses | Inr es \<Rightarrow> list_all check_subaddress_dict es"
proof (induction n arbitrary: i tot)
  case (Suc n)
  from Suc [of "i + 1" "tot + minor"] show ?case
    by (auto simp: ebind_def check_subaddress_dict_def [abs_def] split: sum.splits)
qed simp

lemma do_lookahead_user_ok:
  assumes "t_dups (db_outputs d) (acc_id user) = []"
  shows "\<exists>d' f. do_lookahead_user E user la mx d = (d', Inr (user\<lparr>acc_lookahead := la, acc_lookahead_fail := f\<rparr>))
    \<and> (f = acc_lookahead_fail user \<or> f = max 1 (acc_start_height user))"
proof -
  obtain d' r where r: "do_lookahead E (acc_id user) (acc_address user) (acc_key user) la mx d = (d', r)" by fastforce
  have "r = Inl e \<Longrightarrow> e = max_subaddresses" for e
  proof (cases "maj_i la = 0 \<or> min_i la = 0")
    case True
    then show "r = Inl e \<Longrightarrow> e = max_subaddresses" using r by (simp add: do_lookahead_def)
  next
    case False
    then have minor: "0 < min_i la" by (simp add: word_gt_0)
    have initial: "lookahead_initial E (acc_id user) (maj_i la) (min_i la) mx d
        = fill_gaps (min_i la) mx 0 0 (replicate (unat (maj_i la)) (0, []))"
      using assms by (simp add: lookahead_initial_def resize_def)
    assume "r = Inl e"
    then show "e = max_subaddresses"
      using r False fill_gaps_new [OF minor, of mx 0 0 "unat (maj_i la)"] initial upsert_loop_error
      by (auto simp: do_lookahead_def do_upsert_def Let_def split: if_splits sum.splits prod.splits)
  qed
  then consider "r = Inr ()" | "r = Inl max_subaddresses" by (cases r) auto
  then show ?thesis
  proof cases
    case 1
    then show ?thesis using r by (intro exI [of _ d'] exI [of _ "acc_lookahead_fail user"]) (simp add: do_lookahead_user_def)
  next
    case 2
    then show ?thesis using r by (intro exI [of _ d'] exI [of _ "max 1 (acc_start_height user)"]) (simp add: do_lookahead_user_def)
  qed
qed

lemma no_new_outputs:
  assumes "storage_inv d" and "find_last_id E d \<noteq> max_u32"
  shows "t_dups (db_outputs d) (find_last_id E d + 1) = []"
proof (rule ccontr)
  assume "t_dups (db_outputs d) (find_last_id E d + 1) \<noteq> []"
  then obtain out where "out \<in> set (t_dups (db_outputs d) (find_last_id E d + 1))" by (meson ex_in_conv set_empty)
  then have "(find_last_id E d + 1, out) \<in> set (db_outputs d)" by simp
  then have "scanned d (find_last_id E d + 1) (link_height (out_link out))"
    using assms(1) by (auto simp: storage_inv_def scan_inv_def)
  then obtain r where "r \<in> set (db_accounts d)" "acc_id (snd r) = find_last_id E d + 1" by (auto simp: scanned_def)
  moreover have "index_inv d" using assms(1) by (simp add: storage_inv_def)
  ultimately show False using next_id_fresh assms(2) by blast
qed

text \<open>A request that is accepted.\<close>

lemma accept_create_result:
  assumes inv: "storage_inv d" and time: "get_account_time E = Inr t" and max: "find_last_id E d < max_u32 - 1"
    and req: "t_get request_sort (db_requests d) create (spend_public address) = Some info"
  obtains d1 d' stored f where "accept_requests E create [address] mx d = Inr (d', stored)"
    "db_requests d' = t_del request_sort (db_requests d) create (spend_public address)"
    "d1 = (let d0 = d\<lparr>db_requests := t_del request_sort (db_requests d) create (spend_public address)\<rparr> in
       if is_zero (ri_lookahead info) then d0
       else fst (do_lookahead E (find_last_id E d + 1) address (ri_key info) (ri_lookahead info) mx d0))"
    "f = 0 \<or> f = max 1 (ri_start_height info)"
    "if key_matches (env_crypto E) address (ri_key info) \<and> directory d (view_public address) = None
     then stored = [address] \<and> directory d' = (directory d)(view_public address \<mapsto>
        (initial_status (ri_creation_flags info), provisioned_account t (find_last_id E d + 1) address info f))
     else stored = [] \<and> d' = d1 \<and> directory d' = directory d"
proof -
  let ?d0 = "d\<lparr>db_requests := t_del request_sort (db_requests d) create (spend_public address)\<rparr>"
  let ?uid = "find_last_id E d + 1"
  let ?user = "requested_account t ?uid address info"
  have last: "find_last_id E d \<noteq> max_u32" "?uid \<noteq> invalid_account" using below_invalid [OF max] by simp_all
  have ids: "acc_id ?user = ?uid" "acc_address ?user = address" "acc_key ?user = ri_key info"
    "acc_start_height ?user = ri_start_height info" "acc_lookahead ?user = Address_index 0 0" "acc_lookahead_fail ?user = 0"
    by (simp_all add: requested_account_def empty_account_def)
  obtain d1 f where prov: "(if \<not> is_zero (ri_lookahead info) then do_lookahead_user E ?user (ri_lookahead info) mx ?d0 else (?d0, Inr ?user))
      = (d1, Inr (provisioned_account t ?uid address info f))"
    and f: "f = 0 \<or> f = max 1 (ri_start_height info)"
    and d1: "d1 = (if is_zero (ri_lookahead info) then ?d0 else fst (do_lookahead E ?uid address (ri_key info) (ri_lookahead info) mx ?d0))"
  proof (cases "is_zero (ri_lookahead info)")
    case True
    then have "ri_lookahead info = Address_index 0 0" by (cases "ri_lookahead info") (simp add: is_zero_def)
    then have "provisioned_account t ?uid address info 0 = ?user"
      by (simp add: provisioned_account_def requested_account_def empty_account_def)
    then show thesis using that [of ?d0 0] True by simp
  next
    case False
    have "t_dups (db_outputs ?d0) (acc_id ?user) = []" using no_new_outputs [OF inv last(1)] ids(1) by simp
    from do_lookahead_user_ok [OF this, of "ri_lookahead info" mx] obtain d' f where
      d': "do_lookahead_user E ?user (ri_lookahead info) mx ?d0 = (d', Inr (provisioned_account t ?uid address info f))"
      and f: "f = 0 \<or> f = max 1 (ri_start_height info)" unfolding provisioned_account_def ids by blast
    moreover have "d' = fst (do_lookahead E ?uid address (ri_key info) (ri_lookahead info) mx ?d0)"
      using d' unfolding do_lookahead_user_def ids by (auto split: prod.splits sum.splits if_splits)
    ultimately show thesis using that [of d' f] False by simp
  qed
  let ?a = "provisioned_account t ?uid address info f"
  have frame: "without_subs d1 = without_subs ?d0" by (simp add: d1 do_lookahead_frame)
  note fr = without_subsD [OF frame]
  have inv0: "index_inv d" using inv by (simp add: storage_inv_def)
  have acc: "acc_tables d1 = acc_tables d" using fr(1) by (simp add: acc_tables_def)
  then have inv1: "index_inv d1" using inv0 index_inv_cong by blast
  have fresh: "\<forall>r \<in> set (db_accounts d1). acc_id (snd r) \<noteq> acc_id ?a"
    using next_id_fresh [OF inv0 last(1)] acc by (simp add: provisioned_account_def ids(1) acc_tables_def)
  have user: "acc_address ?a = address" "acc_key ?a = ri_key info" "acc_flags ?a = ri_creation_flags info"
    by (simp_all add: provisioned_account_def requested_account_def)
  note res = do_add_account_result [OF inv1 fresh, unfolded user]
  have dir: "directory d1 = directory d" by (rule directory_cong) (use acc in \<open>simp add: acc_tables_def\<close>)
  have accept: "accept_requests E create [address] mx d =
     (case do_add_account E ?a d1 of
        Inl e \<Rightarrow> if e = account_exists \<or> e = bad_view_key then Inr (d1, []) else Inl e
      | Inr d' \<Rightarrow> Inr (d', [address]))"
    using time req last(2) prov by (simp add: accept_requests_def create_accounts_def create_account_def Let_def split: sum.splits)
  have let1: "d1 = (let d0 = ?d0 in if is_zero (ri_lookahead info) then d0
      else fst (do_lookahead E ?uid address (ri_key info) (ri_lookahead info) mx d0))" by (simp add: d1)
  show thesis
  proof (cases "key_matches (env_crypto E) address (ri_key info) \<and> directory d (view_public address) = None")
    case True
    with res(3) dir have n: "\<not> isl (do_add_account E ?a d1)" by simp
    then have ok: "do_add_account E ?a d1 = Inr (projr (do_add_account E ?a d1))" by (rule sum.collapse(2) [symmetric])
    from res(4) [OF n] dir have add: "directory (projr (do_add_account E ?a d1)) = (directory d)(view_public address \<mapsto>
        (initial_status (ri_creation_flags info), ?a))" by simp
    have "db_requests (projr (do_add_account E ?a d1)) = db_requests d1"
      using ok by (auto simp: do_add_account_def Let_def ebind_eq_Inr split: if_splits)
    then have "db_requests (projr (do_add_account E ?a d1)) = db_requests ?d0" using fr(7) by simp
    then show thesis using that [OF _ _ let1 f] True add accept by (subst (asm) ok) simp
  next
    case False
    with res(1,2) dir have "do_add_account E ?a d1 = Inl bad_view_key \<or> do_add_account E ?a d1 = Inl account_exists" by auto
    then have "accept_requests E create [address] mx d = Inr (d1, [])" using accept by auto
    then show thesis using that [OF _ _ let1 f] False fr(7) dir by auto
  qed
qed

end

section \<open>Properties\<close>

text \<open>
  \<^verbatim>\<open>change_status\<close> succeeds on every consistent database, returns exactly the given addresses
  that have an account, and refines the update of the directory that gives these accounts the
  new status and changes nothing else: each account moves between the keys of the account table,
  and both indexes follow.
\<close>

theorem change_status_refines:
  assumes "storage_env E" and "index_inv d"
  shows "\<exists>d'. change_status E status addresses d = Inr (d', known (directory d) addresses)
    \<and> index_inv d' \<and> directory d' = set_status status (view_public ` set addresses) (directory d)"
  using storage_env.change_status_fold [OF assms, of status addresses "[]"] by (simp add: change_status_def)

theorem change_status_refines_witness:
  "\<exists>d'. change_status sample_env hidden [Account_address 1001 1, Account_address 7 7] sample_db = Inr (d', [Account_address 1001 1])
    \<and> index_inv d' \<and> directory d' 1001 = Some (hidden, sample_account 1 2)"
proof -
  have "index_inv sample_db" using sample_db_inv by (simp add: storage_inv_def)
  moreover have "known (directory sample_db) [Account_address 1001 1, Account_address 7 7] = [Account_address 1001 1]"
    "directory sample_db 1001 = Some (active, sample_account 1 2)" by code_simp+
  ultimately show ?thesis
    using change_status_refines [OF sample_env_ok, of sample_db hidden "[Account_address 1001 1, Account_address 7 7]"]
    by (auto simp: set_status_def)
qed

text \<open>
  C21: \<^verbatim>\<open>rescan\<close> on a consistent database whose chain has a last block fails exactly for a height above this
  block, with \<^verbatim>\<open>bad_height\<close>. Otherwise it
  returns exactly the given addresses that have an account. It lowers their scan and start
  heights to at most the height, and of their outputs keeps exactly those below it; every other
  account and output stays. In particular an output of the block at the height itself is
  removed, although the scan height says that this block was scanned.
\<close>

theorem rescan_refines:
  assumes "storage_env E" and "storage_inv d" and "get_last_block E d = Inr b"
  shows "if bi_id b < h then rescan E h addresses d = Inl bad_height
    else \<exists>d'. rescan E h addresses d = Inr (d', known (directory d) addresses)
      \<and> directory d' = set_rescan h (view_public ` set addresses) (directory d)
      \<and> db_outputs d' = outputs_without (owners (directory d) (view_public ` set addresses)) h d"
  using storage_env.rescan_fold [OF assms(1,2), of h addresses "[]"] assms(3) by (simp add: rescan_def)

theorem rescan_refines_witness:
  "\<exists>d'. rescan sample_env 1 [Account_address 1001 1] sample_db = Inr (d', [Account_address 1001 1])
    \<and> map_option (\<lambda>r. acc_scan_height (snd r)) (directory d' 1001) = Some 1
    \<and> filter (\<lambda>r. fst r = 1 \<and> link_height (out_link (snd r)) = 1) (db_outputs sample_db) = [(1, sample_output 1 20)]
    \<and> filter (\<lambda>r. fst r = 1 \<and> link_height (out_link (snd r)) = 1) (db_outputs d') = []
    \<and> rescan sample_env 9 [Account_address 1001 1] sample_db = Inl bad_height"
proof -
  have "\<not> isl (get_last_block sample_env sample_db)" and le: "\<not> bi_id (projr (get_last_block sample_env sample_db)) < 1"
    and lt: "bi_id (projr (get_last_block sample_env sample_db)) < 9" by code_simp+
  then have b: "get_last_block sample_env sample_db = Inr (projr (get_last_block sample_env sample_db))"
    by (simp add: sum.collapse(2))
  have bad: "rescan sample_env 9 [Account_address 1001 1] sample_db = Inl bad_height"
    using rescan_refines [OF sample_env_ok sample_db_inv b, of 9 "[Account_address 1001 1]"] lt by simp
  from rescan_refines [OF sample_env_ok sample_db_inv b, of 1 "[Account_address 1001 1]"] le
  obtain d' where d': "rescan sample_env 1 [Account_address 1001 1] sample_db = Inr (d', known (directory sample_db) [Account_address 1001 1])"
    "directory d' = set_rescan 1 {1001} (directory sample_db)"
    "db_outputs d' = outputs_without (owners (directory sample_db) {1001}) 1 sample_db" by auto
  have k: "known (directory sample_db) [Account_address 1001 1] = [Account_address 1001 1]"
    and dir: "directory sample_db 1001 = Some (active, sample_account 1 2)"
    and outs: "filter (\<lambda>r. fst r = 1 \<and> link_height (out_link (snd r)) = 1) (db_outputs sample_db) = [(1, sample_output 1 20)]"
    by code_simp+
  have "owners (directory sample_db) {1001} = {1}" using dir by (simp add: owners_alt sample_account_def)
  moreover have "map_option (\<lambda>r. acc_scan_height (snd r)) (directory d' 1001) = Some 1"
    using dir by (simp add: d'(2) set_rescan_def sample_account_def)
  ultimately show ?thesis using d'(1,3) k outs bad by (auto simp: outputs_without_def filter_empty_conv)
qed

definition added_account :: "account_time \<Rightarrow> block_id \<Rightarrow> account_id \<Rightarrow> account_address \<Rightarrow> view_key \<Rightarrow> account_flags \<Rightarrow> account" where
  "added_account t h uid address key flags =
     empty_account\<lparr>acc_id := uid, acc_address := address, acc_key := key, acc_start_height := h,
       acc_scan_height := h, acc_access := t, acc_creation := t, acc_flags := flags\<rparr>"

text \<open>
  C22: \<^verbatim>\<open>add_account\<close> fails with \<^verbatim>\<open>bad_view_key\<close> exactly when the secret view key does not generate
  the public view key of the address, otherwise with \<^verbatim>\<open>account_exists\<close> exactly when the public
  view key is taken, and otherwise enters the account in the directory with a new id and the
  last stored block as its scan height, leaving every other entry alone.
\<close>

theorem add_account_refines:
  assumes "storage_env E" and "index_inv d" and "find_last_id E d \<noteq> max_u32"
    and "get_account_time E = Inr t" and "get_last_block E d = Inr b"
  shows "case add_account E address key flags d of
      Inl e \<Rightarrow> e = bad_view_key \<and> \<not> key_matches (env_crypto E) address key
        \<or> e = account_exists \<and> key_matches (env_crypto E) address key \<and> directory d (view_public address) \<noteq> None
    | Inr d' \<Rightarrow> key_matches (env_crypto E) address key \<and> directory d (view_public address) = None
        \<and> directory d' = (directory d)(view_public address \<mapsto>
            (initial_status flags, added_account t (bi_id b) (find_last_id E d + 1) address key flags))"
proof -
  let ?a = "added_account t (bi_id b) (find_last_id E d + 1) address key flags"
  have eq: "add_account E address key flags d = do_add_account E ?a d"
    using assms(4,5) by (simp add: add_account_def added_account_def)
  have a: "acc_address ?a = address" "acc_key ?a = key" "acc_flags ?a = flags" by (simp_all add: added_account_def)
  have "\<forall>r \<in> set (db_accounts d). acc_id (snd r) \<noteq> acc_id ?a"
    using storage_env.next_id_fresh [OF assms(1-3)] by (simp add: added_account_def)
  note res = storage_env.do_add_account_result [OF assms(1,2) this, unfolded a]
  show ?thesis
  proof (cases "do_add_account E ?a d")
    case (Inl e)
    then show ?thesis using res(1-3) eq
      by (cases "key_matches (env_crypto E) address key"; cases "directory d (view_public address)") auto
  next
    case (Inr d')
    then show ?thesis using res eq
      by (cases "key_matches (env_crypto E) address key"; cases "directory d (view_public address)") auto
  qed
qed

theorem add_account_refines_witness:
  "directory (projr (add_account sample_env (Account_address 1005 9) 5 0 sample_db)) 1005 =
    Some (active, added_account 1000 (bi_id (projr (get_last_block sample_env sample_db))) (find_last_id sample_env sample_db + 1) (Account_address 1005 9) 5 0)"
proof -
  let ?b = "projr (get_last_block sample_env sample_db)" and ?r = "add_account sample_env (Account_address 1005 9) 5 0 sample_db"
  have "index_inv sample_db" using sample_db_inv by (simp add: storage_inv_def)
  moreover have "find_last_id sample_env sample_db \<noteq> max_u32" "get_account_time sample_env = Inr 1000"
    "\<not> isl (get_last_block sample_env sample_db)" "initial_status 0 = active" by code_simp+
  moreover have "get_last_block sample_env sample_db = Inr ?b" using calculation by (simp add: sum.collapse(2))
  moreover have "\<not> isl ?r" by code_simp
  ultimately show ?thesis
    using add_account_refines [OF sample_env_ok, of sample_db 1000 ?b "Account_address 1005 9" 5 0]
    by (cases ?r) simp_all
qed




text \<open>
  The queue of requests to create accounts never grows past \<^verbatim>\<open>create_queue_max\<close>: a successful
  \<^verbatim>\<open>creation_request\<close> on a queue within the limit gives a queue of one more request, still within
  the limit.
\<close>

theorem creation_queue_bound:
  assumes "storage_env E" and "table_wf request_sort (db_requests d)"
    and "queued d \<le> unat (env_create_queue_max E)"
    and "creation_request E address key flags la d = Inr (d', hooks)"
  shows "queued d' = queued d + 1 \<and> queued d' \<le> unat (env_create_queue_max E)"
proof -
  obtain t and b :: block_info where none: "t_get request_sort (db_requests d) create (spend_public address) = None"
    and lim: "queued d = 0 \<or> (of_nat (queued d) :: u64) < ucast (env_create_queue_max E)" "0 < env_create_queue_max E"
    and d': "d' = d\<lparr>db_requests := t_put request_sort (db_requests d) create
       \<lparr>ri_address = address, ri_key = key, ri_start_height = bi_id b, ri_creation = t, ri_creation_flags = flags, ri_lookahead = la\<rparr>\<rparr>"
    by (rule storage_env.creation_requestD [OF assms(1,4)])
  have q: "queued d' = queued d + 1"
    using length_t_put_new [of request_sort "db_requests d" create _ create] none assms(2) by (simp add: queued_def d' request_sort_def)
  have "unat (env_create_queue_max E) < 2 ^ 32" using unsigned_less [of "env_create_queue_max E"] by simp
  then have "unat (of_nat (queued d) :: u64) = queued d" using assms(3) by (intro unat_of_nat_u64) simp
  moreover have "unat (ucast (env_create_queue_max E) :: u64) = unat (env_create_queue_max E)"
    using \<open>unat (env_create_queue_max E) < 2 ^ 32\<close> by (simp add: unsigned_ucast_eq take_bit_nat_eq_self)
  moreover have "0 < unat (env_create_queue_max E)" using lim(2) by (simp add: word_less_nat_alt)
  ultimately have "queued d < unat (env_create_queue_max E)" using lim(1) by (auto simp: word_less_nat_alt)
  then show ?thesis using q by simp
qed

theorem creation_queue_bound_witness:
  "queued (fst (projr (creation_request sample_env (Account_address 1005 9) 5 0 (Address_index 0 0) sample_db))) \<le> 10"
proof -
  let ?r = "creation_request sample_env (Account_address 1005 9) 5 0 (Address_index 0 0) sample_db"
  have "table_wf request_sort (db_requests sample_db)" using sample_db_inv by (simp add: storage_inv_def db_wf_def)
  moreover have "queued sample_db \<le> unat (env_create_queue_max sample_env)" "unat (env_create_queue_max sample_env) = 10" by code_simp+
  moreover have "?r = Inr (fst (projr ?r), snd (projr ?r))"
    unfolding prod.collapse by (rule sum.collapse(2) [symmetric]) code_simp
  ultimately show ?thesis using creation_queue_bound [OF sample_env_ok] by metis
qed

end
