(* ===== verification/Storage_Findings.thy ===== *)
theory Storage_Findings
  imports Subaddress_Upsert Storage_Directory
begin

text \<open>
  What the storage code does that its comments or its callers do not expect: general properties of lookaheads that
  do not fit and of requests that are not granted, and evaluated instances of the model.
\<close>

section \<open>Merging a range that spans several stored ranges\<close>

text \<open>
  \<^verbatim>\<open>do_upsert\<close> grows the stored range in place when a new range overlaps it, and goes on with the
  next new range. A new range that reaches into the following stored range is not joined with
  it: the stored ranges overlap afterwards, so the dictionary no longer passes
  \<^verbatim>\<open>check_subaddress_dict\<close>, and the minor indexes of the following range are counted and reported
  as new although they are stored.
\<close>

text \<open>
  Merging the range \<open>3..12\<close> into the stored ranges \<open>0..5\<close> and \<open>10..15\<close> counts and reports
  \<open>6..12\<close> as new, although \<open>10..12\<close> is stored, and leaves two ranges that overlap, a dictionary
  that \<^verbatim>\<open>check_subaddress_dict\<close> refuses.
\<close>

theorem merge_not_coalesced:
  "merge_ranges 100 0 [(0, 5), (10, 15)] [(3, 12)] \<lparr>up_count = 12, up_out = [], up_new_dict = []\<rparr> =
     Inr \<lparr>up_count = 19, up_out = [(0, [(6, 12)])], up_new_dict = [(0, 12), (10, 15)]\<rparr>
   \<and> \<not> check_subaddress_dict (0, [(0, 12), (10, 15)])"
  by code_simp

section \<open>Ranges lost when the lookahead does not fit\<close>

text \<open>
  \<^verbatim>\<open>do_upsert\<close> deletes the stored ranges of a major index before it knows whether the merged
  ranges fit. \<^verbatim>\<open>update_lookahead\<close> takes \<^verbatim>\<open>max_subaddresses\<close> as a result (it records the failure
  and returns \<open>-1\<close>), so the transaction is committed without the deleted ranges.
\<close>

lemma unat_max_u32: "unat max_u32 = 4294967295"
  by (simp add: max_u32_def unsigned_minus_1_eq_mask mask_eq_exp_minus_1)

lemma unat_pred: "0 < unat (x :: u32) \<Longrightarrow> unat (x - 1) = unat x - 1"
  by (subst unat_sub) (simp_all add: word_le_nat_alt)

context storage_env
begin

lemma upsert_loop_failed:
  "upsert_loop E uid address key mx subs s d = (d', Inl e) \<Longrightarrow> list_all check_subaddress_dict subs
    \<Longrightarrow> \<exists>entry \<in> set subs. stored_ranges d' uid (fst entry) = []"
proof (induction subs arbitrary: s d)
  case (Cons entry subs)
  obtain d1 r where m: "upsert_merge E uid mx entry s d = (d1, r)" by fastforce
  have none: "t_get fst (db_ranges d1) uid (fst entry) = None" by (rule upsert_merge_ranges(1) [OF m])
  show ?case
  proof (cases r)
    case (Inl x)
    then have "d' = d1" using Cons.prems m by simp
    then show ?thesis using none by (simp add: stored_ranges_def)
  next
    case (Inr u)
    obtain d2 where "store_ranges E uid address key (fst entry) (up_new_dict u) d1 = (d2, Inr ())"
      using none by (simp add: store_ranges_def Let_def)
    then show ?thesis using Cons m Inr by auto
  qed
qed simp

lemma lookahead_upsert_failed:
  assumes "lookahead_upsert E user address match mx d = (d', Inl e)"
    and "unat (maj_i (acc_lookahead user)) * unat (min_i (acc_lookahead user)) \<le> unat mx" "min_i (acc_lookahead user) \<noteq> 0"
    and "length (t_dups (db_indexes d) (acc_id user)) \<le> unat mx"
  shows "\<exists>i < unat (add_and_clamp (maj_i match) (maj_i (acc_lookahead user))). stored_ranges d' (acc_id user) (of_nat i) = []"
proof -
  let ?major = "maj_i (acc_lookahead user)" and ?minor = "min_i (acc_lookahead user)"
    and ?n = "unat (add_and_clamp (maj_i match) (maj_i (acc_lookahead user)))"
  let ?subs = "lookahead_upsertions ?major ?minor match"
  have prod: "unat ?major * unat ?minor < 2 ^ 32" using assms(2) unat_u32_less [of mx] by simp
  have minor: "0 < unat ?minor" using assms(3) by (simp add: unat_gt_0)
  have "unat ?major \<le> (2 ^ 32 - 1) div unat ?minor" using prod minor by (simp add: less_eq_div_iff_mult_less_eq)
  then have "?major \<le> max_u32 div ?minor" by (simp add: word_le_nat_alt unat_div unat_max_u32)
  moreover have "?major * ?minor \<le> mx" using prod assms(2) by (simp add: word_le_nat_alt unat_word_ariths)
  ultimately have up: "do_upsert E (acc_id user) address (acc_key user) ?subs mx d = (d', Inl e)"
    using assms(1) by (simp add: lookahead_upsert_def Let_def)
  have "length (t_dups (db_indexes d) (acc_id user)) < 2 ^ 64" using assms(4) unat_u32_less [of mx] by simp
  then have "\<not> ucast mx < (of_nat (length (t_dups (db_indexes d) (acc_id user))) :: u64)"
    using assms(4) by (simp add: word_less_nat_alt unat_ucast_u32 unat_of_nat_u64 not_less)
  then have loop: "upsert_loop E (acc_id user) address (acc_key user) mx ?subs (of_nat (length (t_dups (db_indexes d) (acc_id user))), []) d = (d', Inl e)"
    using up by (simp add: do_upsert_def Let_def)
  have "list_all check_subaddress_dict ?subs" by (simp add: lookahead_upsertions_def list_all_iff check_subaddress_dict_def)
  from upsert_loop_failed [OF loop this] show ?thesis by (auto simp: lookahead_upsertions_def)
qed

end

text \<open>
  C40: when the lookahead of a subaddress match does not fit, ranges that were stored are lost. Let the account have subaddresses in each
  major index that the match asks for, a lookahead whose own size fits the limit, and no more subaddresses than the limit. Whenever
  \<^verbatim>\<open>update_lookahead\<close> then returns \<open>-1\<close>, which is a success to its caller and is committed, one of these major indexes has no
  ranges any more.
\<close>

theorem lookahead_failure_drops_ranges:
  assumes "storage_env E" and "storage_inv d" and "directory d (view_public address) = Some (s, a)"
    and "maj_i (acc_lookahead a) \<noteq> 0" and "min_i (acc_lookahead a) \<noteq> 0"
    and "unat (maj_i (acc_lookahead a)) * unat (min_i (acc_lookahead a)) \<le> unat mx"
    and "length (t_dups (db_indexes d) (acc_id a)) \<le> unat mx"
    and "list_all (\<lambda>i. stored_ranges d (acc_id a) (of_nat i) \<noteq> []) [0..<unat (add_and_clamp (maj_i match) (maj_i (acc_lookahead a)))]"
    and "update_lookahead E address h match mx d = Inr (d', - 1)"
  shows "\<exists>i < unat (add_and_clamp (maj_i match) (maj_i (acc_lookahead a))).
    stored_ranges d (acc_id a) (of_nat i) \<noteq> [] \<and> stored_ranges d' (acc_id a) (of_nat i) = []"
proof -
  have inv: "index_inv d" using assms(2) by (simp add: storage_inv_def)
  have get: "t_get acc_id (db_accounts d) s (acc_id a) = Some a"
    using inv assms(3) by (simp add: directory_Some_iff [OF inv] index_inv_def acc_rows_ok_def t_get_Some_iff)
  have look: "get_both (tb_accounts_ba E) (db_accounts_ba d) by_address_version (view_public address) = Some (snd (ba_row (s, a)))"
    using storage_env.lookup_directory [OF assms(1) inv, of address] assms(3) by (simp add: lookup_address_def)
  have user: "get_both (tb_accounts E) (db_accounts d) s (acc_id a) = Some a"
    using get dupsort_table.get_both_law [OF storage_env.accounts [OF assms(1)]] by simp
  obtain d1 r where d1: "lookahead_upsert E a address match mx d = (d1, r)" by fastforce
  have "0 \<le> min (uint max_u32) (int n)" for n by simp
  then have pos: "min (uint max_u32) (int n) \<noteq> - 1" for n using order_trans [of 0 "- 1 :: int"] by (metis neg_0_le_iff_le not_one_le_zero)
  from assms(9) have r: "r = Inl max_subaddresses" "db_ranges d' = db_ranges d1"
    using look user assms(4,5) d1 pos by (auto simp: update_lookahead_def Let_def ebind_eq_Inr ba_row_def split: sum.splits if_splits)
  from storage_env.lookahead_upsert_failed [OF assms(1) d1 [unfolded r(1)] assms(6,5,7)]
  obtain i where "i < unat (add_and_clamp (maj_i match) (maj_i (acc_lookahead a)))" "stored_ranges d1 (acc_id a) (of_nat i) = []" by blast
  then show ?thesis using assms(8) r(2) by (auto simp: list_all_iff stored_ranges_def)
qed

text \<open>An account with the subaddresses \<open>(0, 0..1)\<close> and a lookahead that reaches further.\<close>

definition lookahead_account :: account where
  "lookahead_account = (sample_account 1 2)\<lparr>acc_lookahead := Address_index 1 4\<rparr>"

definition lookahead_db :: db where
  "lookahead_db = sample_subs\<lparr>db_accounts := [(active, lookahead_account), (hidden, sample_account 2 1)]\<rparr>"

theorem lookahead_failure_drops_ranges_witness:
  "stored_ranges lookahead_db 1 0 = [(0, 1)]
    \<and> stored_ranges (fst (projr (update_lookahead sample_env sample_address 2 (Address_index 0 1) 4 lookahead_db))) 1 0 = []"
proof -
  let ?r = "update_lookahead sample_env sample_address 2 (Address_index 0 1) 4 lookahead_db"
  have "db_wf lookahead_db" "index_inv lookahead_db" "scan_inv lookahead_db" "image_inv lookahead_db" by code_simp+
  then have inv: "storage_inv lookahead_db" by (simp add: storage_inv_def)
  have dir: "directory lookahead_db (view_public sample_address) = Some (active, lookahead_account)" by code_simp
  have room: "maj_i (acc_lookahead lookahead_account) \<noteq> 0" "min_i (acc_lookahead lookahead_account) \<noteq> 0"
    "unat (maj_i (acc_lookahead lookahead_account)) * unat (min_i (acc_lookahead lookahead_account)) \<le> unat (4 :: u32)"
    "length (t_dups (db_indexes lookahead_db) (acc_id lookahead_account)) \<le> unat (4 :: u32)"
    "list_all (\<lambda>i. stored_ranges lookahead_db (acc_id lookahead_account) (of_nat i) \<noteq> [])
       [0..<unat (add_and_clamp (maj_i (Address_index 0 1)) (maj_i (acc_lookahead lookahead_account)))]" by code_simp+
  have "\<not> isl ?r" "snd (projr ?r) = - 1" by code_simp+
  then have r: "?r = Inr (fst (projr ?r), - 1)" by (metis prod.collapse sum.collapse(2))
  have one: "unat (add_and_clamp (maj_i (Address_index 0 1)) (maj_i (acc_lookahead lookahead_account))) = 1"
    "acc_id lookahead_account = 1" "stored_ranges lookahead_db 1 0 = [(0, 1)]" by code_simp+
  from lookahead_failure_drops_ranges [OF sample_env_ok inv dir room r] show ?thesis unfolding one(1,2) using one(3) by simp
qed

section \<open>Subaddresses of an account that was not created\<close>

text \<open>
  \<^verbatim>\<open>create_accounts\<close> provisions the lookahead of a request under the next id, then skips the
  request when its view key is wrong or the address exists. The subaddresses stay, and the id is
  given to the next account.
\<close>

lemma fill_gaps_room:
  assumes "0 < minor" and "unat tot + n * unat minor \<le> unat mx"
  shows "fill_gaps minor mx i tot (replicate n (0, [])) = Inr (map (\<lambda>j. (of_nat (i + j), [(0, minor - 1)])) [0..<n])"
  using assms(2)
proof (induction n arbitrary: i tot)
  case (Suc n)
  have "unat (mx - tot) = unat mx - unat tot" using Suc.prems by (subst unat_sub) (simp_all add: word_le_nat_alt)
  then have fits: "\<not> mx - tot < minor" using Suc.prems by (simp add: word_less_nat_alt)
  have "unat (tot + minor) = unat tot + unat minor" using Suc.prems unat_u32_less [of mx] by (simp add: unat_word_ariths)
  then have "fill_gaps minor mx (Suc i) (tot + minor) (replicate n (0, []))
      = Inr (map (\<lambda>j. (of_nat (Suc i + j), [(0, minor - 1)])) [0..<n])" using Suc by simp
  moreover have "[0..<Suc n] = 0 # map Suc [0..<n]" by (simp add: upt_conv_Cons map_Suc_upt del: upt_Suc)
  ultimately show ?case using fits by (simp add: comp_def del: upt_Suc)
qed simp

context storage_env
begin

lemma upsert_loop_new:
  assumes "0 < unat minor" and "distinct ms" and "subs_wf d" and "list_all (\<lambda>m. t_get fst (db_ranges d) uid m = None) ms"
    and "unat c + length ms * unat minor \<le> unat mx"
  shows "\<exists>d' out'. upsert_loop E uid address key mx (map (\<lambda>m. (m, [(0, minor - 1)])) ms) (c, out) d = (d', Inr out')"
  using assms(2-5)
proof (induction ms arbitrary: c out d)
  case (Cons m ms)
  let ?entry = "(m, [(0 :: u32, minor - 1)])"
  have one: "unat (minor - 1) = unat minor - 1" by (rule unat_pred [OF assms(1)])
  have sub: "unat (ucast mx - c) = unat mx - unat c"
    using Cons.prems(4) by (subst unat_sub) (simp_all add: word_le_nat_alt unat_ucast_u32)
  have "\<not> ucast mx - c \<le> (ucast (minor - 1) :: u64)"
    unfolding word_le_nat_alt sub unat_ucast_u32 one using Cons.prems(4) assms(1) by simp
  then have cnt: "check_max_ranges mx [(0, minor - 1)] c = Some (c + ucast minor)" by (simp add: check_max_range_def Let_def)
  have none: "t_get fst (db_ranges d) uid m = None" using Cons.prems(3) by simp
  have merge: "upsert_merge E uid mx ?entry (c, out) d = (d, Inr \<lparr>up_count = c + ucast minor, up_out = out @ [?entry], up_new_dict = [(0, minor - 1)]\<rparr>)"
    using none cnt by (simp add: upsert_merge_def)
  obtain d2 where d2: "store_ranges E uid address key m [(0, minor - 1)] d = (d2, Inr ())"
    and ranges: "db_ranges d2 = t_put fst (db_ranges d) uid (m, [(0, minor - 1)])"
    using store_ranges_result [OF Cons.prems(2) none] by simp
  have wf2: "subs_wf d2" using store_ranges_wf [OF Cons.prems(2), of uid address key m "[(0, minor - 1)]"] d2 by simp
  have wfr: "table_wf fst (db_ranges d)" using Cons.prems(2) by (simp add: subs_wf_def)
  have "t_get fst (db_ranges d2) uid k = None" if "k \<in> set ms" for k
    using that Cons.prems(1,3) unfolding ranges t_get_None_iff set_t_put [OF wfr] by (auto simp: list_all_iff t_get_None_iff)
  then have none2: "list_all (\<lambda>m. t_get fst (db_ranges d2) uid m = None) ms" by (simp add: list_all_iff)
  have "unat (c + ucast minor) = unat c + unat minor"
    using Cons.prems(4) unat_u32_less [of mx] by (simp add: unat_word_ariths unat_ucast_u32)
  then have room: "unat (c + ucast minor) + length ms * unat minor \<le> unat mx" using Cons.prems(4) by simp
  have chk: "check_subaddress_dict ?entry" by (simp add: check_subaddress_dict_def)
  from Cons.IH [OF _ wf2 none2 room, of "out @ [?entry]"] Cons.prems(1) show ?case using merge d2 chk by simp
qed simp

lemma do_lookahead_new:
  assumes "subs_wf d" and "t_dups (db_outputs d) uid = []" and "t_dups (db_ranges d) uid = []" and "t_dups (db_indexes d) uid = []"
    and "maj_i la \<noteq> 0" and "min_i la \<noteq> 0" and "unat (maj_i la) * unat (min_i la) \<le> unat mx" and "j < unat (maj_i la)"
  shows "covered (fst (do_lookahead E uid address key la mx d)) uid (of_nat j) = {..<unat (min_i la)}"
proof -
  let ?major = "maj_i la" and ?minor = "min_i la"
  let ?ms = "map of_nat [0..<unat ?major] :: u32 list"
  let ?subs = "map (\<lambda>m. (m, [(0 :: u32, ?minor - 1)])) ?ms"
  have prod: "unat ?major * unat ?minor < 2 ^ 32" using assms(7) unat_u32_less [of mx] by simp
  have minor: "0 < unat ?minor" "0 < ?minor" using assms(6) by (simp_all add: unat_gt_0 word_gt_0)
  have "unat ?major \<le> (2 ^ 32 - 1) div unat ?minor" using prod minor by (simp add: less_eq_div_iff_mult_less_eq)
  then have le: "\<not> max_u32 div ?minor < ?major" by (simp add: word_less_nat_alt unat_div unat_max_u32)
  have fit: "\<not> mx < ?major * ?minor" using prod assms(7) by (simp add: word_less_nat_alt unat_word_ariths)
  have initial: "lookahead_initial E uid ?major ?minor mx d = Inr ?subs"
    using assms(2,7) fill_gaps_room [OF minor(2), of 0 "unat ?major" mx 0]
    by (simp add: lookahead_initial_def resize_def comp_def)
  have word: "unat (of_nat i :: u32) = i" if "i < unat ?major" for i
    using that unat_u32_less [of ?major] by (simp add: unat_of_nat)
  then have inj: "of_nat i = (of_nat k :: u32) \<longleftrightarrow> i = k" if "i < unat ?major" "k < unat ?major" for i k
    using that by metis
  have dist: "distinct ?ms" by (auto simp: distinct_map inj_on_def inj)
  have none: "t_get fst (db_ranges d) uid m = None" for m
    using assms(3) by (auto simp: t_get_None_iff t_dups_def filter_empty_conv)
  have zero: "unat (of_nat (length (t_dups (db_indexes d) uid)) :: u64) = 0" using assms(4) by simp
  obtain d' out where loop: "upsert_loop E uid address key mx ?subs (of_nat (length (t_dups (db_indexes d) uid)), []) d = (d', Inr out)"
    using upsert_loop_new [OF minor(1) dist assms(1), of uid "of_nat (length (t_dups (db_indexes d) uid))" mx address key "[]"]
      none assms(7) zero by (auto simp: list_all_iff)
  then have up: "do_upsert E uid address key ?subs mx d = (d', Inr out)" using assms(4) by (simp add: do_upsert_def Let_def)
  have look: "fst (do_lookahead E uid address key la mx d) = d'" using assms(5,6) le fit initial up by (simp add: do_lookahead_def Let_def)
  have idx: "(uid, v) \<notin> set (db_indexes d)" for v using assms(4) by (auto simp: t_dups_def filter_empty_conv)
  have empty: "covered d uid m = {}" for m by (simp add: covered_def stored_ranges_def none)
  have prov: "provisioned (env_crypto E) address key uid d"
    using idx by (simp add: provisioned_def empty stored_ranges_def none)
  have "covered d' uid (of_nat j) = requested ?subs (of_nat j)"
    using do_upsert_result(1) [OF up assms(1) prov, of "of_nat j"] assms(4) empty by simp
  also have "\<dots> = ranges_set [(0, ?minor - 1)]" using assms(8) inj by (auto simp: requested_def)
  also have "\<dots> = {..<unat ?minor}" using minor by (auto simp: ranges_set_def range_set_def unat_pred)
  finally show ?thesis by (simp only: look)
qed

end

text \<open>
  C39: a request that is not granted leaves subaddresses behind. Take a request to create an account with a lookahead that fits the
  limit, whose view key is wrong (or whose address has an account by now), and let the next account id have no subaddresses yet. Accepting the
  request succeeds, creates no account, changes none and leaves the next id as it was, but afterwards all subaddresses of
  the lookahead are stored under this id, so that they are those of the next account that is created.
\<close>

theorem rejected_request_leaves_subaddresses:
  assumes "storage_env E" and "storage_inv d" and "get_request E d create address = Inr info"
    and "get_account_time E = Inr t" and "find_last_id E d < max_u32 - 1"
    and "key_matches (env_crypto E) address (ri_key info) \<longrightarrow> directory d (view_public address) \<noteq> None"
    and "maj_i (ri_lookahead info) \<noteq> 0" and "min_i (ri_lookahead info) \<noteq> 0"
    and "unat (maj_i (ri_lookahead info)) * unat (min_i (ri_lookahead info)) \<le> unat mx"
    and "t_dups (db_ranges d) (find_last_id E d + 1) = []" and "t_dups (db_indexes d) (find_last_id E d + 1) = []"
  shows "\<exists>d'. accept_requests E create [address] mx d = Inr (d', [])
    \<and> directory d' = directory d \<and> find_last_id E d' = find_last_id E d
    \<and> (\<forall>j < unat (maj_i (ri_lookahead info)). covered d' (find_last_id E d + 1) (of_nat j) = {..<unat (min_i (ri_lookahead info))})"
proof -
  let ?uid = "find_last_id E d + 1"
  let ?d0 = "d\<lparr>db_requests := t_del request_sort (db_requests d) create (spend_public address)\<rparr>"
  have req: "t_get request_sort (db_requests d) create (spend_public address) = Some info"
    using assms(3) dupsort_table.get_both_law [OF storage_env.requests [OF assms(1)]] by (simp add: get_request_def eget_eq_Inr)
  from storage_env.accept_create_result [OF assms(1,2,4,5) req, of mx] obtain d1 d' stored f where
    acc: "accept_requests E create [address] mx d = Inr (d', stored)"
    and d1: "d1 = (let d0 = ?d0 in if is_zero (ri_lookahead info) then d0
       else fst (do_lookahead E ?uid address (ri_key info) (ri_lookahead info) mx d0))"
    and res: "if key_matches (env_crypto E) address (ri_key info) \<and> directory d (view_public address) = None
       then stored = [address] \<and> directory d' = (directory d)(view_public address \<mapsto>
          (initial_status (ri_creation_flags info), provisioned_account t ?uid address info f))
       else stored = [] \<and> d' = d1 \<and> directory d' = directory d" .
  from res assms(6) have d': "stored = []" "d' = d1" "directory d' = directory d" by (auto split: if_splits)
  have "\<not> is_zero (ri_lookahead info)" using assms(7) by (simp add: is_zero_def)
  then have d1': "d1 = fst (do_lookahead E ?uid address (ri_key info) (ri_lookahead info) mx ?d0)" by (simp add: d1)
  have frame: "without_subs d1 = without_subs ?d0" unfolding d1' by (rule do_lookahead_frame)
  then have "find_last_id E d' = find_last_id E d" using without_subsD(1) [OF frame] d'(2) by (simp add: find_last_id_def acc_tables_def)
  moreover have "covered d' ?uid (of_nat j) = {..<unat (min_i (ri_lookahead info))}" if "j < unat (maj_i (ri_lookahead info))" for j
  proof -
    have "find_last_id E d \<noteq> max_u32" using below_invalid(1) [OF assms(5)] .
    then have "t_dups (db_outputs ?d0) ?uid = []" using storage_env.no_new_outputs [OF assms(1,2)] by simp
    moreover have "subs_wf ?d0" using storage_env.storage_inv_subs_wf [OF assms(1,2)] by (simp add: subs_wf_def)
    ultimately show ?thesis unfolding d'(2) d1'
      by (intro storage_env.do_lookahead_new [OF assms(1)]) (use assms(7-11) that in simp_all)
  qed
  ultimately show ?thesis using acc d' by auto
qed

definition bad_request_db :: db where
  "bad_request_db = fst (projr (creation_request sample_env (Account_address 1005 9) 6 0 (Address_index 1 2) sample_db))"

theorem rejected_request_leaves_subaddresses_witness:
  "\<exists>d'. accept_requests sample_env create [Account_address 1005 9] 10 bad_request_db = Inr (d', [])
    \<and> find_last_id sample_env d' = 2 \<and> covered d' 3 0 = {0, 1}"
proof -
  let ?info = "projr (get_request sample_env bad_request_db create (Account_address 1005 9))"
  have "db_wf bad_request_db" "index_inv bad_request_db" "scan_inv bad_request_db" "image_inv bad_request_db" by code_simp+
  then have inv: "storage_inv bad_request_db" by (simp add: storage_inv_def)
  have req: "get_request sample_env bad_request_db create (Account_address 1005 9) = Inr ?info"
    by (rule sum.collapse(2) [symmetric]) code_simp
  have la: "ri_lookahead ?info = Address_index 1 2" and key: "\<not> key_matches (env_crypto sample_env) (Account_address 1005 9) (ri_key ?info)" by code_simp+
  have env: "get_account_time sample_env = Inr 1000" "find_last_id sample_env bad_request_db < max_u32 - 1"
    "find_last_id sample_env bad_request_db = 2" "t_dups (db_ranges bad_request_db) 3 = []" "t_dups (db_indexes bad_request_db) 3 = []" by code_simp+
  have "{..<2} = {0, 1 :: nat}" by auto
  then show ?thesis
    using rejected_request_leaves_subaddresses [OF sample_env_ok inv req env(1,2), of 10] la key env(3-5) by auto
qed

section \<open>The reserved account id\<close>

text \<open>
  \<^verbatim>\<open>create_accounts\<close> stops with \<^verbatim>\<open>account_max\<close> before it uses \<^verbatim>\<open>account_id::invalid\<close>; \<^verbatim>\<open>add_account\<close>
  stores an account under this id.
\<close>

definition full_db :: db where
  "full_db = sample_chain\<lparr>
     db_accounts := [(active, (sample_account 1 2)\<lparr>acc_id := invalid_account - 1\<rparr>)],
     db_accounts_ba := [ba_row (active, (sample_account 1 2)\<lparr>acc_id := invalid_account - 1\<rparr>)],
     db_accounts_bh := [bh_row (active, (sample_account 1 2)\<lparr>acc_id := invalid_account - 1\<rparr>)]\<rparr>"

theorem add_account_uses_invalid_id:
  "map_option (\<lambda>r. acc_id (snd r)) (directory (projr (add_account sample_env (Account_address 1005 9) 5 0 full_db)) 1005)
     = Some invalid_account"
  by code_simp

end
