(* ===== verification/Update_Result.thy ===== *)
theory Update_Result
  imports Storage_Directory
begin

text \<open>
  What \<^verbatim>\<open>storage::update\<close> stores for the accounts a scanner reports: which accounts advance, to
  which height, and which outputs are added.
\<close>

definition due :: "u64 \<Rightarrow> lws_account \<Rightarrow> account \<Rightarrow> bool" where
  "due lu user a \<longleftrightarrow> acc_id a = la_id user \<and> la_height user \<le> acc_scan_height a \<and> acc_scan_height a < lu"

definition advance :: "u64 \<Rightarrow> lws_account \<Rightarrow> account_status \<times> account \<Rightarrow> account_status \<times> account" where
  "advance lu user r = (if due lu user (snd r) then (fst r, (snd r)\<lparr>acc_scan_height := lu\<rparr>) else r)"

text \<open>A reported account has the address of the stored account with its id.\<close>

definition same_address :: "(account_status, account) rows \<Rightarrow> lws_account \<Rightarrow> bool" where
  "same_address rows user \<longleftrightarrow>
     (\<forall>r \<in> set rows. acc_id (snd r) = la_id user \<longrightarrow> db_address user = Inr (acc_address (snd r)))"

text \<open>The values of a list whose sort key is not known yet; of two with the same sort key the first.\<close>

fun fresh_values :: "('v \<Rightarrow> 's) \<Rightarrow> 's set \<Rightarrow> 'v list \<Rightarrow> 'v list" where
  "fresh_values sk seen [] = []"
| "fresh_values sk seen (v # vs) =
     (if sk v \<in> seen then fresh_values sk seen vs else v # fresh_values sk (insert (sk v) seen) vs)"

lemma fresh_values_subset: "set (fresh_values sk seen vs) \<subseteq> {v \<in> set vs. sk v \<notin> seen}"
proof (induction vs arbitrary: seen)
  case (Cons v vs)
  from Cons.IH [of seen] Cons.IH [of "insert (sk v) seen"] show ?case by auto
qed simp

lemma fresh_values_keys: "v \<in> set vs \<Longrightarrow> sk v \<notin> seen \<Longrightarrow> \<exists>w \<in> set (fresh_values sk seen vs). sk w = sk v"
proof (induction vs arbitrary: seen)
  case (Cons x vs)
  show ?case
  proof (cases "sk x = sk v")
    case True
    then show ?thesis using Cons.prems(2) by simp
  next
    case False
    then show ?thesis using Cons.IH [of "insert (sk x) seen"] Cons.IH [of seen] Cons.prems by auto
  qed
qed simp

text \<open>The rows an account adds to the table of outputs: whole outputs, and none where a row with the same sort key is.\<close>

definition stored_rows :: "u64 \<Rightarrow> (account_status, account) rows \<Rightarrow> (account_id, db_output) rows \<Rightarrow> lws_account \<Rightarrow> (account_id \<times> db_output) set" where
  "stored_rows lu rows outputs user =
     (if \<exists>r \<in> set rows. due lu user (snd r)
      then Pair (la_id user) ` set (fresh_values output_sort (output_sort ` set (t_dups outputs (la_id user))) (la_outputs user))
      else {})"

context dupsort_table
begin

lemma bulk_insert_rows:
  "table_wf sk t \<Longrightarrow> set (bulk_insert T t k vs) = set t \<union> Pair k ` set (fresh_values sk (sk ` set (t_dups t k)) vs)"
proof (induction vs arbitrary: t)
  case (Cons v vs)
  have mem: "sk v \<in> sk ` set (t_dups t k) \<longleftrightarrow> t_get sk t k (sk v) \<noteq> None"
    unfolding t_get_None_iff by (simp add: image_iff) metis
  show ?case
  proof (cases "sk v \<in> sk ` set (t_dups t k)")
    case True
    then show ?thesis using mem Cons by (auto simp: laws)
  next
    case False
    then have none: "t_get sk t k (sk v) = None" using mem by simp
    have "set (t_put sk t k v) = insert (k, v) {r \<in> set t. row_key sk r \<noteq> (k, sk v)}" by (rule set_t_put [OF Cons.prems])
    also have "{r \<in> set t. row_key sk r \<noteq> (k, sk v)} = set t" using none by (auto simp: row_key_def t_get_None_iff)
    finally have put: "set (t_put sk t k v) = insert (k, v) (set t)" .
    then have "sk ` set (t_dups (t_put sk t k v) k) = insert (sk v) (sk ` set (t_dups t k))" by auto
    then show ?thesis using False none Cons.IH [OF table_wf_put [OF Cons.prems], of k v] put by (simp add: laws)
  qed
qed simp

end

lemma advance_simps [simp]:
  "acc_id (snd (advance lu user r)) = acc_id (snd r)" "acc_address (snd (advance lu user r)) = acc_address (snd r)"
  "fst (advance lu user r) = fst r"
  by (simp_all add: advance_def)

lemma same_address_advance [simp]: "same_address (map (advance lu user) rows) user' = same_address rows user'"
  by (simp add: same_address_def)

lemma t_set_advance:
  assumes dist: "distinct (map (\<lambda>r. acc_id (snd r)) rows)" and a: "(s, a) \<in> set rows" and due: "due lu user a"
  shows "t_set acc_id rows s (la_id user) (a\<lparr>acc_scan_height := lu\<rparr>) = map (advance lu user) rows"
  unfolding t_set_def
proof (rule map_cong [OF refl])
  fix r assume r: "r \<in> set rows"
  show "(if at_row acc_id s (la_id user) r then (s, a\<lparr>acc_scan_height := lu\<rparr>) else r) = advance lu user r"
  proof (cases "acc_id (snd r) = acc_id a")
    case True
    then have "r = (s, a)" using acc_unique [OF dist _ a, of "fst r" "snd r"] r by (cases r) simp
    then show ?thesis using due by (simp add: advance_def at_row_def due_def)
  next
    case False
    then show ?thesis using due by (auto simp: advance_def at_row_def due_def)
  qed
qed

lemma map_advance_none: "\<forall>r \<in> set rows. \<not> due lu user (snd r) \<Longrightarrow> map (advance lu user) rows = rows"
  by (simp add: advance_def map_idI)

context storage_env
begin

lemma find_existing_None:
  assumes idx: "idx_inv h pend (db_accounts d) (db_accounts_ba d) (db_accounts_bh d)"
    and none: "find_existing E user d = Inr None" and same: "same_address (db_accounts d) user"
  shows "\<forall>r \<in> set (db_accounts d). acc_id (snd r) \<noteq> la_id user"
proof (intro ballI notI)
  fix r assume r: "r \<in> set (db_accounts d)" "acc_id (snd r) = la_id user"
  then have adr: "db_address user = Inr (acc_address (snd r))" using same by (simp add: same_address_def)
  have ok: "table_wf ba_sort (db_accounts_ba d)" "set (db_accounts_ba d) = ba_row ` set (db_accounts d)"
    using idx by (simp_all add: idx_inv_def acc_rows_ok_def)
  have "(by_address_version, snd (ba_row r)) \<in> set (db_accounts_ba d)"
    unfolding ok(2) by (rule rev_image_eqI [OF r(1)]) (simp add: ba_row_def)
  then have "lookup_address E d (acc_address (snd r)) = Some (snd (ba_row r))"
    using ok(1) by (simp add: lookup_address_def t_get_Some_iff ba_row_def ba_sort_def)
  then show False using none adr by (auto simp: find_existing_def ebind_eq_Inr split: option.splits)
qed

lemma update_user_effect:
  assumes inv: "upd_inv lu R s" and same: "same_address (db_accounts (us_db s)) user"
    and ok: "update_user E fn lu user s = Inr s'"
  shows "db_accounts (us_db s') = map (advance lu user) (db_accounts (us_db s))
    \<and> set (db_outputs (us_db s')) = set (db_outputs (us_db s)) \<union> stored_rows lu (db_accounts (us_db s)) (db_outputs (us_db s)) user"
proof -
  obtain s1 where s1: "s1 = (if length (us_heights s) = 127 then flush_heights E lu s else s)" by simp
  have eq1: "db_accounts (us_db s1) = db_accounts (us_db s)" "db_outputs (us_db s1) = db_outputs (us_db s)"
    by (simp_all add: s1 flush_heights_def)
  have inv1: "upd_inv lu R s1" using inv flush_heights_inv by (simp add: s1)
  then have idx: "idx_inv lu (us_heights s1) (db_accounts (us_db s1)) (db_accounts_ba (us_db s1)) (db_accounts_bh (us_db s1))"
    and wf: "db_wf (us_db s1)" by (simp_all only: upd_inv_def)
  have dist: "distinct (map (\<lambda>r. acc_id (snd r)) (db_accounts (us_db s)))" using idx eq1 by (simp add: idx_inv_def acc_rows_ok_def)
  from ok obtain found where found: "find_existing E user (us_db s1) = Inr found"
    by (auto simp: update_user_def Let_def ebind_eq_Inr s1 [symmetric])
  show ?thesis
  proof (cases found)
    case None
    then have s': "s' = s1" using ok found by (simp add: update_user_def Let_def s1 [symmetric])
    have "\<forall>r \<in> set (db_accounts (us_db s)). \<not> due lu user (snd r)"
      using find_existing_None [OF idx] found None same eq1 by (simp add: due_def)
    then show ?thesis using eq1 by (simp add: s' map_advance_none stored_rows_def)
  next
    case (Some p)
    obtain status a where p: "p = (status, a)" by (cases p)
    have a: "(status, a) \<in> set (db_accounts (us_db s))" "acc_id a = la_id user"
      using find_existing_result [OF idx, of user status a] found Some p eq1 by simp_all
    have only: "(\<exists>r \<in> set (db_accounts (us_db s)). due lu user (snd r)) \<longleftrightarrow> due lu user a"
    proof
      assume "\<exists>r \<in> set (db_accounts (us_db s)). due lu user (snd r)"
      then obtain r where r: "r \<in> set (db_accounts (us_db s))" "due lu user (snd r)" by blast
      then have "snd r = a" using acc_unique [OF dist a(1), of "fst r" "snd r"] a(2) by (simp add: due_def)
      then show "due lu user a" using r(2) by simp
    qed (use a(1) in force)
    let ?t = "s1\<lparr>us_out := (us_out s1)\<lparr>ur_accounts_updated := ur_accounts_updated (us_out s1) + 1\<rparr>\<rparr>"
    have eq: "update_user E fn lu user s = (if acc_scan_height a < la_height user then Inr s1
       else if lu \<le> acc_scan_height a then Inr ?t
       else ebind (store_user E fn lu user status a (us_db ?t) (us_out ?t)) (\<lambda>(d, out).
         Inr (?t\<lparr>us_db := d, us_out := out, us_heights := us_heights ?t @ [\<lparr>lk_id = la_id user, lk_status = status\<rparr>]\<rparr>)))"
      unfolding update_user_def Let_def s1 [symmetric] found Some p by simp
    show ?thesis
    proof (cases "due lu user a")
      case False
      then have "s' = s1 \<or> s' = ?t" using ok a(2) unfolding eq by (auto simp: due_def split: if_splits)
      then have "us_db s' = us_db s1" by auto
      moreover have "\<forall>r \<in> set (db_accounts (us_db s)). \<not> due lu user (snd r)" using only False by blast
      ultimately show ?thesis using eq1 by (simp add: map_advance_none stored_rows_def)
    next
      case True
      then have "\<not> acc_scan_height a < la_height user" "\<not> lu \<le> acc_scan_height a" by (simp_all add: due_def not_less not_le)
      then have "ebind (store_user E fn lu user status a (us_db ?t) (us_out ?t)) (\<lambda>(d, out).
         Inr (?t\<lparr>us_db := d, us_out := out, us_heights := us_heights ?t @ [\<lparr>lk_id = la_id user, lk_status = status\<rparr>]\<rparr>)) = Inr s'"
        using ok unfolding eq by simp
      then obtain d' out' where st: "store_user E fn lu user status a (us_db ?t) (us_out ?t) = Inr (d', out')" and s': "us_db s' = d'"
        unfolding ebind_eq_Inr by force
      from store_user_result [OF st] wf a(2) have
        frame: "without_events d' = without_events (add_spends E (la_id user) (la_spends user)
         ((us_db s1)\<lparr>db_accounts := t_set acc_id (db_accounts (us_db s1)) status (la_id user) (a\<lparr>acc_scan_height := lu\<rparr>),
            db_accounts_bh := t_del lk_id (db_accounts_bh (us_db s1)) (acc_scan_height a) (la_id user),
            db_outputs := bulk_insert (tb_outputs E) (db_outputs (us_db s1)) (la_id user) (la_outputs user)\<rparr>))" by auto
      note d' = without_eventsD [OF frame, unfolded acc_tables_def add_spends_eq, simplified]
      have "table_wf output_sort (db_outputs (us_db s))" using wf eq1 by (simp add: db_wf_def)
      from dupsort_table.bulk_insert_rows [OF outputs this]
      have "set (db_outputs d') = set (db_outputs (us_db s)) \<union> stored_rows lu (db_accounts (us_db s)) (db_outputs (us_db s)) user"
        using only True by (simp add: d' eq1 stored_rows_def)
      then show ?thesis using t_set_advance [OF dist a(1) True] d' eq1 s' by simp
    qed
  qed
qed

end

text \<open>The accounts after all reports: an account advances when one of its reports joins on to its scan height.\<close>

definition advance_all :: "u64 \<Rightarrow> lws_account list \<Rightarrow> account_status \<times> account \<Rightarrow> account_status \<times> account" where
  "advance_all lu users r = (if \<exists>user \<in> set users. due lu user (snd r) then (fst r, (snd r)\<lparr>acc_scan_height := lu\<rparr>) else r)"

lemma fold_advance: "fold (advance lu) users r = advance_all lu users r"
proof (induction users arbitrary: r)
  case (Cons user users)
  show ?case
  proof (cases "due lu user (snd r)")
    case True
    have "\<not> due lu u (snd (fst r, (snd r)\<lparr>acc_scan_height := lu\<rparr>))" for u by (simp add: due_def)
    with True show ?thesis by (simp add: Cons.IH advance_def [of lu user] advance_all_def)
  qed (simp add: Cons.IH advance_def [of lu user] advance_all_def)
qed (simp add: advance_all_def)

text \<open>Reports of other accounts do not change what is due.\<close>

lemma stored_rows_advance:
  assumes "la_id user \<noteq> la_id user'"
    and "set outputs' = set outputs \<union> stored_rows lu rows outputs user"
  shows "stored_rows lu (map (advance lu user) rows) outputs' user' = stored_rows lu rows outputs user'"
proof -
  have "due lu user' (snd (advance lu user r)) \<longleftrightarrow> due lu user' (snd r)" for r
    using assms by (auto simp: advance_def due_def)
  moreover have "set (t_dups outputs' (la_id user')) = set (t_dups outputs (la_id user'))"
    using assms by (auto simp: stored_rows_def)
  ultimately show ?thesis by (simp add: stored_rows_def)
qed

context storage_env
begin

lemma update_users_effect:
  assumes "upd_inv lu R s" and "\<forall>user \<in> set users. same_address (db_accounts (us_db s)) user
      \<and> below lu user \<and> Pair (la_id user) ` set (la_spends user) \<subseteq> R"
    and "efold (update_user E fn lu) users s = Inr s'" and "distinct (map la_id users)"
  shows "db_accounts (us_db s') = map (fold (advance lu) users) (db_accounts (us_db s))
    \<and> set (db_outputs (us_db s')) = set (db_outputs (us_db s))
      \<union> (\<Union>user \<in> set users. stored_rows lu (db_accounts (us_db s)) (db_outputs (us_db s)) user)"
  using assms
proof (induction users arbitrary: s)
  case (Cons user users)
  from Cons.prems(3) obtain s1 where s1: "update_user E fn lu user s = Inr s1" "efold (update_user E fn lu) users s1 = Inr s'"
    by (auto split: sum.splits)
  have u: "same_address (db_accounts (us_db s)) user" "below lu user" "Pair (la_id user) ` set (la_spends user) \<subseteq> R"
    using Cons.prems(2) by simp_all
  note eff = update_user_effect [OF Cons.prems(1) u(1) s1(1)]
  have inv1: "upd_inv lu R s1" by (rule update_user_inv [OF Cons.prems(1) u(2,3) s1(1)])
  have "db_accounts (us_db s') = map (fold (advance lu) users) (db_accounts (us_db s1))
    \<and> set (db_outputs (us_db s')) = set (db_outputs (us_db s1))
      \<union> (\<Union>user \<in> set users. stored_rows lu (db_accounts (us_db s1)) (db_outputs (us_db s1)) user)"
    by (rule Cons.IH [OF inv1 _ s1(2)]) (use Cons.prems(2,4) eff in simp_all)
  moreover have "stored_rows lu (db_accounts (us_db s1)) (db_outputs (us_db s1)) user'
      = stored_rows lu (db_accounts (us_db s)) (db_outputs (us_db s)) user'" if "user' \<in> set users" for user'
  proof -
    have "la_id user \<noteq> la_id user'" using that Cons.prems(4) by auto
    then show ?thesis using eff stored_rows_advance by simp
  qed
  ultimately show ?case using eff by (simp add: o_def Un_assoc)
qed simp

lemma update_blocks_frame:
  "update_blocks E h chain pow rt d = Inr d' \<Longrightarrow> db_accounts d' = db_accounts d \<and> db_outputs d' = db_outputs d"
  by (auto simp: update_blocks_def Let_def ebind_eq_Inr simp del: append_block_hashes.simps append_pow.simps
      split: if_splits option.splits)

lemma update_result:
  assumes inv: "storage_inv d" and rep: "scan_report_ok height chain users d"
    and dist: "distinct (map la_id users)" and same: "\<forall>user \<in> set users. same_address (db_accounts d) user"
    and ok: "update E height chain users pow rt d = Inr (d', out)"
  shows "db_accounts d' = map (advance_all (height + of_nat (length chain) - 1) users) (db_accounts d)"
    "set (db_outputs d') = set (db_outputs d)
      \<union> (\<Union>user \<in> set users. stored_rows (height + of_nat (length chain) - 1) (db_accounts d) (db_outputs d) user)"
proof -
  let ?lu = "height + of_nat (length chain) - 1" and ?R = "set (db_spends d) \<union> reported users"
  have "db_accounts d' = map (advance_all ?lu users) (db_accounts d)
    \<and> set (db_outputs d') = set (db_outputs d) \<union> (\<Union>user \<in> set users. stored_rows ?lu (db_accounts d) (db_outputs d) user)"
  proof (cases "users = [] \<and> chain = []")
    case True
    then show ?thesis using ok by (simp add: update_def advance_all_def [abs_def])
  next
    case False
    from ok False obtain d1 s where d1: "update_blocks E height chain pow rt d = Inr d1"
      and fold: "efold (update_user E (height + 1) ?lu) users \<lparr>us_db = d1, us_heights = [], us_out = empty_result\<rparr> = Inr s"
      and d': "d' = us_db (flush_heights E ?lu s)"
      by (auto simp: update_def Let_def ebind_eq_Inr split: if_splits)
    have inv1: "storage_inv d1" "set (db_spends d1) \<subseteq> ?R" using update_blocks_inv [OF inv d1] by auto
    note eq = update_blocks_frame [OF d1]
    have "db_accounts (us_db s) = map (fold (advance ?lu) users) (db_accounts d)
      \<and> set (db_outputs (us_db s)) = set (db_outputs d) \<union> (\<Union>user \<in> set users. stored_rows ?lu (db_accounts d) (db_outputs d) user)"
      using update_users_effect [OF upd_inv_start [OF inv1] _ fold dist] same rep eq
      by (auto simp: scan_report_ok_def reported_def)
    then show ?thesis by (simp add: d' flush_heights_def fold_advance)
  qed
  then show "db_accounts d' = map (advance_all ?lu users) (db_accounts d)"
    "set (db_outputs d') = set (db_outputs d) \<union> (\<Union>user \<in> set users. stored_rows ?lu (db_accounts d) (db_outputs d) user)" by blast+
qed

end

section \<open>Properties\<close>

text \<open>
  C7: \<^verbatim>\<open>update\<close> moves the scan height of exactly those reported accounts whose stored scan height
  lies between the height the report starts from and the last block of the report, and moves
  it to that block. A report that starts above the stored scan height leaves a gap; it is
  skipped, and so is one that brings nothing new. All other fields, accounts and the status stay.
\<close>

theorem update_advances:
  assumes "storage_env E" and "storage_inv d" and "scan_report_ok height chain users d"
    and "distinct (map la_id users)" and "\<forall>user \<in> set users. same_address (db_accounts d) user"
    and "update E height chain users pow rt d = Inr (d', out)"
  shows "db_accounts d' = map (advance_all (height + of_nat (length chain) - 1) users) (db_accounts d)"
  by (rule storage_env.update_result(1) [OF assms])

text \<open>
  C8: the table of outputs after \<^verbatim>\<open>update\<close> is exactly the table before with the outputs of the reported accounts that
  advance added, in every field as reported: a row that is there already is kept as it is (\<^verbatim>\<open>MDB_NODUPDATA\<close>), of two
  reported outputs with the same link and id the first one is stored, and an account that is skipped stores
  nothing, so nothing is recorded above a gap. The table is sorted, so its set of rows determines it.
\<close>

theorem update_stores_outputs:
  assumes "storage_env E" and "storage_inv d" and "scan_report_ok height chain users d"
    and "distinct (map la_id users)" and "\<forall>user \<in> set users. same_address (db_accounts d) user"
    and "update E height chain users pow rt d = Inr (d', out)"
  shows "table_wf output_sort (db_outputs d') \<and> set (db_outputs d') = set (db_outputs d)
    \<union> (\<Union>user \<in> set users. stored_rows (height + of_nat (length chain) - 1) (db_accounts d) (db_outputs d) user)"
  using storage_env.update_result(2) [OF assms] storage_env.update_inv [OF assms(1-3,6)]
  by (simp add: storage_inv_def db_wf_def)

text \<open>The sample: block 3 is scanned for both accounts, the second account lags behind.\<close>

definition sample_users :: "lws_account list" where
  "sample_users = map (\<lambda>a. (make_account (\<lambda>_. []) a [] [])\<lparr>la_height := 2, la_outputs := [sample_output 3 (ucast (acc_id a) + 30)]\<rparr>)
     [sample_account 1 2, sample_account 2 1]"

definition sample_update :: "(db \<times> update_result) expect" where
  "sample_update = update sample_env 2 [102, 103] sample_users [] False sample_db"

lemma sample_update_ok:
  "update sample_env 2 [102, 103] sample_users [] False sample_db = Inr (fst (projr sample_update), snd (projr sample_update))"
  unfolding prod.collapse sample_update_def by (rule sum.collapse(2) [symmetric]) code_simp

lemma sample_users_ok:
  "scan_report_ok 2 [102, 103] sample_users sample_db" "distinct (map la_id sample_users)"
  "\<forall>user \<in> set sample_users. same_address (db_accounts sample_db) user"
  by code_simp+

theorem update_advances_witness:
  "map (\<lambda>r. acc_scan_height (snd r)) (db_accounts (fst (projr sample_update))) = [3, 1]"
proof -
  have "map (\<lambda>r. acc_scan_height (snd r)) (map (advance_all (2 + of_nat (length [102 :: hash, 103]) - 1) sample_users) (db_accounts sample_db)) = [3, 1]"
    by code_simp
  with update_advances [OF sample_env_ok sample_db_inv sample_users_ok sample_update_ok] show ?thesis by simp
qed

theorem update_stores_outputs_witness:
  "set (db_outputs (fst (projr sample_update))) = insert (1, sample_output 3 31) (set (db_outputs sample_db))"
proof -
  have "(\<Union>user \<in> set sample_users. stored_rows (2 + of_nat (length [102 :: hash, 103]) - 1) (db_accounts sample_db) (db_outputs sample_db) user)
    = {(1, sample_output 3 31)}" by code_simp
  with update_stores_outputs [OF sample_env_ok sample_db_inv sample_users_ok sample_update_ok] show ?thesis by simp
qed

end
