(* ===== verification/Random_Outputs.thy ===== *)
theory Random_Outputs
  imports Prelude "HOL-Library.Sublist"
begin

text \<open>
  The selection of decoy outputs: \<^verbatim>\<open>src/util/gamma_picker.cpp\<close> and
  \<^verbatim>\<open>src/util/random_outputs.cpp\<close>. The random numbers are a parameter: \<open>rng_draw\<close> gives the draws
  in order (the position is threaded through the code), \<open>rng_idx\<close> is \<^verbatim>\<open>crypto::rand_idx\<close>,
  \<open>rng_age\<close> and \<open>rng_triangular\<close> stand for the floating point computations that turn a draw
  into an output age (the gamma distribution scaled by \<^verbatim>\<open>outputs_per_second\<close>) and into an index.
  \<^verbatim>\<open>CRYPTONOTE_DEFAULT_TX_SPENDABLE_AGE\<close> and \<^verbatim>\<open>DIFFICULTY_TARGET_V2\<close> come from the Monero headers.
\<close>

section \<open>Data\<close>

record rng =
  rng_draw :: "nat \<Rightarrow> u64"
  rng_idx :: "u64 \<Rightarrow> u64 \<Rightarrow> u64" \<comment> \<open>\<^verbatim>\<open>crypto::rand_idx(n)\<close> on a draw\<close>
  rng_age :: "u64 \<Rightarrow> nat \<Rightarrow> u64 \<Rightarrow> u64" \<comment> \<open>outputs and blocks considered, draw\<close>
  rng_triangular :: "u64 \<Rightarrow> u64 \<Rightarrow> u64" \<comment> \<open>total count, draw\<close>
  spendable_age :: nat
  difficulty_target :: u64

record histogram =
  hg_amount :: u64
  hg_total_count :: u64
  hg_unlocked_count :: u64

record output_ref =
  rf_amount :: u64
  rf_index :: u64

record output_keys =
  ok_key :: key256
  ok_mask :: key256
  ok_unlocked :: bool

record random_output =
  ro_keys :: output_keys
  ro_index :: u64

record random_ring =
  rr_ring :: "random_output list"
  rr_amount :: u64

text \<open>What the code relies on: an index drawn below \<open>n\<close> is below \<open>n\<close>, and the age is positive.\<close>

locale rng_laws =
  fixes R :: rng
  assumes idx_less: "0 < n \<Longrightarrow> rng_idx R n x < n"
    and age_pos: "0 < spendable_age R"

section \<open>The gamma picker\<close>

definition blocks_in_a_year :: "rng \<Rightarrow> u64" where
  "blocks_in_a_year R = (86400 * 365) div difficulty_target R"

definition blocks_to_consider :: "rng \<Rightarrow> u64 list \<Rightarrow> nat" where
  "blocks_to_consider R offsets = unat (min (of_nat (length offsets)) (blocks_in_a_year R))"

definition outputs_to_consider :: "rng \<Rightarrow> u64 list \<Rightarrow> u64" where
  "outputs_to_consider R offsets =
     (if offsets = [] then 0
      else
        let blocks = blocks_to_consider R offsets;
            initial = (if blocks < length offsets then offsets ! (length offsets - blocks - 1) else 0) in
        last offsets - initial)"

text \<open>\<^verbatim>\<open>outputs_per_second\<close> is a quotient with a positive denominator, so it is positive iff its numerator is.\<close>

definition is_valid :: "rng \<Rightarrow> u64 list \<Rightarrow> bool" where
  "is_valid R offsets \<longleftrightarrow> spendable_age R - 1 < length offsets \<and> 0 < outputs_to_consider R offsets"

definition spendable_upper_bound :: "rng \<Rightarrow> u64 list \<Rightarrow> u64" where
  "spendable_upper_bound R offsets =
     (if \<not> is_valid R offsets then 0 else offsets ! (length offsets - spendable_age R))"

fun pick_loop :: "rng \<Rightarrow> u64 list \<Rightarrow> nat \<Rightarrow> nat \<Rightarrow> u64 expect \<times> nat" where
  "pick_loop R offsets 0 p = (Inl (Thrown std_runtime_error), p)"
| "pick_loop R offsets (Suc tries) p =
     (let num = spendable_upper_bound R offsets;
          spendable = take (length offsets - spendable_age R + 1) offsets;
          age = rng_age R (outputs_to_consider R offsets) (blocks_to_consider R offsets) (rng_draw R p) in
      if num \<le> age then pick_loop R offsets tries (p + 1)
      else
        let output_index = num - 1 - age;
            selection = lower_bound spendable output_index in
        if selection = length spendable then (Inl (Thrown std_logic_error), p + 1)
        else
          let first_rct = (if selection = 0 then 0 else offsets ! (selection - 1));
              n_rct = offsets ! selection - first_rct in
          if n_rct \<noteq> 0 then (Inr (first_rct + rng_idx R n_rct (rng_draw R (p + 1))), p + 2)
          else pick_loop R offsets tries (p + 1))"

definition gamma_pick_one :: "rng \<Rightarrow> u64 list \<Rightarrow> nat \<Rightarrow> u64 expect \<times> nat" where
  "gamma_pick_one R offsets p =
     (if \<not> is_valid R offsets then (Inl (Thrown std_logic_error), p) else pick_loop R offsets 100 p)"

section \<open>Picking indexes\<close>

definition pick_all :: "nat \<Rightarrow> u64 \<Rightarrow> output_ref list" where
  "pick_all n amount = map (\<lambda>i. \<lparr>rf_amount = amount, rf_index = of_nat i\<rparr>) [0..<n]"

text \<open>The inner \<^verbatim>\<open>do\<close> loop of \<^verbatim>\<open>triangular_pick\<close> runs until a draw is accepted: \<open>None\<close> if there is none.\<close>

partial_function (option) triangular_index :: "rng \<Rightarrow> histogram \<Rightarrow> nat \<Rightarrow> (u64 \<times> nat) option" where
  "triangular_index R hist p =
     (let i = rng_triangular R (hg_total_count hist) (rng_draw R p mod 2 ^ 53) in
      if hg_unlocked_count hist < i then triangular_index R hist (p + 1) else Some (i, p + 1))"

declare triangular_index.simps [code]

fun triangular_loop :: "rng \<Rightarrow> histogram \<Rightarrow> nat \<Rightarrow> nat \<Rightarrow> (output_ref list \<times> nat) option" where
  "triangular_loop R hist 0 p = Some ([], p)"
| "triangular_loop R hist (Suc n) p =
     (case triangular_index R hist p of
        None \<Rightarrow> None
      | Some (i, p) \<Rightarrow>
          (case triangular_loop R hist n p of
             None \<Rightarrow> None
           | Some (refs, p) \<Rightarrow> Some (\<lparr>rf_amount = hg_amount hist, rf_index = i\<rparr> # refs, p)))"

definition triangular_pick :: "rng \<Rightarrow> nat \<Rightarrow> histogram \<Rightarrow> nat \<Rightarrow> (output_ref list expect \<times> nat) option" where
  "triangular_pick R n hist p =
     (if hg_total_count hist < hg_unlocked_count hist then Some (Inl kInvalidArgument, p)
      else if unat (hg_unlocked_count hist) < n then Some (Inl not_enough_mixin, p)
      else if unat (hg_unlocked_count hist) = n then Some (Inr (pick_all n (hg_amount hist)), p)
      else case triangular_loop R hist n p of
        None \<Rightarrow> None
      | Some (refs, p) \<Rightarrow> Some (Inr refs, p))"

fun gamma_loop :: "rng \<Rightarrow> u64 list \<Rightarrow> nat \<Rightarrow> nat \<Rightarrow> output_ref list expect \<times> nat" where
  "gamma_loop R offsets 0 p = (Inr [], p)"
| "gamma_loop R offsets (Suc n) p =
     (case gamma_pick_one R offsets p of
        (Inl e, p) \<Rightarrow> (Inl e, p)
      | (Inr i, p) \<Rightarrow>
          (case gamma_loop R offsets n p of
             (Inl e, p) \<Rightarrow> (Inl e, p)
           | (Inr refs, p) \<Rightarrow> (Inr (\<lparr>rf_amount = 0, rf_index = i\<rparr> # refs), p)))"

definition gamma_pick :: "rng \<Rightarrow> nat \<Rightarrow> u64 list \<Rightarrow> nat \<Rightarrow> output_ref list expect \<times> nat" where
  "gamma_pick R n offsets p =
     (if \<not> is_valid R offsets then (Inl not_enough_mixin, p)
      else if unat (spendable_upper_bound R offsets) < n then (Inl not_enough_mixin, p)
      else if unat (spendable_upper_bound R offsets) = n then (Inr (pick_all n 0), p)
      else gamma_loop R offsets n p)"

section \<open>Filling the rings\<close>

text \<open>\<^verbatim>\<open>std::unique\<close> with \<^verbatim>\<open>same_index\<close>.\<close>

fun unique_refs :: "output_ref list \<Rightarrow> output_ref list" where
  "unique_refs (a # b # refs) =
     (if rf_index a = rf_index b then unique_refs (a # refs) else a # unique_refs (b # refs))"
| "unique_refs refs = refs"

text \<open>A new reference is kept unless the binary search finds its index among the outputs of the ring.\<close>

definition is_dupe :: "random_output list \<Rightarrow> output_ref \<Rightarrow> bool" where
  "is_dupe current ref =
     (let match = lower_bound (map ro_index current) (rf_index ref) in
      match \<noteq> length current \<and> ro_index (current ! match) = rf_index ref)"

definition locked_output :: "output_ref \<Rightarrow> random_output" where
  "locked_output ref = \<lparr>ro_keys = \<lparr>ok_key = 0, ok_mask = 0, ok_unlocked = False\<rparr>, ro_index = rf_index ref\<rparr>"

definition pick_for :: "rng \<Rightarrow> u64 list \<Rightarrow> histogram list \<Rightarrow> u64 \<Rightarrow> nat \<Rightarrow> nat \<Rightarrow> (output_ref list expect \<times> nat) option" where
  "pick_for R offsets hists amount n p =
     (if amount = 0 then Some (gamma_pick R n offsets p)
      else
        let match = lower_bound (map hg_amount hists) amount in
        if match = length hists \<or> hg_amount (hists ! match) \<noteq> amount then Some (Inl kInvalidArgument, p)
        else triangular_pick R n (hists ! match) p)"

text \<open>The loop over the rings: a ring that cannot be filled is erased, \<open>proposed\<close> gathers the new references.\<close>

fun select_rings :: "rng \<Rightarrow> nat \<Rightarrow> u64 list \<Rightarrow> histogram list \<Rightarrow> random_ring list \<Rightarrow> nat \<Rightarrow> ((random_ring list \<times> output_ref list) expect \<times> nat) option" where
  "select_rings R mixin offsets hists [] p = Some (Inr ([], []), p)"
| "select_rings R mixin offsets hists (ring # rings) p =
     (if length (rr_ring ring) < mixin
      then case pick_for R offsets hists (rr_amount ring) (mixin - length (rr_ring ring)) p of
        None \<Rightarrow> None
      | Some (Inl e, p) \<Rightarrow>
          if e = not_enough_mixin then select_rings R mixin offsets hists rings p else Some (Inl e, p)
      | Some (Inr latest, p) \<Rightarrow>
          let current = sort_key ro_index (rr_ring ring);
              new = filter (\<lambda>ref. \<not> is_dupe current ref) (unique_refs (sort_key rf_index latest)) in
          (case select_rings R mixin offsets hists rings p of
             Some (Inr (rings, proposed), p) \<Rightarrow>
               Some (Inr (ring\<lparr>rr_ring := current @ map locked_output new\<rparr> # rings, new @ proposed), p)
           | r \<Rightarrow> r)
      else case select_rings R mixin offsets hists rings p of
        Some (Inr (rings, proposed), p) \<Rightarrow> Some (Inr (ring # rings, proposed), p)
      | r \<Rightarrow> r)"

text \<open>
  The keys of the daemon are given to the new outputs in order; a locked output is erased, and
  then another round is needed. \<open>None\<close> is a response that is too short.
\<close>

fun check_entries :: "random_output list \<Rightarrow> output_keys list \<Rightarrow> bool \<Rightarrow> (random_output list \<times> output_keys list \<times> bool) option" where
  "check_entries [] keys done = Some ([], keys, done)"
| "check_entries (entry # entries) keys done =
     (if ok_unlocked (ro_keys entry)
      then map_option (\<lambda>(es, r). (entry # es, r)) (check_entries entries keys done)
      else case keys of
        [] \<Rightarrow> None
      | k # keys \<Rightarrow>
          if ok_unlocked k
          then map_option (\<lambda>(es, r). (entry\<lparr>ro_keys := k\<rparr> # es, r)) (check_entries entries keys done)
          else check_entries entries keys False)"

fun check_rings :: "nat \<Rightarrow> random_ring list \<Rightarrow> output_keys list \<Rightarrow> bool \<Rightarrow> (random_ring list \<times> bool) expect" where
  "check_rings mixin [] keys done = Inr ([], done)"
| "check_rings mixin (ring # rings) keys done =
     (case check_entries (rr_ring ring) keys (done \<and> mixin \<le> length (rr_ring ring)) of
        None \<Rightarrow> Inl bad_daemon_response
      | Some (es, keys, done) \<Rightarrow>
          ebind (check_rings mixin rings keys done) (\<lambda>(rings, done).
            Inr (ring\<lparr>rr_ring := es\<rparr> # rings, done)))"

text \<open>The rounds; \<open>fetch\<close> is the call to the daemon of a round.\<close>

fun pick_rounds :: "rng \<Rightarrow> nat \<Rightarrow> u64 list \<Rightarrow> histogram list \<Rightarrow> (nat \<Rightarrow> output_ref list \<Rightarrow> output_keys list expect) \<Rightarrow> random_ring list \<Rightarrow> nat \<Rightarrow> nat \<Rightarrow> random_ring list expect option" where
  "pick_rounds R mixin offsets hists fetch rings 0 p = Some (Inl not_enough_mixin)"
| "pick_rounds R mixin offsets hists fetch rings (Suc tries) p =
     (case select_rings R mixin offsets hists rings p of
        None \<Rightarrow> None
      | Some (Inl e, p) \<Rightarrow> Some (Inl e)
      | Some (Inr (rings, proposed), p) \<Rightarrow>
          if rings = [] then Some (Inr [])
          else case fetch tries proposed of
            Inl e \<Rightarrow> Some (Inl e)
          | Inr keys \<Rightarrow>
              if length proposed \<noteq> length keys then Some (Inl bad_daemon_response)
              else case check_rings mixin rings keys True of
                Inl e \<Rightarrow> Some (Inl e)
              | Inr (rings, done) \<Rightarrow>
                  if done then Some (Inr rings)
                  else pick_rounds R mixin offsets hists fetch rings tries p)"

definition pick_random_outputs :: "rng \<Rightarrow> u32 \<Rightarrow> u64 list \<Rightarrow> u64 list \<Rightarrow> histogram list \<Rightarrow> (nat \<Rightarrow> output_ref list \<Rightarrow> output_keys list expect) \<Rightarrow> random_ring list expect option" where
  "pick_random_outputs R mixin amounts offsets hists fetch =
     (if mixin = 0 \<or> amounts = [] then Some (Inr (replicate (length amounts) \<lparr>rr_ring = [], rr_amount = 0\<rparr>))
      else if max_u64 div of_nat (length amounts) < ucast mixin then Some (Inl kInvalidArgument)
      else pick_rounds R (unat mixin) offsets (sort_key hg_amount hists) fetch
             (map (\<lambda>a. \<lparr>rr_ring = [], rr_amount = a\<rparr>) amounts) 64 0)"

section \<open>The gamma picker stays in the spendable range\<close>

context rng_laws
begin

lemma pick_loop_result:
  assumes "sorted offsets" and "is_valid R offsets"
  shows "case fst (pick_loop R offsets tries p) of
      Inl e \<Rightarrow> e = Thrown std_runtime_error
    | Inr i \<Rightarrow> i < spendable_upper_bound R offsets"
proof (induction tries arbitrary: p)
  case (Suc tries)
  define num where "num = spendable_upper_bound R offsets"
  define k where "k = length offsets - spendable_age R"
  define sp where "sp = take (k + 1) offsets"
  define age where "age = rng_age R (outputs_to_consider R offsets) (blocks_to_consider R offsets) (rng_draw R p)"
  define sel where "sel = lower_bound sp (num - 1 - age)"
  define start where "start = (if sel = 0 then 0 else offsets ! (sel - 1))"
  have eq: "pick_loop R offsets (Suc tries) p =
     (if num \<le> age then pick_loop R offsets tries (p + 1)
      else if sel = length sp then (Inl (Thrown std_logic_error), p + 1)
      else if offsets ! sel - start \<noteq> 0 then (Inr (start + rng_idx R (offsets ! sel - start) (rng_draw R (p + 1))), p + 2)
      else pick_loop R offsets tries (p + 1))"
    by (simp only: pick_loop.simps Let_def num_def age_def sel_def sp_def k_def start_def)
  have k: "k < length offsets" using assms(2) age_pos by (auto simp: is_valid_def k_def)
  have num: "num = offsets ! k" using assms(2) by (simp add: spendable_upper_bound_def num_def k_def)
  have mem: "num \<in> set sp" unfolding num sp_def using k by (auto simp: in_set_conv_nth intro!: exI [of _ k])
  note ih = Suc.IH [folded num_def]
  show ?case unfolding num_def [symmetric]
  proof (cases "num \<le> age")
    case False
    have "num - 1 - age \<le> num" using False by (simp add: word_le_nat_alt unat_sub word_less_nat_alt not_le)
    from lower_bound_found [OF mem this] have sel: "sel < length sp" by (simp add: sel_def)
    then have sel_le: "sel \<le> k" "sel < length offsets" using k by (simp_all add: sp_def)
    have le: "start \<le> offsets ! sel" "offsets ! sel \<le> num"
      using assms(1) sel_le k by (auto simp: num start_def sorted_nth_mono)
    have "start + i < num" if "i < offsets ! sel - start" for i
    proof -
      have "start + i < start + (offsets ! sel - start)"
        using that le(1) by (simp add: word_less_nat_alt unat_word_ariths unat_sub word_le_nat_alt) 
      then show ?thesis using le(2) by (simp add: order_less_le_trans)
    qed
    then show "case fst (pick_loop R offsets (Suc tries) p) of Inl e \<Rightarrow> e = Thrown std_runtime_error | Inr i \<Rightarrow> i < num"
      unfolding eq using False sel ih [of "p + 1"] idx_less [of "offsets ! sel - start"] by (auto simp: word_gt_0)
  qed (use eq ih [of "p + 1"] in simp)
qed simp

lemma gamma_pick_one_result:
  assumes "sorted offsets"
  shows "case fst (gamma_pick_one R offsets p) of
      Inl e \<Rightarrow> e = Thrown std_runtime_error \<or> \<not> is_valid R offsets
    | Inr i \<Rightarrow> i < spendable_upper_bound R offsets"
  using pick_loop_result [OF assms, of 100 p] by (auto simp: gamma_pick_one_def split: sum.splits)

lemma gamma_loop_result:
  assumes "sorted offsets" and "gamma_loop R offsets n p = (Inr refs, p')"
  shows "length refs = n \<and> (\<forall>ref \<in> set refs. rf_index ref < spendable_upper_bound R offsets)"
  using assms(2)
proof (induction n arbitrary: p refs)
  case (Suc n)
  from Suc.prems obtain i p1 refs1 where i: "gamma_pick_one R offsets p = (Inr i, p1)"
    and rest: "gamma_loop R offsets n p1 = (Inr refs1, p')" and refs: "refs = \<lparr>rf_amount = 0, rf_index = i\<rparr> # refs1"
    by (auto split: prod.splits sum.splits)
  from gamma_pick_one_result [OF assms(1), of p] Suc.IH [OF rest] show ?case by (simp add: i refs)
qed simp

end

lemma length_pick_all [simp]: "length (pick_all n amount) = n"
  by (simp add: pick_all_def)

lemma triangular_loop_length: "triangular_loop R hist n p = Some (refs, p') \<Longrightarrow> length refs = n"
  by (induction n arbitrary: p refs) (auto split: option.splits)

section \<open>Rings\<close>

lemma unique_refs_sorted:
  "sorted (map rf_index refs) \<Longrightarrow> sorted_wrt (<) (map rf_index (unique_refs refs))
    \<and> set (unique_refs refs) \<subseteq> set refs \<and> length (unique_refs refs) \<le> length refs"
proof (induction refs rule: unique_refs.induct)
  case (1 a b refs)
  show ?case
  proof (cases "rf_index a = rf_index b")
    case True
    then show ?thesis using 1 by auto
  next
    case False
    with 1 have ih: "sorted_wrt (<) (map rf_index (unique_refs (b # refs)))" "set (unique_refs (b # refs)) \<subseteq> set (b # refs)"
      "length (unique_refs (b # refs)) \<le> length (b # refs)" by simp_all
    have "rf_index a < rf_index r" if "r \<in> set (b # refs)" for r
    proof -
      have "rf_index a < rf_index b" using "1.prems" False by (simp add: order_less_le)
      moreover have "rf_index b \<le> rf_index r" using "1.prems" that by auto
      ultimately show ?thesis by (rule order_less_le_trans)
    qed
    then show ?thesis using ih False by auto
  qed
qed simp_all

lemma is_dupe_iff:
  assumes "sorted (map ro_index current)"
  shows "is_dupe current ref \<longleftrightarrow> rf_index ref \<in> ro_index ` set current"
  using lower_bound_mem [OF assms, of "rf_index ref"] lower_bound_le [of "map ro_index current" "rf_index ref"]
  by (auto simp: is_dupe_def Let_def)

text \<open>
  Between rounds: no output appears twice in a ring, a ring is not too long, and the ring for
  hidden amounts holds spendable outputs only.
\<close>

definition ring_inv :: "rng \<Rightarrow> u64 list \<Rightarrow> nat \<Rightarrow> random_ring \<Rightarrow> bool" where
  "ring_inv R offsets mixin ring \<longleftrightarrow> distinct (map ro_index (rr_ring ring)) \<and> length (rr_ring ring) \<le> mixin
     \<and> (rr_amount ring = 0 \<longrightarrow> (\<forall>e \<in> set (rr_ring ring). ro_index e < spendable_upper_bound R offsets))"

context rng_laws
begin

lemma pick_for_result:
  assumes "sorted offsets" and "pick_for R offsets hists amount n p = Some (Inr refs, p')"
  shows "length refs = n \<and> (amount = 0 \<longrightarrow> (\<forall>ref \<in> set refs. rf_index ref < spendable_upper_bound R offsets))"
proof (cases "amount = 0")
  case True
  have "rf_index ref < x" if "unat x = m" "ref \<in> set (pick_all m 0)" for ref m and x :: u64
    using that unsigned_less [of x] by (auto simp: pick_all_def word_less_nat_alt unat_of_nat)
  then show ?thesis using assms True gamma_loop_result [OF assms(1)]
    by (auto simp: pick_for_def gamma_pick_def split: if_splits)
next
  case False
  then show ?thesis using assms(2) triangular_loop_length
    by (auto simp: pick_for_def Let_def triangular_pick_def split: if_splits option.splits)
qed

lemma fill_ring_inv:
  assumes ring: "ring_inv R offsets mixin ring" and short: "length (rr_ring ring) < mixin" and "sorted offsets"
    and pick: "pick_for R offsets hists (rr_amount ring) (mixin - length (rr_ring ring)) p = Some (Inr latest, p')"
    and cur: "current = sort_key ro_index (rr_ring ring)"
    and new: "new = filter (\<lambda>ref. \<not> is_dupe current ref) (unique_refs (sort_key rf_index latest))"
  shows "ring_inv R offsets mixin (ring\<lparr>rr_ring := current @ map locked_output new\<rparr>)"
proof -
  note res = pick_for_result [OF assms(3) pick]
  have srt: "sorted (map rf_index (sort_key rf_index latest))" "sorted (map ro_index current)" by (simp_all add: cur)
  note uni = unique_refs_sorted [OF srt(1)]
  have dist: "distinct (map rf_index (unique_refs (sort_key rf_index latest)))" using uni by (simp add: strict_sorted_iff)
  have idx: "map ro_index (map locked_output new) = map rf_index new" by (simp add: locked_output_def)
  have "distinct (map rf_index new)" unfolding new using dist by (rule distinct_map_filter)
  moreover have "distinct (map ro_index current)" using ring by (simp add: ring_inv_def cur distinct_map)
  moreover have "set (map ro_index current) \<inter> set (map rf_index new) = {}"
    unfolding new by (auto simp: is_dupe_iff [OF srt(2)]) (metis imageI)
  ultimately have "distinct (map ro_index (current @ map locked_output new))" unfolding map_append idx by simp
  moreover have "length new \<le> mixin - length (rr_ring ring)"
    unfolding new using uni res by (intro order.trans [OF length_filter_le]) simp
  moreover have "set new \<subseteq> set latest" using uni by (auto simp: new)
  ultimately show ?thesis using ring short res by (auto simp: ring_inv_def cur locked_output_def)
qed

lemma select_rings_inv:
  assumes "sorted offsets" and "select_rings R mixin offsets hists rings p = Some (Inr (rings', proposed), p')"
    and "\<forall>ring \<in> set rings. ring_inv R offsets mixin ring"
  shows "(\<forall>ring \<in> set rings'. ring_inv R offsets mixin ring) \<and> subseq (map rr_amount rings') (map rr_amount rings)"
  using assms(2,3)
proof (induction rings arbitrary: p rings' proposed)
  case (Cons ring rings)
  note ih = Cons.IH [OF _ ballI]
  show ?case
  proof (cases "length (rr_ring ring) < mixin")
    case False
    then obtain rs where rs: "select_rings R mixin offsets hists rings p = Some (Inr (rs, proposed), p')" "rings' = ring # rs"
      using Cons.prems(1) by (auto split: option.splits prod.splits sum.splits)
    with ih [OF rs(1)] Cons.prems(2) show ?thesis by simp
  next
    case short: True
    with Cons.prems(1) obtain r p1 where pick: "pick_for R offsets hists (rr_amount ring) (mixin - length (rr_ring ring)) p = Some (r, p1)"
      by (auto split: option.splits)
    show ?thesis
    proof (cases r)
      case (Inl e)
      then have "select_rings R mixin offsets hists rings p1 = Some (Inr (rings', proposed), p')"
        using Cons.prems(1) short pick by (auto split: if_splits)
      from ih [OF this] Cons.prems(2) show ?thesis by (auto intro: subseq_Cons')
    next
      case (Inr latest)
      let ?cur = "sort_key ro_index (rr_ring ring)"
      let ?new = "filter (\<lambda>ref. \<not> is_dupe ?cur ref) (unique_refs (sort_key rf_index latest))"
      from Inr obtain rs pr where rs: "select_rings R mixin offsets hists rings p1 = Some (Inr (rs, pr), p')"
        and rings': "rings' = ring\<lparr>rr_ring := ?cur @ map locked_output ?new\<rparr> # rs"
        using Cons.prems(1) short pick by (auto simp: Let_def split: option.splits prod.splits sum.splits)
      have "ring_inv R offsets mixin (ring\<lparr>rr_ring := ?cur @ map locked_output ?new\<rparr>)"
        by (rule fill_ring_inv [OF _ short assms(1) pick [unfolded Inr] refl refl]) (use Cons.prems(2) in simp)
      with ih [OF rs] Cons.prems(2) show ?thesis by (simp add: rings')
    qed
  qed
qed simp

end

lemma check_entries_result:
  assumes "check_entries es keys dn = Some (es', keys', dn')"
  shows "list_all (\<lambda>e. ok_unlocked (ro_keys e)) es' \<and> subseq (map ro_index es') (map ro_index es)
    \<and> (dn' \<longrightarrow> dn \<and> length es' = length es)"
  using assms
proof (induction es keys dn arbitrary: es' rule: check_entries.induct)
  case (2 e es keys dn)
  show ?case
  proof (cases "ok_unlocked (ro_keys e)")
    case True
    then obtain r where r: "check_entries es keys dn = Some (r, keys', dn')" "es' = e # r" using "2.prems" by auto
    from "2.IH"(1) [OF True r(1)] True show ?thesis by (simp add: r(2))
  next
    case False
    then obtain k ks where k: "keys = k # ks" using "2.prems" by (cases keys) auto
    show ?thesis
    proof (cases "ok_unlocked k")
      case True
      then obtain r where r: "check_entries es ks dn = Some (r, keys', dn')" "es' = e\<lparr>ro_keys := k\<rparr> # r"
        using "2.prems" False k by auto
      from "2.IH"(2) [OF False k True r(1)] True show ?thesis by (simp add: r(2))
    next
      case locked: False
      then have "check_entries es ks False = Some (es', keys', dn')" using "2.prems" False k by simp
      from "2.IH"(3) [OF False k locked this] show ?thesis by (auto intro: subseq_Cons')
    qed
  qed
qed simp

text \<open>A ring that is given out: its outputs are distinct and unlocked, and there are as many as asked for.\<close>

definition ring_done :: "rng \<Rightarrow> u64 list \<Rightarrow> nat \<Rightarrow> random_ring \<Rightarrow> bool" where
  "ring_done R offsets mixin ring \<longleftrightarrow> ring_inv R offsets mixin ring \<and> length (rr_ring ring) = mixin
     \<and> list_all (\<lambda>e. ok_unlocked (ro_keys e)) (rr_ring ring)"

lemma subseq_distinct: "subseq xs ys \<Longrightarrow> distinct ys \<Longrightarrow> distinct xs"
proof (induction rule: list_emb.induct)
  case (list_emb_Cons2 x y xs ys)
  then show ?case using list_emb_set [OF list_emb_Cons2.hyps(2)] by (metis distinct.simps(2))
qed simp_all

lemma ring_inv_subseq:
  assumes "ring_inv R offsets mixin ring" and "subseq (map ro_index es) (map ro_index (rr_ring ring))"
  shows "ring_inv R offsets mixin (ring\<lparr>rr_ring := es\<rparr>)"
proof -
  have "\<forall>e \<in> set es. \<exists>f \<in> set (rr_ring ring). ro_index e = ro_index f"
  proof
    fix e assume "e \<in> set es"
    then have "ro_index e \<in> set (map ro_index es)" by simp
    from list_emb_set [OF assms(2) this] show "\<exists>f \<in> set (rr_ring ring). ro_index e = ro_index f" by auto
  qed
  moreover have "distinct (map ro_index es)"
    using assms subseq_distinct by (auto simp: ring_inv_def)
  moreover have "length es \<le> length (rr_ring ring)" using list_emb_length [OF assms(2)] by simp
  ultimately show ?thesis using assms(1) by (auto simp: ring_inv_def)
qed

lemma check_rings_result:
  assumes "check_rings mixin rings keys dn = Inr (rings', dn')" and "\<forall>ring \<in> set rings. ring_inv R offsets mixin ring"
  shows "(\<forall>ring \<in> set rings'. ring_inv R offsets mixin ring) \<and> map rr_amount rings' = map rr_amount rings
    \<and> (dn' \<longrightarrow> dn \<and> (\<forall>ring \<in> set rings'. ring_done R offsets mixin ring))"
  using assms
proof (induction rings arbitrary: keys dn rings')
  case (Cons ring rings)
  from Cons.prems(1) obtain es ks dn1 rs where
    es: "check_entries (rr_ring ring) keys (dn \<and> mixin \<le> length (rr_ring ring)) = Some (es, ks, dn1)"
    and rs: "check_rings mixin rings ks dn1 = Inr (rs, dn')" and rings': "rings' = ring\<lparr>rr_ring := es\<rparr> # rs"
    by (auto simp: ebind_eq_Inr split: option.splits)
  note e = check_entries_result [OF es]
  have inv: "ring_inv R offsets mixin (ring\<lparr>rr_ring := es\<rparr>)"
    using ring_inv_subseq [of R offsets mixin ring es] Cons.prems(2) e by simp
  have ih: "(\<forall>ring \<in> set rs. ring_inv R offsets mixin ring) \<and> map rr_amount rs = map rr_amount rings
    \<and> (dn' \<longrightarrow> dn1 \<and> (\<forall>ring \<in> set rs. ring_done R offsets mixin ring))"
    using Cons.IH [OF rs] Cons.prems(2) by simp
  have "dn \<and> ring_done R offsets mixin (ring\<lparr>rr_ring := es\<rparr>)" if dn'
    using that ih e inv by (auto simp: ring_done_def ring_inv_def)
  then show ?case using ih inv by (simp add: rings')
qed simp

context rng_laws
begin

lemma pick_rounds_result:
  assumes "sorted offsets" and "pick_rounds R mixin offsets hists fetch rings tries p = Some (Inr rings')"
    and "\<forall>ring \<in> set rings. ring_inv R offsets mixin ring"
  shows "(\<forall>ring \<in> set rings'. ring_done R offsets mixin ring) \<and> subseq (map rr_amount rings') (map rr_amount rings)"
  using assms(2,3)
proof (induction tries arbitrary: rings p)
  case (Suc tries)
  from Suc.prems(1) obtain rs proposed p1 where sel: "select_rings R mixin offsets hists rings p = Some (Inr (rs, proposed), p1)"
    by (auto split: option.splits prod.splits sum.splits)
  note s = select_rings_inv [OF assms(1) sel Suc.prems(2)]
  show ?case
  proof (cases "rs = []")
    case True
    then show ?thesis using Suc.prems(1) sel by simp
  next
    case False
    then obtain keys rs1 dn where chk: "check_rings mixin rs keys True = Inr (rs1, dn)"
      and res: "(if dn then Some (Inr rs1) else pick_rounds R mixin offsets hists fetch rs1 tries p1) = Some (Inr rings')"
      using Suc.prems(1) sel by (auto split: sum.splits if_splits)
    note c = check_rings_result [OF chk, of R offsets]
    show ?thesis
    proof (cases dn)
      case True
      then show ?thesis using res c s by simp
    next
      case False
      then have rec: "pick_rounds R mixin offsets hists fetch rs1 tries p1 = Some (Inr rings')" using res by simp
      from Suc.IH [OF rec] c s show ?thesis by (auto intro: subseq_order.trans)
    qed
  qed
qed simp

end

section \<open>Properties\<close>

text \<open>
  C30: the rings of decoys that \<^verbatim>\<open>pick_random_outputs\<close> returns. When it returns rings, after any
  number of rounds and whatever the daemon answered, every ring has exactly \<^verbatim>\<open>mixin\<close> outputs, no
  output appears twice in a ring, every output is unlocked, the outputs of a ring for hidden
  amounts lie in the spendable range, and the rings belong to requested amounts, in the order
  of the request.
\<close>

theorem rings_correct:
  assumes "rng_laws R" and "sorted offsets" and "mixin \<noteq> 0"
    and "pick_random_outputs R mixin amounts offsets hists fetch = Some (Inr rings)"
  shows "subseq (map rr_amount rings) amounts
    \<and> (\<forall>ring \<in> set rings. length (rr_ring ring) = unat mixin \<and> distinct (map ro_index (rr_ring ring))
        \<and> list_all (\<lambda>e. ok_unlocked (ro_keys e)) (rr_ring ring)
        \<and> (rr_amount ring = 0 \<longrightarrow> (\<forall>e \<in> set (rr_ring ring). ro_index e < spendable_upper_bound R offsets)))"
proof (cases "amounts = []")
  case True
  then show ?thesis using assms(4) by (simp add: pick_random_outputs_def)
next
  case False
  let ?rings = "map (\<lambda>a. \<lparr>rr_ring = [], rr_amount = a\<rparr>) amounts"
  from False assms(3,4) have "pick_rounds R (unat mixin) offsets (sort_key hg_amount hists) fetch ?rings 64 0 = Some (Inr rings)"
    by (simp add: pick_random_outputs_def split: if_splits)
  from rng_laws.pick_rounds_result [OF assms(1,2) this]
  show ?thesis by (auto simp: ring_done_def ring_inv_def o_def)
qed

text \<open>
  The gamma picker on a chain with enough blocks and a cumulative (so sorted) distribution
  never hits the branch the code marks as "should never happen": it returns the index of a
  spendable output, or gives up after 100 attempts.
\<close>

theorem gamma_picker_in_range:
  assumes "rng_laws R" and "sorted offsets" and "is_valid R offsets"
  shows "case fst (gamma_pick_one R offsets p) of
      Inl e \<Rightarrow> e = Thrown std_runtime_error
    | Inr i \<Rightarrow> i < spendable_upper_bound R offsets"
  using rng_laws.gamma_pick_one_result [OF assms(1,2), of p] assms(3) by (auto split: sum.splits)

text \<open>Any source of draws, with indexes reduced modulo the bound.\<close>

definition mod_rng :: "(nat \<Rightarrow> u64) \<Rightarrow> (u64 \<Rightarrow> nat \<Rightarrow> u64 \<Rightarrow> u64) \<Rightarrow> (u64 \<Rightarrow> u64 \<Rightarrow> u64) \<Rightarrow> nat \<Rightarrow> u64 \<Rightarrow> rng" where
  "mod_rng draw age triangular n target = \<lparr>rng_draw = draw, rng_idx = (\<lambda>n x. x mod n), rng_age = age,
     rng_triangular = triangular, spendable_age = Suc n, difficulty_target = target\<rparr>"

interpretation mod_rng: rng_laws "mod_rng draw age triangular n target"
  by unfold_locales (simp_all add: mod_rng_def word_mod_less_divisor)

text \<open>A chain of 12 blocks with two outputs each, and a daemon that says every output is unlocked.\<close>

definition sample_rng :: rng where
  "sample_rng = mod_rng (\<lambda>n. of_nat (7 * n)) (\<lambda>_ _ x. x mod 5) (\<lambda>t x. x mod t) 9 120"

lemma sample_rng_ok: "rng_laws sample_rng"
  unfolding sample_rng_def by (rule mod_rng.rng_laws_axioms)

definition sample_offsets :: "u64 list" where
  "sample_offsets = [2, 4, 6, 8, 10, 12, 14, 16, 18, 20, 22, 24]"

definition sample_fetch :: "nat \<Rightarrow> output_ref list \<Rightarrow> output_keys list expect" where
  "sample_fetch n refs = Inr (map (\<lambda>_. \<lparr>ok_key = 1, ok_mask = 1, ok_unlocked = True\<rparr>) refs)"

definition sample_rings :: "random_ring list expect option" where
  "sample_rings = pick_random_outputs sample_rng 3 [0, 50] sample_offsets [\<lparr>hg_amount = 50, hg_total_count = 9, hg_unlocked_count = 7\<rparr>] sample_fetch"

lemma sample_rings_ok: "sample_rings = Some (Inr (projr (the sample_rings)))"
proof -
  have "sample_rings \<noteq> None \<and> \<not> isl (the sample_rings)" by code_simp
  then show ?thesis by (metis option.collapse sum.collapse(2))
qed

theorem rings_correct_witness:
  "map rr_amount (projr (the sample_rings)) = [0, 50]
    \<and> list_all (\<lambda>ring. length (rr_ring ring) = 3 \<and> distinct (map ro_index (rr_ring ring))) (projr (the sample_rings))"
proof -
  have "map rr_amount (projr (the sample_rings)) = [0, 50]" by code_simp
  moreover have "sorted sample_offsets" "(3 :: u32) \<noteq> 0" "unat (3 :: u32) = 3" by code_simp+
  ultimately show ?thesis
    using rings_correct [OF sample_rng_ok _ _ sample_rings_ok [unfolded sample_rings_def]] unfolding sample_rings_def
    by (auto simp: list_all_iff)
qed

theorem gamma_picker_in_range_witness:
  "case fst (gamma_pick_one sample_rng sample_offsets 0) of
      Inl e \<Rightarrow> e = Thrown std_runtime_error
    | Inr i \<Rightarrow> i < spendable_upper_bound sample_rng sample_offsets"
proof -
  have "sorted sample_offsets" "is_valid sample_rng sample_offsets" by code_simp+
  then show ?thesis by (rule gamma_picker_in_range [OF sample_rng_ok])
qed

end
