(* ===== verification/Light_Wallet.thy ===== *)
theory Light_Wallet
  imports Storage_Rollback
begin

text \<open>
  What a wallet is told about its transactions: \<^verbatim>\<open>src/rpc/login.cpp\<close> (who may read an account)
  and the list of transactions of \<^verbatim>\<open>src/rpc/light_wallet.cpp\<close>, which merges the stored outputs and
  spends of an account, both in the order of the chain, and adds what the mempool holds.
\<close>

section \<open>Login\<close>

record account_credentials =
  cr_address :: account_address
  cr_key :: view_key

primrec is_hidden :: "account_status \<Rightarrow> bool" where
  "is_hidden active = False"
| "is_hidden inactive = False"
| "is_hidden hidden = True"

definition key_check :: "env \<Rightarrow> account_credentials \<Rightarrow> bool" where
  "key_check E creds =
     (let verify = secret_key_to_public_key (env_crypto E) (cr_key creds) in
      if \<not> fst verify then False
      else if snd verify \<noteq> view_public (cr_address creds) then False
      else True)"

definition open_account :: "env \<Rightarrow> account_credentials \<Rightarrow> db \<Rightarrow> account expect" where
  "open_account E creds d =
     (if \<not> key_check E creds then Inl bad_view_key
      else ebind (get_account_by_address E d (cr_address creds)) (\<lambda>user.
        if is_hidden (fst user) then Inl account_not_found else Inr (snd user)))"

section \<open>Transactions\<close>

record transaction_spend =
  ts_meta :: spend_meta
  possible_spend :: spend

record get_transaction =
  tx_info :: db_output
  tx_receives :: "db_output list"
  tx_spends :: "transaction_spend list"
  tx_spent :: u64

record found_pool_tx =
  fp_hash :: hash
  fp_spends :: "spend list"
  fp_outputs :: "db_output list"

definition zero_meta :: spend_meta where
  "zero_meta = \<lparr>sm_id = Output_id 0 0, sm_amount = 0, sm_mixin_count = 0, sm_index = 0, sm_tx_public = 0\<rparr>"

definition zero_output :: db_output where
  "zero_output = \<lparr>out_link = Transaction_link 0 0, out_spend_meta = zero_meta, out_timestamp = 0, out_unlock_time = 0,
     out_tx_prefix_hash = 0, out_pub = 0, out_ringct_mask = 0, out_extra = 0, out_payment_id = replicate 32 0,
     out_fee = 0, out_recipient = Address_index 0 0\<rparr>"

definition new_transaction :: "db_output \<Rightarrow> get_transaction" where
  "new_transaction info = \<lparr>tx_info = info, tx_receives = [], tx_spends = [], tx_spent = 0\<rparr>"

definition set_amount :: "u64 \<Rightarrow> db_output \<Rightarrow> db_output" where
  "set_amount a out = out\<lparr>out_spend_meta := (out_spend_meta out)\<lparr>sm_amount := a\<rparr>\<rparr>"

definition find_metadata :: "spend_meta list \<Rightarrow> output_id \<Rightarrow> nat" where
  "find_metadata metas i = lower_bound (map sm_id metas) i"

definition has_metadata :: "spend_meta list \<Rightarrow> output_id \<Rightarrow> bool" where
  "has_metadata metas i \<longleftrightarrow> find_metadata metas i \<noteq> length metas \<and> sm_id (metas ! find_metadata metas i) = i"

text \<open>The metadata of the outputs so far, sorted by id.\<close>

definition add_metadata :: "spend_meta list \<Rightarrow> spend_meta \<Rightarrow> spend_meta list" where
  "add_metadata metas meta =
     (if metas = [] \<or> sm_id (last metas) < sm_id meta then metas @ [meta]
      else insert_at (find_metadata metas (sm_id meta)) meta metas)"

record merge_state =
  mg_out :: "get_transaction list"
  mg_metas :: "spend_meta list"
  mg_receives :: "(output_id \<times> address_index) list"
  mg_processed :: "hash list"
  mg_total :: u64

definition update_last :: "('a \<Rightarrow> 'a) \<Rightarrow> 'a list \<Rightarrow> 'a list" where
  "update_last f xs = butlast xs @ [f (last xs)]"

definition same_tx :: "get_transaction list \<Rightarrow> transaction_link \<Rightarrow> bool" where
  "same_tx out link \<longleftrightarrow> out \<noteq> [] \<and> tx_hash (out_link (tx_info (last out))) = tx_hash link"

definition merge_output :: "bool \<Rightarrow> bool \<Rightarrow> db_output \<Rightarrow> merge_state \<Rightarrow> merge_state" where
  "merge_output has_pool all_outputs output s =
     (let amount = sm_amount (out_spend_meta output);
          is_new = \<not> same_tx (mg_out s) (out_link output);
          out = (if is_new then mg_out s @ [new_transaction output]
                 else update_last (\<lambda>t. t\<lparr>tx_info := set_amount (sm_amount (out_spend_meta (tx_info t)) + amount) (tx_info t)\<rparr>) (mg_out s));
          out = (if all_outputs then update_last (\<lambda>t. t\<lparr>tx_receives := tx_receives t @ [output]\<rparr>) out else out) in
      s\<lparr>mg_out := out,
        mg_processed := (if is_new \<and> has_pool then mg_processed s @ [tx_hash (out_link output)] else mg_processed s),
        mg_receives := (if has_pool then mg_receives s @ [(sm_id (out_spend_meta output), out_recipient output)] else mg_receives s),
        mg_metas := add_metadata (mg_metas s) (out_spend_meta output),
        mg_total := mg_total s + amount\<rparr>)"

definition spend_info :: "spend \<Rightarrow> db_output" where
  "spend_info sp = zero_output\<lparr>out_link := sp_link sp,
     out_spend_meta := zero_meta\<lparr>sm_mixin_count := sp_mixin_count sp\<rparr>,
     out_timestamp := sp_timestamp sp, out_unlock_time := sp_unlock_time sp\<rparr>"

definition merge_spend :: "bool \<Rightarrow> bool \<Rightarrow> spend \<Rightarrow> merge_state \<Rightarrow> merge_state expect" where
  "merge_spend has_pool skip_spend_meta sp s =
     (let metas = mg_metas s;
          meta = metas ! find_metadata metas (sp_source sp) in
      if \<not> (skip_spend_meta \<or> has_metadata metas (sp_source sp)) then Inl (Thrown std_invalid_argument)
      else
        let is_new = \<not> same_tx (mg_out s) (sp_link sp);
            out = (if is_new then mg_out s @ [new_transaction (spend_info sp)] else mg_out s);
            out = update_last (\<lambda>t. t\<lparr>tx_spends := tx_spends t @
                    [\<lparr>ts_meta = (if skip_spend_meta then zero_meta else meta), possible_spend = sp\<rparr>],
                    tx_spent := (if skip_spend_meta then tx_spent t else tx_spent t + sm_amount meta)\<rparr>) out in
        Inr (s\<lparr>mg_out := out,
               mg_processed := (if is_new \<and> has_pool then mg_processed s @ [tx_hash (sp_link sp)] else mg_processed s)\<rparr>))"

text \<open>\<^verbatim>\<open>LWS_VERIFY\<close> at the head of the loop: the last transaction is not after the next output or spend.\<close>

definition in_order :: "get_transaction list \<Rightarrow> db_output list \<Rightarrow> spend list \<Rightarrow> bool" where
  "in_order out outputs spends \<longleftrightarrow> out = [] \<or>
     (outputs = [] \<or> out_link (tx_info (last out)) \<le> out_link (hd outputs))
     \<and> (spends = [] \<or> out_link (tx_info (last out)) \<le> sp_link (hd spends))"

function merge_loop :: "bool \<Rightarrow> bool \<Rightarrow> bool \<Rightarrow> db_output list \<Rightarrow> spend list \<Rightarrow> merge_state \<Rightarrow> merge_state expect" where
  "merge_loop has_pool all_outputs skip_spend_meta outputs spends s =
     (if outputs = [] \<and> spends = [] then Inr s
      else if \<not> in_order (mg_out s) outputs spends then Inl (Thrown std_invalid_argument)
      else if spends = [] \<or> outputs \<noteq> [] \<and> out_link (hd outputs) \<le> sp_link (hd spends)
      then merge_loop has_pool all_outputs skip_spend_meta (tl outputs) spends
             (merge_output has_pool all_outputs (hd outputs) s)
      else ebind (merge_spend has_pool skip_spend_meta (hd spends) s)
             (merge_loop has_pool all_outputs skip_spend_meta outputs (tl spends)))"
  by pat_completeness auto
termination
  by (relation "measure (\<lambda>(_, _, _, outputs, spends, _). length outputs + length spends)")
    (auto simp: neq_Nil_conv)

declare merge_loop.simps [simp del]

text \<open>
  One transaction of the mempool. The spends up to the first one with an unknown source are
  taken; the flag in the result of \<open>pool_spends\<close> says that there was such a spend.
\<close>

fun pool_spends :: "spend_meta list \<Rightarrow> spend list \<Rightarrow> get_transaction \<Rightarrow> get_transaction \<times> bool" where
  "pool_spends metas [] tx = (tx, False)"
| "pool_spends metas (sp # sps) tx =
     (if \<not> has_metadata metas (sp_source sp) then (tx, True)
      else
        let meta = metas ! find_metadata metas (sp_source sp) in
        pool_spends metas sps (tx\<lparr>tx_spends := tx_spends tx @ [\<lparr>ts_meta = meta, possible_spend = sp\<rparr>],
                                  tx_spent := tx_spent tx + sm_amount meta\<rparr>))"

definition pool_total :: "found_pool_tx \<Rightarrow> u64" where
  "pool_total row = sum_list (map (\<lambda>out. sm_amount (out_spend_meta out)) (fp_outputs row))"

definition pool_info :: "found_pool_tx \<Rightarrow> bool \<Rightarrow> db_output" where
  "pool_info row from_future =
     (case fp_outputs row of
        out # _ \<Rightarrow> set_amount (pool_total row) out
      | [] \<Rightarrow>
          let info = set_amount (pool_total row) (zero_output\<lparr>out_link := Transaction_link txpool_block (fp_hash row)\<rparr>) in
          case fp_spends row of
            [] \<Rightarrow> info
          | sp # _ \<Rightarrow>
              if from_future then info
              else info\<lparr>out_spend_meta := (out_spend_meta info)\<lparr>sm_mixin_count := sp_mixin_count sp\<rparr>,
                        out_timestamp := sp_timestamp sp, out_unlock_time := sp_unlock_time sp\<rparr>)"

definition merge_pool_tx :: "found_pool_tx \<Rightarrow> merge_state \<Rightarrow> merge_state" where
  "merge_pool_tx row s =
     (if fp_hash row \<in> set (mg_processed s) then s
      else
        case pool_spends (mg_metas s) (fp_spends row) (new_transaction zero_output) of (tx, from_future) \<Rightarrow>
        let tx = tx\<lparr>tx_receives := tx_receives tx @ fp_outputs row, tx_info := pool_info row from_future\<rparr> in
        s\<lparr>mg_out := mg_out s @ [tx], mg_total := mg_total s + pool_total row\<rparr>)"

definition empty_merge :: merge_state where
  "empty_merge = \<lparr>mg_out = [], mg_metas = [], mg_receives = [], mg_processed = [], mg_total = 0\<rparr>"

text \<open>
  \<open>pool\<close> is \<^verbatim>\<open>mempool::scan_account\<close> for the account; \<open>None\<close> when no account, reader and
  mempool are given.
\<close>

definition merge_into_txes :: "((output_id \<times> address_index) list \<Rightarrow> found_pool_tx list) option \<Rightarrow> db_output list \<Rightarrow> spend list \<Rightarrow> bool \<Rightarrow> bool \<Rightarrow> (get_transaction list \<times> u64) expect" where
  "merge_into_txes pool outputs spends all_outputs skip_spend_meta =
     ebind (merge_loop (pool \<noteq> None) all_outputs skip_spend_meta outputs spends empty_merge) (\<lambda>s.
     let s = (case pool of None \<Rightarrow> s | Some scan \<Rightarrow> fold merge_pool_tx (scan (mg_receives s)) s) in
     Inr (mg_out s, mg_total s))"

text \<open>\<^verbatim>\<open>std::sort\<close> by link, for the transactions of a feed.\<close>

definition load_txs :: "db_output list \<Rightarrow> spend list \<Rightarrow> get_transaction list expect" where
  "load_txs outputs spends =
     ebind (merge_into_txes None (sort_key out_link outputs) (sort_key sp_link spends) True True) (\<lambda>r. Inr (fst r))"

record get_address_txs_response =
  at_total_received :: u64
  at_scanned_height :: u64
  at_scanned_block_height :: u64
  at_start_height :: u64
  at_transaction_height :: u64
  at_blockchain_height :: u64
  at_lookahead_fail :: u64
  at_lookahead :: address_index
  at_transactions :: "get_transaction list"

definition load_address_txs :: "env \<Rightarrow> db \<Rightarrow> account \<Rightarrow> ((output_id \<times> address_index) list \<Rightarrow> found_pool_tx list) option \<Rightarrow> bool \<Rightarrow> get_address_txs_response expect" where
  "load_address_txs E d acct pool all_outputs =
     ebind (get_last_block E d) (\<lambda>last_block.
     ebind (merge_into_txes pool (get_outputs E d (acc_id acct)) (get_spends E d (acc_id acct)) all_outputs False) (\<lambda>out.
     Inr \<lparr>at_total_received = snd out, at_scanned_height = acc_scan_height acct,
          at_scanned_block_height = acc_scan_height acct, at_start_height = acc_start_height acct,
          at_transaction_height = bi_id last_block, at_blockchain_height = bi_id last_block,
          at_lookahead_fail = acc_lookahead_fail acct, at_lookahead = acc_lookahead acct,
          at_transactions = fst out\<rparr>))"

section \<open>Metadata\<close>

lemma insert_at_lower_bound_key: "insert_at (lower_bound (map f xs) (f x)) x xs = insort_key f x xs"
  by (induction xs) (auto simp: insert_at_def lower_bound_def)

lemma sorted_le_last: "sorted xs \<Longrightarrow> x \<in> set xs \<Longrightarrow> x \<le> last xs"
  by (induction xs) auto

lemma add_metadata_sorted:
  assumes "sorted (map sm_id metas)"
  shows "sorted (map sm_id (add_metadata metas m))" "set (add_metadata metas m) = insert m (set metas)"
proof -
  have "sorted (map sm_id (metas @ [m]))" if "metas = [] \<or> sm_id (last metas) < sm_id m"
  proof (cases "metas = []")
    case False
    have "sm_id x \<le> sm_id m" if "x \<in> set metas" for x
    proof -
      have "sm_id x \<le> last (map sm_id metas)" using assms that by (intro sorted_le_last) auto
      then have "sm_id x \<le> sm_id (last metas)" using False by (simp add: last_map)
      then show ?thesis using \<open>metas = [] \<or> sm_id (last metas) < sm_id m\<close> False by simp
    qed
    then show ?thesis using assms by (auto simp: sorted_append)
  qed simp
  then show "sorted (map sm_id (add_metadata metas m))" "set (add_metadata metas m) = insert m (set metas)"
    using assms by (auto simp: add_metadata_def find_metadata_def insert_at_lower_bound_key sorted_insort_key set_insort_key)
qed

lemma has_metadata_iff:
  assumes "sorted (map sm_id metas)"
  shows "has_metadata metas i \<longleftrightarrow> i \<in> sm_id ` set metas"
    and "has_metadata metas i \<Longrightarrow> metas ! find_metadata metas i \<in> set metas \<and> sm_id (metas ! find_metadata metas i) = i"
proof -
  have le: "find_metadata metas i \<le> length metas" using lower_bound_le [of "map sm_id metas" i] by (simp add: find_metadata_def)
  then show "has_metadata metas i \<Longrightarrow> metas ! find_metadata metas i \<in> set metas \<and> sm_id (metas ! find_metadata metas i) = i"
    by (auto simp: has_metadata_def)
  show "has_metadata metas i \<longleftrightarrow> i \<in> sm_id ` set metas"
    using lower_bound_mem [OF assms, of i] le by (auto simp: has_metadata_def find_metadata_def)
qed

section \<open>The merged list\<close>

definition amount_of :: "db_output \<Rightarrow> u64" where
  "amount_of out = sm_amount (out_spend_meta out)"

definition tx_link :: "get_transaction \<Rightarrow> transaction_link" where
  "tx_link t = out_link (tx_info t)"

text \<open>One entry: everything in it is of its transaction, and the sums are right.\<close>

definition tx_ok :: "spend_meta list \<Rightarrow> get_transaction \<Rightarrow> bool" where
  "tx_ok metas t \<longleftrightarrow>
     (\<forall>out \<in> set (tx_receives t). tx_hash (out_link out) = tx_hash (tx_link t))
     \<and> (\<forall>x \<in> set (tx_spends t). tx_hash (sp_link (possible_spend x)) = tx_hash (tx_link t)
          \<and> ts_meta x \<in> set metas \<and> sm_id (ts_meta x) = sp_source (possible_spend x))
     \<and> tx_spent t = sum_list (map (\<lambda>x. sm_amount (ts_meta x)) (tx_spends t))"

text \<open>The state after the outputs \<open>po\<close> and the spends \<open>ps\<close>, with all outputs listed.\<close>

definition merge_ok :: "db_output list \<Rightarrow> spend list \<Rightarrow> merge_state \<Rightarrow> bool" where
  "merge_ok po ps s \<longleftrightarrow>
     sorted (map sm_id (mg_metas s)) \<and> set (mg_metas s) = out_spend_meta ` set po
     \<and> mg_total s = sum_list (map amount_of po)
     \<and> sum_list (map (\<lambda>t. amount_of (tx_info t)) (mg_out s)) = mg_total s
     \<and> concat (map tx_receives (mg_out s)) = po
     \<and> map possible_spend (concat (map tx_spends (mg_out s))) = ps
     \<and> sorted_wrt (<) (map tx_link (mg_out s))
     \<and> (\<forall>t \<in> set (mg_out s). tx_ok (mg_metas s) t)"

lemma tx_ok_mono: "tx_ok metas t \<Longrightarrow> set metas \<subseteq> set metas' \<Longrightarrow> tx_ok metas' t"
  by (auto simp: tx_ok_def)

lemma update_last_snoc [simp]: "update_last f (xs @ [x]) = xs @ [f x]"
  by (simp add: update_last_def)

lemma link_less:
  assumes "sorted_wrt (<) (map tx_link out)" and "\<not> same_tx out link" and "out \<noteq> [] \<Longrightarrow> tx_link (last out) \<le> link"
  shows "sorted_wrt (<) (map tx_link out @ [link])"
proof (cases "out = []")
  case False
  have "tx_link (last out) < link" using assms(2,3) False by (auto simp: same_tx_def tx_link_def order_less_le)
  moreover have "tx_link t \<le> tx_link (last out)" if "t \<in> set out" for t
  proof -
    have "sorted (map tx_link out)" using assms(1) by (simp add: strict_sorted_iff)
    then have "tx_link t \<le> last (map tx_link out)" using that by (intro sorted_le_last) auto
    then show ?thesis using False by (simp add: last_map)
  qed
  ultimately show ?thesis using assms(1) by (auto simp: sorted_wrt_append intro: order_le_less_trans)
qed simp

lemma set_amount_simps [simp]:
  "out_link (set_amount a out) = out_link out" "amount_of (set_amount a out) = a"
  by (simp_all add: set_amount_def amount_of_def)

lemma merge_output_ok:
  assumes ok: "merge_ok po ps s" and le: "mg_out s \<noteq> [] \<Longrightarrow> tx_link (last (mg_out s)) \<le> out_link o1"
  shows "merge_ok (po @ [o1]) ps (merge_output pool True o1 s)"
proof -
  let ?m = "add_metadata (mg_metas s) (out_spend_meta o1)"
  have parts: "sorted (map sm_id (mg_metas s))" "set (mg_metas s) = out_spend_meta ` set po"
    "mg_total s = sum_list (map amount_of po)" "sum_list (map (\<lambda>t. amount_of (tx_info t)) (mg_out s)) = mg_total s"
    "concat (map tx_receives (mg_out s)) = po" "map possible_spend (concat (map tx_spends (mg_out s))) = ps"
    "sorted_wrt (<) (map tx_link (mg_out s))" "\<forall>t \<in> set (mg_out s). tx_ok (mg_metas s) t"
    using ok by (simp_all add: merge_ok_def)
  note meta = add_metadata_sorted [OF parts(1), of "out_spend_meta o1"]
  have old: "tx_ok ?m t" if "t \<in> set (mg_out s)" for t
    using parts(8) that meta(2) by (auto intro: tx_ok_mono)
  have fs: "mg_metas (merge_output pool True o1 s) = ?m" "mg_total (merge_output pool True o1 s) = mg_total s + amount_of o1"
    by (simp_all add: merge_output_def Let_def amount_of_def)
  show ?thesis
  proof (cases "same_tx (mg_out s) (out_link o1)")
    case True
    then obtain xs t where out: "mg_out s = xs @ [t]" by (cases "mg_out s" rule: rev_cases) (auto simp: same_tx_def)
    let ?t = "t\<lparr>tx_info := set_amount (sm_amount (out_spend_meta (tx_info t)) + sm_amount (out_spend_meta o1)) (tx_info t),
        tx_receives := tx_receives t @ [o1]\<rparr>"
    have s': "mg_out (merge_output pool True o1 s) = xs @ [?t]" using True by (simp add: merge_output_def Let_def out)
    have "tx_ok ?m ?t" using old [of t] True by (auto simp: out tx_ok_def same_tx_def tx_link_def)
    moreover have "tx_link ?t = tx_link t" by (simp add: tx_link_def)
    moreover have "amount_of (tx_info ?t) = amount_of (tx_info t) + amount_of o1" by (simp add: amount_of_def set_amount_def)
    ultimately show ?thesis using parts meta old unfolding merge_ok_def s' fs by (auto simp: out)
  next
    case False
    let ?t = "(new_transaction o1)\<lparr>tx_receives := [o1]\<rparr>"
    have s': "mg_out (merge_output pool True o1 s) = mg_out s @ [?t]" using False by (simp add: merge_output_def Let_def new_transaction_def)
    have "tx_ok ?m ?t" by (simp add: tx_ok_def new_transaction_def tx_link_def)
    moreover have "tx_link ?t = out_link o1" by (simp add: tx_link_def new_transaction_def)
    moreover note link_less [OF parts(7) False le]
    ultimately show ?thesis using parts meta old unfolding merge_ok_def s' fs by (auto simp: new_transaction_def)
  qed
qed

lemma merge_spend_ok:
  assumes ok: "merge_ok po ps s" and le: "mg_out s \<noteq> [] \<Longrightarrow> tx_link (last (mg_out s)) \<le> sp_link sp"
    and src: "sp_source sp \<in> (\<lambda>o1. sm_id (out_spend_meta o1)) ` set po"
  shows "\<exists>s'. merge_spend pool False sp s = Inr s' \<and> merge_ok po (ps @ [sp]) s'"
proof -
  have parts: "sorted (map sm_id (mg_metas s))" "set (mg_metas s) = out_spend_meta ` set po"
    "mg_total s = sum_list (map amount_of po)" "sum_list (map (\<lambda>t. amount_of (tx_info t)) (mg_out s)) = mg_total s"
    "concat (map tx_receives (mg_out s)) = po" "map possible_spend (concat (map tx_spends (mg_out s))) = ps"
    "sorted_wrt (<) (map tx_link (mg_out s))" "\<forall>t \<in> set (mg_out s). tx_ok (mg_metas s) t"
    using ok by (simp_all add: merge_ok_def)
  have has: "has_metadata (mg_metas s) (sp_source sp)" using src by (auto simp: has_metadata_iff [OF parts(1)] parts(2))
  let ?meta = "mg_metas s ! find_metadata (mg_metas s) (sp_source sp)"
  let ?x = "\<lparr>ts_meta = ?meta, possible_spend = sp\<rparr>"
  note meta = has_metadata_iff(2) [OF parts(1) has]
  show ?thesis
  proof (cases "same_tx (mg_out s) (sp_link sp)")
    case True
    then obtain xs t where out: "mg_out s = xs @ [t]" by (cases "mg_out s" rule: rev_cases) (auto simp: same_tx_def)
    let ?t = "t\<lparr>tx_spends := tx_spends t @ [?x], tx_spent := tx_spent t + sm_amount ?meta\<rparr>"
    have s': "merge_spend pool False sp s = Inr (s\<lparr>mg_out := xs @ [?t], mg_processed := mg_processed s\<rparr>)"
      using has True by (simp add: merge_spend_def Let_def out)
    have "tx_ok (mg_metas s) ?t" using parts(8) True meta by (auto simp: out tx_ok_def same_tx_def tx_link_def)
    moreover have "tx_link ?t = tx_link t" by (simp add: tx_link_def)
    ultimately show ?thesis unfolding s' merge_ok_def using parts by (auto simp: out)
  next
    case False
    let ?t = "(new_transaction (spend_info sp))\<lparr>tx_spends := [?x], tx_spent := sm_amount ?meta\<rparr>"
    have link: "tx_link ?t = sp_link sp" by (simp add: tx_link_def new_transaction_def spend_info_def)
    have s': "merge_spend pool False sp s = Inr (s\<lparr>mg_out := mg_out s @ [?t],
        mg_processed := (if pool then mg_processed s @ [tx_hash (sp_link sp)] else mg_processed s)\<rparr>)"
      using has False by (simp add: merge_spend_def Let_def new_transaction_def)
    have "tx_ok (mg_metas s) ?t" using meta link by (simp add: tx_ok_def new_transaction_def)
    moreover note link_less [OF parts(7) False le]
    moreover have "amount_of (tx_info ?t) = 0" by (simp add: new_transaction_def spend_info_def amount_of_def zero_meta_def)
    ultimately show ?thesis unfolding s' merge_ok_def using parts link by (auto simp: new_transaction_def)
  qed
qed

definition not_after :: "merge_state \<Rightarrow> transaction_link \<Rightarrow> bool" where
  "not_after s link \<longleftrightarrow> mg_out s = [] \<or> tx_link (last (mg_out s)) \<le> link"

lemma tx_link_update [simp]:
  "tx_link (t\<lparr>tx_spends := a\<rparr>) = tx_link t" "tx_link (t\<lparr>tx_spent := b\<rparr>) = tx_link t"
  "tx_link (t\<lparr>tx_receives := c\<rparr>) = tx_link t" "tx_link (t\<lparr>tx_info := set_amount d (tx_info t)\<rparr>) = tx_link t"
  "tx_link (new_transaction out) = out_link out" "out_link (spend_info sp) = sp_link sp"
  by (simp_all add: tx_link_def new_transaction_def spend_info_def)

lemma merge_output_not_after:
  assumes "not_after s link" and "out_link o1 \<le> link"
  shows "not_after (merge_output pool True o1 s) link"
proof (cases "same_tx (mg_out s) (out_link o1)")
  case True
  then obtain xs t where "mg_out s = xs @ [t]" by (cases "mg_out s" rule: rev_cases) (auto simp: same_tx_def)
  then show ?thesis using True assms by (simp add: not_after_def merge_output_def Let_def)
next
  case False
  then show ?thesis using assms by (simp add: not_after_def merge_output_def Let_def)
qed

lemma merge_spend_not_after:
  assumes "not_after s link" and "sp_link sp \<le> link" and "merge_spend pool False sp s = Inr s'"
  shows "not_after s' link"
proof (cases "same_tx (mg_out s) (sp_link sp)")
  case True
  then obtain xs t where "mg_out s = xs @ [t]" by (cases "mg_out s" rule: rev_cases) (auto simp: same_tx_def)
  then show ?thesis using True assms by (auto simp: not_after_def merge_spend_def Let_def split: if_splits)
next
  case False
  then show ?thesis using assms by (auto simp: not_after_def merge_spend_def Let_def split: if_splits)
qed

text \<open>Every spend has its source among the outputs done, or among those to come at or before it.\<close>

definition sources_ok :: "db_output list \<Rightarrow> db_output list \<Rightarrow> spend list \<Rightarrow> bool" where
  "sources_ok po outs sps \<longleftrightarrow> (\<forall>sp \<in> set sps. sp_source sp \<in> (\<lambda>o1. sm_id (out_spend_meta o1)) ` set po
     \<or> (\<exists>o1 \<in> set outs. sm_id (out_spend_meta o1) = sp_source sp \<and> out_link o1 \<le> sp_link sp))"

lemma merge_loop_ok:
  assumes "merge_ok po ps s" and "sorted (map out_link outs)" and "sorted (map sp_link sps)"
    and "\<forall>o1 \<in> set outs. not_after s (out_link o1)" and "\<forall>sp \<in> set sps. not_after s (sp_link sp)"
    and "sources_ok po outs sps"
  shows "\<exists>s'. merge_loop pool True False outs sps s = Inr s' \<and> merge_ok (po @ outs) (ps @ sps) s'"
  using assms
proof (induction "length outs + length sps" arbitrary: po ps s outs sps rule: less_induct)
  case less
  show ?case
  proof (cases "outs = [] \<and> sps = []")
    case True
    then show ?thesis using less.prems(1) by (simp add: merge_loop.simps)
  next
    case False
    have ord: "in_order (mg_out s) outs sps"
      using less.prems(4,5) by (cases outs; cases sps) (auto simp: in_order_def not_after_def tx_link_def)
    show ?thesis
    proof (cases "sps = [] \<or> outs \<noteq> [] \<and> out_link (hd outs) \<le> sp_link (hd sps)")
      case True
      with False obtain o1 rest where outs: "outs = o1 # rest" by (cases outs) auto
      have after: "\<forall>o2 \<in> set rest. out_link o1 \<le> out_link o2" "\<forall>sp \<in> set sps. out_link o1 \<le> sp_link sp"
        using less.prems(2,3) True outs by (auto, cases sps) (auto intro: order.trans)
      have "\<exists>s'. merge_loop pool True False rest sps (merge_output pool True o1 s) = Inr s'
          \<and> merge_ok ((po @ [o1]) @ rest) (ps @ sps) s'"
      proof (rule less.hyps)
        show "merge_ok (po @ [o1]) ps (merge_output pool True o1 s)"
          using less.prems(1,4) outs by (intro merge_output_ok) (auto simp: not_after_def)
        show "sources_ok (po @ [o1]) rest sps" using less.prems(6) by (auto simp: sources_ok_def outs)
      qed (use less.prems after outs in \<open>auto intro: merge_output_not_after\<close>)
      moreover have "merge_loop pool True False outs sps s = merge_loop pool True False rest sps (merge_output pool True o1 s)"
        by (subst merge_loop.simps) (use False ord True outs in simp)
      ultimately show ?thesis by (simp add: outs)
    next
      case sp: False
      then obtain x rest where sps: "sps = x # rest" by (cases sps) auto
      have before: "\<forall>o1 \<in> set outs. sp_link x < out_link o1"
        using less.prems(2) sp sps by (cases outs) (auto intro: order_less_le_trans)
      have after: "\<forall>y \<in> set rest. sp_link x \<le> sp_link y" using less.prems(3) sps by auto
      have src: "sp_source x \<in> (\<lambda>o1. sm_id (out_spend_meta o1)) ` set po"
        using less.prems(6) before sps by (auto simp: sources_ok_def dest: leD)
      have "mg_out s \<noteq> [] \<Longrightarrow> tx_link (last (mg_out s)) \<le> sp_link x" using less.prems(5) sps by (auto simp: not_after_def)
      from merge_spend_ok [OF less.prems(1) this src] obtain s1 where
        s1: "merge_spend pool False x s = Inr s1" "merge_ok po (ps @ [x]) s1" by blast
      have "\<exists>s'. merge_loop pool True False outs rest s1 = Inr s' \<and> merge_ok (po @ outs) ((ps @ [x]) @ rest) s'"
      proof (rule less.hyps)
        show "sources_ok po outs rest" using less.prems(6) by (auto simp: sources_ok_def sps)
        show "\<forall>o1 \<in> set outs. not_after s1 (out_link o1)"
          using less.prems(4) before merge_spend_not_after [OF _ _ s1(1)] by (auto intro: less_imp_le)
        show "\<forall>y \<in> set rest. not_after s1 (sp_link y)"
          using less.prems(5) after merge_spend_not_after [OF _ _ s1(1)] by (auto simp: sps)
      qed (use less.prems s1(2) sps in auto)
      moreover have "merge_loop pool True False outs sps s = merge_loop pool True False outs rest s1"
        by (subst merge_loop.simps) (use False ord sp sps s1(1) in auto)
      ultimately show ?thesis by (simp add: sps)
    qed
  qed
qed

section \<open>Properties\<close>

lemma output_sort_link: "output_sort a < output_sort b \<Longrightarrow> out_link a \<le> out_link b"
  by (auto simp: output_sort_def less_eq_transaction_link_def)

lemma spend_sort_link: "spend_sort a < spend_sort b \<Longrightarrow> sp_link a \<le> sp_link b"
  by (auto simp: spend_sort_def less_eq_transaction_link_def)

lemma sorted_links:
  assumes "db_wf d"
  shows "sorted (map out_link (t_dups (db_outputs d) uid))" "sorted (map sp_link (t_dups (db_spends d) uid))"
proof -
  have wf: "table_wf output_sort (db_outputs d)" "table_wf spend_sort (db_spends d)" using assms by (simp_all add: db_wf_def)
  show "sorted (map out_link (t_dups (db_outputs d) uid))"
    using t_dups_sorted [OF wf(1), of uid] output_sort_link by (auto simp: sorted_wrt_map intro: sorted_wrt_mono_rel [rotated])
  show "sorted (map sp_link (t_dups (db_spends d) uid))"
    using t_dups_sorted [OF wf(2), of uid] spend_sort_link by (auto simp: sorted_wrt_map intro: sorted_wrt_mono_rel [rotated])
qed

lemma load_address_txs_result:
  assumes "storage_env E" and "db_wf d" and "get_last_block E d = Inr b"
    and "sources_ok [] (get_outputs E d (acc_id acct)) (get_spends E d (acc_id acct))"
  shows "\<exists>resp. load_address_txs E d acct None True = Inr resp
    \<and> concat (map tx_receives (at_transactions resp)) = get_outputs E d (acc_id acct)
    \<and> map possible_spend (concat (map tx_spends (at_transactions resp))) = get_spends E d (acc_id acct)
    \<and> sorted_wrt (<) (map tx_link (at_transactions resp))
    \<and> at_total_received resp = sum_list (map amount_of (get_outputs E d (acc_id acct)))
    \<and> sum_list (map (\<lambda>t. amount_of (tx_info t)) (at_transactions resp)) = at_total_received resp
    \<and> (\<forall>t \<in> set (at_transactions resp). tx_ok (map out_spend_meta (get_outputs E d (acc_id acct))) t)"
proof -
  let ?outs = "get_outputs E d (acc_id acct)" and ?sps = "get_spends E d (acc_id acct)"
  have laws: "?outs = t_dups (db_outputs d) (acc_id acct)" "?sps = t_dups (db_spends d) (acc_id acct)"
    using dupsort_table.dups_law [OF storage_env.outputs [OF assms(1)]] dupsort_table.dups_law [OF storage_env.spends [OF assms(1)]]
    by (simp_all add: get_outputs_def get_spends_def)
  have "\<exists>s'. merge_loop False True False ?outs ?sps empty_merge = Inr s' \<and> merge_ok ([] @ ?outs) ([] @ ?sps) s'"
  proof (rule merge_loop_ok)
    show "sorted (map out_link ?outs)" "sorted (map sp_link ?sps)" unfolding laws by (rule sorted_links [OF assms(2)])+
  qed (use assms(4) in \<open>simp_all add: merge_ok_def empty_merge_def not_after_def\<close>)
  then obtain s' where s': "merge_loop False True False ?outs ?sps empty_merge = Inr s'" "merge_ok ?outs ?sps s'" by auto
  have "tx_ok (map out_spend_meta ?outs) t" if "t \<in> set (mg_out s')" for t
    using s'(2) that by (auto simp: merge_ok_def intro: tx_ok_mono)
  then show ?thesis using s' assms(3) by (auto simp: load_address_txs_def merge_into_txes_def merge_ok_def)
qed

text \<open>
  C29: the transactions a wallet is shown (\<^verbatim>\<open>get_address_txs\<close>, without a mempool). When every stored
  spend has its source among the stored outputs at or before it, the merge never fails, and its
  list holds every stored output and every stored spend exactly once, in the order of the chain
  and in strictly increasing order of the transactions. Everything in an entry is of its
  transaction, every spend comes with the metadata of its source, the amount spent is the sum
  over these, and the total received is the sum of the stored amounts, which is also the sum of
  the amounts shown.
\<close>

theorem address_txs_complete:
  assumes "storage_env E" and "db_wf d" and "get_last_block E d = Inr b"
    and "sources_ok [] (get_outputs E d (acc_id acct)) (get_spends E d (acc_id acct))"
  shows "\<exists>resp. load_address_txs E d acct None True = Inr resp
    \<and> concat (map tx_receives (at_transactions resp)) = get_outputs E d (acc_id acct)
    \<and> map possible_spend (concat (map tx_spends (at_transactions resp))) = get_spends E d (acc_id acct)
    \<and> sorted_wrt (<) (map tx_link (at_transactions resp))
    \<and> at_total_received resp = sum_list (map amount_of (get_outputs E d (acc_id acct)))
    \<and> sum_list (map (\<lambda>t. amount_of (tx_info t)) (at_transactions resp)) = at_total_received resp
    \<and> (\<forall>t \<in> set (at_transactions resp). tx_ok (map out_spend_meta (get_outputs E d (acc_id acct))) t)"
  by (rule load_address_txs_result [OF assms])

theorem address_txs_complete_witness:
  "\<exists>resp. load_address_txs sample_env sample_db (sample_account 1 2) None True = Inr resp
    \<and> length (concat (map tx_receives (at_transactions resp))) = 2 \<and> at_total_received resp = 10"
proof -
  have "db_wf sample_db" using sample_db_inv by (simp add: storage_inv_def)
  moreover have "get_last_block sample_env sample_db = Inr (projr (get_last_block sample_env sample_db))"
    by (rule sum.collapse(2) [symmetric]) code_simp
  moreover have "sources_ok [] (get_outputs sample_env sample_db (acc_id (sample_account 1 2))) (get_spends sample_env sample_db (acc_id (sample_account 1 2)))"
    "length (get_outputs sample_env sample_db (acc_id (sample_account 1 2))) = 2"
    "sum_list (map amount_of (get_outputs sample_env sample_db (acc_id (sample_account 1 2)))) = 10" by code_simp+
  ultimately show ?thesis using address_txs_complete [OF sample_env_ok] by metis
qed

end
