(* ===== verification/Rest.thy ===== *)
theory Rest
  imports Light_Wallet
begin

text \<open>
  The synchronous handlers of \<^verbatim>\<open>src/rest_server.cpp\<close>: what a wallet may ask for, and how each
  request reads and changes the database and the connection. A request is the parsed message
  (the JSON reader is not modelled), a handler returns the connection, the database and the
  response or the error. A write that fails leaves the database as it was, since its LMDB
  transaction is dropped. The field \<^verbatim>\<open>rates\<close> of \<^verbatim>\<open>get_address_info\<close>, taken from a cache of exchange
  rates, is left out, and so are the webhooks \<^verbatim>\<open>login\<close> sends.
\<close>

unbundle bit_operations_syntax

section \<open>Options and connections\<close>

record runtime_options =
  access_controls :: "string list"
  feed_timeout :: int
  opt_max_subaddresses :: u32
  disable_admin_auth :: bool
  auto_accept_creation :: bool
  auto_accept_import :: bool

datatype verb = verb_get | verb_post | verb_options | verb_unknown

record connection_data =
  last_verb :: verb
  passed_login :: bool

definition new_connection :: connection_data where
  "new_connection = \<lparr>last_verb = verb_unknown, passed_login = False\<rparr>"

text \<open>The timeouts of a connection, in seconds.\<close>

definition get_request_timeout :: "connection_data \<Rightarrow> int" where
  "get_request_timeout c = (if passed_login c then 5 * 60 else 5)"

text \<open>
  What the handlers use besides the request: the storage, the options, the clock in
  nanoseconds, the constants of \<^verbatim>\<open>cryptonote_config.h\<close> and, if there is a mempool, its scan for an
  account.
\<close>

record rest_env =
  re_storage :: env
  re_options :: runtime_options
  re_now :: int
  re_max_block_number :: u64
  re_delta_seconds :: int
  re_delta_blocks :: u64
  re_spendable_age :: u64
  re_pool :: "(account \<Rightarrow> (output_id \<times> address_index) list \<Rightarrow> found_pool_tx list) option"

text \<open>
  The comparison of a number of seconds with a clock in nanoseconds converts both sides to
  nanoseconds in signed 64 bit integers; the multiplication is written with wrap-around.
\<close>

definition is_locked :: "rest_env \<Rightarrow> u64 \<Rightarrow> block_id \<Rightarrow> block_id \<Rightarrow> bool" where
  "is_locked R unlock_time last_id tx_height =
     (if re_max_block_number R < unlock_time
      then sint (of_int (re_now R) + of_int (re_delta_seconds R) * 1000000000 :: u64) < sint (unlock_time * 1000000000)
      else if last_id - 1 + re_delta_blocks R < unlock_time then True
      else last_id < tx_height + re_spendable_age R)"

definition check_lookahead :: "runtime_options \<Rightarrow> address_index \<Rightarrow> bool" where
  "check_lookahead opts lookahead =
     (let minor = min_i lookahead; major = maj_i lookahead in
      if minor \<noteq> 0
      then if max_u32 div minor < major then False
           else major * minor \<le> opt_max_subaddresses opts
      else True)"

section \<open>Address information\<close>

record get_address_info_response =
  ai_locked_funds :: u64
  ai_total_received :: u64
  ai_total_sent :: u64
  ai_scanned_height :: u64
  ai_scanned_block_height :: u64
  ai_start_height :: u64
  ai_transaction_height :: u64
  ai_blockchain_height :: u64
  ai_lookahead_fail :: u64
  ai_spent_outputs :: "transaction_spend list"
  ai_lookahead :: address_index

record info_state =
  is_metas :: "spend_meta list"
  is_received :: u64
  is_locked_funds :: u64

definition info_output :: "rest_env \<Rightarrow> block_id \<Rightarrow> db_output \<Rightarrow> info_state \<Rightarrow> info_state" where
  "info_output R last_id output s =
     (let meta = out_spend_meta output in
      s\<lparr>is_metas := add_metadata (is_metas s) meta,
        is_received := is_received s + sm_amount meta,
        is_locked_funds := (if is_locked R (out_unlock_time output) last_id (link_height (out_link output))
           then is_locked_funds s + sm_amount meta else is_locked_funds s)\<rparr>)"

definition info_spend :: "spend_meta list \<Rightarrow> spend \<Rightarrow> transaction_spend list \<times> u64 \<Rightarrow> (transaction_spend list \<times> u64) expect" where
  "info_spend metas sp s =
     (let meta = metas ! find_metadata metas (sp_source sp) in
      if \<not> has_metadata metas (sp_source sp) then Inl (Thrown std_logic_error)
      else Inr (fst s @ [\<lparr>ts_meta = meta, possible_spend = sp\<rparr>], snd s + sm_amount meta))"

definition address_info :: "rest_env \<Rightarrow> db \<Rightarrow> account \<Rightarrow> get_address_info_response expect" where
  "address_info R d user =
     (let E = re_storage R;
          outputs = get_outputs E d (acc_id user);
          spends = get_spends E d (acc_id user) in
      ebind (get_last_block E d) (\<lambda>last_block.
      let s = fold (info_output R (bi_id last_block)) outputs \<lparr>is_metas = [], is_received = 0, is_locked_funds = 0\<rparr> in
      ebind (efold (info_spend (is_metas s)) spends ([], 0)) (\<lambda>(spent, total_sent).
      Inr \<lparr>ai_locked_funds = is_locked_funds s, ai_total_received = is_received s, ai_total_sent = total_sent,
           ai_scanned_height = acc_scan_height user, ai_scanned_block_height = acc_scan_height user,
           ai_start_height = acc_start_height user, ai_transaction_height = bi_id last_block,
           ai_blockchain_height = bi_id last_block, ai_lookahead_fail = acc_lookahead_fail user,
           ai_spent_outputs = spent, ai_lookahead = acc_lookahead user\<rparr>)))"

text \<open>
  What a handler returns: the connection, the database, and the response or the error.
\<close>

type_synonym 'r handled = "(connection_data \<times> db) \<times> 'r expect"

definition handle_get_address_info :: "rest_env \<Rightarrow> account_credentials \<Rightarrow> connection_data \<times> db \<Rightarrow> get_address_info_response handled" where
  "handle_get_address_info R creds s =
     (case s of (c, d) \<Rightarrow>
       case open_account (re_storage R) creds d of
         Inl e \<Rightarrow> ((c, d), Inl e)
       | Inr user \<Rightarrow> ((c\<lparr>passed_login := True\<rparr>, d), address_info R d user))"

section \<open>Transactions and subaddresses\<close>

definition handle_get_address_txs :: "rest_env \<Rightarrow> account_credentials \<Rightarrow> bool \<Rightarrow> connection_data \<times> db \<Rightarrow> (get_address_txs_response \<times> view_key option) handled" where
  "handle_get_address_txs R creds receives s =
     (case s of (c, d) \<Rightarrow>
       case open_account (re_storage R) creds d of
         Inl e \<Rightarrow> ((c, d), Inl e)
       | Inr user \<Rightarrow>
           ((c\<lparr>passed_login := True\<rparr>, d),
            ebind (load_address_txs (re_storage R) d user (map_option (\<lambda>scan. scan user) (re_pool R)) receives) (\<lambda>resp.
              Inr (resp, if receives then Some (cr_key creds) else None))))"

definition handle_get_subaddrs :: "rest_env \<Rightarrow> account_credentials \<Rightarrow> connection_data \<times> db \<Rightarrow> subaddress_dict list handled" where
  "handle_get_subaddrs R creds s =
     (case s of (c, d) \<Rightarrow>
       case open_account (re_storage R) creds d of
         Inl e \<Rightarrow> ((c, d), Inl e)
       | Inr user \<Rightarrow> ((c\<lparr>passed_login := True\<rparr>, d), Inr (get_subaddresses (re_storage R) d (acc_id user))))"

section \<open>Unspent outputs\<close>

record unspent_request =
  uq_amount :: u64
  uq_dust_threshold :: "u64 option"
  uq_mixin :: "u32 option"
  uq_use_dust :: "bool option"
  uq_creds :: account_credentials

text \<open>The answer of the daemon to \<^verbatim>\<open>get_dynamic_fee_estimate\<close>.\<close>

record fee_estimate =
  fe_estimated_base_fee :: u64
  fe_fee_mask :: u64
  fe_size_scale :: u32
  fe_fees :: "u64 list"

record get_unspent_outs_response =
  uo_per_byte_fee :: u64
  uo_fee_mask :: u64
  uo_amount :: u64
  uo_lookahead_fail :: u64
  uo_outputs :: "(db_output \<times> key_image_value list) list"
  uo_fees :: "u64 list"
  uo_user_key :: view_key

definition is_unspent :: "u64 \<Rightarrow> u32 \<Rightarrow> db_output \<Rightarrow> bool" where
  "is_unspent dust mixin out =
     (\<not> (sm_amount (out_spend_meta out) < dust \<or> sm_mixin_count (out_spend_meta out) < mixin))"

fun collect_unspent :: "env \<Rightarrow> db \<Rightarrow> u64 \<Rightarrow> u32 \<Rightarrow> db_output list \<Rightarrow> u64 \<times> (db_output \<times> key_image_value list) list \<Rightarrow> u64 \<times> (db_output \<times> key_image_value list) list" where
  "collect_unspent E d dust mixin [] s = s"
| "collect_unspent E d dust mixin (out # outs) s =
     (if is_unspent dust mixin out
      then collect_unspent E d dust mixin outs
             (fst s + sm_amount (out_spend_meta out),
              snd s @ [(out, map ki_value (get_images E d (sm_id (out_spend_meta out))))])
      else collect_unspent E d dust mixin outs s)"

definition generate_response :: "env \<Rightarrow> unspent_request \<Rightarrow> fee_estimate expect \<Rightarrow> db \<Rightarrow> get_unspent_outs_response expect" where
  "generate_response E req rpc d =
     ebind rpc (\<lambda>rpc.
     ebind (open_account E (uq_creds req) d) (\<lambda>user.
     let dust = (if uq_use_dust req = Some True \<or> uq_dust_threshold req = None then 0 else the (uq_dust_threshold req));
         mixin = (case uq_mixin req of None \<Rightarrow> 0 | Some m \<Rightarrow> m);
         s = collect_unspent E d dust mixin (get_outputs E d (acc_id user)) (0, []) in
     if fst s < uq_amount req then Inl not_enough_amount
     else if fe_size_scale rpc = 0 \<or> 1024 < fe_size_scale rpc \<or> fe_fee_mask rpc = 0 then Inl bad_daemon_response
     else Inr \<lparr>uo_per_byte_fee = fe_estimated_base_fee rpc div ucast (fe_size_scale rpc),
               uo_fee_mask = fe_fee_mask rpc, uo_amount = fst s,
               uo_lookahead_fail = acc_lookahead_fail user, uo_outputs = snd s,
               uo_fees = fe_fees rpc, uo_user_key = cr_key (uq_creds req)\<rparr>))"

section \<open>Version\<close>

text \<open>The other fields of the response are constants of the build.\<close>

definition handle_get_version :: "rest_env \<Rightarrow> connection_data \<times> db \<Rightarrow> (block_id \<times> u32) handled" where
  "handle_get_version R s =
     (s, Inr (case get_last_block (re_storage R) (snd s) of Inl _ \<Rightarrow> 0 | Inr b \<Rightarrow> bi_id b,
              opt_max_subaddresses (re_options R)))"

section \<open>Import\<close>

record import_response =
  im_import_fee :: u64
  im_status :: string
  im_lookahead :: address_index
  im_new_request :: bool
  im_request_fulfilled :: bool

text \<open>
  The part of the handler that runs with the reader open: the database, the lookahead to
  report, and whether a request is to be made and whether nothing is left to do.
\<close>

definition import_check :: "rest_env \<Rightarrow> account_address \<Rightarrow> block_id \<Rightarrow> address_index \<Rightarrow> account \<Rightarrow> db \<Rightarrow> (db \<times> address_index \<times> bool \<times> bool) expect" where
  "import_check R address from_height lookahead user d =
     (let expanded_depth = (from_height < acc_start_height user);
          change_lookahead = (maj_i (acc_lookahead user) \<noteq> maj_i lookahead \<or> min_i (acc_lookahead user) \<noteq> min_i lookahead);
          lookahead_fail = (acc_lookahead_fail user \<noteq> 0) in
      if \<not> expanded_depth \<and> \<not> change_lookahead \<and> \<not> lookahead_fail then Inr (d, acc_lookahead user, False, True)
      else case get_request (re_storage R) d import_scan address of
        Inr _ \<Rightarrow> Inr (d, acc_lookahead user, False, False)
      | Inl e \<Rightarrow>
          if e \<noteq> MDB_NOTFOUND then Inl e
          else if \<not> lookahead_fail \<and> maj_i lookahead \<le> maj_i (acc_lookahead user) \<and> min_i lookahead \<le> min_i (acc_lookahead user)
          then
            if maj_i (acc_lookahead user) \<noteq> maj_i lookahead \<and> min_i (acc_lookahead user) \<noteq> min_i lookahead
            then ebind (shrink_lookahead (re_storage R) address lookahead d) (\<lambda>d.
                   Inr (d, lookahead, expanded_depth, \<not> expanded_depth))
            else Inr (d, acc_lookahead user, expanded_depth, \<not> expanded_depth)
          else Inr (d, acc_lookahead user, True, False))"

definition import_status :: "bool \<Rightarrow> bool \<Rightarrow> string" where
  "import_status new_request fulfilled =
     (if new_request then ''Accepted, waiting for approval''
      else if fulfilled then ''Approved'' else ''Waiting for Approval'')"

definition handle_import_request :: "rest_env \<Rightarrow> account_credentials \<Rightarrow> u64 \<Rightarrow> address_index \<Rightarrow> connection_data \<times> db \<Rightarrow> import_response handled" where
  "handle_import_request R creds from_height lookahead s =
     (case s of (c, d) \<Rightarrow>
       let E = re_storage R; opts = re_options R in
       case open_account E creds d of
         Inl e \<Rightarrow> ((c, d), Inl e)
       | Inr user \<Rightarrow>
           let c = c\<lparr>passed_login := True\<rparr> in
           if \<not> check_lookahead opts lookahead then ((c, d), Inl max_subaddresses)
           else case import_check R (cr_address creds) from_height lookahead user d of
             Inl e \<Rightarrow> ((c, d), Inl e)
           | Inr (d, shown, new_request, fulfilled) \<Rightarrow>
               let respond = (\<lambda>shown fulfilled. Inr \<lparr>im_import_fee = 0, im_status = import_status new_request fulfilled,
                     im_lookahead = shown, im_new_request = new_request, im_request_fulfilled = fulfilled\<rparr>) in
               if \<not> new_request then ((c, d), respond shown fulfilled)
               else case Storage_Accounts.import_request E (cr_address creds) from_height lookahead d of
                 Inl e \<Rightarrow> ((c, d), Inl e)
               | Inr d \<Rightarrow>
                   if \<not> auto_accept_import opts then ((c, d), respond shown fulfilled)
                   else case accept_requests E import_scan [cr_address creds] (opt_max_subaddresses opts) d of
                     Inl e \<Rightarrow> ((c, d), respond (Address_index 0 0) fulfilled)
                   | Inr (d, _) \<Rightarrow> ((c, d), respond lookahead True))"

section \<open>Login\<close>

record login_response =
  lr_new_address :: bool
  lr_generated_locally :: bool
  lr_lookahead :: address_index

definition handle_login :: "rest_env \<Rightarrow> account_credentials \<Rightarrow> address_index \<Rightarrow> bool \<Rightarrow> bool \<Rightarrow> connection_data \<times> db \<Rightarrow> login_response handled" where
  "handle_login R creds lookahead create_acc generated_locally s =
     (case s of (c, d) \<Rightarrow>
       let E = re_storage R; opts = re_options R; address = cr_address creds in
       if \<not> key_check E creds then ((c, d), Inl bad_view_key)
       else case get_account_by_address E d address of
         Inr (status, user) \<Rightarrow>
           if is_hidden status then ((c, d), Inl account_not_found)
           else ((c\<lparr>passed_login := True\<rparr>, d),
                 Inr \<lparr>lr_new_address = False, lr_generated_locally = (acc_flags user AND account_generated_locally \<noteq> 0),
                      lr_lookahead = acc_lookahead user\<rparr>)
       | Inl e \<Rightarrow>
           if \<not> create_acc \<or> e \<noteq> account_not_found then ((c, d), Inl e)
           else if \<not> check_lookahead opts lookahead then ((c, d), Inl max_subaddresses)
           else
             let flags = (if generated_locally then account_generated_locally else 0);
                 respond = (\<lambda>shown. Inr \<lparr>lr_new_address = True, lr_generated_locally = generated_locally, lr_lookahead = shown\<rparr>) in
             case creation_request E address (cr_key creds) flags lookahead d of
               Inl e \<Rightarrow> ((c, d), Inl e)
             | Inr (d, hooks) \<Rightarrow>
                 if \<not> auto_accept_creation opts then ((c, d), respond (Address_index 0 0))
                 else case accept_requests E create [address] (opt_max_subaddresses opts) d of
                   Inl e \<Rightarrow> ((c, d), respond (Address_index 0 0))
                 | Inr (d, _) \<Rightarrow> ((c\<lparr>passed_login := True\<rparr>, d), respond lookahead))"

section \<open>Subaddresses\<close>

record provision_request =
  pr_creds :: account_credentials
  pr_maj_i :: "u32 option"
  pr_min_i :: "u32 option"
  pr_n_maj :: "u32 option"
  pr_n_min :: "u32 option"
  pr_get_all :: "bool option"

record new_subaddrs_response =
  ns_new_subaddrs :: "subaddress_dict list"
  ns_all_subaddrs :: "subaddress_dict list"

definition value_or :: "'a option \<Rightarrow> 'a \<Rightarrow> 'a" where
  "value_or x y = (case x of None \<Rightarrow> y | Some v \<Rightarrow> v)"

text \<open>The loop counts in 64 bits, the index of an entry has 32.\<close>

definition provision_ranges :: "u32 \<Rightarrow> u32 \<Rightarrow> u32 \<Rightarrow> u32 \<Rightarrow> subaddress_dict list" where
  "provision_ranges major_i minor_i n_major n_minor =
     map (\<lambda>k. (major_i + of_nat k, [(minor_i, minor_i + n_minor - 1)])) [0..<unat n_major]"

definition all_ranges :: "rest_env \<Rightarrow> account_id \<Rightarrow> bool \<Rightarrow> db \<Rightarrow> subaddress_dict list" where
  "all_ranges R uid get_all d = (if get_all then get_subaddresses (re_storage R) d uid else [])"

definition handle_provision_subaddrs :: "rest_env \<Rightarrow> provision_request \<Rightarrow> connection_data \<times> db \<Rightarrow> new_subaddrs_response handled" where
  "handle_provision_subaddrs R req s =
     (case s of (c, d) \<Rightarrow>
       let E = re_storage R; max_sub = opt_max_subaddresses (re_options R); creds = pr_creds req in
       if pr_maj_i req = None \<and> pr_min_i req = None \<and> pr_n_min req = None \<and> pr_n_maj req = None
       then ((c, d), Inl invalid_range)
       else case open_account E creds d of
         Inl e \<Rightarrow> ((c, d), Inl e)
       | Inr user \<Rightarrow>
           let c = c\<lparr>passed_login := True\<rparr>;
               uid = acc_id user;
               n_major = value_or (pr_n_maj req) 50;
               n_minor = value_or (pr_n_min req) 500;
               get_all = value_or (pr_get_all req) True in
           if n_major = 0 \<or> n_minor = 0
           then ((c, d), Inr \<lparr>ns_new_subaddrs = [], ns_all_subaddrs = all_ranges R uid get_all d\<rparr>)
           else if max_u32 div n_major < n_minor then ((c, d), Inl max_subaddresses)
           else if max_sub < n_major * n_minor then ((c, d), Inl max_subaddresses)
           else case upsert_subaddresses E uid (cr_address creds) (cr_key creds)
                  (provision_ranges (value_or (pr_maj_i req) 0) (value_or (pr_min_i req) 0) n_major n_minor) max_sub d of
             Inl e \<Rightarrow> ((c, d), Inl e)
           | Inr (d, new_ranges) \<Rightarrow>
               ((c, d), Inr \<lparr>ns_new_subaddrs = new_ranges, ns_all_subaddrs = all_ranges R uid get_all d\<rparr>))"

definition handle_upsert_subaddrs :: "rest_env \<Rightarrow> account_credentials \<Rightarrow> subaddress_dict list \<Rightarrow> bool option \<Rightarrow> connection_data \<times> db \<Rightarrow> new_subaddrs_response handled" where
  "handle_upsert_subaddrs R creds subaddrs get_all s =
     (case s of (c, d) \<Rightarrow>
       let E = re_storage R; max_sub = opt_max_subaddresses (re_options R) in
       if max_sub = 0 then ((c, d), Inl max_subaddresses)
       else case open_account E creds d of
         Inl e \<Rightarrow> ((c, d), Inl e)
       | Inr user \<Rightarrow>
           let c = c\<lparr>passed_login := True\<rparr>; uid = acc_id user in
           case upsert_subaddresses E uid (cr_address creds) (cr_key creds) subaddrs max_sub d of
             Inl e \<Rightarrow> ((c, d), Inl e)
           | Inr (d, new_ranges) \<Rightarrow>
               ((c, d), Inr \<lparr>ns_new_subaddrs = new_ranges, ns_all_subaddrs = all_ranges R uid (value_or get_all True) d\<rparr>))"

section \<open>All requests\<close>

datatype rest_request =
    Get_address_info account_credentials
  | Get_address_txs account_credentials bool
  | Get_subaddrs account_credentials
  | Get_version
  | Import_wallet_request account_credentials u64 address_index
  | Login account_credentials address_index bool bool
  | Provision_subaddrs provision_request
  | Upsert_subaddrs account_credentials "subaddress_dict list" "bool option"

fun request_creds :: "rest_request \<Rightarrow> account_credentials option" where
  "request_creds (Get_address_info creds) = Some creds"
| "request_creds (Get_address_txs creds _) = Some creds"
| "request_creds (Get_subaddrs creds) = Some creds"
| "request_creds Get_version = None"
| "request_creds (Import_wallet_request creds _ _) = Some creds"
| "request_creds (Login creds _ _ _) = Some creds"
| "request_creds (Provision_subaddrs req) = Some (pr_creds req)"
| "request_creds (Upsert_subaddrs creds _ _) = Some creds"

text \<open>What a request leaves behind: the connection and the database.\<close>

fun rest_handle :: "rest_env \<Rightarrow> rest_request \<Rightarrow> connection_data \<times> db \<Rightarrow> connection_data \<times> db" where
  "rest_handle R (Get_address_info creds) s = fst (handle_get_address_info R creds s)"
| "rest_handle R (Get_address_txs creds receives) s = fst (handle_get_address_txs R creds receives s)"
| "rest_handle R (Get_subaddrs creds) s = fst (handle_get_subaddrs R creds s)"
| "rest_handle R Get_version s = fst (handle_get_version R s)"
| "rest_handle R (Import_wallet_request creds from_height lookahead) s = fst (handle_import_request R creds from_height lookahead s)"
| "rest_handle R (Login creds lookahead create_acc generated) s = fst (handle_login R creds lookahead create_acc generated s)"
| "rest_handle R (Provision_subaddrs req) s = fst (handle_provision_subaddrs R req s)"
| "rest_handle R (Upsert_subaddrs creds subaddrs get_all) s = fst (handle_upsert_subaddrs R creds subaddrs get_all s)"

text \<open>
  \<^verbatim>\<open>call\<close>: a request with fields has to be posted; the body of the others is not read. \<^verbatim>\<open>last_verb\<close> is the verb
  of the request, \<^verbatim>\<open>async_response\<close> has just stored it.
\<close>

definition rest_run :: "rest_env \<Rightarrow> rest_request \<Rightarrow> connection_data \<times> db \<Rightarrow> connection_data \<times> db" where
  "rest_run R req s = (if req \<noteq> Get_version \<and> last_verb (fst s) \<noteq> verb_post then s else rest_handle R req s)"

text \<open>A connection that posts a request.\<close>

definition posting :: connection_data where
  "posting = new_connection\<lparr>last_verb := verb_post\<rparr>"

text \<open>A server that accepts every request, on the sample database.\<close>

definition sample_rest :: rest_env where
  "sample_rest = \<lparr>re_storage = sample_env,
     re_options = \<lparr>access_controls = [], feed_timeout = 0, opt_max_subaddresses = 50, disable_admin_auth = False,
       auto_accept_creation = True, auto_accept_import = True\<rparr>,
     re_now = 1000, re_max_block_number = 500000000, re_delta_seconds = 120, re_delta_blocks = 1, re_spendable_age = 10,
     re_pool = None\<rparr>"

end
