(* ===== verification/Rest_Totals.thy ===== *)
theory Rest_Totals
  imports Rest
begin

text \<open>
  What a wallet is told about its money: the totals of \<^verbatim>\<open>get_address_info\<close> and of \<^verbatim>\<open>get_address_txs\<close>, which
  are computed by different loops, and the outputs of \<^verbatim>\<open>get_unspent_outs\<close>.
\<close>


section \<open>Totals\<close>









section \<open>The list with a mempool\<close>








lemma last_map_info [simp]: "out \<noteq> [] \<Longrightarrow> tx_info (last (map (\<lambda>t. t\<lparr>tx_receives := []\<rparr>) out)) = tx_info (last out)"
  by (simp add: last_map)








section \<open>Unspent outputs\<close>


section \<open>Properties\<close>








end
