(* ===== verification/Rest_Safety.thy ===== *)
theory Rest_Safety
  imports Rest Storage_Findings
begin

text \<open>
  What the REST requests cannot do: a request leaves every account alone whose view key it does not
  carry, no request makes an administrator, and a connection counts as logged in only for an account
  that can be opened.
\<close>

unbundle bit_operations_syntax

section \<open>The data of one account\<close>

definition subs_of :: "db \<Rightarrow> account_id \<Rightarrow> subaddress_dict list \<times> subaddress_map list" where
  "subs_of d uid = (t_dups (db_ranges d) uid, t_dups (db_indexes d) uid)"

definition account_data :: "db \<Rightarrow> account_id \<Rightarrow> (db_output list \<times> spend list) \<times> (subaddress_dict list \<times> subaddress_map list)" where
  "account_data d uid = ((t_dups (db_outputs d) uid, t_dups (db_spends d) uid), subs_of d uid)"

lemma t_dups_put_other: "k' \<noteq> k \<Longrightarrow> t_dups (t_put sk t k v) k' = t_dups t k'"
  by (induction t) (auto simp: t_dups_def row_key_def)

lemma t_dups_del_other: "k' \<noteq> k \<Longrightarrow> t_dups (t_del sk t k s) k' = t_dups t k'"
  by (auto simp: t_dups_def t_del_def at_row_def intro!: arg_cong [of _ _ "map snd"] filter_cong)

lemma t_dups_filter_other: "k' \<noteq> k \<Longrightarrow> t_dups (filter (\<lambda>r. fst r = k \<longrightarrow> P r) t) k' = t_dups t k'"
  by (simp add: t_dups_filter)

context dupsort_table
begin

lemma bulk_insert_dups_other: "k' \<noteq> k \<Longrightarrow> t_dups (bulk_insert T t k vs) k' = t_dups t k'"
  by (induction vs arbitrary: t) (auto simp: put_nodup_law t_dups_put_other)

end

context storage_env
begin

lemma store_ranges_other: "u' \<noteq> u \<Longrightarrow> subs_of (fst (store_ranges E u a k m nd d)) u' = subs_of d u'"
  by (auto simp: store_ranges_def subs_of_def Let_def dupsort_table.bulk_insert_dups_other [OF indexes] t_dups_put_other
      split: option.splits)

lemma upsert_merge_other: "u' \<noteq> u \<Longrightarrow> subs_of (fst (upsert_merge E u mx entry s d)) u' = subs_of d u'"
  by (auto simp: upsert_merge_def subs_of_def t_dups_del_other split: option.splits)

lemma upsert_loop_other: "u' \<noteq> u \<Longrightarrow> subs_of (fst (upsert_loop E u a k mx subs s d)) u' = subs_of d u'"
proof (induction subs arbitrary: s d)
  case (Cons entry subs)
  obtain d1 r1 where d1: "upsert_merge E u mx entry s d = (d1, r1)" by (cases "upsert_merge E u mx entry s d")
  have o1: "subs_of d1 u' = subs_of d u'" using upsert_merge_other [OF Cons.prems, of mx entry s d] d1 by simp
  show ?case
  proof (cases r1)
    case (Inl e)
    then show ?thesis using d1 o1 by simp
  next
    case (Inr x)
    obtain d2 r2 where d2: "store_ranges E u a k (fst entry) (up_new_dict x) d1 = (d2, r2)"
      by (cases "store_ranges E u a k (fst entry) (up_new_dict x) d1")
    have "subs_of d2 u' = subs_of d u'" using store_ranges_other [OF Cons.prems, of a k "fst entry" "up_new_dict x" d1] d2 o1 by simp
    then show ?thesis using Cons.IH [OF Cons.prems] d1 Inr d2 by (auto split: sum.splits)
  qed
qed simp

lemma do_upsert_other: "u' \<noteq> u \<Longrightarrow> subs_of (fst (do_upsert E u a k subs mx d)) u' = subs_of d u'"
  by (simp add: do_upsert_def Let_def upsert_loop_other)

lemma do_lookahead_other: "u' \<noteq> u \<Longrightarrow> subs_of (fst (do_lookahead E u a k la mx d)) u' = subs_of d u'"
  using do_upsert_other [of u' u a k _ mx d]
  by (auto simp: do_lookahead_def Let_def split: sum.splits prod.splits) (metis fst_conv)+

lemma do_lookahead_user_other:
  "do_lookahead_user E user la mx d = (d', r) \<Longrightarrow> u' \<noteq> acc_id user \<Longrightarrow> subs_of d' u' = subs_of d u'"
  using do_lookahead_other [of u' "acc_id user" "acc_address user" "acc_key user" la mx d]
  by (auto simp: do_lookahead_user_def split: sum.splits prod.splits if_splits)

end

text \<open>Everything the tables hold about the account with a view key.\<close>

definition untouched :: "public_key \<Rightarrow> db \<Rightarrow> db \<Rightarrow> bool" where
  "untouched v d d' \<longleftrightarrow> directory d' v = directory d v
     \<and> (\<forall>s a. directory d v = Some (s, a) \<longrightarrow> account_data d' (acc_id a) = account_data d (acc_id a))"

lemma untouched_refl [simp]: "untouched v d d"
  by (simp add: untouched_def)

lemma untouched_trans: "untouched v d d1 \<Longrightarrow> untouched v d1 d2 \<Longrightarrow> untouched v d d2"
  unfolding untouched_def by metis

lemma untouched_requests [simp]: "untouched v d (d\<lparr>db_requests := t\<rparr>)"
  unfolding untouched_def by (simp add: account_data_def subs_of_def directory_def)

text \<open>Two accounts with different view keys have different ids.\<close>

lemma directory_ids:
  assumes "index_inv d" and "directory d v = Some (s, a)" and "directory d w = Some (t, b)" and "v \<noteq> w"
  shows "acc_id a \<noteq> acc_id b"
proof
  assume eq: "acc_id a = acc_id b"
  have "(s, a) \<in> set (db_accounts d)" "view_public (acc_address a) = v" "(t, b) \<in> set (db_accounts d)" "view_public (acc_address b) = w"
    using assms by (simp_all add: directory_Some_iff)
  moreover have "distinct (map (\<lambda>r. acc_id (snd r)) (db_accounts d))" using assms(1) by (simp add: index_inv_def acc_rows_ok_def)
  ultimately show False using acc_unique [of "db_accounts d" s a t b] eq assms(4) by auto
qed

lemma untouched_update:
  assumes "directory d' = (directory d)(w \<mapsto> r)" and "v \<noteq> w"
    and "\<And>t b. directory d v = Some (t, b) \<Longrightarrow> account_data d' (acc_id b) = account_data d (acc_id b)"
  shows "untouched v d d'"
  using assms by (simp add: untouched_def)

text \<open>The effects of the operations the requests use, on the account of the request and on the others.\<close>

context storage_env
begin

lemma get_account_directory:
  assumes "index_inv d" and get: "get_account_by_address E d address = Inr (s, user)"
  shows "directory d (view_public address) = Some (s, user) \<and> acc_address user = address"
proof -
  from get obtain r where r: "lookup_address E d address = Some r"
    by (cases "lookup_address E d address") (simp_all add: get_account_by_address_def)
  then have ba: "ba_address r = address"
    and u: "get_account E d (lk_status (ba_lookup r)) (lk_id (ba_lookup r)) = Inr user" "s = lk_status (ba_lookup r)"
    using get by (auto simp: get_account_by_address_def ebind_eq_Inr split: if_splits)
  from lookup_addressD [OF assms(1) r] obtain t a where a: "(t, a) \<in> set (db_accounts d)"
    "r = \<lparr>ba_address = acc_address a, ba_lookup = \<lparr>lk_id = acc_id a, lk_status = t\<rparr>\<rparr>"
    "view_public (acc_address a) = view_public address" "t_get acc_id (db_accounts d) t (acc_id a) = Some a" by blast
  then have eq: "user = a" "s = t" using u by (simp_all add: get_account_def)
  have "directory d (view_public address) = Some (t, a)" using a(1,3) by (simp add: directory_Some_iff [OF assms(1)])
  then show ?thesis using ba a(2) eq by simp
qed

lemma open_account_directory:
  assumes "index_inv d" and "open_account E creds d = Inr user"
  shows "key_check E creds \<and> (\<exists>s. directory d (view_public (cr_address creds)) = Some (s, user) \<and> \<not> is_hidden s \<and> acc_address user = cr_address creds)"
proof -
  from assms(2) obtain s where "key_check E creds" "\<not> is_hidden s" "get_account_by_address E d (cr_address creds) = Inr (s, user)"
    by (auto simp: open_account_def ebind_eq_Inr split: if_splits)
  with get_account_directory [OF assms(1)] show ?thesis by blast
qed

lemma shrink_lookahead_effect:
  assumes "index_inv d" and "shrink_lookahead E address la d = Inr d'"
  shows "\<exists>s a. directory d (view_public address) = Some (s, a)
    \<and> directory d' = (directory d)(view_public address \<mapsto> (s, a\<lparr>acc_lookahead := la\<rparr>))
    \<and> (\<forall>uid. account_data d' uid = account_data d uid) \<and> db_requests d' = db_requests d"
proof -
  from assms(2) obtain r where r: "lookup_address E d address = Some r"
    by (auto simp: shrink_lookahead_def ebind_eq_Inr eget_eq_Inr)
  from lookup_addressD [OF assms(1) r] obtain s a where a: "(s, a) \<in> set (db_accounts d)"
    "r = \<lparr>ba_address = acc_address a, ba_lookup = \<lparr>lk_id = acc_id a, lk_status = s\<rparr>\<rparr>"
    "view_public (acc_address a) = view_public address" "t_get acc_id (db_accounts d) s (acc_id a) = Some a" by blast
  then have d': "d' = d\<lparr>db_accounts := t_set acc_id (db_accounts d) s (acc_id a) (a\<lparr>acc_lookahead := la\<rparr>)\<rparr>"
    using assms(2) r by (simp add: shrink_lookahead_def Let_def split: if_splits)
  have dist: "distinct (map (\<lambda>r. acc_id (snd r)) (db_accounts d))" using assms(1) by (simp add: index_inv_def acc_rows_ok_def)
  have "directory d' = (directory d)(view_public (acc_address a) \<mapsto> (s, a\<lparr>acc_lookahead := la\<rparr>))"
    by (rule directory_replace [OF assms(1) shrink_lookahead_index [OF assms] a(1)]) (simp_all add: d' set_t_set_acc [OF dist a(1)])
  moreover have "directory d (view_public address) = Some (s, a)" using a by (simp add: directory_Some_iff [OF assms(1)])
  ultimately show ?thesis using a(3) by (auto simp: d' account_data_def subs_of_def)
qed

lemma change_height_effect:
  assumes "index_inv d" and ok: "change_height E subs height address la mx d = Inr d'"
  shows "\<exists>s a a'. directory d (view_public address) = Some (s, a) \<and> changed_account height a a'
    \<and> directory d' = (directory d)(view_public address \<mapsto> (s, a'))
    \<and> (\<forall>uid. uid \<noteq> acc_id a \<longrightarrow> account_data d' uid = account_data d uid) \<and> db_requests d' = db_requests d"
proof -
  from change_heightD [OF assms] obtain s a a' d1 d2 bh where
    a: "(s, a) \<in> set (db_accounts d)" "view_public (acc_address a) = view_public address" and a': "changed_account height a a'"
    and d1: "rollback_spends E (acc_id a) height (rollback_outputs E (acc_id a) height d) = Inr d1"
    and d2: "without_subs d2 = without_subs d1" "d2 = d1 \<or> (\<exists>user la mx r. acc_id user = acc_id a \<and> do_lookahead_user E user la mx d1 = (d2, r))"
    and d': "d' = d2\<lparr>db_accounts := t_set acc_id (db_accounts d) s (acc_id a) a', db_accounts_bh := bh\<rparr>"
    unfolding height_change_def by blast
  note d1_eq = rollback_spends_result [OF d1, unfolded rollback_outputs_eq]
  have dist: "distinct (map (\<lambda>r. acc_id (snd r)) (db_accounts d))" using assms(1) by (simp add: index_inv_def acc_rows_ok_def)
  have "directory d' = (directory d)(view_public (acc_address a) \<mapsto> (s, a'))"
    by (rule directory_replace [OF assms(1) change_height_index [OF assms] a(1)])
      (use a' in \<open>simp_all add: d' set_t_set_acc [OF dist a(1)] changed_account_def\<close>)
  moreover have "account_data d' uid = account_data d uid" if ne: "uid \<noteq> acc_id a" for uid
  proof -
    have "subs_of d2 uid = subs_of d1 uid" using d2(2) ne do_lookahead_user_other by metis
    moreover have "db_outputs d2 = db_outputs d1" "db_spends d2 = db_spends d1" using without_subsD [OF d2(1)] by simp_all
    ultimately show ?thesis using ne by (simp add: account_data_def d' d1_eq subs_of_def t_dups_filter_other)
  qed
  moreover have "db_requests d' = db_requests d" using without_subsD [OF d2(1)] by (simp add: d' d1_eq)
  moreover have "directory d (view_public address) = Some (s, a)" using a by (simp add: directory_Some_iff [OF assms(1)])
  ultimately show ?thesis using a(2) a' by auto
qed

lemma change_height_untouched:
  assumes "index_inv d" and "change_height E subs height address la mx d = Inr d'" and "v \<noteq> view_public address"
  shows "untouched v d d'"
proof -
  from change_height_effect [OF assms(1,2)] obtain s a a' where
    a: "directory d (view_public address) = Some (s, a)" "directory d' = (directory d)(view_public address \<mapsto> (s, a'))"
      "\<forall>uid. uid \<noteq> acc_id a \<longrightarrow> account_data d' uid = account_data d uid" by blast
  show ?thesis
  proof (rule untouched_update [OF a(2) assms(3)])
    fix t b assume "directory d v = Some (t, b)"
    from directory_ids [OF assms(1) this a(1) assms(3)] a(3) show "account_data d' (acc_id b) = account_data d (acc_id b)" by blast
  qed
qed

lemma upsert_untouched:
  assumes "index_inv d" and "directory d w = Some (s, a)" and "upsert_subaddresses E (acc_id a) address key subs mx d = Inr (d', out)" and "v \<noteq> w"
  shows "untouched v d d'"
proof -
  have d': "d' = fst (do_upsert E (acc_id a) address key (foldr insort_dict subs []) mx d)"
    using assms(3) by (auto simp: upsert_subaddresses_def split: prod.splits sum.splits)
  note frame = do_upsert_frame [of E "acc_id a" address key "foldr insort_dict subs []" mx d, folded d']
  have "directory d' = directory d" using without_subsD(1) [OF frame] by (intro directory_cong) (simp add: acc_tables_def)
  moreover have "account_data d' (acc_id b) = account_data d (acc_id b)" if "directory d v = Some (t, b)" for t b
  proof -
    have "acc_id b \<noteq> acc_id a" by (rule directory_ids [OF assms(1) that assms(2,4)])
    then have "subs_of d' (acc_id b) = subs_of d (acc_id b)" unfolding d' by (rule do_upsert_other)
    then show ?thesis using without_subsD [OF frame] by (simp add: account_data_def)
  qed
  ultimately show ?thesis by (simp add: untouched_def)
qed

text \<open>A request row of the given type and address.\<close>

lemma t_get_rowD: "t_get sk t k x = Some r \<Longrightarrow> (k, r) \<in> set t"
  using t_get_SomeD by fastforce

lemma import_account_effect:
  assumes "index_inv (fst s)" and "import_account E mx address s = Inr s'"
  shows "index_inv (fst s') \<and> (\<forall>v. v \<noteq> view_public address \<longrightarrow> untouched v (fst s) (fst s'))
    \<and> set (db_requests (fst s')) \<subseteq> set (db_requests (fst s))
    \<and> (directory (fst s') (view_public address) = directory (fst s) (view_public address)
       \<or> (\<exists>t a a' info. directory (fst s) (view_public address) = Some (t, a) \<and> changed_account (ri_start_height info) a a'
            \<and> t_get request_sort (db_requests (fst s)) import_scan (spend_public address) = Some info
            \<and> directory (fst s') (view_public address) = Some (t, a')))"
proof -
  obtain d u where s: "s = (d, u)" by (cases s)
  let ?d = "d\<lparr>db_requests := t_del request_sort (db_requests d) import_scan (spend_public address)\<rparr>"
  have inv: "index_inv ?d" using assms(1) s index_inv_cong [of ?d d] by simp
  have dir: "directory ?d = directory d" by (rule directory_cong) simp
  show ?thesis
  proof (cases "t_get request_sort (db_requests d) import_scan (spend_public address)")
    case None
    then show ?thesis using assms s by (auto simp: import_account_def)
  next
    case (Some info)
    show ?thesis
    proof (cases "change_height E True (ri_start_height info) address (ri_lookahead info) mx ?d")
      case (Inl e)
      then have "s' = (?d, u)" using assms(2) s Some by (simp add: import_account_def Let_def split: if_splits)
      then show ?thesis using inv s dir by (auto simp: set_t_del)
    next
      case (Inr d')
      then have s': "fst s' = d'" using assms(2) s Some by (auto simp: import_account_def Let_def)
      from change_height_effect [OF inv Inr] obtain t a a' where
        a: "directory ?d (view_public address) = Some (t, a)" "changed_account (ri_start_height info) a a'"
          "directory d' = (directory ?d)(view_public address \<mapsto> (t, a'))" "db_requests d' = db_requests ?d" by blast
      have "untouched v d d'" if "v \<noteq> view_public address" for v
        using untouched_trans [OF untouched_requests change_height_untouched [OF inv Inr that]] .
      then show ?thesis using a change_height_index [OF inv Inr] Some s s' dir by (auto simp: set_t_del)
    qed
  qed
qed

lemma create_account_effect:
  assumes "create_inv s" and ok: "create_account E t mx address s = Inr s'"
  shows "create_inv s' \<and> (\<forall>v. v \<noteq> view_public address \<longrightarrow> untouched v (fst s) (fst s'))
    \<and> set (db_requests (fst s')) \<subseteq> set (db_requests (fst s))
    \<and> (directory (fst s') (view_public address) = directory (fst s) (view_public address)
       \<or> (\<exists>info user. t_get request_sort (db_requests (fst s)) create (spend_public address) = Some info
            \<and> directory (fst s') (view_public address) = Some (initial_status (acc_flags user), user)
            \<and> acc_flags user = ri_creation_flags info \<and> acc_address user = address \<and> acc_key user = ri_key info
            \<and> directory (fst s) (view_public address) = None))
    \<and> (\<forall>info. t_get request_sort (db_requests (fst s)) create (spend_public address) = Some info
         \<longrightarrow> key_matches (env_crypto E) address (ri_key info) \<longrightarrow> directory (fst s') (view_public address) \<noteq> None)"
proof -
  obtain d l st where s: "s = (d, l, st)" by (cases s)
  have inv: "index_inv d" "l \<noteq> max_u32" "\<forall>r \<in> set (db_accounts d). acc_id (snd r) \<le> l"
    using assms(1) s by (simp_all add: create_inv_def)
  have ci: "create_inv s'" by (rule create_account_index [OF assms])
  show ?thesis
  proof (cases "t_get request_sort (db_requests d) create (spend_public address)")
    case None
    then have "fst s' = d" using ok s by (auto simp: create_account_def)
    then show ?thesis using ci None s by auto
  next
    case (Some info)
    let ?d = "d\<lparr>db_requests := t_del request_sort (db_requests d) create (spend_public address)\<rparr>"
    let ?user = "requested_account t (l + 1) address info"
    obtain d2 res where d2: "(if \<not> is_zero (ri_lookahead info)
      then do_lookahead_user E ?user (ri_lookahead info) mx ?d else (?d, Inr ?user)) = (d2, res)"
      by (metis surj_pair)
    from ok s Some d2 obtain user where res: "res = Inr user" and max: "l + 1 \<noteq> invalid_account"
      by (cases res) (auto simp: create_account_def Let_def split: if_splits)
    have frame: "without_subs d2 = without_subs ?d"
      using d2 do_lookahead_user_frame [of E ?user "ri_lookahead info" mx ?d d2 res] by (auto split: if_splits)
    note fr = without_subsD [OF frame]
    have user: "acc_id user = l + 1" "acc_address user = address" "acc_key user = ri_key info" "acc_flags user = ri_creation_flags info"
      using d2 res do_lookahead_user_account [of E ?user "ri_lookahead info" mx ?d d2 user]
      by (auto simp: requested_account_def split: if_splits)
    have other: "subs_of d2 uid = subs_of d uid" if "uid \<noteq> l + 1" for uid
    proof -
      have "subs_of ?d uid = subs_of d uid" by (simp add: subs_of_def)
      then show ?thesis
        using d2 do_lookahead_user_other [of ?user "ri_lookahead info" mx ?d d2 res uid] that
        by (auto simp: requested_account_def split: if_splits)
    qed
    have inv2: "index_inv d2" using inv index_inv_cong [OF fr(1)] index_inv_cong [of ?d d] by simp
    have acc: "db_accounts d2 = db_accounts d" using fr(1) by (simp add: acc_tables_def)
    have dir: "directory d2 = directory d" by (rule directory_cong) (rule acc)
    have fresh: "\<forall>r \<in> set (db_accounts d2). acc_id (snd r) \<noteq> acc_id user"
      using inv(3) less_add_one_u32 [OF inv(2)] user(1) acc by fastforce
    have data2: "account_data d2 (acc_id b) = account_data d (acc_id b)" if "directory d v = Some (q, b)" for v q b
    proof -
      have "(q, b) \<in> set (db_accounts d2)" using that acc by (simp add: directory_Some_iff [OF inv(1)])
      then have "acc_id b \<noteq> l + 1" using fresh user(1) by auto
      from other [OF this] show ?thesis using fr by (simp add: account_data_def)
    qed
    note res4 = do_add_account_result [OF inv2 fresh]
    show ?thesis
    proof (cases "do_add_account E user d2")
      case (Inl e)
      then have s': "fst s' = d2" using ok s Some d2 res max by (auto simp: create_account_def Let_def split: if_splits)
      have "untouched v d d2" for v using data2 dir by (auto simp: untouched_def)
      moreover have "key_matches (env_crypto E) address (ri_key info) \<Longrightarrow> directory d (view_public address) \<noteq> None"
        using res4(3) Inl user dir by (cases "directory d (view_public address)") auto
      ultimately show ?thesis using ci s s' fr Some dir by (auto simp: set_t_del)
    next
      case (Inr d3)
      then have s': "fst s' = d3" using ok s Some d2 res max by (auto simp: create_account_def Let_def)
      have d3: "directory d3 = (directory d)(view_public address \<mapsto> (initial_status (acc_flags user), user))"
        using res4(4) Inr user(2) dir by simp
      have none: "directory d (view_public address) = None" using res4(1,2) Inr user dir
        by (cases "directory d (view_public address)"; cases "key_matches (env_crypto E) address (ri_key info)") auto
      have keep: "db_outputs d3 = db_outputs d2" "db_spends d3 = db_spends d2" "db_ranges d3 = db_ranges d2"
        "db_indexes d3 = db_indexes d2" "db_requests d3 = db_requests d2"
        using Inr by (auto simp: do_add_account_def Let_def ebind_eq_Inr split: if_splits)
      have "untouched v d d3" if "v \<noteq> view_public address" for v
        by (rule untouched_update [OF d3 that]) (use data2 keep in \<open>simp add: account_data_def subs_of_def\<close>)
      then show ?thesis using ci s s' d3 none user Some keep fr by (auto simp: set_t_del)
    qed
  qed
qed

lemma accept_import_one:
  assumes "accept_requests E import_scan [address] mx d = Inr (d', u)"
  shows "\<exists>s'. import_account E mx address (d, []) = Inr s' \<and> d' = fst s'"
  using assms by (auto simp: accept_requests_def import_accounts_def split: sum.splits)

lemma accept_create_one:
  assumes "accept_requests E create [address] mx d = Inr (d', u)"
  shows "\<exists>t s'. create_account E t mx address (d, find_last_id E d, []) = Inr s' \<and> d' = fst s'"
proof -
  from assms obtain t l where "efold (create_account E t mx) [address] (d, find_last_id E d, []) = Inr (d', l, u)"
    by (auto simp: accept_requests_def create_accounts_def ebind_eq_Inr)
  then show ?thesis by (cases "create_account E t mx address (d, find_last_id E d, [])") auto
qed

end

section \<open>The changes a client can make\<close>

text \<open>Every request is a sequence of these changes, made with credentials that were checked.\<close>

inductive client_change :: "env \<Rightarrow> account_credentials \<Rightarrow> db \<Rightarrow> db \<Rightarrow> bool" for E creds where
  cc_shrink: "shrink_lookahead E (cr_address creds) la d = Inr d' \<Longrightarrow> client_change E creds d d'"
| cc_upsert: "open_account E creds d = Inr user \<Longrightarrow>
    upsert_subaddresses E (acc_id user) (cr_address creds) (cr_key creds) subs mx d = Inr (d', out) \<Longrightarrow> client_change E creds d d'"
| cc_import: "import_request E (cr_address creds) h la d = Inr d' \<Longrightarrow> client_change E creds d d'"
| cc_accept_import: "accept_requests E import_scan [cr_address creds] mx d = Inr (d', u) \<Longrightarrow> client_change E creds d d'"
| cc_create: "creation_request E (cr_address creds) (cr_key creds) flags la d = Inr (d', hooks) \<Longrightarrow>
    flags AND admin_account = 0 \<Longrightarrow> client_change E creds d d'"
| cc_accept_create: "accept_requests E create [cr_address creds] mx d = Inr (d', u) \<Longrightarrow> client_change E creds d d'"

lemmas change_steps = client_change.intros r_into_rtranclp converse_rtranclp_into_rtranclp

lemma open_account_key: "open_account E creds d = Inr user \<Longrightarrow> key_check E creds"
  by (simp add: open_account_def split: if_splits)

lemma login_flags [simp]: "(if g then account_generated_locally else 0) AND admin_account = 0"
  by (simp add: account_generated_locally_def admin_account_def)

lemma import_check_changes:
  assumes "import_check R (cr_address creds) h la user d = Inr (d', shown, n, f)"
  shows "(client_change (re_storage R) creds)\<^sup>*\<^sup>* d d'"
  using assms by (auto simp: import_check_def Let_def ebind_eq_Inr intro!: r_into_rtranclp intro: cc_shrink split: if_splits sum.splits)

lemma handle_import_changes:
  assumes "handle_import_request R creds h la (c, d) = ((c', d'), r)"
  shows "d' = d \<or> key_check (re_storage R) creds \<and> (client_change (re_storage R) creds)\<^sup>*\<^sup>* d d'"
proof (cases "open_account (re_storage R) creds d")
  case (Inl e)
  then show ?thesis using assms by (simp add: handle_import_request_def)
next
  case user: (Inr user)
  show ?thesis
  proof (cases "check_lookahead (re_options R) la")
    case False
    then show ?thesis using assms user by (simp add: handle_import_request_def)
  next
    case True
    show ?thesis
    proof (cases "import_check R (cr_address creds) h la user d")
      case (Inl e)
      then show ?thesis using assms user True by (simp add: handle_import_request_def)
    next
      case (Inr x)
      obtain d1 shown n f where x: "x = (d1, shown, n, f)" by (cases x)
      have d1: "(client_change (re_storage R) creds)\<^sup>*\<^sup>* d d1" by (rule import_check_changes [OF Inr [unfolded x]])
      have "(client_change (re_storage R) creds)\<^sup>*\<^sup>* d1 d'"
        using assms user True Inr x
        by (auto simp: handle_import_request_def Let_def split: if_splits sum.splits) (blast intro: change_steps)+
      with d1 show ?thesis using open_account_key [OF user] by (auto intro: rtranclp_trans)
    qed
  qed
qed

text \<open>The result of a login: nothing stored, a request stored, or the request stored and accepted.\<close>

lemma handle_login_cases:
  fixes R :: rest_env and creds :: account_credentials and g :: bool
  defines "E \<equiv> re_storage R" and "addr \<equiv> cr_address creds"
    and "flags \<equiv> (if g then account_generated_locally else 0)"
  assumes "handle_login R creds la cr g (c, d) = ((c', d'), r)"
  obtains (kept) "d' = d" "\<not> key_check E creds \<or> c' = c"
  | (old) status user where "key_check E creds" "get_account_by_address E d addr = Inr (status, user)" "\<not> is_hidden status" "d' = d"
  | (requested) hooks where "key_check E creds" "creation_request E addr (cr_key creds) flags la d = Inr (d', hooks)" "c' = c"
  | (accepted) d1 hooks u where "key_check E creds" "creation_request E addr (cr_key creds) flags la d = Inr (d1, hooks)"
      "accept_requests E create [addr] (opt_max_subaddresses (re_options R)) d1 = Inr (d', u)"
proof (cases "key_check E creds")
  case False
  then show thesis using assms kept by (simp add: handle_login_def)
next
  case key: True
  note def = handle_login_def Let_def E_def [symmetric] addr_def [symmetric] flags_def [symmetric]
  show thesis
  proof (cases "get_account_by_address E d addr")
    case (Inr x)
    obtain status user where x: "x = (status, user)" by (cases x)
    show thesis
    proof (cases "is_hidden status")
      case True
      then have "d' = d" "c' = c" using assms(4) key Inr x by (simp_all add: def)
      then show thesis using kept by simp
    next
      case False
      then have "d' = d" using assms(4) key Inr x by (simp add: def)
      then show thesis by (rule old [OF key Inr [unfolded x] False])
    qed
  next
    case (Inl e)
    show thesis
    proof (cases "cr \<and> e = account_not_found \<and> check_lookahead (re_options R) la")
      case False
      then have "d' = d" "c' = c" using assms(4) key Inl by (auto simp: def split: if_splits)
      then show thesis using kept by simp
    next
      case ok: True
      show thesis
      proof (cases "creation_request E addr (cr_key creds) flags la d")
        case (Inl e1)
        then have "d' = d" "c' = c" using assms(4) key \<open>get_account_by_address E d addr = Inl e\<close> ok by (simp_all add: def)
        then show thesis using kept by simp
      next
        case (Inr y)
        obtain d1 hooks where y: "y = (d1, hooks)" by (cases y)
        note req = Inr [unfolded y]
        show thesis
        proof (cases "auto_accept_creation (re_options R)")
          case False
          then have "d' = d1" "c' = c" using assms(4) key Inl ok req by (simp_all add: def)
          then show thesis using requested [OF key] req by blast
        next
          case auto: True
          show thesis
          proof (cases "accept_requests E create [addr] (opt_max_subaddresses (re_options R)) d1")
            case (Inl e2)
            then have "d' = d1" "c' = c" using assms(4) key \<open>get_account_by_address E d addr = Inl e\<close> ok req auto by (simp_all add: def)
            then show thesis using requested [OF key] req by blast
          next
            case (Inr z)
            then have "z = (d', snd z)" using assms(4) key Inl ok req auto by (cases z) (simp add: def)
            then show thesis using accepted [OF key req, of "snd z"] Inr by metis
          qed
        qed
      qed
    qed
  qed
qed

lemma handle_login_changes:
  assumes "handle_login R creds la cr g (c, d) = ((c', d'), r)"
  shows "d' = d \<or> key_check (re_storage R) creds \<and> (client_change (re_storage R) creds)\<^sup>*\<^sup>* d d'"
  using assms
proof (cases rule: handle_login_cases)
  case (accepted d1 hooks u)
  then have "client_change (re_storage R) creds d d1" "client_change (re_storage R) creds d1 d'"
    using login_flags [of g] by (auto intro: cc_create cc_accept_create)
  then show ?thesis using accepted(1) by (meson converse_rtranclp_into_rtranclp r_into_rtranclp)
qed (use login_flags [of g] in \<open>auto intro!: r_into_rtranclp intro: cc_create\<close>)

lemma rest_handle_changes:
  assumes "rest_handle R req (c, d) = (c', d')"
  shows "d' = d \<or> (\<exists>creds. request_creds req = Some creds \<and> key_check (re_storage R) creds
    \<and> (client_change (re_storage R) creds)\<^sup>*\<^sup>* d d')"
proof (cases req)
  case (Import_wallet_request creds h la)
  then show ?thesis using assms handle_import_changes [of R creds h la c d c' d'] by (auto simp: prod_eq_iff)
next
  case (Login creds la cr g)
  then show ?thesis using assms handle_login_changes [of R creds la cr g c d c' d'] by (auto simp: prod_eq_iff)
next
  case (Provision_subaddrs r)
  then show ?thesis using assms
    by (auto simp: handle_provision_subaddrs_def Let_def intro!: r_into_rtranclp intro: cc_upsert open_account_key split: if_splits sum.splits)
next
  case (Upsert_subaddrs creds subs g)
  then show ?thesis using assms
    by (auto simp: handle_upsert_subaddrs_def Let_def intro!: r_into_rtranclp intro: cc_upsert open_account_key split: if_splits sum.splits)
qed (use assms in \<open>auto simp: handle_get_address_info_def handle_get_address_txs_def handle_get_subaddrs_def handle_get_version_def split: sum.splits\<close>)

lemma rest_run_changes:
  assumes "rest_run R req (c, d) = (c', d')"
  shows "d' = d \<or> (\<exists>creds. request_creds req = Some creds \<and> key_check (re_storage R) creds
    \<and> (client_change (re_storage R) creds)\<^sup>*\<^sup>* d d')"
  using rest_handle_changes [of R req c d c' d'] assms by (auto simp: rest_run_def split: if_splits)

section \<open>What the changes keep\<close>

definition client_inv :: "db \<Rightarrow> bool" where
  "client_inv d \<longleftrightarrow> storage_inv d \<and> (\<forall>r \<in> set (db_accounts d). acc_id (snd r) \<noteq> max_u32)"

definition is_admin :: "account \<Rightarrow> bool" where
  "is_admin a \<longleftrightarrow> acc_flags a AND admin_account \<noteq> 0"

definition admins :: "db \<Rightarrow> public_key set" where
  "admins d = {v. \<exists>s a. directory d v = Some (s, a) \<and> is_admin a}"

definition no_admin_requests :: "db \<Rightarrow> bool" where
  "no_admin_requests d \<longleftrightarrow> (\<forall>r \<in> set (db_requests d). fst r = create \<longrightarrow> ri_creation_flags (snd r) AND admin_account = 0)"

lemma client_invD:
  assumes "client_inv d"
  shows "storage_inv d" "index_inv d"
  using assms by (simp_all add: client_inv_def storage_inv_def)

lemma fold_max_mem: "fold max xs (m :: 'a::linorder) \<in> insert m (set xs)"
  by (induction xs arbitrary: m) (auto simp: max_def split: if_splits)

lemma set_last_dups: "set (last_dups rows) \<subseteq> snd ` set rows"
  by (induction rows rule: last_dups.induct) auto

context storage_env
begin

lemma client_inv_last:
  assumes "client_inv d"
  shows "find_last_id E d \<noteq> max_u32"
proof -
  have "find_last_id E d \<in> insert 0 (acc_id ` set (last_dups (db_accounts d)))"
    using fold_max_mem [of "map acc_id (last_dups (db_accounts d))" 0] by (simp add: find_last_id_def)
  moreover have "acc_id x \<noteq> max_u32" if "x \<in> set (last_dups (db_accounts d))" for x
  proof -
    from that set_last_dups [of "db_accounts d"] obtain r where "r \<in> set (db_accounts d)" "x = snd r" by blast
    then show ?thesis using assms by (simp add: client_inv_def)
  qed
  moreover have "(0 :: u32) \<noteq> max_u32" by (simp add: max_u32_def)
  ultimately show ?thesis by auto
qed

lemma client_create_inv: "client_inv d \<Longrightarrow> create_inv (d, find_last_id E d, [])"
  using find_last_id_bound client_inv_last by (auto simp: create_inv_def dest: client_invD)

end

text \<open>One change with credentials of view key \<open>w\<close>: the invariant, the other accounts, the administrators.\<close>

definition client_ok :: "public_key \<Rightarrow> db \<Rightarrow> db \<Rightarrow> bool" where
  "client_ok w d d' \<longleftrightarrow> client_inv d' \<and> (\<forall>v. v \<noteq> w \<longrightarrow> untouched v d d')
     \<and> (no_admin_requests d \<longrightarrow> no_admin_requests d' \<and> admins d' \<subseteq> admins d)"

lemma client_okI:
  assumes "client_inv d" and "storage_inv d'" and "\<And>v. v \<noteq> w \<Longrightarrow> untouched v d d'"
    and "directory d' w = directory d w \<or> (\<exists>s a. directory d' w = Some (s, a) \<and> acc_id a \<noteq> max_u32
           \<and> (no_admin_requests d \<longrightarrow> is_admin a \<longrightarrow> w \<in> admins d))"
    and "no_admin_requests d \<Longrightarrow> no_admin_requests d'"
  shows "client_ok w d d'"
proof -
  have i: "index_inv d" "index_inv d'" using client_invD(2) [OF assms(1)] assms(2) by (simp_all add: storage_inv_def)
  have old: "directory d' v = directory d v" if "v \<noteq> w" for v using assms(3) [OF that] by (simp add: untouched_def)
  have ids: "acc_id a \<noteq> max_u32" if a: "directory d' v = Some (s, a)" for v s a
  proof (cases "directory d' v = directory d v")
    case True
    with a have "directory d v = Some (s, a)" by simp
    then have "(s, a) \<in> set (db_accounts d)" by (simp add: directory_Some_iff [OF i(1)])
    then show ?thesis using assms(1) by (auto simp: client_inv_def)
  next
    case False
    then show ?thesis using old assms(4) a by (cases "v = w") auto
  qed
  have "acc_id (snd r) \<noteq> max_u32" if "r \<in> set (db_accounts d')" for r
    using ids [of "view_public (acc_address (snd r))" "fst r" "snd r"] that by (simp add: directory_Some_iff [OF i(2)])
  then have "client_inv d'" using assms(2) by (simp add: client_inv_def)
  moreover have "admins d' \<subseteq> admins d" if "no_admin_requests d"
  proof
    fix v assume "v \<in> admins d'"
    then show "v \<in> admins d" using old assms(4) that by (cases "v = w") (auto simp: admins_def)
  qed
  ultimately show ?thesis using assms(3,5) by (simp add: client_ok_def)
qed

lemma client_ok_trans: "client_ok w d d1 \<Longrightarrow> client_ok w d1 d2 \<Longrightarrow> client_ok w d d2"
  unfolding client_ok_def by (meson order_trans untouched_trans)

lemma no_admin_subset: "no_admin_requests d \<Longrightarrow> set (db_requests d') \<subseteq> set (db_requests d) \<Longrightarrow> no_admin_requests d'"
  by (auto simp: no_admin_requests_def)

context storage_env
begin

lemma shrink_ok:
  assumes "client_inv d" and "shrink_lookahead E address la d = Inr d'"
  shows "client_ok (view_public address) d d'"
proof (rule client_okI [OF assms(1) shrink_lookahead_inv [OF client_invD(1) [OF assms(1)] assms(2)]])
  note i = client_invD(2) [OF assms(1)]
  from shrink_lookahead_effect [OF i assms(2)] obtain s a where
    a: "directory d (view_public address) = Some (s, a)" "directory d' = (directory d)(view_public address \<mapsto> (s, a\<lparr>acc_lookahead := la\<rparr>))"
      "\<forall>uid. account_data d' uid = account_data d uid" "db_requests d' = db_requests d" by blast
  show "untouched v d d'" if "v \<noteq> view_public address" for v by (rule untouched_update [OF a(2) that]) (use a(3) in blast)
  have "acc_id a \<noteq> max_u32" using a(1) assms(1) by (auto simp: directory_Some_iff [OF i] client_inv_def)
  then show "directory d' (view_public address) = directory d (view_public address) \<or>
    (\<exists>s a. directory d' (view_public address) = Some (s, a) \<and> acc_id a \<noteq> max_u32
      \<and> (no_admin_requests d \<longrightarrow> is_admin a \<longrightarrow> view_public address \<in> admins d))"
    using a(1,2) by (auto simp: admins_def is_admin_def)
  show "no_admin_requests d \<Longrightarrow> no_admin_requests d'" by (erule no_admin_subset) (simp add: a(4))
qed

lemma upsert_ok:
  assumes "client_inv d" and "open_account E creds d = Inr user"
    and "upsert_subaddresses E (acc_id user) address key subs mx d = Inr (d', out)"
  shows "client_ok (view_public (cr_address creds)) d d'"
proof (rule client_okI [OF assms(1) upsert_subaddresses_inv [OF client_invD(1) [OF assms(1)] assms(3)]])
  note i = client_invD(2) [OF assms(1)]
  from open_account_directory [OF i assms(2)] obtain s where u: "directory d (view_public (cr_address creds)) = Some (s, user)" by blast
  show "untouched v d d'" if "v \<noteq> view_public (cr_address creds)" for v by (rule upsert_untouched [OF i u assms(3) that])
  have d': "d' = fst (do_upsert E (acc_id user) address key (foldr insort_dict subs []) mx d)"
    using assms(3) by (auto simp: upsert_subaddresses_def split: prod.splits sum.splits)
  note frame = without_subsD [OF do_upsert_frame [of E "acc_id user" address key "foldr insort_dict subs []" mx d, folded d']]
  have "directory d' = directory d" using frame(1) by (intro directory_cong) (simp add: acc_tables_def)
  then show "directory d' (view_public (cr_address creds)) = directory d (view_public (cr_address creds)) \<or>
    (\<exists>s a. directory d' (view_public (cr_address creds)) = Some (s, a) \<and> acc_id a \<noteq> max_u32
      \<and> (no_admin_requests d \<longrightarrow> is_admin a \<longrightarrow> view_public (cr_address creds) \<in> admins d))" by simp
  show "no_admin_requests d \<Longrightarrow> no_admin_requests d'" by (erule no_admin_subset) (use frame in simp)
qed

lemma requests_ok:
  assumes "client_inv d" and "storage_inv (d\<lparr>db_requests := t\<rparr>)" and "no_admin_requests d \<Longrightarrow> no_admin_requests (d\<lparr>db_requests := t\<rparr>)"
  shows "client_ok w d (d\<lparr>db_requests := t\<rparr>)"
  by (rule client_okI [OF assms(1,2)]) (use assms(3) in \<open>auto simp: directory_def\<close>)

lemma accept_import_ok:
  assumes "client_inv d" and ok: "accept_requests E import_scan [address] mx d = Inr (d', u)"
  shows "client_ok (view_public address) d d'"
proof (rule client_okI [OF assms(1) accept_requests_inv [OF client_invD(1) [OF assms(1)] client_inv_last [OF assms(1)] ok]])
  note i = client_invD(2) [OF assms(1)]
  from accept_import_one [OF ok] obtain s' where s': "import_account E mx address (d, []) = Inr s'" "d' = fst s'" by blast
  note eff = import_account_effect [OF _ s'(1), folded s'(2), simplified, OF i]
  show "untouched v d d'" if "v \<noteq> view_public address" for v using eff that by blast
  show "directory d' (view_public address) = directory d (view_public address) \<or>
    (\<exists>s a. directory d' (view_public address) = Some (s, a) \<and> acc_id a \<noteq> max_u32
      \<and> (no_admin_requests d \<longrightarrow> is_admin a \<longrightarrow> view_public address \<in> admins d))"
  proof (cases "directory d' (view_public address) = directory d (view_public address)")
    case False
    with eff obtain t a a' h where a: "directory d (view_public address) = Some (t, a)" "changed_account h a a'"
      "directory d' (view_public address) = Some (t, a')" by blast
    have "acc_id a \<noteq> max_u32" using a(1) assms(1) by (auto simp: directory_Some_iff [OF i] client_inv_def)
    then show ?thesis using a by (auto simp: changed_account_def admins_def is_admin_def)
  qed simp
  show "no_admin_requests d \<Longrightarrow> no_admin_requests d'" by (erule no_admin_subset) (use eff in simp)
qed

lemma accept_create_ok:
  assumes "client_inv d" and ok: "accept_requests E create [address] mx d = Inr (d', u)"
  shows "client_ok (view_public address) d d'"
proof (rule client_okI [OF assms(1) accept_requests_inv [OF client_invD(1) [OF assms(1)] client_inv_last [OF assms(1)] ok]])
  from accept_create_one [OF ok] obtain t s' where s': "create_account E t mx address (d, find_last_id E d, []) = Inr s'" "d' = fst s'" by blast
  note eff = create_account_effect [OF client_create_inv [OF assms(1)] s'(1), folded s'(2), simplified]
  show "untouched v d d'" if "v \<noteq> view_public address" for v using eff that by blast
  have ci: "index_inv d'" "\<forall>r \<in> set (db_accounts d'). acc_id (snd r) \<noteq> max_u32"
    using eff s'(2) by (auto simp: create_inv_def max_u32_def word_order.extremum_unique)
  show "directory d' (view_public address) = directory d (view_public address) \<or>
    (\<exists>s a. directory d' (view_public address) = Some (s, a) \<and> acc_id a \<noteq> max_u32
      \<and> (no_admin_requests d \<longrightarrow> is_admin a \<longrightarrow> view_public address \<in> admins d))"
  proof (cases "directory d' (view_public address) = directory d (view_public address)")
    case False
    with eff obtain info user where a: "t_get request_sort (db_requests d) create (spend_public address) = Some info"
      "directory d' (view_public address) = Some (initial_status (acc_flags user), user)" "acc_flags user = ri_creation_flags info" by blast
    have "acc_id user \<noteq> max_u32" using a(2) ci by (auto simp: directory_Some_iff [OF ci(1)])
    moreover have "no_admin_requests d \<Longrightarrow> \<not> is_admin user"
      using t_get_rowD [OF a(1)] a(3) by (auto simp: no_admin_requests_def is_admin_def)
    ultimately show ?thesis using a(2) by blast
  qed simp
  show "no_admin_requests d \<Longrightarrow> no_admin_requests d'" by (erule no_admin_subset) (use eff in simp)
qed

lemma client_change_ok:
  assumes "client_change E creds d d'" and "client_inv d"
  shows "client_ok (view_public (cr_address creds)) d d'"
  using assms(1)
proof cases
  case (cc_import h la)
  then obtain t where d': "d' = d\<lparr>db_requests := t_put request_sort (db_requests d) import_scan t\<rparr>"
    by (auto simp: import_request_def Let_def ebind_eq_Inr eget_eq_Inr split: if_splits)
  have "table_wf request_sort (db_requests d)" using client_invD(1) [OF assms(2)] by (simp add: storage_inv_def db_wf_def)
  then have "no_admin_requests d \<Longrightarrow> no_admin_requests d'" by (auto simp: d' no_admin_requests_def set_t_put)
  with import_request_inv [OF client_invD(1) [OF assms(2)] cc_import] show ?thesis
    unfolding d' by (intro requests_ok [OF assms(2)])
next
  case (cc_create flags la hooks)
  then obtain t and b :: block_info where d': "d' = d\<lparr>db_requests := t_put request_sort (db_requests d) create
       \<lparr>ri_address = cr_address creds, ri_key = cr_key creds, ri_start_height = bi_id b, ri_creation = t, ri_creation_flags = flags, ri_lookahead = la\<rparr>\<rparr>"
    by (metis creation_requestD)
  have "table_wf request_sort (db_requests d)" using client_invD(1) [OF assms(2)] by (simp add: storage_inv_def db_wf_def)
  then have "no_admin_requests d \<Longrightarrow> no_admin_requests d'" using cc_create(2) by (auto simp: d' no_admin_requests_def set_t_put)
  with creation_request_inv [OF client_invD(1) [OF assms(2)] cc_create(1)] show ?thesis
    unfolding d' by (intro requests_ok [OF assms(2)])
qed (use assms(2) in \<open>auto intro: shrink_ok upsert_ok accept_import_ok accept_create_ok\<close>)

lemma client_changes_ok:
  assumes "(client_change E creds)\<^sup>*\<^sup>* d d'" and "client_inv d"
  shows "client_ok (view_public (cr_address creds)) d d'"
  using assms
proof (induction rule: rtranclp_induct)
  case base
  then show ?case by (simp add: client_ok_def)
next
  case (step y z)
  then have "client_ok (view_public (cr_address creds)) d y" by simp
  moreover have "client_ok (view_public (cr_address creds)) y z"
    using client_change_ok [OF step.hyps(2)] calculation by (simp add: client_ok_def)
  ultimately show ?case by (rule client_ok_trans)
qed

end

section \<open>Sequences of requests\<close>

text \<open>The requests of any number of connections, in the order in which they are handled.\<close>

fun rest_trace :: "rest_env \<Rightarrow> (connection_data \<times> rest_request) list \<Rightarrow> db \<Rightarrow> db" where
  "rest_trace R [] d = d"
| "rest_trace R ((c, req) # reqs) d = rest_trace R reqs (snd (rest_run R req (c, d)))"

text \<open>The request carries a view key that generates the public key \<open>v\<close>.\<close>

definition carries_key :: "env \<Rightarrow> public_key \<Rightarrow> rest_request \<Rightarrow> bool" where
  "carries_key E v req = (case request_creds req of None \<Rightarrow> False
     | Some creds \<Rightarrow> key_check E creds \<and> view_public (cr_address creds) = v)"

lemma rest_run_ok:
  assumes "storage_env (re_storage R)" and "client_inv d"
  shows "client_inv (snd (rest_run R req (c, d)))"
    "\<not> carries_key (re_storage R) v req \<Longrightarrow> untouched v d (snd (rest_run R req (c, d)))"
    "no_admin_requests d \<Longrightarrow> no_admin_requests (snd (rest_run R req (c, d))) \<and> admins (snd (rest_run R req (c, d))) \<subseteq> admins d"
proof -
  obtain c' d' where run: "rest_run R req (c, d) = (c', d')" by (cases "rest_run R req (c, d)")
  have "d' = d \<or> (\<exists>creds. request_creds req = Some creds \<and> key_check (re_storage R) creds
      \<and> client_ok (view_public (cr_address creds)) d d')"
    using rest_run_changes [OF run] storage_env.client_changes_ok [OF assms(1) _ assms(2)] by blast
  then show "client_inv (snd (rest_run R req (c, d)))"
    "\<not> carries_key (re_storage R) v req \<Longrightarrow> untouched v d (snd (rest_run R req (c, d)))"
    "no_admin_requests d \<Longrightarrow> no_admin_requests (snd (rest_run R req (c, d))) \<and> admins (snd (rest_run R req (c, d))) \<subseteq> admins d"
    using assms(2) unfolding run by (auto simp: client_ok_def carries_key_def)
qed

lemma rest_trace_untouched:
  assumes "storage_env (re_storage R)" and "client_inv d" and "list_all (\<lambda>r. \<not> carries_key (re_storage R) v (snd r)) reqs"
  shows "untouched v d (rest_trace R reqs d)"
  using assms(2,3)
proof (induction reqs arbitrary: d)
  case (Cons r reqs)
  obtain c req where r: "r = (c, req)" by (cases r)
  note ok = rest_run_ok [OF assms(1) Cons.prems(1), where req = req and c = c]
  have "untouched v d (snd (rest_run R req (c, d)))" using ok(2) Cons.prems(2) r by simp
  moreover have "untouched v (snd (rest_run R req (c, d))) (rest_trace R reqs (snd (rest_run R req (c, d))))"
    using Cons.IH [OF ok(1)] Cons.prems(2) by simp
  ultimately show ?case unfolding r rest_trace.simps by (rule untouched_trans)
qed simp

lemma rest_trace_admins:
  assumes "storage_env (re_storage R)" and "client_inv d" and "no_admin_requests d"
  shows "client_inv (rest_trace R reqs d) \<and> no_admin_requests (rest_trace R reqs d) \<and> admins (rest_trace R reqs d) \<subseteq> admins d"
  using assms(2,3)
proof (induction reqs arbitrary: d)
  case (Cons r reqs)
  obtain c req where r: "r = (c, req)" by (cases r)
  note ok = rest_run_ok [OF assms(1) Cons.prems(1), where req = req and c = c]
  from Cons.IH [OF ok(1)] ok(3) Cons.prems(2) show ?case unfolding r by auto
qed simp

section \<open>Logging in\<close>

context storage_env
begin

lemma open_accountI:
  assumes "index_inv d" and "key_check E creds" and "directory d (view_public (cr_address creds)) = Some (s, user)"
    and "\<not> is_hidden s" and "acc_address user = cr_address creds"
  shows "open_account E creds d = Inr user"
proof -
  have "lookup_address E d (cr_address creds) = Some (snd (ba_row (s, user)))" using assms(3) by (simp add: lookup_directory [OF assms(1)])
  moreover have "t_get acc_id (db_accounts d) s (acc_id user) = Some user"
    using assms(1,3) by (auto simp: directory_Some_iff [OF assms(1)] index_inv_def acc_rows_ok_def t_get_Some_iff)
  ultimately show ?thesis using assms(2,4,5) by (simp add: open_account_def get_account_by_address_def get_account_def ba_row_def)
qed

text \<open>A change leaves an account with its status and its address.\<close>

lemma client_change_keeps:
  assumes "client_change E creds d d'" and "client_inv d" and "directory d w = Some (s, a)"
  shows "\<exists>a'. directory d' w = Some (s, a') \<and> acc_address a' = acc_address a"
proof (cases "w = view_public (cr_address creds)")
  case False
  then show ?thesis using client_change_ok [OF assms(1,2)] assms(3) by (auto simp: client_ok_def untouched_def)
next
  case w: True
  note i = client_invD(2) [OF assms(2)]
  show ?thesis using assms(1)
  proof cases
    case (cc_shrink la)
    then show ?thesis using shrink_lookahead_effect [OF i cc_shrink] assms(3) w by auto
  next
    case (cc_upsert user subs mx out)
    have d': "d' = fst (do_upsert E (acc_id user) (cr_address creds) (cr_key creds) (foldr insort_dict subs []) mx d)"
      using cc_upsert by (auto simp: upsert_subaddresses_def split: prod.splits sum.splits)
    have "directory d' = directory d" unfolding d'
      by (rule directory_cong) (use without_subsD(1) [OF do_upsert_frame] in \<open>simp add: acc_tables_def\<close>)
    then show ?thesis using assms(3) by simp
  next
    case (cc_import h la)
    then have "db_accounts d' = db_accounts d" by (auto simp: import_request_def Let_def ebind_eq_Inr split: if_splits)
    then show ?thesis using assms(3) directory_cong [of d' d] by simp
  next
    case (cc_create flags la hooks)
    then have "db_accounts d' = db_accounts d" by (metis creation_requestD db.select_convs(3) db.update_convs(9) db.surjective)
    then show ?thesis using assms(3) directory_cong [of d' d] by simp
  next
    case (cc_accept_import mx u)
    from accept_import_one [OF this] obtain s' where s': "import_account E mx (cr_address creds) (d, []) = Inr s'" "d' = fst s'" by blast
    note eff = import_account_effect [OF _ s'(1), folded s'(2), simplified, OF i]
    show ?thesis
    proof (cases "directory d' (view_public (cr_address creds)) = directory d (view_public (cr_address creds))")
      case False
      with eff obtain t b b' h where b: "directory d (view_public (cr_address creds)) = Some (t, b)" "changed_account h b b'"
        "directory d' (view_public (cr_address creds)) = Some (t, b')" by blast
      then show ?thesis using assms(3) w by (auto simp: changed_account_def)
    qed (use assms(3) w in simp)
  next
    case (cc_accept_create mx u)
    from accept_create_one [OF this] obtain t s' where s': "create_account E t mx (cr_address creds) (d, find_last_id E d, []) = Inr s'" "d' = fst s'" by blast
    note eff = create_account_effect [OF client_create_inv [OF assms(2)] s'(1), folded s'(2), simplified]
    have "directory d' (view_public (cr_address creds)) = directory d (view_public (cr_address creds))"
    proof (rule ccontr)
      assume "directory d' (view_public (cr_address creds)) \<noteq> directory d (view_public (cr_address creds))"
      with eff have "directory d (view_public (cr_address creds)) = None" by blast
      then show False using assms(3) w by simp
    qed
    then show ?thesis using assms(3) w by simp
  qed
qed

lemma client_changes_keep:
  assumes "(client_change E creds)\<^sup>*\<^sup>* d d'" and "client_inv d" and "directory d w = Some (s, a)"
  shows "\<exists>a'. directory d' w = Some (s, a') \<and> acc_address a' = acc_address a"
  using assms
proof (induction rule: rtranclp_induct)
  case (step y z)
  then obtain a1 where a1: "directory y w = Some (s, a1)" "acc_address a1 = acc_address a" by blast
  have "client_inv y" using client_changes_ok [OF step.hyps(1) step.prems(1)] by (simp add: client_ok_def)
  from client_change_keeps [OF step.hyps(2) this a1(1)] a1(2) show ?case by auto
qed simp

lemma open_account_kept:
  assumes "(client_change E creds)\<^sup>*\<^sup>* d d'" and "client_inv d" and "open_account E creds d = Inr user"
  shows "\<exists>user'. open_account E creds d' = Inr user'"
proof -
  from open_account_directory [OF client_invD(2) [OF assms(2)] assms(3)] obtain s where
    s: "key_check E creds" "directory d (view_public (cr_address creds)) = Some (s, user)" "\<not> is_hidden s" "acc_address user = cr_address creds" by blast
  from client_changes_keep [OF assms(1,2) s(2)] obtain a' where a': "directory d' (view_public (cr_address creds)) = Some (s, a')"
    "acc_address a' = cr_address creds" using s(4) by auto
  have "index_inv d'" using client_changes_ok [OF assms(1,2)] by (auto simp: client_ok_def intro: client_invD)
  from open_accountI [OF this s(1) a'(1) s(3) a'(2)] show ?thesis by blast
qed

text \<open>A creation request that is accepted at once opens the account.\<close>

lemma created_opens:
  assumes "client_inv d" and "key_check E creds"
    and req: "creation_request E (cr_address creds) (cr_key creds) flags la d = Inr (d1, hooks)" and flags: "flags \<noteq> admin_account"
    and acc: "accept_requests E create [cr_address creds] mx d1 = Inr (d', u)" and adm: "flags AND admin_account = 0"
  shows "\<exists>user. open_account E creds d' = Inr user"
proof -
  let ?w = "view_public (cr_address creds)"
  have c1: "client_inv d1" using client_change_ok [OF cc_create [OF req adm] assms(1)] by (simp add: client_ok_def)
  obtain t and b :: block_info where no: "lookup_address E d (cr_address creds) = None"
    and fresh: "t_get request_sort (db_requests d) create (spend_public (cr_address creds)) = None"
    and d1: "d1 = d\<lparr>db_requests := t_put request_sort (db_requests d) create
       \<lparr>ri_address = cr_address creds, ri_key = cr_key creds, ri_start_height = bi_id b, ri_creation = t, ri_creation_flags = flags, ri_lookahead = la\<rparr>\<rparr>"
    by (rule creation_requestD [OF req])
  have wf: "table_wf request_sort (db_requests d)" using client_invD(1) [OF assms(1)] by (simp add: storage_inv_def db_wf_def)
  define info where "info = \<lparr>ri_address = cr_address creds, ri_key = cr_key creds, ri_start_height = bi_id b, ri_creation = t, ri_creation_flags = flags, ri_lookahead = la\<rparr>"
  have get: "t_get request_sort (db_requests d1) create (spend_public (cr_address creds)) = Some info"
    unfolding d1 info_def using wf by (simp add: t_get_Some_iff table_wf_put set_t_put request_sort_def)
  have dir: "directory d1 = directory d" unfolding d1 by (rule directory_cong) simp
  have none: "directory d1 ?w = None" using no by (simp add: lookup_directory [OF client_invD(2) [OF assms(1)]] dir)
  from accept_create_one [OF acc] obtain t1 s' where
    s': "create_account E t1 mx (cr_address creds) (d1, find_last_id E d1, []) = Inr s'" "d' = fst s'" by blast
  note eff = create_account_effect [OF client_create_inv [OF c1] s'(1), folded s'(2), simplified]
  have key: "key_matches (env_crypto E) (cr_address creds) (ri_key info)"
    using assms(2) by (auto simp: key_check_def key_matches_def info_def Let_def prod_eq_iff split: if_splits)
  then have "directory d' ?w \<noteq> None" using eff get by blast
  with eff none get obtain user where user: "directory d' ?w = Some (initial_status (acc_flags user), user)"
    "acc_flags user = flags" "acc_address user = cr_address creds" by (auto simp: info_def)
  have "index_inv d'" using eff s'(2) by (simp add: create_inv_def)
  from open_accountI [OF this assms(2) user(1) _ user(3)] flags user(2) show ?thesis by (simp add: initial_status_def)
qed

end

text \<open>Every other request opens the account before it marks the connection.\<close>

lemma passed_login_opened:
  assumes "rest_handle R req (c, d) = (c', d')" and "passed_login c'" and "\<not> passed_login c" and "\<And>creds la cr g. req \<noteq> Login creds la cr g"
  shows "\<exists>creds user. request_creds req = Some creds \<and> open_account (re_storage R) creds d = Inr user"
proof (cases req)
  case (Import_wallet_request creds h la)
  then show ?thesis using assms by (cases "open_account (re_storage R) creds d") (simp_all add: handle_import_request_def)
next
  case (Provision_subaddrs r)
  then show ?thesis using assms
    by (cases "open_account (re_storage R) (pr_creds r) d") (simp_all add: handle_provision_subaddrs_def Let_def split: if_splits)
next
  case (Upsert_subaddrs creds subs g)
  then show ?thesis using assms
    by (cases "open_account (re_storage R) creds d") (simp_all add: handle_upsert_subaddrs_def Let_def split: if_splits)
next
  case (Get_address_info creds)
  then show ?thesis using assms by (cases "open_account (re_storage R) creds d") (simp_all add: handle_get_address_info_def)
next
  case (Get_address_txs creds g)
  then show ?thesis using assms by (cases "open_account (re_storage R) creds d") (simp_all add: handle_get_address_txs_def)
next
  case (Get_subaddrs creds)
  then show ?thesis using assms by (cases "open_account (re_storage R) creds d") (simp_all add: handle_get_subaddrs_def)
qed (use assms in \<open>auto simp: handle_get_version_def\<close>)

lemma login_opened:
  assumes "storage_env (re_storage R)" and "client_inv d"
    and run: "handle_login R creds la cr g (c, d) = ((c', d'), r)" and "passed_login c'" and "\<not> passed_login c"
  shows "\<exists>user. open_account (re_storage R) creds d' = Inr user"
  using run
proof (cases rule: handle_login_cases)
  case kept
  then show ?thesis using run assms(4,5) by (auto simp: handle_login_def Let_def split: if_splits)
next
  case (old status user)
  then show ?thesis by (simp add: open_account_def)
next
  case (requested hooks)
  then show ?thesis using assms(4,5) by simp
next
  case (accepted d1 hooks u)
  show ?thesis
    by (rule storage_env.created_opens [OF assms(1,2) accepted(1,2) _ accepted(3)])
      (simp_all add: account_generated_locally_def admin_account_def)
qed

section \<open>Properties\<close>

text \<open>
  C31: isolation of accounts. Whatever requests arrive, over whatever connections and in whatever
  order, an account whose secret view key is in none of them is left alone: its entry and status
  in the directory of accounts, its outputs, spends, subaddress ranges and subaddress indexes
  are what they were, and no account with that view key appears.
\<close>

theorem rest_isolation:
  assumes "storage_env (re_storage R)" and "client_inv d"
    and "list_all (\<lambda>r. \<not> carries_key (re_storage R) v (snd r)) reqs"
  shows "directory (rest_trace R reqs d) v = directory d v
    \<and> (\<forall>s a. directory d v = Some (s, a) \<longrightarrow> account_data (rest_trace R reqs d) (acc_id a) = account_data d (acc_id a))"
  using rest_trace_untouched [OF assms] by (simp add: untouched_def)

text \<open>
  No request makes an administrator. When no queued creation request asks for the flag of an
  administrator, then after any sequence of requests every account with that flag had it before, although
  \<^verbatim>\<open>login\<close> creates accounts and may be set to accept them at once.
\<close>

theorem rest_makes_no_admin:
  assumes "storage_env (re_storage R)" and "client_inv d" and "no_admin_requests d"
  shows "no_admin_requests (rest_trace R reqs d) \<and> admins (rest_trace R reqs d) \<subseteq> admins d"
  using rest_trace_admins [OF assms] by blast

text \<open>
  C33: a connection is marked as logged in (and given the long timeout) only by a request whose view key
  matches its address, and then the account exists, is not hidden and can be opened with these
  credentials, also when the account was created by the very request.
\<close>

theorem passed_login_sound:
  assumes "storage_env (re_storage R)" and "client_inv d"
    and "rest_run R req (c, d) = (c', d')" and "passed_login c'" and "\<not> passed_login c"
  shows "\<exists>creds user. request_creds req = Some creds \<and> open_account (re_storage R) creds d' = Inr user"
proof (cases "\<exists>creds la cr g. req = Login creds la cr g")
  have run: "rest_handle R req (c, d) = (c', d')" using assms(3-5) by (auto simp: rest_run_def split: if_splits)
  case True
  then obtain creds la cr g where req: "req = Login creds la cr g" by blast
  obtain r where "handle_login R creds la cr g (c, d) = ((c', d'), r)" using run req by (metis prod.collapse rest_handle.simps(6))
  from login_opened [OF assms(1,2) this assms(4,5)] req show ?thesis by auto
next
  have run: "rest_handle R req (c, d) = (c', d')" using assms(3-5) by (auto simp: rest_run_def split: if_splits)
  case False
  from passed_login_opened [OF run assms(4,5)] False obtain creds user where
    o: "request_creds req = Some creds" "open_account (re_storage R) creds d = Inr user" by blast
  have "d' = d \<or> (client_change (re_storage R) creds)\<^sup>*\<^sup>* d d'" using rest_run_changes [OF assms(3)] o(1) by auto
  then have "(client_change (re_storage R) creds)\<^sup>*\<^sup>* d d'" by auto
  from storage_env.open_account_kept [OF assms(1) this assms(2) o(2)] o(1) show ?thesis by blast
qed

definition sample_requests :: "(connection_data \<times> rest_request) list" where
  "sample_requests = [(posting, Login \<lparr>cr_address = Account_address 1005 9, cr_key = 5\<rparr> (Address_index 0 0) True True),
     (posting, Import_wallet_request \<lparr>cr_address = Account_address 1005 9, cr_key = 5\<rparr> 0 (Address_index 0 0)),
     (posting, Upsert_subaddrs \<lparr>cr_address = Account_address 1005 9, cr_key = 5\<rparr> [(0, [(1, 3)])] None)]"

lemma sample_client: "storage_env (re_storage sample_rest)" "client_inv sample_db" "no_admin_requests sample_db"
proof -
  show "storage_env (re_storage sample_rest)" by (simp add: sample_rest_def sample_env_ok)
  have "list_all (\<lambda>r. acc_id (snd r) \<noteq> max_u32) (db_accounts sample_db)" by code_simp
  then show "client_inv sample_db" using sample_db_inv by (simp add: client_inv_def list_all_iff)
  show "no_admin_requests sample_db" by code_simp
qed

theorem rest_isolation_witness:
  "directory (rest_trace sample_rest sample_requests sample_db) 1001 = Some (active, sample_account 1 2)
    \<and> account_data (rest_trace sample_rest sample_requests sample_db) 1 = account_data sample_db 1
    \<and> directory (rest_trace sample_rest sample_requests sample_db) 1005 \<noteq> None"
proof -
  have none: "list_all (\<lambda>r. \<not> carries_key (re_storage sample_rest) 1001 (snd r)) sample_requests" by code_simp
  have dir: "directory sample_db 1001 = Some (active, sample_account 1 2)" by code_simp
  have "acc_id (sample_account 1 2) = 1" by code_simp
  moreover have "directory (rest_trace sample_rest sample_requests sample_db) 1005 \<noteq> None" by code_simp
  ultimately show ?thesis using rest_isolation [OF sample_client(1,2) none] dir by auto
qed

theorem rest_makes_no_admin_witness: "admins (rest_trace sample_rest sample_requests sample_db) \<subseteq> admins sample_db"
  using rest_makes_no_admin [OF sample_client] by blast

theorem passed_login_sound_witness:
  "\<exists>creds user. request_creds (snd (hd sample_requests)) = Some creds
    \<and> open_account sample_env creds (snd (rest_run sample_rest (snd (hd sample_requests)) (posting, sample_db))) = Inr user"
proof -
  let ?r = "rest_run sample_rest (snd (hd sample_requests)) (posting, sample_db)"
  have run: "?r = (fst ?r, snd ?r)" by simp
  have "passed_login (fst ?r)" "\<not> passed_login posting" by code_simp+
  from passed_login_sound [OF sample_client(1,2) run this] show ?thesis by (simp add: sample_rest_def)
qed

end
