(* ===== verification/Rest_Admin.thy ===== *)
theory Rest_Admin
  imports Rest_Safety "HOL-Library.List_Lexorder" "HOL-Library.Char_ord"
begin

text \<open>
  The administration requests (\<^verbatim>\<open>src/rpc/admin.cpp\<close>), their authentication (\<^verbatim>\<open>call_admin\<close> of
  \<^verbatim>\<open>src/rest_server.cpp\<close>), the tables of endpoints and how a request finds its handler, and the HTTP
  status an error becomes (with \<^verbatim>\<open>default_error_condition\<close> of \<^verbatim>\<open>src/error.cpp\<close>). The hex decoder, the check of a curve point and
  the generator of uuids are parameters.
\<close>

section \<open>Requests and responses\<close>

record webhook_add_req =
  wa_url :: string
  wa_token :: "string option"
  wa_address :: "account_address option"
  wa_payment_id :: "u64 option"
  wa_confirmations :: "u32 option"
  wa_type :: webhook_type

datatype admin_request =
    Accept_requests request "account_address list"
  | Add_account account_address view_key
  | List_accounts
  | List_requests
  | Modify_account account_status "account_address list"
  | Reject_requests request "account_address list"
  | Rescan block_id "account_address list"
  | Validate string string string
  | Webhook_add webhook_add_req
  | Webhook_delete "account_address list"
  | Webhook_delete_uuid "uuid list"
  | Webhook_list

record truncated_account =
  ta_address :: account_address
  ta_scan_height :: block_id
  ta_access_time :: account_time

record truncated_request =
  tr_address :: account_address
  tr_start_height :: block_id
  tr_lookahead :: address_index

datatype admin_response =
    Updated "account_address list"
  | Accounts "(account_status \<times> truncated_account list) list"
  | Requests "(request \<times> truncated_request list) list"
  | Validate_error string string \<comment> \<open>field, details\<close>
  | Validated account_address
  | Webhook webhook_value
  | Empty_object
  | Webhooks "(webhook_key \<times> webhook_value list) list"

record admin_env =
  ae_from_hex :: "string \<Rightarrow> key256 option" \<comment> \<open>\<^verbatim>\<open>epee::from_hex::to_buffer\<close> for 32 bytes\<close>
  ae_check_key :: "public_key \<Rightarrow> bool" \<comment> \<open>\<^verbatim>\<open>crypto::check_key\<close>\<close>
  ae_uuid :: uuid \<comment> \<open>the next of \<^verbatim>\<open>boost::uuids::random_generator\<close>\<close>

definition truncate_account :: "account \<Rightarrow> truncated_account" where
  "truncate_account a = \<lparr>ta_address = acc_address a, ta_scan_height = acc_scan_height a, ta_access_time = acc_access a\<rparr>"

definition truncate_request :: "request_info \<Rightarrow> truncated_request" where
  "truncate_request r = \<lparr>tr_address = ri_address r, tr_start_height = ri_start_height r, tr_lookahead = ri_lookahead r\<rparr>"

section \<open>Handlers\<close>

text \<open>\<open>convert_key\<close> writes the response that names what is wrong (\<open>Inl\<close>), or gives the key.\<close>

definition convert_key :: "admin_env \<Rightarrow> string \<Rightarrow> string \<Rightarrow> admin_response + key256" where
  "convert_key A hex field =
     (if length hex \<noteq> 64 then Inl (Validate_error field ''Expected 64 characters'')
      else case ae_from_hex A hex of
        None \<Rightarrow> Inl (Validate_error field ''Invalid hex'')
      | Some key \<Rightarrow> Inr key)"

definition validate :: "env \<Rightarrow> admin_env \<Rightarrow> string \<Rightarrow> string \<Rightarrow> string \<Rightarrow> admin_response" where
  "validate E A spend_public_hex view_public_hex view_key_hex =
     (if spend_public_hex = view_public_hex
      then Validate_error ''spend_public_hex'' ''spend_public_hex and view_public_hex should not be equal''
      else case convert_key A spend_public_hex ''spend_public_hex'' of Inl r \<Rightarrow> r | Inr spend_pub \<Rightarrow>
      (case convert_key A view_public_hex ''view_public_hex'' of Inl r \<Rightarrow> r | Inr view_pub \<Rightarrow>
      (case convert_key A view_key_hex ''view_key_hex'' of Inl r \<Rightarrow> r | Inr view_sec \<Rightarrow>
        if \<not> ae_check_key A spend_pub then Validate_error ''spend_public_hex'' ''Invalid public key format''
        else if \<not> ae_check_key A view_pub then Validate_error ''view_public_hex'' ''Invalid public key format''
        else
          let test = secret_key_to_public_key (env_crypto E) view_sec in
          if \<not> fst test \<or> snd test \<noteq> view_pub
          then Validate_error ''view_key_hex'' ''view_key and view_public do not match''
          else Validated (Account_address view_pub spend_pub))))"

definition webhook_allowed :: "webhook_add_req \<Rightarrow> bool" where
  "webhook_allowed req =
     (case wa_type req of
        tx_confirmation \<Rightarrow> wa_address req \<noteq> None
      | new_account \<Rightarrow> wa_address req = None
      | tx_spend \<Rightarrow> wa_address req \<noteq> None)"

definition webhook_of :: "admin_env \<Rightarrow> webhook_add_req \<Rightarrow> webhook_value" where
  "webhook_of A req =
     (Webhook_dupsort (value_or (wa_payment_id req) 0) (ae_uuid A),
      \<lparr>wh_url = wa_url req, wh_token = value_or (wa_token req) '''', wh_confirmations = value_or (wa_confirmations req) 1\<rparr>)"

text \<open>One request, by the \<^verbatim>\<open>operator()\<close> of its handler: the database and the response.\<close>

fun admin_run :: "env \<Rightarrow> admin_env \<Rightarrow> u32 \<Rightarrow> admin_request \<Rightarrow> db \<Rightarrow> (db \<times> admin_response) expect" where
  "admin_run E A max_sub (Accept_requests req addresses) d =
     ebind (accept_requests E req addresses max_sub d) (\<lambda>(d, us). Inr (d, Updated us))"
| "admin_run E A max_sub (Add_account address key) d =
     ebind (add_account E address key 0 d) (\<lambda>d. Inr (d, Updated [address]))"
| "admin_run E A max_sub List_accounts d =
     Inr (d, Accounts (map (\<lambda>(k, vs). (k, map truncate_account vs)) (group_rows (all_rows (tb_accounts E) (db_accounts d)))))"
| "admin_run E A max_sub List_requests d =
     Inr (d, Requests (map (\<lambda>(k, vs). (k, map truncate_request vs)) (group_rows (all_rows (tb_requests E) (db_requests d)))))"
| "admin_run E A max_sub (Modify_account status addresses) d =
     ebind (change_status E status addresses d) (\<lambda>(d, us). Inr (d, Updated us))"
| "admin_run E A max_sub (Reject_requests req addresses) d =
     (case reject_requests E req addresses d of (d, us) \<Rightarrow> Inr (d, Updated us))"
| "admin_run E A max_sub (Rescan height addresses) d =
     ebind (rescan E height addresses d) (\<lambda>(d, us). Inr (d, Updated us))"
| "admin_run E A max_sub (Validate spend_hex view_hex key_hex) d =
     Inr (d, validate E A spend_hex view_hex key_hex)"
| "admin_run E A max_sub (Webhook_add req) d =
     (if \<not> webhook_allowed req then Inl bad_webhook
      else ebind (add_webhook E (wa_type req) (wa_address req) (webhook_of A req) d) (\<lambda>d. Inr (d, Webhook (webhook_of A req))))"
| "admin_run E A max_sub (Webhook_delete addresses) d =
     ebind (clear_webhooks E addresses d) (\<lambda>d. Inr (d, Empty_object))"
| "admin_run E A max_sub (Webhook_delete_uuid ids) d = Inr (clear_webhook_ids E ids d, Empty_object)"
| "admin_run E A max_sub Webhook_list d = Inr (d, Webhooks (get_webhooks E d))"

section \<open>Authentication\<close>

text \<open>The account of an administrator has an address whose public spend key is zero.\<close>

definition admin_auth :: "env \<Rightarrow> runtime_options \<Rightarrow> key256 option \<Rightarrow> db \<Rightarrow> unit expect" where
  "admin_auth E opts auth d =
     (if disable_admin_auth opts then Inr ()
      else case auth of
        None \<Rightarrow> Inl account_not_found
      | Some key \<Rightarrow>
          let pub = secret_key_to_public_key (env_crypto E) key in
          if \<not> fst pub then Inl crypto_failure
          else ebind (get_account_by_address E d (Account_address (snd pub) 0)) (\<lambda>(status, user).
            if status = inactive then Inl account_not_found
            else if acc_flags user AND admin_account = 0 then Inl account_not_found
            else Inr ()))"

definition call_admin :: "rest_env \<Rightarrow> admin_env \<Rightarrow> admin_request \<Rightarrow> key256 option \<Rightarrow> connection_data \<Rightarrow> db \<Rightarrow> (db \<times> admin_response) expect" where
  "call_admin R A req auth c d =
     (if last_verb c \<noteq> verb_post then Inl bad_verb
      else ebind (admin_auth (re_storage R) (re_options R) auth d) (\<lambda>_.
        admin_run (re_storage R) A (opt_max_subaddresses (re_options R)) req d))"

section \<open>Endpoints\<close>

record endpoint =
  ep_name :: string
  ep_run :: bool \<comment> \<open>there is a handler\<close>
  ep_max_size :: u32
  ep_is_async :: bool

definition make_endpoint :: "string \<Rightarrow> bool \<Rightarrow> u32 \<Rightarrow> bool \<Rightarrow> endpoint" where
  "make_endpoint name run max_size is_async = \<lparr>ep_name = name, ep_run = run, ep_max_size = max_size, ep_is_async = is_async\<rparr>"

definition endpoints :: "endpoint list" where
  "endpoints =
     [make_endpoint ''/daemon_status'' True 1024 True,
      make_endpoint ''/feed'' False 0 False,
      make_endpoint ''/get_address_info'' True 2048 False,
      make_endpoint ''/get_address_txs'' True 2048 False,
      make_endpoint ''/get_random_outs'' True 2048 True,
      make_endpoint ''/get_subaddrs'' True 2048 False,
      make_endpoint ''/get_txt_records'' False 0 False,
      make_endpoint ''/get_unspent_outs'' True 2048 True,
      make_endpoint ''/get_version'' True 1024 False,
      make_endpoint ''/import_wallet_request'' True 2048 False,
      make_endpoint ''/login'' True 2048 False,
      make_endpoint ''/provision_subaddrs'' True 2048 False,
      make_endpoint ''/submit_raw_tx'' True (512 * 1024) True,
      make_endpoint ''/upsert_subaddrs'' True (10 * 1024) False]"

definition admin_endpoints :: "endpoint list" where
  "admin_endpoints =
     [make_endpoint ''/accept_requests'' True (50 * 1024) False,
      make_endpoint ''/add_account'' True (50 * 1024) False,
      make_endpoint ''/list_accounts'' True 100 False,
      make_endpoint ''/list_requests'' True 100 False,
      make_endpoint ''/modify_account_status'' True (50 * 1024) False,
      make_endpoint ''/reject_requests'' True (50 * 1024) False,
      make_endpoint ''/rescan'' True (50 * 1024) False,
      make_endpoint ''/validate'' True (50 * 1024) False,
      make_endpoint ''/webhook_add'' True (50 * 1024) False,
      make_endpoint ''/webhook_delete'' True (50 * 1024) False,
      make_endpoint ''/webhook_delete_uuid'' True (50 * 1024) False,
      make_endpoint ''/webhook_list'' True 100 False]"

definition get_max :: "endpoint list \<Rightarrow> u32" where
  "get_max eps = fold (\<lambda>ep m. max m (ep_max_size ep)) eps 0"

definition max_endpoint_size :: u32 where
  "max_endpoint_size = max (get_max endpoints) (get_max admin_endpoints)"

text \<open>The search of \<^verbatim>\<open>std::lower_bound\<close>: the interval \<open>[first, first + n)\<close> is halved until it is empty.\<close>

function partition_search :: "('a \<Rightarrow> bool) \<Rightarrow> 'a list \<Rightarrow> nat \<Rightarrow> nat \<Rightarrow> nat" where
  "partition_search P xs first n =
     (if n = 0 then first
      else
        let half = n div 2; mid = first + half in
        if P (xs ! mid) then partition_search P xs (Suc mid) (n - half - 1) else partition_search P xs first half)"
  by auto
termination by (relation "measure (\<lambda>(P, xs, first, n). n)") auto

declare partition_search.simps [simp del]

definition find_handler :: "endpoint list \<Rightarrow> string \<Rightarrow> endpoint option" where
  "find_handler handlers uri =
     (let i = partition_search (\<lambda>ep. ep_name ep < uri) handlers 0 (length handlers) in
      if i = length handlers \<or> ep_name (handlers ! i) \<noteq> uri then None else Some (handlers ! i))"

definition starts_with :: "string \<Rightarrow> string \<Rightarrow> bool" where
  "starts_with uri prefix \<longleftrightarrow> take (length prefix) uri = prefix"

definition get_endpoint :: "string option \<Rightarrow> string option \<Rightarrow> string \<Rightarrow> endpoint option" where
  "get_endpoint admin_prefix prefix uri =
     (if admin_prefix \<noteq> None \<and> starts_with uri (the admin_prefix)
      then find_handler admin_endpoints (drop (length (the admin_prefix)) uri)
      else if prefix \<noteq> None \<and> starts_with uri (the prefix)
      then find_handler endpoints (drop (length (the prefix)) uri)
      else None)"

section \<open>The status of a response\<close>

datatype error_condition =
    errc_bad_address | errc_timed_out | errc_no_buffer_space | errc_interrupted | errc_result_out_of_range
  | errc_no_lock_available | errc_other error

fun default_error_condition :: "error \<Rightarrow> error_condition" where
  "default_error_condition bad_address = errc_bad_address"
| "default_error_condition bad_view_key = errc_bad_address"
| "default_error_condition daemon_timeout = errc_timed_out"
| "default_error_condition load = errc_timed_out"
| "default_error_condition exceeded_blockchain_buffer = errc_no_buffer_space"
| "default_error_condition signal_abort_process = errc_interrupted"
| "default_error_condition signal_abort_scan = errc_interrupted"
| "default_error_condition signal_unknown = errc_interrupted"
| "default_error_condition system_clock_invalid_range = errc_result_out_of_range"
| "default_error_condition e = errc_other e"

datatype http_status =
    http_ok | http_bad_request | http_forbidden | http_not_found | http_method_not_allowed | http_conflict
  | http_internal_server_error | http_not_implemented | http_service_unavailable

definition error_status :: "error \<Rightarrow> http_status" where
  "error_status e =
     (if e = invalid_range \<or> e = not_enough_amount \<or> e = bad_client_tx then http_bad_request
      else if e = bad_verb then http_method_not_allowed
      else if e = account_not_found \<or> e = duplicate_request then http_forbidden
      else if e = max_subaddresses then http_conflict
      else if default_error_condition e = errc_timed_out \<or> default_error_condition e = errc_no_lock_available
      then http_service_unavailable
      else http_internal_server_error)"

text \<open>
  \<^verbatim>\<open>async_response\<close> up to the call of the handler: \<open>Inl\<close> is a status that is sent at once, \<open>Inr\<close> the endpoint
  that is run. An upgrade of \<^verbatim>\<open>/feed\<close> to a websocket leaves the HTTP server and is the result \<open>None\<close>.
\<close>

definition dispatch :: "runtime_options \<Rightarrow> string option \<Rightarrow> string option \<Rightarrow> string \<Rightarrow> bool \<Rightarrow> u64 option \<Rightarrow> verb \<Rightarrow> (http_status + endpoint) option" where
  "dispatch opts admin_prefix prefix target is_upgrade payload_size verb =
     (case get_endpoint admin_prefix prefix target of
        None \<Rightarrow> Some (Inl http_not_found)
      | Some handler \<Rightarrow>
          if handler = make_endpoint ''/feed'' False 0 False \<and> 0 < feed_timeout opts \<and> is_upgrade then None
          else if handler = make_endpoint ''/feed'' False 0 False \<and> feed_timeout opts \<le> 0 then Some (Inl http_not_found)
          else if \<not> ep_run handler then Some (Inl http_not_implemented)
          else if ucast (ep_max_size handler) < value_or payload_size max_u64 then Some (Inl http_bad_request)
          else if verb = verb_options \<and> access_controls opts \<noteq> [] then Some (Inl http_ok)
          else if verb \<noteq> verb_post \<and> verb \<noteq> verb_get then Some (Inl http_method_not_allowed)
          else Some (Inr handler))"

text \<open>\<^verbatim>\<open>set_cors\<close>: the origin that is echoed.\<close>

definition set_cors :: "string list \<Rightarrow> string \<Rightarrow> string option" where
  "set_cors origins origin =
     (if origins = [] then None
      else if origin = '''' then None
      else if ''*'' \<notin> set origins \<and> origin \<notin> set origins then None
      else Some origin)"

section \<open>The search finds the endpoint of the name\<close>

text \<open>The part of the list outside the interval is settled already.\<close>

lemma partition_search_inv:
  assumes "\<forall>j < length xs. \<forall>i \<le> j. P (xs ! j) \<longrightarrow> P (xs ! i)"
    and "first + n \<le> length xs" and "\<forall>i < first. P (xs ! i)"
    and "\<forall>i < length xs. first + n \<le> i \<longrightarrow> \<not> P (xs ! i)"
  shows "partition_search P xs first n \<le> length xs
    \<and> (\<forall>i < length xs. P (xs ! i) \<longleftrightarrow> i < partition_search P xs first n)"
  using assms
proof (induction P xs first n rule: partition_search.induct)
  case (1 P xs first n)
  show ?case
  proof (cases "n = 0")
    case True
    have "P (xs ! i) \<longleftrightarrow> i < first" if "i < length xs" for i
      using "1.prems"(3,4) that True by (cases "i < first") auto
    then show ?thesis using True "1.prems"(2) by (simp add: partition_search.simps)
  next
    case False
    define mid where "mid = first + n div 2"
    have mid: "mid < length xs" "mid < first + n" using False "1.prems"(2) by (auto simp: mid_def)
    show ?thesis
    proof (cases "P (xs ! mid)")
      case True
      have eq: "partition_search P xs first n = partition_search P xs (Suc mid) (n - n div 2 - 1)"
        using False True by (simp add: partition_search.simps [of P xs first n] mid_def Let_def)
      have sum: "Suc mid + (n - n div 2 - 1) = first + n" using False by (auto simp: mid_def)
      have "\<forall>i < Suc mid. P (xs ! i)" using "1.prems"(1) mid(1) True by (simp add: less_Suc_eq_le)
      from "1.IH"(1) [OF False refl mid_def True "1.prems"(1) _ this] show ?thesis
        unfolding eq sum using "1.prems"(2,4) by simp
    next
      case no: False
      have eq: "partition_search P xs first n = partition_search P xs first (n div 2)"
        using False no by (simp add: partition_search.simps [of P xs first n] mid_def Let_def)
      have "\<forall>i < length xs. first + n div 2 \<le> i \<longrightarrow> \<not> P (xs ! i)" using "1.prems"(1) no by (auto simp: mid_def)
      from "1.IH"(2) [OF False refl mid_def no "1.prems"(1) _ "1.prems"(3) this] show ?thesis
        unfolding eq using mid(1) by (simp add: mid_def)
    qed
  qed
qed

lemma partition_search_lower_bound:
  assumes "sorted (map f xs)"
  shows "partition_search (\<lambda>x. f x < k) xs 0 (length xs) = lower_bound (map f xs) k"
proof -
  let ?i = "partition_search (\<lambda>x. f x < k) xs 0 (length xs)"
  have mono: "\<forall>j < length xs. \<forall>i \<le> j. f (xs ! j) < k \<longrightarrow> f (xs ! i) < k"
    using sorted_nth_mono [OF assms] by fastforce
  have ok: "?i \<le> length xs" "\<forall>i < length xs. f (xs ! i) < k \<longleftrightarrow> i < ?i"
    using partition_search_inv [OF mono, of 0 "length xs"] by simp_all
  have "takeWhile (\<lambda>y. y < k) (map f xs) = take ?i (map f xs)"
    by (rule takeWhile_eq_take_P_nth) (use ok in auto)
  then show ?thesis using ok(1) by (simp add: lower_bound_def)
qed

lemma find_handler_find:
  assumes "sorted (map ep_name eps)"
  shows "find_handler eps uri = find (\<lambda>ep. ep_name ep = uri) eps"
  using assms unfolding find_handler_def partition_search_lower_bound [OF assms] Let_def
proof (induction eps)
  case (Cons e es)
  have "ep_name e < uri \<Longrightarrow> ep_name e \<noteq> uri" by simp
  moreover have "find (\<lambda>ep. ep_name ep = uri) es = None" if "uri < ep_name e"
    using Cons.prems that by (auto simp: find_None_iff)
  ultimately show ?case using Cons by (auto simp: lower_bound_Cons not_less)
qed (simp add: lower_bound_def)

lemma endpoints_sorted: "sorted (map ep_name endpoints)" "sorted (map ep_name admin_endpoints)"
  by code_simp+

definition find_endpoint :: "endpoint list \<Rightarrow> string \<Rightarrow> endpoint option" where
  "find_endpoint eps name = find (\<lambda>ep. ep_name ep = name) eps"

text \<open>
  The binary search finds exactly the endpoints of the two tables. A target is routed to the endpoint whose
  name is what follows the prefix, and the prefix of the administration is tried first; a target of neither
  prefix, or with a name of no endpoint, has no handler. No hypothesis is needed: both tables are sorted by name.
\<close>

theorem get_endpoint_linear:
  "get_endpoint admin_prefix prefix uri =
    (case admin_prefix of
       Some p \<Rightarrow> if take (length p) uri = p then find_endpoint admin_endpoints (drop (length p) uri)
                 else (case prefix of
                         Some q \<Rightarrow> if take (length q) uri = q then find_endpoint endpoints (drop (length q) uri) else None
                       | None \<Rightarrow> None)
     | None \<Rightarrow> (case prefix of
                 Some q \<Rightarrow> if take (length q) uri = q then find_endpoint endpoints (drop (length q) uri) else None
               | None \<Rightarrow> None))"
  unfolding get_endpoint_def find_endpoint_def starts_with_def find_handler_find [OF endpoints_sorted(1)]
    find_handler_find [OF endpoints_sorted(2)]
  by (simp split: option.split)

lemma ep_max_size_bound: "ep \<in> set eps \<Longrightarrow> ep_max_size ep \<le> get_max eps"
proof -
  have "m \<le> fold (\<lambda>ep m. max m (ep_max_size ep)) eps m \<and> (\<forall>ep \<in> set eps. ep_max_size ep \<le> fold (\<lambda>ep m. max m (ep_max_size ep)) eps m)" for m
    by (induction eps arbitrary: m) (auto intro: order_trans [OF max.cobounded1] order_trans [OF max.cobounded2])
  then show "ep \<in> set eps \<Longrightarrow> ep_max_size ep \<le> get_max eps" unfolding get_max_def by blast
qed

lemma get_endpoint_member: "get_endpoint ap p uri = Some ep \<Longrightarrow> ep \<in> set endpoints \<union> set admin_endpoints"
  unfolding get_endpoint_def find_handler_find [OF endpoints_sorted(1)] find_handler_find [OF endpoints_sorted(2)]
  by (auto simp: find_Some_iff split: if_splits)

text \<open>
  A handler is run only for a body whose size is announced and not over the limit of its endpoint, hence
  not over the limit of 512 KiB the parser is given, only with the verbs POST and GET, and never for
  \<^verbatim>\<open>/feed\<close> and \<^verbatim>\<open>/get_txt_records\<close>, which have none.
\<close>

theorem dispatch_bounded:
  assumes "dispatch opts admin_prefix prefix target is_upgrade payload_size v = Some (Inr ep)"
  shows "(\<exists>n. payload_size = Some n \<and> unat n \<le> unat (ep_max_size ep)) \<and> ep_max_size ep \<le> max_endpoint_size
    \<and> max_endpoint_size = 512 * 1024 \<and> v \<in> {verb_post, verb_get}
    \<and> ep_name ep \<notin> {''/feed'', ''/get_txt_records''}"
proof -
  from assms have get: "get_endpoint admin_prefix prefix target = Some ep" and run: "ep_run ep"
    and le: "\<not> ucast (ep_max_size ep) < value_or payload_size max_u64" and v: "v \<in> {verb_post, verb_get}"
    by (auto simp: dispatch_def split: option.splits if_splits)
  note mem = get_endpoint_member [OF get]
  have top: "max_endpoint_size = 512 * 1024" by code_simp
  have bound: "ep_max_size ep \<le> max_endpoint_size"
    using mem ep_max_size_bound [of ep endpoints] ep_max_size_bound [of ep admin_endpoints]
    by (auto simp: max_endpoint_size_def le_max_iff_disj)
  have unat: "unat (ucast (ep_max_size ep) :: u64) = unat (ep_max_size ep)" 
    using unsigned_less [of "ep_max_size ep", where ?'a = nat] by (simp add: unsigned_ucast_eq take_bit_nat_eq_self)
  have "payload_size \<noteq> None"
  proof
    assume "payload_size = None"
    with le have "unat max_u64 \<le> unat (ep_max_size ep)"
      using unat by (simp add: value_or_def not_less word_le_nat_alt)
    also have "\<dots> < unat max_u64"
      using unsigned_less [of "ep_max_size ep", where ?'a = nat] by (simp add: max_u64_def unsigned_minus_1_eq_mask mask_eq_exp_minus_1)
    finally show False by simp
  qed
  then obtain n where n: "payload_size = Some n" by blast
  with le unat have "unat n \<le> unat (ep_max_size ep)" by (simp add: value_or_def not_less word_le_nat_alt)
  moreover have "list_all (\<lambda>ep. ep_run ep \<longrightarrow> ep_name ep \<notin> {''/feed'', ''/get_txt_records''}) (endpoints @ admin_endpoints)"
    by code_simp
  then have "ep_name ep \<notin> {''/feed'', ''/get_txt_records''}" using mem run by (auto simp: list_all_iff)
  ultimately show ?thesis using n bound top v by simp
qed

section \<open>Only administrators administrate\<close>

text \<open>The requests of both kinds, in the order in which they are handled.\<close>

datatype server_request =
    Client connection_data rest_request
  | Administration connection_data admin_env "key256 option" admin_request

fun server_run :: "rest_env \<Rightarrow> server_request \<Rightarrow> db \<Rightarrow> db" where
  "server_run R (Client c req) d = snd (rest_run R req (c, d))"
| "server_run R (Administration c A auth req) d =
     (case call_admin R A req auth c d of Inl e \<Rightarrow> d | Inr r \<Rightarrow> fst r)"

definition server_trace :: "rest_env \<Rightarrow> server_request list \<Rightarrow> db \<Rightarrow> db" where
  "server_trace R reqs d = fold (server_run R) reqs d"

fun client_part :: "server_request list \<Rightarrow> (connection_data \<times> rest_request) list" where
  "client_part [] = []"
| "client_part (Client c req # reqs) = (c, req) # client_part reqs"
| "client_part (Administration c A auth req # reqs) = client_part reqs"

text \<open>The request is for the administration and carries the view key of an account of \<open>vs\<close>.\<close>

fun authorised_by :: "env \<Rightarrow> public_key set \<Rightarrow> server_request \<Rightarrow> bool" where
  "authorised_by E vs (Client c req) = False"
| "authorised_by E vs (Administration c A auth req) =
     (case auth of None \<Rightarrow> False | Some key \<Rightarrow> snd (secret_key_to_public_key (env_crypto E) key) \<in> vs)"

lemma authorised_by_mono: "vs \<subseteq> ws \<Longrightarrow> authorised_by E vs r \<Longrightarrow> authorised_by E ws r"
  by (cases r) (auto split: option.splits)

lemma admin_auth_authorised:
  assumes "storage_env E" and "index_inv d" and "\<not> disable_admin_auth opts" and "admin_auth E opts auth d = Inr ()"
  shows "authorised_by E (admins d) (Administration c A auth req)"
proof -
  from assms(3,4) obtain key s user where key: "auth = Some key"
    "get_account_by_address E d (Account_address (snd (secret_key_to_public_key (env_crypto E) key)) 0) = Inr (s, user)"
    "acc_flags user AND admin_account \<noteq> 0"
    by (auto simp: admin_auth_def ebind_eq_Inr Let_def split: option.splits if_splits prod.splits)
  from storage_env.get_account_directory [OF assms(1,2) key(2)] key(1,3) show ?thesis
    by (auto simp: admins_def is_admin_def)
qed

lemma server_run_unauthorised:
  assumes "storage_env (re_storage R)" and "client_inv d" and "\<not> disable_admin_auth (re_options R)"
    and "\<not> authorised_by (re_storage R) (admins d) (Administration c A auth req)"
  shows "\<exists>e. call_admin R A req auth c d = Inl e"
proof (cases "admin_auth (re_storage R) (re_options R) auth d")
  case (Inr u)
  then show ?thesis using admin_auth_authorised [OF assms(1) client_invD(2) [OF assms(2)] assms(3)] assms(4) by simp
qed (simp add: call_admin_def)

lemma server_trace_client_part:
  assumes "storage_env (re_storage R)" and "\<not> disable_admin_auth (re_options R)" and "client_inv d" and "no_admin_requests d"
    and "list_all (\<lambda>r. \<not> authorised_by (re_storage R) vs r) reqs" and "admins d \<subseteq> vs"
  shows "server_trace R reqs d = rest_trace R (client_part reqs) d"
  using assms(3-)
proof (induction reqs arbitrary: d rule: client_part.induct)
  case (2 c req reqs)
  note ok = rest_run_ok [OF assms(1) "2.prems"(1), where req = req and c = c]
  have "admins (snd (rest_run R req (c, d))) \<subseteq> vs" using ok(3) [OF "2.prems"(2)] "2.prems"(4) by blast
  with "2.IH" [OF ok(1)] ok(3) [OF "2.prems"(2)] "2.prems"(3) show ?case by (simp add: server_trace_def)
next
  case (3 c A auth req reqs)
  have "\<not> authorised_by (re_storage R) (admins d) (Administration c A auth req)"
    using "3.prems"(3,4) by (auto split: option.splits)
  from server_run_unauthorised [OF assms(1) "3.prems"(1) assms(2) this]
  have "server_run R (Administration c A auth req) d = d" by auto
  with 3 show ?case by (simp add: server_trace_def)
qed (simp add: server_trace_def)

text \<open>
  C32: an intruder cannot administrate. While authentication is not disabled and no queued creation asks for the
  flag, take any sequence of requests of clients and of administration requests with any keys but those of the
  accounts that have the flag at the start: the administration requests have no effect, the database ends as if
  only the requests of the clients had been sent. In particular a client cannot log in, have its account
  created, and then use it as an administrator.
\<close>

theorem admin_noninterference:
  assumes "storage_env (re_storage R)" and "\<not> disable_admin_auth (re_options R)" and "client_inv d" and "no_admin_requests d"
    and "list_all (\<lambda>r. \<not> authorised_by (re_storage R) (admins d) r) reqs"
  shows "server_trace R reqs d = rest_trace R (client_part reqs) d"
  by (rule server_trace_client_part [OF assms order_refl])

definition sample_admin_env :: admin_env where
  "sample_admin_env = \<lparr>ae_from_hex = (\<lambda>s. None), ae_check_key = (\<lambda>k. True), ae_uuid = 7\<rparr>"

definition sample_mixed :: "server_request list" where
  "sample_mixed = [Client posting (Login \<lparr>cr_address = Account_address 1005 0, cr_key = 5\<rparr> (Address_index 0 0) True True),
     Administration posting sample_admin_env (Some 5)
       (Modify_account inactive [Account_address 1005 0])]"

theorem admin_noninterference_witness:
  "server_trace sample_rest sample_mixed sample_db = rest_trace sample_rest (client_part sample_mixed) sample_db"
proof -
  have "\<not> disable_admin_auth (re_options sample_rest)" by code_simp
  moreover have "list_all (\<lambda>(s, a). \<not> is_admin a) (db_accounts sample_db)" by code_simp
  then have "admins sample_db = {}"
    by (auto simp: admins_def list_all_iff directory_Some_iff [OF client_invD(2) [OF sample_client(2)]])
  then have "list_all (\<lambda>r. \<not> authorised_by (re_storage sample_rest) (admins sample_db) r) sample_mixed"
    by (simp add: sample_mixed_def)
  ultimately show ?thesis by (rule admin_noninterference [OF sample_client(1) _ sample_client(2,3)])
qed

theorem dispatch_bounded_witness:
  "(\<exists>n. Some (100 :: u64) = Some n \<and> unat n \<le> unat (ep_max_size (make_endpoint ''/login'' True 2048 False)))
    \<and> verb_post \<in> {verb_post, verb_get}"
proof -
  have "dispatch (re_options sample_rest) (Some ''/admin'') (Some '''') ''/login'' False (Some 100) verb_post
      = Some (Inr (make_endpoint ''/login'' True 2048 False))" by code_simp
  from dispatch_bounded [OF this] show ?thesis by simp
qed

end
