(* ===== verification/Ownership.thy ===== *)
theory Ownership
  imports Storage_Update
begin

text \<open>
  The test of a transaction against the accounts (\<^verbatim>\<open>src/util/ownership_test.cpp\<close>): which ring members of its
  inputs are outputs of an account, and which of its outputs an account can spend, with the decoding of amounts and payment
  ids (\<^verbatim>\<open>src/util/transactions.cpp\<close>). The Monero libraries are parameters: the parsed form of
  \<^verbatim>\<open>tx.extra\<close>, hashes, key derivation, view tags and the operations on commitments.

  An operation returns the state (the database, which \<^verbatim>\<open>update_lookahead\<close> writes, and the state \<open>'s\<close> of the
  callbacks) also when it ends with an exception.
\<close>

unbundle bit_operations_syntax

section \<open>Transactions\<close>

text \<open>The fields the code reads of \<^verbatim>\<open>cryptonote::transaction\<close>; an output as \<^verbatim>\<open>get_output_public_key\<close> and \<^verbatim>\<open>get_output_view_tag\<close> read it.\<close>

datatype tx_input =
    Txin_gen
  | Txin_to_key (ti_amount: u64) (ti_key_offsets: "u64 list") (ti_k_image: key_image_value)
  | Txin_other

record tx_output =
  to_amount :: u64
  to_key :: "public_key option"
  to_view_tag :: "u8 option"

record ecdh_tuple =
  ecdh_mask :: key256
  ecdh_amount :: key256

record transaction =
  tx_version :: u64
  tx_unlock_time :: u64
  tx_extra :: "u8 list"
  tx_vin :: "tx_input list"
  tx_vout :: "tx_output list"
  tx_rct_type :: u8
  tx_out_pk :: "key256 list"
  tx_ecdh_info :: "ecdh_tuple list"

record tx_extra_fields =
  ex_pub_key :: "public_key option"
  ex_nonce :: "u8 list option"
  ex_additional :: "public_key list"

record tx_library =
  tl_parse_extra :: "u8 list \<Rightarrow> tx_extra_fields"
  tl_payment_id :: "u8 list \<Rightarrow> u8 list option" \<comment> \<open>32 bytes\<close>
  tl_encrypted_payment_id :: "u8 list \<Rightarrow> u8 list option" \<comment> \<open>8 bytes\<close>
  tl_tx_hash :: "transaction \<Rightarrow> hash"
  tl_prefix_hash :: "transaction \<Rightarrow> hash"
  tl_tx_fee :: "transaction \<Rightarrow> u64"
  tl_derivation :: "public_key \<Rightarrow> view_key \<Rightarrow> key256 option"
  tl_can_be_to_acc :: "u8 option \<Rightarrow> key256 \<Rightarrow> nat \<Rightarrow> bool"
  tl_subaddress_key :: "public_key \<Rightarrow> key256 \<Rightarrow> nat \<Rightarrow> public_key option"
  tl_to_scalar :: "key256 \<Rightarrow> nat \<Rightarrow> key256"
  tl_ecdh_decode :: "ecdh_tuple \<Rightarrow> key256 \<Rightarrow> bool \<Rightarrow> ecdh_tuple"
  tl_commit :: "key256 \<Rightarrow> key256 \<Rightarrow> key256" \<comment> \<open>\<^verbatim>\<open>rct::addKeys2\<close> with \<^verbatim>\<open>rct::H\<close>\<close>
  tl_h2d :: "key256 \<Rightarrow> u64 option"
  tl_fast_hash :: "u8 list \<Rightarrow> u8 list"
  tl_hash_key_payment_id :: u8
  tl_identity :: key256
  tl_bulletproof2 :: u8

section \<open>Amounts and payment ids\<close>

definition decode_amount :: "tx_library \<Rightarrow> key256 \<Rightarrow> ecdh_tuple \<Rightarrow> key256 \<Rightarrow> nat \<Rightarrow> bool \<Rightarrow> (u64 \<times> key256) option" where
  "decode_amount L commitment info sk index bulletproof2 =
     (let scalar = tl_to_scalar L sk index;
          copy = tl_ecdh_decode L info scalar bulletproof2;
          ctmp = tl_commit L (ecdh_mask copy) (ecdh_amount copy) in
      if commitment = ctmp
      then map_option (\<lambda>out. (out, ecdh_mask copy)) (tl_h2d L (ecdh_amount copy))
      else None)"

text \<open>A payment id is its length and the 32 bytes of the union; \<^verbatim>\<open>short_\<close> is the first eight.\<close>

type_synonym payment_id = "u8 \<times> u8 list"

definition no_payment_id :: payment_id where
  "no_payment_id = (0, replicate 32 0)"

definition decrypt_payment_id :: "tx_library \<Rightarrow> u8 list \<Rightarrow> key256 \<Rightarrow> u8 list" where
  "decrypt_payment_id L out key =
     (let h = tl_fast_hash L (bytes_be 32 key @ [tl_hash_key_payment_id L]) in
      map (\<lambda>b. out ! b XOR h ! b) [0..<8] @ drop 8 out)"

definition be_word :: "u8 list \<Rightarrow> key256" where
  "be_word bs = fold (\<lambda>b w. push_bit 8 w OR ucast b) bs 0"

section \<open>Subaddresses\<close>

text \<open>
  \<^verbatim>\<open>subaddress_reader\<close>: with the disk and a limit, or with a borrowed reader that looks up only. Opening a read
  transaction does not fail here.
\<close>

datatype subaddress_reader = Disk_reader u32 | Borrowed_reader

definition reader_update_lookahead :: "env \<Rightarrow> subaddress_reader \<Rightarrow> account_address \<Rightarrow> block_id \<Rightarrow> address_index \<Rightarrow> block_id \<Rightarrow> db \<Rightarrow> db \<times> unit expect" where
  "reader_update_lookahead E r address scan_height match height d =
     (if is_zero match then (d, Inr ())
      else case r of
        Borrowed_reader \<Rightarrow> (d, Inr ())
      | Disk_reader max_sub \<Rightarrow>
          let height = (if height = txpool_block then scan_height else height) in
          case update_lookahead E address height match max_sub d of
            Inl e \<Rightarrow> (d, Inl e)
          | Inr (d, upserted) \<Rightarrow> (d, if upserted < 0 then Inl max_subaddresses else Inr ()))"

section \<open>Callbacks and context\<close>

record 's ownership_test =
  on_spend :: "lws_account \<Rightarrow> spend \<Rightarrow> 's \<Rightarrow> lws_account \<times> 's"
  on_output :: "lws_account \<Rightarrow> db_output \<Rightarrow> db \<Rightarrow> 's \<Rightarrow> lws_account \<times> 's"
  ot_subaddress :: "subaddress_reader option"

text \<open>What is the same for every account: the arguments and what is read from \<^verbatim>\<open>tx.extra\<close>.\<close>

record tx_context =
  tc_height :: block_id
  tc_timestamp :: u64
  tc_link :: transaction_link
  tc_tx :: transaction
  tc_out_ids :: "u64 list"
  tc_pub_key :: public_key
  tc_nonce :: "u8 list option"
  tc_unencrypted_id :: payment_id
  tc_additional :: "public_key list"

definition make_context :: "tx_library \<Rightarrow> 's ownership_test \<Rightarrow> block_id \<Rightarrow> u64 \<Rightarrow> hash option \<Rightarrow> transaction \<Rightarrow> u64 list \<Rightarrow> tx_context option" where
  "make_context L T height timestamp given_hash tx out_ids =
     (let extra = tl_parse_extra L (tx_extra tx) in
      map_option (\<lambda>key.
        \<lparr>tc_height = height, tc_timestamp = timestamp,
         tc_link = Transaction_link height (case given_hash of None \<Rightarrow> tl_tx_hash L tx | Some h \<Rightarrow> h),
         tc_tx = tx, tc_out_ids = out_ids, tc_pub_key = key, tc_nonce = ex_nonce extra,
         tc_unencrypted_id = (case ex_nonce extra of None \<Rightarrow> no_payment_id
            | Some nonce \<Rightarrow> (case tl_payment_id L nonce of None \<Rightarrow> no_payment_id | Some i \<Rightarrow> (32, i))),
         tc_additional = (if ot_subaddress T = None then [] else ex_additional extra)\<rparr>)
        (ex_pub_key extra))"

section \<open>Inputs\<close>

definition make_spend :: "tx_context \<Rightarrow> key_image_value \<Rightarrow> u32 \<Rightarrow> output_id \<Rightarrow> address_index \<Rightarrow> spend" where
  "make_spend c k_image mixin source sender =
     \<lparr>sp_link = tc_link c, sp_image = k_image, sp_source = source, sp_timestamp = tc_timestamp c,
      sp_unlock_time = tx_unlock_time (tc_tx c), sp_mixin_count = mixin, sp_length = fst (tc_unencrypted_id c),
      sp_payment_id = be_word (snd (tc_unencrypted_id c)), sp_sender = sender\<rparr>"

fun scan_ring :: "'s ownership_test \<Rightarrow> tx_context \<Rightarrow> u64 \<Rightarrow> key_image_value \<Rightarrow> u32 \<Rightarrow> u64 \<Rightarrow> u64 list \<Rightarrow> lws_account \<times> 's \<Rightarrow> lws_account \<times> 's" where
  "scan_ring T c amount k_image mixin goffset [] us = us"
| "scan_ring T c amount k_image mixin goffset (offset # offsets) us =
     (let goffset = goffset + offset; source = Output_id amount goffset in
      case get_spendable source (fst us) of
        None \<Rightarrow> scan_ring T c amount k_image mixin goffset offsets us
      | Some address_index \<Rightarrow>
          scan_ring T c amount k_image mixin goffset offsets
            (on_spend T (fst us) (make_spend c k_image mixin source address_index) (snd us)))"

text \<open>
  \<^verbatim>\<open>boost::numeric_cast\<close> to 32 bits throws when the value does not fit. The inputs, with the ring size of the last one and the flags of the outputs.\<close>

definition fits_u32 :: "nat \<Rightarrow> bool" where
  "fits_u32 n \<longleftrightarrow> unat (of_nat n :: u32) = n"

fun scan_inputs :: "'s ownership_test \<Rightarrow> tx_context \<Rightarrow> tx_input list \<Rightarrow> u32 \<times> u8 \<Rightarrow> lws_account \<times> 's \<Rightarrow> (lws_account \<times> 's) \<times> (u32 \<times> u8) expect" where
  "scan_inputs T c [] me us = (us, Inr me)"
| "scan_inputs T c (Txin_gen # ins) me us = scan_inputs T c ins (fst me, snd me OR coinbase_output) us"
| "scan_inputs T c (Txin_to_key amount offsets k_image # ins) me us =
     (let n = max 1 (length offsets) - 1 in
      if \<not> fits_u32 n then (us, Inl (Thrown std_bad_cast))
      else scan_inputs T c ins (of_nat n, snd me) (scan_ring T c amount k_image (of_nat n) 0 offsets us))"
| "scan_inputs T c (Txin_other # ins) me us = scan_inputs T c ins me us"

section \<open>Outputs\<close>

text \<open>The derivations of the additional keys, none when one of them is not a point.\<close>

definition additional_derivations :: "tx_library \<Rightarrow> 's ownership_test \<Rightarrow> tx_context \<Rightarrow> view_key \<Rightarrow> key256 list" where
  "additional_derivations L T c view =
     (if ot_subaddress T \<noteq> None \<and> length (tc_additional c) = length (tx_vout (tc_tx c))
      then let ds = map (\<lambda>k. tl_derivation L k view) (tc_additional c) in if None \<in> set ds then [] else map the ds
      else [])"

text \<open>The two attempts: the derivation and the transaction key to use, tried in this order.\<close>

definition attempts :: "tx_context \<Rightarrow> key256 \<Rightarrow> key256 list \<Rightarrow> nat \<Rightarrow> (key256 \<times> public_key) list" where
  "attempts c derived additional index =
     (derived, tc_pub_key c) # (if additional \<noteq> [] then [(additional ! index, tc_additional c ! index)] else [])"

fun find_owner :: "env \<Rightarrow> tx_library \<Rightarrow> 's ownership_test \<Rightarrow> block_id \<Rightarrow> internal \<Rightarrow> block_id \<Rightarrow> public_key \<Rightarrow> nat
    \<Rightarrow> (key256 \<times> public_key) list \<Rightarrow> db \<Rightarrow> db \<times> (address_index \<times> key256 \<times> public_key) option" where
  "find_owner E L T height i scan_height out_key index [] d = (d, None)"
| "find_owner E L T height i scan_height out_key index (a # rest) d =
     (case tl_subaddress_key L out_key (fst a) index of
        None \<Rightarrow> find_owner E L T height i scan_height out_key index rest d
      | Some derived_pub \<Rightarrow>
          if spend_public (in_pubs i) = derived_pub then (d, Some (Address_index 0 0, a))
          else case ot_subaddress T of
            None \<Rightarrow> find_owner E L T height i scan_height out_key index rest d
          | Some r \<Rightarrow>
              (case find_subaddress E d (in_id i) derived_pub of
                 Inl e \<Rightarrow> find_owner E L T height i scan_height out_key index rest d
               | Inr match \<Rightarrow>
                   (fst (reader_update_lookahead E r (in_pubs i) scan_height match height d), Some (match, a))))"

text \<open>The amount, the mask and the flags of an output, \<open>None\<close> when it does not decode; \<^verbatim>\<open>at\<close> may throw.\<close>

definition output_amount :: "tx_library \<Rightarrow> transaction \<Rightarrow> u8 \<Rightarrow> key256 \<Rightarrow> nat \<Rightarrow> (u64 \<times> key256 \<times> u8) option expect" where
  "output_amount L tx ext derivation index =
     (let amount = to_amount (tx_vout tx ! index) in
      if amount = 0 \<and> ext AND coinbase_output = 0 \<and> 1 < tx_version tx
      then
        if length (tx_out_pk tx) \<le> index \<or> length (tx_ecdh_info tx) \<le> index then Inl (Thrown std_out_of_range)
        else Inr (map_option (\<lambda>(a, m). (a, m, ext OR ringct_output))
               (decode_amount L (tx_out_pk tx ! index) (tx_ecdh_info tx ! index) derivation index
                  (tl_bulletproof2 L \<le> tx_rct_type tx)))
      else Inr (Some (amount, tl_identity L, if 1 < tx_version tx then ext OR ringct_output else ext)))"

definition output_payment_id :: "tx_library \<Rightarrow> tx_context \<Rightarrow> payment_id \<Rightarrow> key256 \<Rightarrow> payment_id" where
  "output_payment_id L c payment derivation =
     (case tc_nonce c of
        None \<Rightarrow> payment
      | Some nonce \<Rightarrow>
          if fst payment \<noteq> 0 then payment
          else case tl_encrypted_payment_id L nonce of
            None \<Rightarrow> payment
          | Some short \<Rightarrow> (8, decrypt_payment_id L (short @ drop 8 (snd payment)) derivation))"

definition make_output :: "tx_library \<Rightarrow> tx_context \<Rightarrow> u32 \<Rightarrow> nat \<Rightarrow> public_key \<Rightarrow> public_key \<Rightarrow> u64 \<times> key256 \<times> u8 \<Rightarrow> payment_id \<Rightarrow> address_index \<Rightarrow> db_output" where
  "make_output L c mixin index out_key active_pub amt payment recipient =
     (case amt of (amount, msk, ext) \<Rightarrow>
      \<lparr>out_link = tc_link c,
       out_spend_meta = \<lparr>sm_id = Output_id (if tx_version (tc_tx c) < 2 then to_amount (tx_vout (tc_tx c) ! index) else 0) (tc_out_ids c ! index),
         sm_amount = amount, sm_mixin_count = mixin, sm_index = of_nat index, sm_tx_public = active_pub\<rparr>,
       out_timestamp = tc_timestamp c, out_unlock_time = tx_unlock_time (tc_tx c),
       out_tx_prefix_hash = tl_prefix_hash L (tc_tx c), out_pub = out_key, out_ringct_mask = msk,
       out_extra = pack ext (fst payment), out_payment_id = snd payment, out_fee = tl_tx_fee L (tc_tx c),
       out_recipient = recipient\<rparr>)"

text \<open>The state of the loop over the outputs of one account.\<close>

record 's output_state =
  os_user :: lws_account
  os_ext :: u8
  os_payment :: payment_id
  os_db :: db
  os_state :: 's

definition out_matched :: "tx_library \<Rightarrow> tx_context \<Rightarrow> key256 \<Rightarrow> key256 list \<Rightarrow> nat \<Rightarrow> bool" where
  "out_matched L c derived additional index =
     (let tag = to_view_tag (tx_vout (tc_tx c) ! index) in
      additional \<noteq> [] \<and> tl_can_be_to_acc L tag (additional ! index) index \<or> tl_can_be_to_acc L tag derived index)"

definition scan_output :: "env \<Rightarrow> tx_library \<Rightarrow> 's ownership_test \<Rightarrow> tx_context \<Rightarrow> internal \<Rightarrow> key256 \<Rightarrow> key256 list \<Rightarrow> u32 \<Rightarrow> nat
    \<Rightarrow> 's output_state \<Rightarrow> 's output_state \<times> unit expect" where
  "scan_output E L T c i derived additional mixin index s =
     (case to_key (tx_vout (tc_tx c) ! index) of
        None \<Rightarrow> (s, Inr ())
      | Some out_key \<Rightarrow>
          if \<not> out_matched L c derived additional index then (s, Inr ())
          else case find_owner E L T (tc_height c) i (la_height (os_user s)) out_key index (attempts c derived additional index) (os_db s) of
            (d, None) \<Rightarrow> (s\<lparr>os_db := d\<rparr>, Inr ())
          | (d, Some (recipient, derivation, active_pub)) \<Rightarrow>
              let s = s\<lparr>os_db := d\<rparr> in
              (case output_amount L (tc_tx c) (os_ext s) derivation index of
                 Inl e \<Rightarrow> (s, Inl e)
               | Inr None \<Rightarrow> (s, Inr ())
               | Inr (Some amt) \<Rightarrow>
                   let s = s\<lparr>os_ext := snd (snd amt), os_payment := output_payment_id L c (os_payment s) derivation\<rparr> in
                   if length (tc_out_ids c) \<le> index then (s, Inl (Thrown std_out_of_range))
                   else if \<not> fits_u32 index then (s, Inl (Thrown std_bad_cast))
                   else
                     let r = on_output T (os_user s) (make_output L c mixin index out_key active_pub amt (os_payment s) recipient) (os_db s) (os_state s) in
                     (s\<lparr>os_user := fst r, os_state := snd r\<rparr>, Inr ())))"

fun scan_outputs :: "env \<Rightarrow> tx_library \<Rightarrow> 's ownership_test \<Rightarrow> tx_context \<Rightarrow> internal \<Rightarrow> key256 \<Rightarrow> key256 list \<Rightarrow> u32 \<Rightarrow> nat list
    \<Rightarrow> 's output_state \<Rightarrow> 's output_state \<times> unit expect" where
  "scan_outputs E L T c i derived additional mixin [] s = (s, Inr ())"
| "scan_outputs E L T c i derived additional mixin (index # rest) s =
     (case scan_output E L T c i derived additional mixin index s of
        (s, Inl e) \<Rightarrow> (s, Inl e)
      | (s, Inr _) \<Rightarrow> scan_outputs E L T c i derived additional mixin rest s)"

section \<open>Accounts\<close>

definition scan_user :: "env \<Rightarrow> tx_library \<Rightarrow> 's ownership_test \<Rightarrow> tx_context \<Rightarrow> lws_account \<Rightarrow> db \<times> 's \<Rightarrow> (db \<times> 's) \<times> lws_account expect" where
  "scan_user E L T c user ds =
     (if tc_height c \<le> la_height user then (ds, Inr user)
      else case la_immutable user of
        None \<Rightarrow> (ds, Inl (Thrown kInvalidArgument))
      | Some i \<Rightarrow>
          (case tl_derivation L (tc_pub_key c) (in_view_key i) of
             None \<Rightarrow> (ds, Inr user)
           | Some derived \<Rightarrow>
               let additional = additional_derivations L T c (in_view_key i) in
               (case scan_inputs T c (tx_vin (tc_tx c)) (0, 0) (user, snd ds) of
                  (us, Inl e) \<Rightarrow> ((fst ds, snd us), Inl e)
                | (us, Inr (mixin, ext)) \<Rightarrow>
                    (case scan_outputs E L T c i derived additional mixin [0..<length (tx_vout (tc_tx c))]
                        \<lparr>os_user = fst us, os_ext = ext, os_payment = tc_unencrypted_id c, os_db = fst ds, os_state = snd us\<rparr> of
                       (s, Inl e) \<Rightarrow> ((os_db s, os_state s), Inl e)
                     | (s, Inr _) \<Rightarrow> ((os_db s, os_state s), Inr (os_user s))))))"

fun scan_users :: "env \<Rightarrow> tx_library \<Rightarrow> 's ownership_test \<Rightarrow> tx_context \<Rightarrow> lws_account list \<Rightarrow> db \<times> 's \<Rightarrow> (db \<times> 's) \<times> lws_account list expect" where
  "scan_users E L T c [] ds = (ds, Inr [])"
| "scan_users E L T c (user # users) ds =
     (case scan_user E L T c user ds of
        (ds, Inl e) \<Rightarrow> (ds, Inl e)
      | (ds, Inr user) \<Rightarrow>
          (case scan_users E L T c users ds of
             (ds, Inl e) \<Rightarrow> (ds, Inl e)
           | (ds, Inr users) \<Rightarrow> (ds, Inr (user # users))))"

definition scan_transaction :: "env \<Rightarrow> tx_library \<Rightarrow> 's ownership_test \<Rightarrow> lws_account list \<Rightarrow> block_id \<Rightarrow> u64 \<Rightarrow> hash option \<Rightarrow> transaction \<Rightarrow> u64 list
    \<Rightarrow> db \<times> 's \<Rightarrow> (db \<times> 's) \<times> lws_account list expect" where
  "scan_transaction E L T users height timestamp given_hash tx out_ids ds =
     (if 2 < tx_version tx then (ds, Inl (Thrown std_runtime_error))
      else case make_context L T height timestamp given_hash tx out_ids of
        None \<Rightarrow> (ds, Inr users)
      | Some c \<Rightarrow> scan_users E L T c users ds)"

text \<open>The callbacks of a scanner thread: what is found is kept with the account.\<close>

definition scan_test :: "subaddress_reader option \<Rightarrow> unit ownership_test" where
  "scan_test r = \<lparr>on_spend = (\<lambda>user sp s. (add_spend sp user, s)),
     on_output = (\<lambda>user out d s. (fst (add_received out user), s)), ot_subaddress = r\<rparr>"

end
