(* ===== verification/Scanner_Threads.thy ===== *)
theory Scanner_Threads
  imports Account
begin

text \<open>
  How \<^verbatim>\<open>check_loop\<close> of \<^verbatim>\<open>src/scanner.cpp\<close> divides the accounts among its threads: evenly by number, or by
  the number of blocks each account is behind (\<^verbatim>\<open>block_depth_threading\<close>), with some threads kept for
  accounts that are almost in sync (\<^verbatim>\<open>split_sync_threads\<close>). \<^verbatim>\<open>std::sort\<close> is modelled by a stable sort;
  what is only logged (the range of depths of a thread) is left out.
\<close>

record scanner_options =
  so_split_sync_threads :: "(nat \<Rightarrow> nat) option" \<comment> \<open>\<^verbatim>\<open>ceil(split_sync_threads * n)\<close>; \<open>None\<close> when the option is not above zero\<close>
  so_split_sync_depth :: u64
  so_min_block_depth :: u64
  so_max_subaddresses :: u32
  so_untrusted_daemon :: bool
  so_regtest :: bool
  so_block_depth_threading :: bool
  so_balance_new_addresses :: bool

section \<open>By number\<close>

text \<open>The loop over the queues; \<open>m\<close> queues are left.\<close>

fun even_loop :: "nat \<Rightarrow> lws_account list \<Rightarrow> lws_account list list" where
  "even_loop 0 users = []"
| "even_loop (Suc m) users =
     (let n = length users div Suc m in
      drop (length users - n) users # even_loop m (take (length users - n) users))"

definition even_threads :: "nat \<Rightarrow> lws_account list \<Rightarrow> lws_account list list" where
  "even_threads thread_count users = even_loop thread_count (sort_key la_height users)"

section \<open>By depth\<close>

record account_depth =
  ad_index :: nat
  ad_blockdepth :: u64
  ad_raw_blockdepth :: u64

definition account_depths :: "scanner_options \<Rightarrow> block_id \<Rightarrow> lws_account list \<Rightarrow> account_depth list" where
  "account_depths opts current_height users =
     sort_key ad_raw_blockdepth
       (map (\<lambda>i. let raw = current_height - la_height (users ! i) in
               \<lparr>ad_index = i, ad_blockdepth = max raw (so_min_block_depth opts), ad_raw_blockdepth = raw\<rparr>)
          [0..<length users])"

definition push_to :: "nat \<Rightarrow> 'a \<Rightarrow> 'a list list \<Rightarrow> 'a list list" where
  "push_to t x ts = ts[t := ts ! t @ [x]]"

text \<open>Round-robin over the threads for accounts in sync.\<close>

fun assign_synced :: "lws_account list \<Rightarrow> nat \<Rightarrow> nat \<Rightarrow> account_depth list \<Rightarrow> lws_account list list \<Rightarrow> lws_account list list" where
  "assign_synced users n i [] ts = ts"
| "assign_synced users n i (ad # ads) ts =
     assign_synced users n (Suc i) ads (push_to (i mod n) (users ! ad_index ad) ts)"

text \<open>An even thread is filled until it reaches the target, an odd one as long as it stays below.\<close>

definition next_thread :: "nat \<Rightarrow> nat \<Rightarrow> u64 \<Rightarrow> nat \<Rightarrow> u64 \<Rightarrow> u64 \<Rightarrow> bool" where
  "next_thread start last_thread target current depth blockdepth =
     (if current < last_thread
      then if (current - start) mod 2 = 0 then target \<le> depth else target < depth + blockdepth
      else False)"

fun assign_depths :: "lws_account list \<Rightarrow> nat \<Rightarrow> nat \<Rightarrow> u64 \<Rightarrow> nat \<Rightarrow> u64 \<Rightarrow> account_depth list \<Rightarrow> lws_account list list \<Rightarrow> lws_account list list" where
  "assign_depths users start last_thread target current depth [] ts = ts"
| "assign_depths users start last_thread target current depth (ad # ads) ts =
     (let move = next_thread start last_thread target current depth (ad_blockdepth ad);
          current = (if move then current + 1 else current);
          depth = (if move then 0 else depth) in
      assign_depths users start last_thread target current (depth + ad_blockdepth ad) ads
        (push_to current (users ! ad_index ad) ts))"

definition assign_rest :: "lws_account list \<Rightarrow> nat \<Rightarrow> nat \<Rightarrow> account_depth list \<Rightarrow> lws_account list list \<Rightarrow> lws_account list list" where
  "assign_rest users start n ads ts =
     (if ads \<noteq> [] \<and> 0 < n
      then let target = sum_list (map ad_blockdepth ads) div of_nat n in
        assign_depths users start (start + n - 1) target start 0 ads ts
      else ts)"

definition depth_threads :: "scanner_options \<Rightarrow> block_id \<Rightarrow> nat \<Rightarrow> lws_account list \<Rightarrow> lws_account list list" where
  "depth_threads opts current_height thread_count users =
     (let ads = account_depths opts current_height users; ts = replicate thread_count [] in
      case so_split_sync_threads opts of
        None \<Rightarrow> assign_rest users 0 thread_count ads ts
      | Some ceil_threads \<Rightarrow>
          let synced = filter (\<lambda>ad. ad_raw_blockdepth ad \<le> so_split_sync_depth opts) ads;
              unsynced = filter (\<lambda>ad. \<not> ad_raw_blockdepth ad \<le> so_split_sync_depth opts) ads in
          if synced = [] then assign_rest users 0 thread_count unsynced ts
          else
            let num_synced_threads = max 1 (ceil_threads thread_count);
                actual_synced_threads = min num_synced_threads (length synced) in
            assign_rest users num_synced_threads (thread_count - num_synced_threads) unsynced
              (assign_synced users actual_synced_threads 0 synced ts))"

definition thread_accounts :: "scanner_options \<Rightarrow> block_id \<Rightarrow> nat \<Rightarrow> lws_account list \<Rightarrow> lws_account list list" where
  "thread_accounts opts current_height thread_count users =
     (if so_block_depth_threading opts then depth_threads opts current_height thread_count users
      else even_threads thread_count users)"

section \<open>Every account is on one thread\<close>

definition at_index :: "lws_account list \<Rightarrow> account_depth list \<Rightarrow> lws_account multiset" where
  "at_index users ads = mset (map (\<lambda>ad. users ! ad_index ad) ads)"

lemma length_push_to [simp]: "length (push_to t x ts) = length ts"
  by (simp add: push_to_def)

lemma mset_push_to: "t < length ts \<Longrightarrow> mset (concat (push_to t x ts)) = add_mset x (mset (concat ts))"
proof -
  assume t: "t < length ts"
  have ts: "ts = take t ts @ ts ! t # drop (Suc t) ts" using t by (rule id_take_nth_drop)
  have "push_to t x ts = take t ts @ (ts ! t @ [x]) # drop (Suc t) ts"
    using t by (simp add: push_to_def upd_conv_take_nth_drop)
  then have "mset (concat (push_to t x ts)) = add_mset x (mset (concat (take t ts @ ts ! t # drop (Suc t) ts)))" by simp
  then show ?thesis using ts by simp
qed

lemma even_loop_partition: "0 < m \<Longrightarrow> length (even_loop m users) = m \<and> mset (concat (even_loop m users)) = mset users"
proof (induction m users rule: even_loop.induct)
  case (2 m users)
  let ?n = "length users div Suc m"
  have split: "mset (drop (length users - ?n) users) + mset (take (length users - ?n) users) = mset users"
    by (metis append_take_drop_id mset_append union_commute)
  show ?case
  proof (cases m)
    case 0
    then show ?thesis by simp
  next
    case (Suc k)
    then show ?thesis using "2.IH" [OF refl] split by (simp add: Let_def)
  qed
qed simp

lemma assign_synced_partition:
  assumes "0 < n" and "n \<le> length ts"
  shows "length (assign_synced users n i ads ts) = length ts
    \<and> mset (concat (assign_synced users n i ads ts)) = mset (concat ts) + at_index users ads"
  using assms
proof (induction users n i ads ts rule: assign_synced.induct)
  case (2 users n i ad ads ts)
  have "i mod n < length ts" using "2.prems" by (meson less_le_trans mod_less_divisor)
  then show ?case using "2.IH" "2.prems" by (simp add: mset_push_to at_index_def)
qed (simp add: at_index_def)

lemma assign_depths_partition:
  assumes "current \<le> last_thread" and "last_thread < length ts"
  shows "length (assign_depths users start last_thread target current depth ads ts) = length ts
    \<and> mset (concat (assign_depths users start last_thread target current depth ads ts)) = mset (concat ts) + at_index users ads"
  using assms
proof (induction users start last_thread target current depth ads ts rule: assign_depths.induct)
  case (2 users start last_thread target current depth ad ads ts)
  let ?c = "if next_thread start last_thread target current depth (ad_blockdepth ad) then current + 1 else current"
  have "?c \<le> last_thread" using "2.prems"(1) by (auto simp: next_thread_def split: if_splits)
  then show ?case using "2.IH" [OF refl refl refl] "2.prems"(2) by (simp add: mset_push_to at_index_def Let_def)
qed (simp add: at_index_def)

lemma assign_rest_partition:
  assumes "start + n = length ts" and "0 < n \<or> ads = []"
  shows "length (assign_rest users start n ads ts) = length ts
    \<and> mset (concat (assign_rest users start n ads ts)) = mset (concat ts) + at_index users ads"
  using assms assign_depths_partition [of start "start + n - 1" ts]
  by (auto simp: assign_rest_def Let_def at_index_def)

lemma at_index_all: "at_index users (account_depths opts h users) = mset users"
proof -
  have "image_mset ((!) users) (mset [0..<length users]) = mset users" by (metis map_nth mset_map)
  then show ?thesis unfolding at_index_def mset_map account_depths_def mset_sort
    by (simp add: Let_def multiset.map_comp comp_def del: mset_upt)
qed

lemma at_index_split: "at_index users (filter P ads) + at_index users (filter (\<lambda>x. \<not> P x) ads) = at_index users ads"
  unfolding at_index_def mset_map mset_filter by (simp flip: image_mset_union multiset_partition)

text \<open>The account is at most the given number of blocks behind, as far as the unsigned difference tells.\<close>

definition in_sync :: "scanner_options \<Rightarrow> block_id \<Rightarrow> lws_account \<Rightarrow> bool" where
  "in_sync opts current_height user \<longleftrightarrow> current_height - la_height user \<le> so_split_sync_depth opts"

lemma at_index_synced:
  "at_index users (filter (\<lambda>ad. ad_raw_blockdepth ad \<le> so_split_sync_depth opts) (account_depths opts h users))
    = filter_mset (in_sync opts h) (mset users)"
proof -
  have "ad_raw_blockdepth ad = h - la_height (users ! ad_index ad)" if "ad \<in> set (account_depths opts h users)" for ad
    using that by (auto simp: account_depths_def Let_def)
  then have "filter (\<lambda>ad. ad_raw_blockdepth ad \<le> so_split_sync_depth opts) (account_depths opts h users)
      = filter (\<lambda>ad. in_sync opts h (users ! ad_index ad)) (account_depths opts h users)"
    by (intro filter_cong) (simp_all add: in_sync_def)
  then show ?thesis unfolding at_index_all [of users opts h, symmetric] by (simp add: at_index_def filter_mset_image_mset)
qed

lemma filter_mset_none: "filter_mset P (mset xs) = {#} \<longleftrightarrow> (\<forall>x \<in> set xs. \<not> P x)"
  by (simp add: filter_empty_conv flip: mset_filter)

text \<open>All threads are kept for accounts in sync, and there are some.\<close>

definition no_thread_left :: "scanner_options \<Rightarrow> block_id \<Rightarrow> nat \<Rightarrow> lws_account list \<Rightarrow> bool" where
  "no_thread_left opts current_height thread_count users \<longleftrightarrow>
     (case so_split_sync_threads opts of None \<Rightarrow> False
      | Some ceil_threads \<Rightarrow> thread_count \<le> max 1 (ceil_threads thread_count) \<and> (\<exists>u \<in> set users. in_sync opts current_height u))"

lemma depth_threads_partition:
  assumes "0 < n" and "case so_split_sync_threads opts of None \<Rightarrow> True | Some f \<Rightarrow> f n \<le> n"
  shows "length (depth_threads opts h n users) = n
    \<and> mset (concat (depth_threads opts h n users)) = (if no_thread_left opts h n users then filter_mset (in_sync opts h) (mset users) else mset users)"
proof (cases "so_split_sync_threads opts")
  case None
  then show ?thesis using assign_rest_partition [of 0 n "replicate n []" "account_depths opts h users" users] assms(1)
    by (simp add: depth_threads_def no_thread_left_def at_index_all Let_def)
next
  case (Some f)
  let ?ads = "account_depths opts h users" and ?P = "\<lambda>ad. ad_raw_blockdepth ad \<le> so_split_sync_depth opts"
  let ?k = "max 1 (f n)"
  have k: "?k \<le> n" "0 < ?k" using assms Some by simp_all
  have split: "at_index users (filter ?P ?ads) + at_index users (filter (\<lambda>ad. \<not> ?P ad) ?ads) = mset users"
    by (simp only: at_index_split at_index_all)
  show ?thesis
  proof (cases "filter ?P ?ads = []")
    case True
    have "filter_mset (in_sync opts h) (mset users) = {#}" unfolding at_index_synced [symmetric] True by (simp add: at_index_def)
    then have "\<not> no_thread_left opts h n users" by (auto simp: no_thread_left_def Some filter_mset_none)
    moreover have "at_index users (filter (\<lambda>ad. \<not> ?P ad) ?ads) = mset users" using split True by (simp add: at_index_def)
    moreover have "depth_threads opts h n users = assign_rest users 0 n (filter (\<lambda>ad. \<not> ?P ad) ?ads) (replicate n [])"
      unfolding depth_threads_def Some Let_def option.case if_P [OF True] ..
    ultimately show ?thesis
      using assign_rest_partition [of 0 n "replicate n []" "filter (\<lambda>ad. \<not> ?P ad) ?ads" users] assms(1) by simp
  next
    case False
    let ?m = "min ?k (length (filter ?P ?ads))"
    let ?ts = "assign_synced users ?m 0 (filter ?P ?ads) (replicate n [])"
    have sync: "length ?ts = n" "mset (concat ?ts) = at_index users (filter ?P ?ads)"
      using assign_synced_partition [of ?m "replicate n []" users 0 "filter ?P ?ads"] False k by (simp_all add: min_le_iff_disj)
    have run: "depth_threads opts h n users = assign_rest users ?k (n - ?k) (filter (\<lambda>ad. \<not> ?P ad) ?ads) ?ts"
      unfolding depth_threads_def Some Let_def option.case if_not_P [OF False] ..
    have ex: "\<exists>u \<in> set users. in_sync opts h u"
    proof (rule ccontr)
      assume "\<not> (\<exists>u \<in> set users. in_sync opts h u)"
      then have "at_index users (filter ?P ?ads) = {#}" unfolding at_index_synced filter_mset_none by blast
      then show False using False by (simp add: at_index_def)
    qed
    show ?thesis
    proof (cases "n \<le> ?k")
      case True
      then have "no_thread_left opts h n users" using ex by (simp add: no_thread_left_def Some)
      moreover have "depth_threads opts h n users = ?ts" unfolding run using True by (simp add: assign_rest_def)
      ultimately show ?thesis using sync at_index_synced [of users opts h] by simp
    next
      case no: False
      then have "\<not> no_thread_left opts h n users" by (simp add: no_thread_left_def Some)
      moreover have "length (depth_threads opts h n users) = length ?ts
          \<and> mset (concat (depth_threads opts h n users)) = mset (concat ?ts) + at_index users (filter (\<lambda>ad. \<not> ?P ad) ?ads)"
        unfolding run by (rule assign_rest_partition) (use k no sync(1) in auto)
      then have "length (depth_threads opts h n users) = n" "mset (concat (depth_threads opts h n users)) = mset users"
        unfolding sync split by blast+
      ultimately show ?thesis by simp
    qed
  qed
qed

text \<open>
  C16: which accounts the threads scan. Without \<^verbatim>\<open>block_depth_threading\<close>, or while a thread is left for
  accounts that are not in sync, every account is given to exactly one thread. When the threads kept for accounts in sync are
  all the threads (a share of 1, or a single thread) and some account is in sync, the accounts that
  are not in sync are given to no thread at all.
\<close>

theorem thread_accounts_exact:
  assumes "0 < thread_count"
    and "case so_split_sync_threads opts of None \<Rightarrow> True | Some ceil_threads \<Rightarrow> ceil_threads thread_count \<le> thread_count"
  shows "length (thread_accounts opts h thread_count users) = thread_count
    \<and> mset (concat (thread_accounts opts h thread_count users)) =
        (if so_block_depth_threading opts \<and> no_thread_left opts h thread_count users
         then filter_mset (in_sync opts h) (mset users) else mset users)"
  using depth_threads_partition [OF assms] even_loop_partition [OF assms(1), of "sort_key la_height users"]
  by (simp add: thread_accounts_def even_threads_def)

definition sample_threading :: scanner_options where
  "sample_threading = \<lparr>so_split_sync_threads = Some (\<lambda>n. n), so_split_sync_depth = 10, so_min_block_depth = 16,
     so_max_subaddresses = 0, so_untrusted_daemon = False, so_regtest = False, so_block_depth_threading = True,
     so_balance_new_addresses = False\<rparr>"

definition sample_behind :: "lws_account list" where
  "sample_behind = [sample_tracked, sample_tracked\<lparr>la_height := 95\<rparr>]"

text \<open>With all of two threads kept for accounts in sync, the account at height 4 of 100 is not scanned.\<close>

theorem thread_accounts_exact_witness:
  "mset (concat (thread_accounts sample_threading 100 2 sample_behind)) = {#sample_tracked\<lparr>la_height := 95\<rparr>#}"
proof -
  have h: "la_height sample_tracked = 4" by (simp add: sample_tracked_def load_account_def make_account_def sample_source_def)
  have "no_thread_left sample_threading 100 2 sample_behind"
    by (simp add: no_thread_left_def sample_threading_def sample_behind_def in_sync_def h)
  moreover have "filter_mset (in_sync sample_threading 100) (mset sample_behind) = {#sample_tracked\<lparr>la_height := 95\<rparr>#}"
    by (simp add: sample_behind_def in_sync_def sample_threading_def h)
  ultimately show ?thesis
    using thread_accounts_exact [of 2 sample_threading 100 sample_behind] by (simp add: sample_threading_def)
qed

end
