(* ===== verification/Scanner_Queue.thy ===== *)
theory Scanner_Queue
  imports Account
begin

text \<open>
  The queue that hands accounts to a scanner thread (\<^verbatim>\<open>src/rpc/scanner/queue.cpp\<close>). Every operation takes the mutex, so each one
  is a step of its own and the interleavings are the sequences of operations. The server pushes and replaces, the thread takes.
\<close>

section \<open>Operations\<close>

record scan_queue =
  sq_replace :: "lws_account list option"
  sq_push :: "lws_account list"
  sq_user_count :: nat
  sq_min_height :: block_id
  sq_stop :: bool

record queue_status =
  qs_replace :: "lws_account list option"
  qs_push :: "lws_account list"
  qs_user_count :: nat

definition new_queue :: scan_queue where
  "new_queue = \<lparr>sq_replace = None, sq_push = [], sq_user_count = 0, sq_min_height = 0, sq_stop = False\<rparr>"

definition do_get_accounts :: "scan_queue \<Rightarrow> queue_status \<times> scan_queue" where
  "do_get_accounts q =
     (\<lparr>qs_replace = sq_replace q, qs_push = sq_push q, qs_user_count = sq_user_count q\<rparr>,
      q\<lparr>sq_replace := None, sq_push := []\<rparr>)"

definition queue_stop :: "scan_queue \<Rightarrow> scan_queue" where
  "queue_stop q = q\<lparr>sq_stop := True\<rparr>"

definition update_min_height :: "block_id \<Rightarrow> scan_queue \<Rightarrow> scan_queue" where
  "update_min_height height q = q\<lparr>sq_min_height := max height (sq_min_height q)\<rparr>"

definition has_accounts :: "scan_queue \<Rightarrow> bool" where
  "has_accounts q \<longleftrightarrow> sq_replace q \<noteq> None \<or> sq_push q \<noteq> []"

definition queue_get_accounts :: "scan_queue \<Rightarrow> queue_status \<times> scan_queue" where
  "queue_get_accounts q = do_get_accounts q"

text \<open>\<open>None\<close> when the caller waits.\<close>

definition wait_for_accounts :: "scan_queue \<Rightarrow> (queue_status \<times> scan_queue) option" where
  "wait_for_accounts q =
     (if sq_replace q = None \<and> sq_push q = [] \<and> \<not> sq_stop q then None else Some (do_get_accounts q))"

definition replace_accounts :: "lws_account list \<Rightarrow> scan_queue \<Rightarrow> scan_queue" where
  "replace_accounts users q =
     q\<lparr>sq_replace := Some users, sq_user_count := length users, sq_push := [],
       sq_min_height := (if users \<noteq> [] then Min (set (map la_height users)) else 0)\<rparr>"

definition lower_min :: "block_id \<Rightarrow> lws_account list \<Rightarrow> block_id" where
  "lower_min h users = fold (\<lambda>u h. if h = 0 \<or> la_height u < h then la_height u else h) users h"

definition push_accounts :: "lws_account list \<Rightarrow> scan_queue \<Rightarrow> scan_queue" where
  "push_accounts users q =
     q\<lparr>sq_user_count := sq_user_count q + length users, sq_min_height := lower_min (sq_min_height q) users, sq_push := sq_push q @ users\<rparr>"

lemmas queue_defs = new_queue_def do_get_accounts_def queue_stop_def update_min_height_def has_accounts_def queue_get_accounts_def
  wait_for_accounts_def replace_accounts_def push_accounts_def

section \<open>What a thread is given\<close>

text \<open>The accounts of a thread once it has taken what the queue holds.\<close>

definition after_take :: "queue_status \<Rightarrow> lws_account list \<Rightarrow> lws_account list" where
  "after_take s users = (case qs_replace s of None \<Rightarrow> users | Some us \<Rightarrow> us) @ qs_push s"

definition effective :: "scan_queue \<Rightarrow> lws_account list \<Rightarrow> lws_account list" where
  "effective q users = after_take (fst (do_get_accounts q)) users"

lemma effective_push [simp]: "effective (push_accounts us q) users = effective q users @ us"
  by (simp add: effective_def after_take_def queue_defs)

lemma effective_replace [simp]: "effective (replace_accounts us q) users = us"
  by (simp add: effective_def after_take_def queue_defs)

lemma effective_min_height [simp]: "effective (update_min_height h q) users = effective q users"
  by (simp add: effective_def after_take_def queue_defs)

lemma effective_stop [simp]: "effective (queue_stop q) users = effective q users"
  by (simp add: effective_def after_take_def queue_defs)

lemma effective_new [simp]: "effective new_queue users = users"
  by (simp add: effective_def after_take_def queue_defs)

lemma effective_taken: "do_get_accounts q = (s, q') \<Longrightarrow> effective q' (after_take s users) = effective q users"
  by (auto simp: effective_def after_take_def do_get_accounts_def)

section \<open>The number of accounts\<close>

text \<open>What the server and the thread do to a queue; \<open>Take\<close> is the thread reading the queue.\<close>

datatype queue_op = Push "lws_account list" | Replace "lws_account list" | Take | Min_height block_id | Stop

fun queue_step :: "queue_op \<Rightarrow> scan_queue \<times> lws_account list \<Rightarrow> scan_queue \<times> lws_account list" where
  "queue_step (Push us) (q, users) = (push_accounts us q, users)"
| "queue_step (Replace us) (q, users) = (replace_accounts us q, users)"
| "queue_step Take (q, users) = (case queue_get_accounts q of (s, q) \<Rightarrow> (q, after_take s users))"
| "queue_step (Min_height h) (q, users) = (update_min_height h q, users)"
| "queue_step Stop (q, users) = (queue_stop q, users)"

text \<open>The abstract machine: the list of accounts the server wants on the thread.\<close>

fun wanted_step :: "queue_op \<Rightarrow> lws_account list \<Rightarrow> lws_account list" where
  "wanted_step (Push us) users = users @ us"
| "wanted_step (Replace us) users = us"
| "wanted_step _ users = users"

lemma queue_step_wanted:
  "queue_step p (q, users) = (q', users') \<Longrightarrow> effective q' users' = wanted_step p (effective q users)"
  by (cases p) (auto simp: effective_taken queue_get_accounts_def split: prod.splits)

lemma count_simps [simp]:
  "sq_user_count (replace_accounts us q) = length us" "sq_user_count (push_accounts us q) = sq_user_count q + length us"
  "sq_user_count (update_min_height h q) = sq_user_count q" "sq_user_count (queue_stop q) = sq_user_count q"
  "sq_user_count (snd (do_get_accounts q)) = sq_user_count q"
  by (simp_all add: queue_defs)

lemma queue_step_count:
  assumes "sq_user_count q = length (effective q users)"
  shows "sq_user_count (fst (queue_step p (q, users))) = length (wanted_step p (effective q users))"
  using assms by (cases p) (simp_all add: queue_get_accounts_def split_beta)

text \<open>
  C15: a queue hands over exactly what the server wants on the thread. In every interleaving of the operations of the server
  and the thread, the accounts of the thread together with what waits in the queue are the accounts last set, followed by those pushed
  since, in order, none lost and none twice; and \<^verbatim>\<open>user_count\<close> is their number.
\<close>

theorem queue_refines:
  "fold queue_step ops (new_queue, []) = (q, users) \<Longrightarrow>
     effective q users = fold wanted_step ops [] \<and> sq_user_count q = length (fold wanted_step ops [])"
proof (induction ops arbitrary: q users rule: rev_induct)
  case Nil
  then show ?case by (auto simp: new_queue_def effective_def after_take_def do_get_accounts_def)
next
  case (snoc p ops)
  obtain q1 users1 where step: "fold queue_step ops (new_queue, []) = (q1, users1)" by fastforce
  with snoc.prems have p: "queue_step p (q1, users1) = (q, users)" by simp
  from snoc.IH [OF step] queue_step_wanted [OF p] queue_step_count [of q1 users1 p] p show ?case by simp
qed

definition sample_ops :: "queue_op list" where
  "sample_ops = [Push [sample_tracked], Take, Push [sample_tracked\<lparr>la_height := 9\<rparr>], Min_height 4]"

theorem queue_refines_witness:
  "effective (fst (fold queue_step sample_ops (new_queue, []))) (snd (fold queue_step sample_ops (new_queue, []))) = [sample_tracked, sample_tracked\<lparr>la_height := 9\<rparr>]"
  using queue_refines [of sample_ops, OF prod.collapse [symmetric]] by (simp add: sample_ops_def)

end
