(* ===== verification/Scanner.thy ===== *)
theory Scanner
  imports Ownership Scanner_Threads Scanner_Queue
begin

text \<open>
  The scanner of \<^verbatim>\<open>src/scanner.cpp\<close>: the loop of a thread, which fetches blocks, tests their
  transactions against its accounts and stores the result, and the synchronisation of the chain with a daemon, trusted (hashes only) or not
  (blocks with proof of work). \<^verbatim>\<open>src/util/blocks.cpp\<close> is part of it. A message of the daemon is an input;
  the functions of the Monero libraries on blocks are parameters.
\<close>

section \<open>Blocks\<close>

text \<open>The fields the code reads of \<^verbatim>\<open>cryptonote::block\<close>, with its transactions as the daemon sends them.\<close>

record chain_block =
  cb_major_version :: nat
  cb_timestamp :: u64
  cb_prev_id :: hash
  cb_miner_tx :: transaction
  cb_tx_hashes :: "hash list"
  cb_transactions :: "transaction list"

record fetched_blocks =
  fb_blocks :: "chain_block list"
  fb_output_indices :: "u64 list list list"
  fb_start_height :: u64

record chain_library =
  cl_block_hash :: "chain_block \<Rightarrow> hash option" \<comment> \<open>\<^verbatim>\<open>cryptonote::get_block_hash\<close>\<close>
  cl_hashing_blob :: "chain_block \<Rightarrow> u8 list"
  cl_rx_seedheight :: "u64 \<Rightarrow> u64"
  cl_rx_slow_hash :: "hash \<Rightarrow> u8 list \<Rightarrow> hash"
  cl_cn_slow_hash :: "u8 list \<Rightarrow> nat \<Rightarrow> u64 \<Rightarrow> hash"
  cl_next_difficulty :: "u64 list \<Rightarrow> u128 list \<Rightarrow> nat \<Rightarrow> u128"
  cl_check_hash :: "hash \<Rightarrow> u128 \<Rightarrow> bool"
  cl_median :: "u64 list \<Rightarrow> u64"
  cl_rx_block_version :: nat
  cl_longhash_202612 :: hash
  cl_second_fork :: "u64 option" \<comment> \<open>the height of the second fork of the network; \<open>None\<close> when the network is not supported\<close>
  cl_target_v1 :: nat
  cl_target_v2 :: nat

text \<open>The overload that returns the hash leaves it zero when the block has none.\<close>

definition block_hash :: "chain_library \<Rightarrow> chain_block \<Rightarrow> hash" where
  "block_hash C b = (case cl_block_hash C b of None \<Rightarrow> 0 | Some h \<Rightarrow> h)"

definition get_target_time :: "chain_library \<Rightarrow> block_id \<Rightarrow> nat expect" where
  "get_target_time C height =
     (case cl_second_fork C of
        None \<Rightarrow> Inl (Thrown bad_blockchain)
      | Some fork \<Rightarrow> Inr (if height < fork then cl_target_v1 C else cl_target_v2 C))"

text \<open>\<^verbatim>\<open>update_window\<close>, and the same loop for the window of timestamps.\<close>

definition update_window :: "u64 \<Rightarrow> 'a list \<Rightarrow> 'a list" where
  "update_window n vec = drop (length vec - unat n) vec"

definition verify_timestamp :: "chain_library \<Rightarrow> u64 \<Rightarrow> u64 list \<Rightarrow> bool" where
  "verify_timestamp C check timestamps =
     (if timestamps = [] then True else \<not> check < cl_median C timestamps)"

text \<open>The hash of the seed block comes from the blocks just read or from the database.\<close>

definition get_block_longhash :: "env \<Rightarrow> chain_library \<Rightarrow> u8 list \<Rightarrow> block_id \<Rightarrow> nat \<Rightarrow> db \<Rightarrow> block_id \<Rightarrow> hash list \<Rightarrow> hash expect" where
  "get_block_longhash E C bd height major_version d cached_start cached =
     (if height = 202612 then Inr (cl_longhash_202612 C)
      else if cl_rx_block_version C \<le> major_version
      then
        ebind (if height \<noteq> 0
               then let seed_height = cl_rx_seedheight C height in
                 if cached_start \<le> seed_height
                 then if length cached \<le> unat (seed_height - cached_start) then Inl (Thrown bad_blockchain)
                      else Inr (cached ! unat (seed_height - cached_start))
                 else eunwrap (get_block_hash E d seed_height)
               else Inr 0) (\<lambda>h.
        Inr (cl_rx_slow_hash C h bd))
      else
        let pow_variant = (if 7 \<le> major_version then major_version - 6 else 0) in
        Inr (cl_cn_slow_hash C bd pow_variant height))"

text \<open>One block of a window: the sizes are cut back first, the block is added at the end.\<close>

definition trim_window :: "env \<Rightarrow> pow_window \<Rightarrow> pow_window" where
  "trim_window E w =
     \<lparr>pw_pow_timestamps = update_window (env_difficulty_blocks_count E) (pw_pow_timestamps w),
      pw_cumulative_diffs = update_window (env_difficulty_blocks_count E) (pw_cumulative_diffs w),
      pw_median_timestamps = update_window (env_timestamp_window E) (pw_median_timestamps w)\<rparr>"

definition extend_window :: "u64 \<Rightarrow> u128 \<Rightarrow> pow_window \<Rightarrow> pow_window" where
  "extend_window timestamp diff w =
     (let last_difficulty = (if pw_cumulative_diffs w = [] then 0 else last (pw_cumulative_diffs w)) in
      \<lparr>pw_pow_timestamps = pw_pow_timestamps w @ [timestamp],
       pw_cumulative_diffs = pw_cumulative_diffs w @ [diff + last_difficulty],
       pw_median_timestamps = pw_median_timestamps w @ [timestamp]\<rparr>)"

definition pow_entry :: "u64 \<Rightarrow> pow_window \<Rightarrow> pow_sync" where
  "pow_entry timestamp w = \<lparr>ps_timestamp = timestamp, ps_cumulative_diff = set_difficulty (last (pw_cumulative_diffs w))\<rparr>"

definition plain_entry :: "u64 \<Rightarrow> pow_sync" where
  "plain_entry timestamp = \<lparr>ps_timestamp = timestamp, ps_cumulative_diff = Block_difficulty 0 0\<rparr>"

section \<open>The blocks of one message\<close>

record scan_env =
  se_storage :: env
  se_library :: tx_library
  se_chain :: chain_library
  se_options :: scanner_options
  se_disk :: bool \<comment> \<open>the thread has access to the database\<close>
  se_stop :: "block_id \<Rightarrow> bool" \<comment> \<open>whether \<^verbatim>\<open>stop_\<close> is seen when this block is reached\<close>
  se_internal_pub :: bool \<comment> \<open>updates are published inside the process\<close>

text \<open>What happened: the loop goes on, returns, or an exception leaves it.\<close>

datatype 'a outcome = Goes_on 'a | Returns bool | Throws error

record block_state =
  bs_db :: db
  bs_users :: "lws_account list"
  bs_height :: u64
  bs_chain :: "hash list"
  bs_window :: pow_window
  bs_new_pow :: "pow_sync list"
  bs_diff :: u128

definition block_test :: "scan_env \<Rightarrow> unit ownership_test" where
  "block_test S =
     (let max_sub = so_max_subaddresses (se_options S) in
      scan_test (if se_disk S \<and> max_sub \<noteq> 0 then Some (Disk_reader max_sub) else None))"

definition scan_tx :: "scan_env \<Rightarrow> u64 \<Rightarrow> hash option \<Rightarrow> transaction \<Rightarrow> u64 list \<Rightarrow> block_state \<Rightarrow> block_state \<times> unit expect" where
  "scan_tx S timestamp given tx out_ids s =
     (case scan_transaction (se_storage S) (se_library S) (block_test S) (bs_users s) (bs_height s) timestamp given tx out_ids (bs_db s, ()) of
        ((d, _), Inl e) \<Rightarrow> (s\<lparr>bs_db := d\<rparr>, Inl e)
      | ((d, _), Inr users) \<Rightarrow> (s\<lparr>bs_db := d, bs_users := users\<rparr>, Inr ()))"

text \<open>The transactions of a block, with the check of the hash for an untrusted daemon.\<close>

fun scan_txs :: "scan_env \<Rightarrow> u64 \<Rightarrow> (hash \<times> transaction \<times> u64 list) list \<Rightarrow> block_state \<Rightarrow> block_state \<times> unit expect" where
  "scan_txs S timestamp [] s = (s, Inr ())"
| "scan_txs S timestamp ((h, tx, out_ids) # txs) s =
     (if so_untrusted_daemon (se_options S) \<and> tl_tx_hash (se_library S) tx \<noteq> h then (s, Inl (Thrown bad_blockchain))
      else case scan_tx S timestamp (Some h) tx out_ids s of
        (s, Inl e) \<Rightarrow> (s, Inl e)
      | (s, Inr _) \<Rightarrow> scan_txs S timestamp txs s)"

text \<open>The checks on a block of an untrusted daemon. The block before is the last of the chain so far.\<close>

definition check_block :: "scan_env \<Rightarrow> block_id \<Rightarrow> block_id \<Rightarrow> chain_block \<Rightarrow> block_state \<Rightarrow> block_state outcome" where
  "check_block S last_pow initial_height b s =
     (let E = se_storage S; C = se_chain S in
      if cb_prev_id b \<noteq> last (bs_chain s) then Throws bad_blockchain
      else
        let s = s\<lparr>bs_window := trim_window E (bs_window s)\<rparr>; w = bs_window s in
        if se_stop S (bs_height s) then Returns False
        else case get_target_time C (bs_height s) of
          Inl e \<Rightarrow> Throws e
        | Inr target \<Rightarrow>
            let s = s\<lparr>bs_diff := cl_next_difficulty C (pw_pow_timestamps w) (pw_cumulative_diffs w) target\<rparr> in
            if se_disk S \<and> last_pow < bs_height s
            then
              if \<not> verify_timestamp C (cb_timestamp b) (pw_median_timestamps w) then Throws bad_blockchain
              else case get_block_longhash E C (cl_hashing_blob C b) (bs_height s) (cb_major_version b) (bs_db s) initial_height (bs_chain s) of
                Inl e \<Rightarrow> Throws e
              | Inr pow \<Rightarrow> if \<not> cl_check_hash C pow (bs_diff s) then Throws bad_blockchain else Goes_on s
            else Goes_on s)"

definition scan_block :: "scan_env \<Rightarrow> block_id \<Rightarrow> block_id \<Rightarrow> chain_block \<Rightarrow> u64 list list \<Rightarrow> block_state \<Rightarrow> block_state \<times> block_state outcome" where
  "scan_block S last_pow initial_height b indices s =
     (let s = s\<lparr>bs_height := bs_height s + 1\<rparr>; untrusted = so_untrusted_daemon (se_options S) in
      if length (cb_tx_hashes b) \<noteq> length (cb_transactions b) then (s, Throws std_runtime_error)
      else if indices = [] then (s, Throws std_runtime_error)
      else case scan_tx S (cb_timestamp b) None (cb_miner_tx b) (hd indices) s of
        (s, Inl e) \<Rightarrow> (s, Throws e)
      | (s, Inr _) \<Rightarrow>
          (case (if untrusted then check_block S last_pow initial_height b s else Goes_on s) of
             Throws e \<Rightarrow> (s, Throws e)
           | Returns r \<Rightarrow> (s, Returns r)
           | Goes_on s \<Rightarrow>
               if length (cb_transactions b) \<noteq> length (tl indices) then (s, Throws std_runtime_error)
               else case scan_txs S (cb_timestamp b) (zip (cb_tx_hashes b) (zip (cb_transactions b) (tl indices))) s of
                 (s, Inl e) \<Rightarrow> (s, Throws e)
               | (s, Inr _) \<Rightarrow>
                   let s = (if untrusted
                            then let w = extend_window (cb_timestamp b) (bs_diff s) (bs_window s) in
                              s\<lparr>bs_window := w, bs_new_pow := bs_new_pow s @ [pow_entry (cb_timestamp b) w]\<rparr>
                            else s);
                       s = s\<lparr>bs_chain := bs_chain s @ [block_hash (se_chain S) b]\<rparr> in
                   (s, Goes_on s)))"

fun scan_blocks :: "scan_env \<Rightarrow> block_id \<Rightarrow> block_id \<Rightarrow> (chain_block \<times> u64 list list) list \<Rightarrow> block_state \<Rightarrow> block_state \<times> block_state outcome" where
  "scan_blocks S last_pow initial_height [] s = (s, Goes_on s)"
| "scan_blocks S last_pow initial_height ((b, indices) # rest) s =
     (case scan_block S last_pow initial_height b indices s of
        (s, Goes_on t) \<Rightarrow> scan_blocks S last_pow initial_height rest t
      | (s, r) \<Rightarrow> (s, r))"

section \<open>Storing\<close>

text \<open>\<^verbatim>\<open>client::push_updates\<close>: what is found is handed over, and the accounts are at the new height.\<close>

definition push_updates :: "bool \<Rightarrow> block_id \<Rightarrow> lws_account list \<Rightarrow> lws_account list" where
  "push_updates internal_pub new_height users =
     map (\<lambda>u. if internal_pub \<and> new_height < la_height u then u else fst (updated new_height u)) users"

definition store_users :: "scan_env \<Rightarrow> hash list \<Rightarrow> lws_account list \<Rightarrow> pow_sync list \<Rightarrow> db \<Rightarrow> (db \<times> lws_account list \<times> update_result) \<times> lws_account list outcome" where
  "store_users S chain users pow d =
     (if users = [] then ((d, users, empty_result), Goes_on users)
      else if chain = [] then ((d, users, empty_result), Throws std_invalid_argument)
      else if \<not> sorted (map la_height users) then ((d, users, empty_result), Throws std_invalid_argument)
      else
        let base_height = la_height (users ! 0) in
        case update (se_storage S) base_height chain users pow (so_regtest (se_options S)) d of
          Inl e \<Rightarrow>
            if e = blockchain_reorg then ((d, users, empty_result), Returns False)
            else ((d, users, empty_result), Throws e)
        | Inr (d, out) \<Rightarrow>
            let users' = push_updates (se_internal_pub S) (base_height + of_nat (length chain) - 1) users in
            ((d, users', out),
             if ur_accounts_updated out \<noteq> length users then Returns False else Goes_on users'))"

section \<open>The loop of a thread\<close>

record loop_state =
  ls_db :: db
  ls_users :: "lws_account list"
  ls_start_height :: u64 \<comment> \<open>of the request that is answered next\<close>
  ls_last_pow :: block_id
  ls_queue :: scan_queue
  ls_waiting :: bool \<comment> \<open>for the next block, in \<^verbatim>\<open>wait_for_block\<close>\<close>

text \<open>The part before the loop; no accounts is a return at once.\<close>

definition loop_start :: "scan_env \<Rightarrow> lws_account list \<Rightarrow> scan_queue \<Rightarrow> db \<Rightarrow> loop_state outcome" where
  "loop_start S users q d =
     (if users = [] then Returns True
      else
        let users = sort_key la_height users in
        case (if so_untrusted_daemon (se_options S) \<and> se_disk S
              then eunwrap (ebind (get_last_pow_block (se_storage S) d) (\<lambda>p. Inr (bp_id p))) else Inr 0) of
          Inl e \<Rightarrow> Throws e
        | Inr last_pow \<Rightarrow>
            Goes_on \<lparr>ls_db = d, ls_users = users, ls_start_height = max 1 (la_height (users ! 0)), ls_last_pow = last_pow,
              ls_queue = q, ls_waiting = False\<rparr>)"

text \<open>New accounts from the queue, sorted in; \<open>None\<close> when the thread is told to have none.\<close>

definition take_accounts :: "queue_status \<Rightarrow> lws_account list \<Rightarrow> (bool \<times> lws_account list) option" where
  "take_accounts q users =
     (if qs_replace q = Some [] \<and> qs_push q = [] then None
      else
        let users' = (case qs_replace q of None \<Rightarrow> users | Some us \<Rightarrow> us) @ qs_push q;
            resort = (qs_replace q \<noteq> None \<or> qs_push q \<noteq> []) in
        Some (resort, if resort then sort_key la_height users' else users'))"

text \<open>The blocks to scan and the state of their loop; the first block of the message is the one scanned last.\<close>

definition first_state :: "scan_env \<Rightarrow> fetched_blocks \<Rightarrow> lws_account list \<Rightarrow> db \<Rightarrow> block_state outcome" where
  "first_state S fetched users d =
     (let b = hd (fb_blocks fetched);
          untrusted = so_untrusted_daemon (se_options S);
          start = (if fb_start_height fetched \<noteq> 1 then fb_start_height fetched else 0) in
      case (if se_disk S \<and> untrusted then eunwrap (get_pow_window (se_storage S) d start)
            else Inr \<lparr>pw_pow_timestamps = [], pw_cumulative_diffs = [], pw_median_timestamps = []\<rparr>) of
        Inl e \<Rightarrow> Throws e
      | Inr w \<Rightarrow>
          Goes_on \<lparr>bs_db = d, bs_users = users, bs_height = start, bs_chain = [block_hash (se_chain S) b], bs_window = w,
                   bs_new_pow = (if untrusted then [plain_entry (cb_timestamp b)] else []), bs_diff = 0\<rparr>)"

definition new_blocks :: "fetched_blocks \<Rightarrow> (chain_block \<times> u64 list list) list" where
  "new_blocks fetched =
     (let blocks = zip (fb_blocks fetched) (fb_output_indices fetched) in
      if fb_start_height fetched \<noteq> 1 then tl blocks else blocks)"

text \<open>
  The blocks of an answer. The window of an untrusted daemon without a database lives from
  one answer to the next, which is left out: \<^verbatim>\<open>scanner::run\<close> refuses an untrusted daemon together with remote threads.
\<close>

definition loop_blocks :: "scan_env \<Rightarrow> fetched_blocks \<Rightarrow> loop_state \<Rightarrow> db \<times> loop_state outcome" where
  "loop_blocks S fetched st =
     (if length (fb_blocks fetched) \<noteq> length (fb_output_indices fetched) then (ls_db st, Throws std_runtime_error)
      else case first_state S fetched (ls_users st) (ls_db st) of
        Throws e \<Rightarrow> (ls_db st, Throws e)
      | Returns r \<Rightarrow> (ls_db st, Returns r)
      | Goes_on s \<Rightarrow>
          (case scan_blocks S (ls_last_pow st) (bs_height s) (new_blocks fetched) s of
             (t, Throws e) \<Rightarrow> (bs_db t, Throws e)
           | (t, Returns r) \<Rightarrow> (bs_db t, Returns r)
           | (_, Goes_on t) \<Rightarrow>
               (case store_users S (bs_chain t) (bs_users t) (bs_new_pow t) (bs_db t) of
                  ((d, _), Throws e) \<Rightarrow> (d, Throws e)
                | ((d, _), Returns r) \<Rightarrow> (d, Returns r)
                | ((d, _), Goes_on users) \<Rightarrow> (d, Goes_on (st\<lparr>ls_db := d, ls_users := users, ls_queue := update_min_height (la_height (users ! 0)) (ls_queue st)\<rparr>)))))"

text \<open>
  What \<^verbatim>\<open>client.get_message\<close> and the parser give. With a single block the thread waits for the next one before it asks again.
\<close>

datatype daemon_answer = Daemon_timed_out | Daemon_interrupted | Daemon_failed error | Daemon_answer "fetched_blocks expect"

definition loop_step :: "scan_env \<Rightarrow> daemon_answer \<Rightarrow> loop_state \<Rightarrow> (db \<times> scan_queue) \<times> loop_state outcome" where
  "loop_step S resp st =
     (case resp of
        Daemon_timed_out \<Rightarrow> ((ls_db st, ls_queue st), Returns False)
      | Daemon_interrupted \<Rightarrow> ((ls_db st, ls_queue st), Returns False)
      | Daemon_failed e \<Rightarrow> ((ls_db st, ls_queue st), Throws e)
      | Daemon_answer (Inl e) \<Rightarrow> ((ls_db st, ls_queue st), Returns False)
      | Daemon_answer (Inr fetched) \<Rightarrow>
          if fb_blocks fetched = [] then ((ls_db st, ls_queue st), Throws std_runtime_error)
          else if fb_start_height fetched \<noteq> ls_start_height st then ((ls_db st, ls_queue st), Returns False)
          else
            (case queue_get_accounts (ls_queue st) of (status, q) \<Rightarrow>
             case take_accounts status (ls_users st) of
               None \<Rightarrow> ((ls_db st, q), Returns True)
             | Some (resort, users) \<Rightarrow>
                 let st = st\<lparr>ls_users := users, ls_queue := q\<rparr> in
                 if resort \<and> la_height (users ! 0) < fb_start_height fetched
                 then ((ls_db st, q), Goes_on (st\<lparr>ls_start_height := la_height (users ! 0)\<rparr>))
                 else
                   let st = st\<lparr>ls_start_height := fb_start_height fetched + of_nat (length (fb_blocks fetched)) - 1\<rparr> in
                   if length (fb_blocks fetched) \<le> 1 then ((ls_db st, q), Goes_on (st\<lparr>ls_waiting := True\<rparr>))
                   else case loop_blocks S fetched st of (d, r) \<Rightarrow> ((d, q), r)))"

section \<open>Waiting for a block\<close>

text \<open>The message about a new chain: height and hash of its top, \<open>None\<close> when it cannot be parsed.\<close>

definition is_new_block :: "scan_env \<Rightarrow> db \<Rightarrow> (block_id \<times> hash) option \<Rightarrow> lws_account \<Rightarrow> bool" where
  "is_new_block S d chain user =
     (case chain of
        None \<Rightarrow> False
      | Some (top_height, top_id) \<Rightarrow>
          if la_height user < top_height then True
          else if \<not> se_disk S then True
          else if get_block_hash (se_storage S) d top_height \<noteq> Inr top_id then True
          else case get_account (se_storage S) d active (la_id user) of
            Inl _ \<Rightarrow> True
          | Inr user_db \<Rightarrow> acc_scan_height user_db \<noteq> la_height user)"

text \<open>The callbacks for transactions of the pool; the state is the list of webhook events sent.\<close>

definition pool_hooks :: "env \<Rightarrow> lws_account \<Rightarrow> db_output \<Rightarrow> db \<Rightarrow> webhook_tx_confirmation list" where
  "pool_hooks E user out d =
     map (\<lambda>hook. \<lparr>tc_key = Webhook_key (la_id user) tx_confirmation, tc_value = (fst hook, (snd hook)\<lparr>wh_confirmations := 0\<rparr>), tc_tx_info = out\<rparr>)
       (find_webhook E d (Webhook_key (la_id user) tx_confirmation) (le_u64 (out_payment_id out)))"

definition pool_test :: "scan_env \<Rightarrow> webhook_tx_confirmation list ownership_test" where
  "pool_test S = \<lparr>on_spend = (\<lambda>user sp s. (user, s)), on_output = (\<lambda>user out d s. (user, s @ pool_hooks (se_storage S) user out d)),
     ot_subaddress = (let max_sub = so_max_subaddresses (se_options S) in if 0 < max_sub then Some (Disk_reader max_sub) else None)\<rparr>"

fun pool_txs :: "scan_env \<Rightarrow> lws_account list \<Rightarrow> u64 \<Rightarrow> transaction list \<Rightarrow> db \<times> webhook_tx_confirmation list \<Rightarrow> (db \<times> webhook_tx_confirmation list) \<times> unit expect" where
  "pool_txs S users time [] ds = (ds, Inr ())"
| "pool_txs S users time (tx # txs) ds =
     (case scan_transaction (se_storage S) (se_library S) (pool_test S) users txpool_block time None tx (replicate 256 (- 1)) ds of
        (ds, Inl e) \<Rightarrow> (ds, Inl e)
      | (ds, Inr _) \<Rightarrow> pool_txs S users time txs ds)"

text \<open>A message of the pool, \<open>None\<close> when it cannot be parsed. The callbacks leave the accounts as they are.\<close>

definition scan_transactions :: "scan_env \<Rightarrow> lws_account list \<Rightarrow> u64 \<Rightarrow> transaction list option \<Rightarrow> db \<times> webhook_tx_confirmation list \<Rightarrow> (db \<times> webhook_tx_confirmation list) \<times> unit expect" where
  "scan_transactions S users time parsed ds = (case parsed of None \<Rightarrow> (ds, Inr ()) | Some txs \<Rightarrow> pool_txs S users time txs ds)"

datatype pub_message = Block_pub "(block_id \<times> hash) option" | Txpool_pub "transaction list option"

datatype waited = Wait_interrupted | Wait_account_change | Wait_error | Wait_pubs "pub_message list"

fun is_block_pub :: "pub_message \<Rightarrow> bool" where
  "is_block_pub (Block_pub _) = True"
| "is_block_pub (Txpool_pub _) = False"

fun pool_messages :: "scan_env \<Rightarrow> lws_account list \<Rightarrow> u64 \<Rightarrow> pub_message list \<Rightarrow> db \<times> webhook_tx_confirmation list \<Rightarrow> (db \<times> webhook_tx_confirmation list) \<times> unit expect" where
  "pool_messages S users time [] ds = (ds, Inr ())"
| "pool_messages S users time (Block_pub _ # ms) ds = pool_messages S users time ms ds"
| "pool_messages S users time (Txpool_pub m # ms) ds =
     (case scan_transactions S users time m ds of
        (ds, Inl e) \<Rightarrow> (ds, Inl e)
      | (ds, Inr _) \<Rightarrow> pool_messages S users time ms ds)"

text \<open>One round of the wait: transactions of the pool first, then the blocks.\<close>

definition wait_step :: "scan_env \<Rightarrow> u64 \<Rightarrow> waited \<Rightarrow> loop_state \<Rightarrow> (db \<times> webhook_tx_confirmation list) \<times> loop_state outcome" where
  "wait_step S time w st =
     (case w of
        Wait_interrupted \<Rightarrow> ((ls_db st, []), Returns False)
      | Wait_account_change \<Rightarrow> ((ls_db st, []), Goes_on (st\<lparr>ls_waiting := \<not> has_accounts (ls_queue st)\<rparr>))
      | Wait_error \<Rightarrow> ((ls_db st, []), Goes_on (st\<lparr>ls_waiting := False\<rparr>))
      | Wait_pubs ms \<Rightarrow>
          (case (if se_disk S then pool_messages S (ls_users st) time ms (ls_db st, []) else ((ls_db st, []), Inr ())) of
             (ds, Inl e) \<Rightarrow> (ds, Throws e)
           | ((d, sent), Inr _) \<Rightarrow>
               ((d, sent),
                Goes_on (st\<lparr>ls_db := d, ls_waiting := \<not> list_ex (\<lambda>m. case m of
                   Block_pub chain \<Rightarrow> is_new_block S d chain (ls_users st ! 0) | Txpool_pub _ \<Rightarrow> False) ms\<rparr>))))"

section \<open>The life of a thread\<close>

text \<open>
  \<^verbatim>\<open>do_scan_loop\<close>: a thread scans, is idle, or is gone; the flag says that it went with an exception, which shuts the process down. When it goes
  it stops the other threads.
\<close>

datatype thread_state = Scanning loop_state | Idle scan_queue | Gone bool

datatype thread_event =
    Queue_event queue_op \<comment> \<open>the server hands over accounts\<close>
  | Answer_event daemon_answer
  | Wait_event u64 waited
  | Wake_event \<comment> \<open>an idle thread returns from \<^verbatim>\<open>wait_for_accounts\<close>\<close>
  | Write_event db \<comment> \<open>another thread has written to the database\<close>
  | Halt_event \<comment> \<open>\<^verbatim>\<open>stop_\<close> is seen\<close>

definition begin_scan :: "scan_env \<Rightarrow> lws_account list \<Rightarrow> scan_queue \<Rightarrow> db \<Rightarrow> thread_state" where
  "begin_scan S users q d =
     (if users = [] then Idle q
      else case loop_start S users q d of Goes_on st \<Rightarrow> Scanning st | Returns _ \<Rightarrow> Idle q | Throws _ \<Rightarrow> Gone True)"

definition after_loop :: "db \<times> scan_queue \<Rightarrow> loop_state outcome \<Rightarrow> db \<times> thread_state" where
  "after_loop dq r = (fst dq,
     case r of Goes_on st \<Rightarrow> Scanning st | Returns True \<Rightarrow> Idle (snd dq) | Returns False \<Rightarrow> Gone False | Throws _ \<Rightarrow> Gone True)"

definition queue_event :: "queue_op \<Rightarrow> scan_queue \<Rightarrow> scan_queue" where
  "queue_event p q = (case p of Take \<Rightarrow> q | Min_height _ \<Rightarrow> q | _ \<Rightarrow> fst (queue_step p (q, [])))"

fun thread_step :: "scan_env \<Rightarrow> thread_event \<Rightarrow> db \<times> thread_state \<Rightarrow> db \<times> thread_state" where
  "thread_step S (Queue_event p) (d, Scanning st) = (d, Scanning (st\<lparr>ls_queue := queue_event p (ls_queue st)\<rparr>))"
| "thread_step S (Queue_event p) (d, Idle q) = (d, Idle (queue_event p q))"
| "thread_step S (Answer_event a) (d, Scanning st) =
     (if ls_waiting st then (d, Scanning st)
      else case loop_step S a (st\<lparr>ls_db := d\<rparr>) of (dq, r) \<Rightarrow> after_loop dq r)"
| "thread_step S (Wait_event time w) (d, Scanning st) =
     (if \<not> ls_waiting st then (d, Scanning st)
      else case wait_step S time w (st\<lparr>ls_db := d\<rparr>) of ((d, sent), r) \<Rightarrow> after_loop (d, ls_queue st) r)"
| "thread_step S Wake_event (d, Idle q) =
     (case wait_for_accounts q of
        None \<Rightarrow> (d, Idle q)
      | Some (status, q) \<Rightarrow> (d, begin_scan S (after_take status []) q d))"
| "thread_step S (Write_event d') (d, th) = (d', th)"
| "thread_step S Halt_event (d, th) = (d, case th of Gone e \<Rightarrow> Gone e | _ \<Rightarrow> Gone False)"
| "thread_step S ev (d, th) = (d, th)"

section \<open>Synchronisation\<close>

text \<open>
  The answers of the daemon are a list; \<open>None\<close> is the case that the loop waits for another one. The database is
  returned with the result, also with an error.
\<close>

record chain_hashes =
  ch_hashes :: "hash list"
  ch_start_height :: u64

fun sync_quick :: "env \<Rightarrow> bool \<Rightarrow> chain_hashes expect list \<Rightarrow> hash list \<Rightarrow> db \<Rightarrow> (db \<times> unit expect) option" where
  "sync_quick E regtest resps known d =
     (if known = [] then Some (d, Inl bad_blockchain)
      else case resps of
        [] \<Rightarrow> None
      | Inl e # _ \<Rightarrow> Some (d, Inl e)
      | Inr resp # resps \<Rightarrow>
          if length (ch_hashes resp) \<le> 1 \<or> last (ch_hashes resp) = hd known then Some (d, Inr ())
          else case sync_chain E (ch_start_height resp) (ch_hashes resp) regtest d of
            Inl e \<Rightarrow> Some (d, Inl e)
          | Inr d \<Rightarrow> sync_quick E regtest resps (replicate 10 (last (ch_hashes resp)) @ [last known]) d)"

definition scanner_sync_quick :: "env \<Rightarrow> bool \<Rightarrow> chain_hashes expect list \<Rightarrow> db \<Rightarrow> (db \<times> unit expect) option" where
  "scanner_sync_quick E regtest resps d =
     (case eunwrap (get_chain_sync E d) of
        Inl e \<Rightarrow> Some (d, Inl e)
      | Inr known \<Rightarrow> sync_quick E regtest resps known d)"

definition get_last_checkpoint :: "env \<Rightarrow> block_info expect" where
  "get_last_checkpoint E =
     (if env_points E = [] then Inl (Thrown bad_blockchain)
      else Inr \<lparr>bi_id = fst (last (env_points E)), bi_hash = snd (last (env_points E))\<rparr>)"

record full_state =
  fs_hash :: hash
  fs_ids :: "hash list"
  fs_window :: pow_window
  fs_hashes :: "hash list"
  fs_pow :: "pow_sync list"

text \<open>One block after the overlap.\<close>

definition full_block :: "env \<Rightarrow> chain_library \<Rightarrow> (block_id \<Rightarrow> bool) \<Rightarrow> db \<Rightarrow> block_id \<Rightarrow> block_id \<Rightarrow> block_id \<Rightarrow> chain_block \<Rightarrow> full_state \<Rightarrow> full_state expect" where
  "full_block E C stop d last_checkpoint start height b s =
     (if cb_prev_id b \<noteq> fs_hash s then Inl bad_blockchain
      else ebind (eget bad_blockchain (cl_block_hash C b)) (\<lambda>h.
        let w = trim_window E (fs_window s) in
        if stop height then Inl signal_abort_process
        else ebind (get_target_time C height) (\<lambda>target.
          let diff = cl_next_difficulty C (pw_pow_timestamps w) (pw_cumulative_diffs w) target in
          ebind (if last_checkpoint < height
                 then
                   if \<not> verify_timestamp C (cb_timestamp b) (pw_median_timestamps w) then Inl bad_blockchain
                   else ebind (get_block_longhash E C (cl_hashing_blob C b) height (cb_major_version b) d start (fs_hashes s)) (\<lambda>pow.
                     if \<not> cl_check_hash C pow diff then Inl bad_blockchain else Inr ())
                 else Inr ()) (\<lambda>_.
          let w = extend_window (cb_timestamp b) diff w in
          Inr \<lparr>fs_hash = h, fs_ids = h # fs_ids s, fs_window = w, fs_hashes = fs_hashes s @ [h],
               fs_pow = fs_pow s @ [pow_entry (cb_timestamp b) w]\<rparr>))))"

fun full_blocks :: "env \<Rightarrow> chain_library \<Rightarrow> (block_id \<Rightarrow> bool) \<Rightarrow> db \<Rightarrow> block_id \<Rightarrow> block_id \<Rightarrow> block_id \<Rightarrow> chain_block list \<Rightarrow> full_state \<Rightarrow> full_state expect" where
  "full_blocks E C stop d last_checkpoint start height [] s = Inr s"
| "full_blocks E C stop d last_checkpoint start height (b # bs) s =
     ebind (full_block E C stop d last_checkpoint start (height + 1) b s) (\<lambda>s.
       full_blocks E C stop d last_checkpoint start (height + 1) bs s)"

text \<open>One answer with more than the overlap block: the new list of known blocks and the database.\<close>

definition full_answer :: "env \<Rightarrow> chain_library \<Rightarrow> (block_id \<Rightarrow> bool) \<Rightarrow> block_info \<Rightarrow> hash \<Rightarrow> fetched_blocks \<Rightarrow> hash list \<Rightarrow> db \<Rightarrow> (db \<times> hash list) expect" where
  "full_answer E C stop last_checkpoint h resp ids d =
     (let start = fb_start_height resp; b = hd (fb_blocks resp) in
      ebind (eunwrap (get_pow_window E d start)) (\<lambda>w.
      ebind (full_blocks E C stop d (bi_id last_checkpoint) start start (tl (fb_blocks resp))
               \<lparr>fs_hash = h, fs_ids = [last ids], fs_window = w, fs_hashes = [h], fs_pow = [plain_entry (cb_timestamp b)]\<rparr>) (\<lambda>s.
      ebind (sync_pow E start (fs_hashes s) (fs_pow s) d) (\<lambda>d. Inr (d, fs_ids s)))))"

fun sync_full :: "env \<Rightarrow> chain_library \<Rightarrow> (block_id \<Rightarrow> bool) \<Rightarrow> fetched_blocks expect list \<Rightarrow> hash list \<Rightarrow> db \<Rightarrow> (db \<times> unit expect) option" where
  "sync_full E C stop resps ids d =
     (if ids = [] then Some (d, Inl bad_blockchain)
      else case resps of
        [] \<Rightarrow> None
      | Inl e # _ \<Rightarrow> Some (d, Inl e)
      | Inr resp # resps \<Rightarrow>
          if fb_blocks resp = [] then Some (d, Inl bad_daemon_response)
          else case cl_block_hash C (hd (fb_blocks resp)) of
            None \<Rightarrow> Some (d, Inl bad_blockchain)
          | Some h \<Rightarrow>
              (case get_last_checkpoint E of
                 Inl e \<Rightarrow> Some (d, Inl e)
               | Inr last_checkpoint \<Rightarrow>
                   if length (fb_blocks resp) \<le> 1
                   then Some (d, if get_block_hash E d (fb_start_height resp) \<noteq> Inr h \<or> fb_start_height resp < bi_id last_checkpoint
                                 then Inl bad_daemon_response else Inr ())
                   else case full_answer E C stop last_checkpoint h resp ids d of
                     Inl e \<Rightarrow> Some (d, Inl e)
                   | Inr (d, ids) \<Rightarrow> sync_full E C stop resps ids d))"

definition scanner_sync_full :: "env \<Rightarrow> chain_library \<Rightarrow> (block_id \<Rightarrow> bool) \<Rightarrow> fetched_blocks expect list \<Rightarrow> db \<Rightarrow> (db \<times> unit expect) option" where
  "scanner_sync_full E C stop resps d =
     (case eunwrap (get_pow_sync E d) of
        Inl e \<Rightarrow> Some (d, Inl e)
      | Inr ids \<Rightarrow> sync_full E C stop resps ids d)"

section \<open>Loading the accounts\<close>

text \<open>\<^verbatim>\<open>scanner::run\<close>: all active accounts, and the sorted list of their ids.\<close>

definition run_accounts :: "env \<Rightarrow> (account_address \<Rightarrow> string) \<Rightarrow> db \<Rightarrow> lws_account list \<times> account_id list" where
  "run_accounts E address_string d =
     (let accounts = get_accounts E d active in
      (map (get_full_account E address_string d) accounts,
       fold (\<lambda>a ids. insert_at (lower_bound ids (acc_id a)) (acc_id a) ids) accounts []))"

end
