(* ===== verification/Ownership_Result.thy ===== *)
theory Ownership_Result
  imports Ownership Storage_Reach
begin

text \<open>
  What the test of \<open>Ownership\<close> finds, for the callbacks of a scanner thread: the spends are exactly
  the ring members the account tracks, every recorded output is one the account can spend and its amount
  opens the commitment, and no output the account owns is missed.
\<close>

section \<open>Known subaddresses stay known\<close>

text \<open>The database after some updates of the lookahead.\<close>

definition lookahead_run :: "db \<Rightarrow> db \<Rightarrow> bool" where
  "lookahead_run d d' \<longleftrightarrow> storage_inv d' \<and> storage_step\<^sup>*\<^sup>* d d' \<and> set (db_indexes d) \<subseteq> set (db_indexes d')
     \<and> db_blocks d' = db_blocks d \<and> db_outputs d' = db_outputs d \<and> db_spends d' = db_spends d
     \<and> db_accounts_bh d' = db_accounts_bh d"

lemma lookahead_run_refl: "storage_inv d \<Longrightarrow> lookahead_run d d"
  by (simp add: lookahead_run_def)

lemma lookahead_run_trans: "lookahead_run d d1 \<Longrightarrow> lookahead_run d1 d2 \<Longrightarrow> lookahead_run d d2"
  by (auto simp: lookahead_run_def)

lemma lookahead_run_inv: "lookahead_run d d' \<Longrightarrow> storage_inv d'"
  by (simp add: lookahead_run_def)

text \<open>No account is at another scan height afterwards.\<close>

lemma lookahead_run_heights:
  "storage_inv d \<Longrightarrow> lookahead_run d d' \<Longrightarrow> bh_row ` set (db_accounts d') = bh_row ` set (db_accounts d)"
  by (auto simp: lookahead_run_def storage_inv_def index_inv_def)

context storage_env
begin

lemma find_subaddress_iff:
  assumes "subs_wf d"
  shows "find_subaddress E d uid key = Inr idx \<longleftrightarrow> (\<exists>v. (uid, v) \<in> set (db_indexes d) \<and> sa_subaddress v = key \<and> sa_index v = idx)"
  using assms by (auto simp: find_subaddress_def eget_eq_Inr subs_wf_def t_get_Some_iff)

lemma store_ranges_indexes:
  "subs_wf d \<Longrightarrow> set (db_indexes d) \<subseteq> set (db_indexes (fst (store_ranges E u a k m nd d)))"
  using dupsort_table.bulk_insert_subset [OF indexes]
  by (auto simp: store_ranges_def Let_def subs_wf_def split: option.splits)

lemma upsert_merge_indexes: "db_indexes (fst (upsert_merge E u mx entry s d)) = db_indexes d"
  by (simp add: upsert_merge_def split: option.splits)

lemma upsert_loop_indexes:
  "subs_wf d \<Longrightarrow> set (db_indexes d) \<subseteq> set (db_indexes (fst (upsert_loop E u a k mx subs s d)))"
proof (induction subs arbitrary: s d)
  case (Cons entry subs)
  obtain d1 r1 where d1: "upsert_merge E u mx entry s d = (d1, r1)" by (cases "upsert_merge E u mx entry s d")
  have wf1: "subs_wf d1" and eq1: "db_indexes d1 = db_indexes d"
    using upsert_merge_wf [OF Cons.prems, of u mx entry s] upsert_merge_indexes [of u mx entry s d] d1 by simp_all
  show ?case
  proof (cases r1)
    case (Inl e)
    then show ?thesis using d1 eq1 by simp
  next
    case (Inr x)
    obtain d2 r2 where d2: "store_ranges E u a k (fst entry) (up_new_dict x) d1 = (d2, r2)"
      by (cases "store_ranges E u a k (fst entry) (up_new_dict x) d1")
    have wf2: "subs_wf d2" and sub: "set (db_indexes d1) \<subseteq> set (db_indexes d2)"
      using store_ranges_wf [OF wf1, of u a k "fst entry" "up_new_dict x"]
        store_ranges_indexes [OF wf1, of u a k "fst entry" "up_new_dict x"] d2 by simp_all
    from Cons.IH [OF wf2] sub eq1 show ?thesis using d1 Inr d2 by (auto split: sum.splits)
  qed
qed simp

lemma update_lookahead_run:
  assumes inv: "storage_inv d" and ok: "update_lookahead E address h match mx d = Inr (d', n)"
  shows "lookahead_run d d'"
proof -
  have up: "set (db_indexes d) \<subseteq> set (db_indexes (fst (do_upsert E u a k subs mx d)))" for u a k subs
    using upsert_loop_indexes [OF storage_inv_subs_wf [OF inv]] by (simp add: do_upsert_def Let_def)
  then have la: "set (db_indexes d) \<subseteq> set (db_indexes (fst (lookahead_upsert E user address match mx d)))" for user
    by (simp add: lookahead_upsert_def Let_def)
  have fr: "without_subs (fst (lookahead_upsert E user address match mx d)) = without_subs d" for user
    by (simp add: lookahead_upsert_def Let_def do_upsert_frame)
  from ok consider "d' = d" | user r where "lookahead_upsert E user address match mx d = (d', r)"
    | user r x where "lookahead_upsert E user address match mx d = (x, r)" "db_indexes d' = db_indexes x"
        "db_blocks d' = db_blocks x" "db_outputs d' = db_outputs x" "db_spends d' = db_spends x" "db_accounts_bh d' = db_accounts_bh x"
    by (auto simp: update_lookahead_def Let_def ebind_eq_Inr split: if_splits sum.splits prod.splits)
  then have "set (db_indexes d) \<subseteq> set (db_indexes d')
      \<and> db_blocks d' = db_blocks d \<and> db_outputs d' = db_outputs d \<and> db_spends d' = db_spends d \<and> db_accounts_bh d' = db_accounts_bh d"
  proof cases
    case (2 user r)
    then have "without_subs d' = without_subs d" using fr [of user] by simp
    from without_subsD(1,2,4,5) [OF this] show ?thesis using 2 la [of user] by (simp add: acc_tables_def)
  next
    case (3 user r x)
    then have "without_subs x = without_subs d" using fr [of user] by simp
    from without_subsD(1,2,4,5) [OF this] show ?thesis using 3 la [of user] by (simp add: acc_tables_def)
  qed simp
  moreover have "storage_step d d'" using ok by (intro st_lookahead [OF storage_env_axioms])
  ultimately show ?thesis using update_lookahead_inv [OF inv ok] by (auto simp: lookahead_run_def)
qed

lemma reader_lookahead_run:
  "storage_inv d \<Longrightarrow> lookahead_run d (fst (reader_update_lookahead E r address sh m h d))"
  using update_lookahead_run
  by (auto simp: reader_update_lookahead_def Let_def intro: lookahead_run_refl split: subaddress_reader.splits sum.splits)

lemma find_owner_run:
  "storage_inv d \<Longrightarrow> lookahead_run d (fst (find_owner E L T h i sh P index as d))"
  by (induction as) (auto simp: lookahead_run_refl reader_lookahead_run split: option.splits sum.splits)

lemma lookahead_run_find:
  assumes "storage_inv d" and "lookahead_run d d'" and "find_subaddress E d uid key = Inr idx"
  shows "find_subaddress E d' uid key = Inr idx"
  using assms find_subaddress_iff [OF storage_inv_subs_wf] by (auto simp: lookahead_run_def)

end

section \<open>Spends\<close>

text \<open>The absolute indexes of the ring of an input.\<close>

definition ring_sources :: "u64 \<Rightarrow> u64 list \<Rightarrow> output_id list" where
  "ring_sources amount offsets = map (\<lambda>k. Output_id amount (sum_list (take (Suc k) offsets))) [0..<length offsets]"

definition ring_spend :: "tx_context \<Rightarrow> key_image_value \<Rightarrow> u32 \<Rightarrow> lws_account \<Rightarrow> output_id \<Rightarrow> spend list" where
  "ring_spend c k_image mixin user source =
     (case get_spendable source user of None \<Rightarrow> [] | Some idx \<Rightarrow> [make_spend c k_image mixin source idx])"

fun input_spends :: "tx_context \<Rightarrow> lws_account \<Rightarrow> tx_input \<Rightarrow> spend list" where
  "input_spends c user (Txin_to_key amount offsets k_image) =
     concat (map (ring_spend c k_image (of_nat (length offsets - 1)) user) (ring_sources amount offsets))"
| "input_spends c user _ = []"

definition tx_spends :: "tx_context \<Rightarrow> lws_account \<Rightarrow> spend list" where
  "tx_spends c user = concat (map (input_spends c user) (tx_vin (tc_tx c)))"

definition with_spends :: "spend list \<Rightarrow> lws_account \<Rightarrow> lws_account" where
  "with_spends sps user = user\<lparr>la_spends := la_spends user @ sps\<rparr>"

lemma get_spendable_with_spends [simp]: "get_spendable oid (with_spends sps user) = get_spendable oid user"
  by (simp add: get_spendable_def with_spends_def Let_def)

lemma with_spends_add [simp]: "add_spend sp (with_spends sps user) = with_spends (sps @ [sp]) user"
  by (simp add: add_spend_def with_spends_def)

lemma ring_spend_with_spends [simp]: "ring_spend c k m (with_spends sps user) = ring_spend c k m user"
  by (simp add: ring_spend_def fun_eq_iff)

lemma input_spends_with_spends [simp]: "input_spends c (with_spends sps user) ins = input_spends c user ins"
  by (cases ins) simp_all

lemma scan_ring_spends:
  "scan_ring (scan_test r) c amount k_image mixin g offsets (with_spends sps user, ()) =
    (with_spends (sps @ concat (map (\<lambda>k. ring_spend c k_image mixin user (Output_id amount (g + sum_list (take (Suc k) offsets)))) [0..<length offsets])) user, ())"
proof (induction offsets arbitrary: g sps)
  case (Cons offset offsets)
  have upt: "[0..<length (offset # offsets)] = 0 # map Suc [0..<length offsets]" by (simp add: upt_conv_Cons map_Suc_upt del: upt_Suc)
  have "scan_ring (scan_test r) c amount k_image mixin g (offset # offsets) (with_spends sps user, ()) =
      scan_ring (scan_test r) c amount k_image mixin (g + offset) offsets
        (with_spends (sps @ ring_spend c k_image mixin user (Output_id amount (g + offset))) user, ())"
    by (simp add: scan_test_def Let_def ring_spend_def split: option.split)
  then show ?case unfolding upt Cons.IH by (simp add: comp_def add.assoc)
qed (simp add: with_spends_def)

lemma scan_inputs_spends:
  assumes "scan_inputs (scan_test r) c ins me (with_spends sps user, ()) = (us, Inr me')"
  shows "us = (with_spends (sps @ concat (map (input_spends c user) ins)) user, ())
    \<and> (snd me' AND coinbase_output = 0 \<longleftrightarrow> snd me AND coinbase_output = 0 \<and> Txin_gen \<notin> set ins)"
  using assms
proof (induction ins arbitrary: me sps)
  case (Cons x ins)
  show ?case
  proof (cases x)
    case Txin_gen
    have "(snd me OR coinbase_output) AND coinbase_output \<noteq> 0"
      by (simp add: coinbase_output_def bit.conj_disj_distrib2)
    with Cons.IH [where me = "(fst me, snd me OR coinbase_output)"] Cons.prems Txin_gen show ?thesis by simp
  next
    case (Txin_to_key amount offsets k_image)
    let ?n = "max 1 (length offsets) - 1"
    let ?new = "input_spends c user x"
    have n: "?n = length offsets - 1" by simp
    from Cons.prems Txin_to_key have le: "fits_u32 ?n" by (auto simp: Let_def split: if_splits)
    have "scan_ring (scan_test r) c amount k_image (of_nat ?n) 0 offsets (with_spends sps user, ()) = (with_spends (sps @ ?new) user, ())"
      unfolding scan_ring_spends n by (simp add: Txin_to_key ring_sources_def comp_def)
    then have "scan_inputs (scan_test r) c ins (of_nat ?n, snd me) (with_spends (sps @ ?new) user, ()) = (us, Inr me')"
      using Cons.prems le by (simp add: Txin_to_key Let_def)
    from Cons.IH [OF this] show ?thesis using Txin_to_key by simp
  next
    case Txin_other
    with Cons show ?thesis by simp
  qed
qed (simp add: with_spends_def)

section \<open>Outputs\<close>

text \<open>The account can spend the output with this one-time key: one of the derivations leads to a key of its own.\<close>

definition owned_via :: "env \<Rightarrow> tx_library \<Rightarrow> subaddress_reader option \<Rightarrow> db \<Rightarrow> internal \<Rightarrow> public_key \<Rightarrow> nat \<Rightarrow> key256 \<Rightarrow> address_index \<Rightarrow> bool" where
  "owned_via E L r d i P index derivation recipient \<longleftrightarrow>
     (\<exists>k. tl_subaddress_key L P derivation index = Some k
       \<and> (k = spend_public (in_pubs i) \<and> recipient = Address_index 0 0
          \<or> r \<noteq> None \<and> find_subaddress E d (in_id i) k = Inr recipient))"

text \<open>
  The amount: in the clear, or hidden in a commitment that the mask and the amount open.
\<close>

definition amount_opens :: "tx_library \<Rightarrow> transaction \<Rightarrow> nat \<Rightarrow> u64 \<Rightarrow> key256 \<Rightarrow> bool" where
  "amount_opens L tx index amount msk =
     (if to_amount (tx_vout tx ! index) = 0 \<and> Txin_gen \<notin> set (tx_vin tx) \<and> 1 < tx_version tx
      then \<exists>a. tl_h2d L a = Some amount \<and> index < length (tx_out_pk tx) \<and> tx_out_pk tx ! index = tl_commit L msk a
      else amount = to_amount (tx_vout tx ! index))"

text \<open>What is known of a recorded output.\<close>

definition receipt :: "env \<Rightarrow> tx_library \<Rightarrow> subaddress_reader option \<Rightarrow> tx_context \<Rightarrow> internal \<Rightarrow> (nat \<Rightarrow> (key256 \<times> public_key) list) \<Rightarrow> db \<Rightarrow> nat \<Rightarrow> db_output \<Rightarrow> bool" where
  "receipt E L r c i keys d index out \<longleftrightarrow>
     to_key (tx_vout (tc_tx c) ! index) = Some (out_pub out) \<and> out_link out = tc_link c
     \<and> sm_index (out_spend_meta out) = of_nat index
     \<and> sm_id (out_spend_meta out) = Output_id (if tx_version (tc_tx c) < 2 then to_amount (tx_vout (tc_tx c) ! index) else 0) (tc_out_ids c ! index)
     \<and> (\<exists>derivation. (derivation, sm_tx_public (out_spend_meta out)) \<in> set (keys index)
          \<and> owned_via E L r d i (out_pub out) index derivation (out_recipient out))
     \<and> amount_opens L (tc_tx c) index (sm_amount (out_spend_meta out)) (out_ringct_mask out)"

lemma find_owner_sound:
  assumes "find_owner E L (scan_test r) h i sh P index as d = (d', Some (recipient, derivation, pub))"
  shows "(derivation, pub) \<in> set as \<and> owned_via E L r d i P index derivation recipient"
  using assms
  by (induction as) (auto simp: owned_via_def scan_test_def split: option.splits sum.splits if_splits)

lemma find_owner_complete:
  assumes "find_owner E L (scan_test r) h i sh P index as d = (d', None)" and "(derivation, pub) \<in> set as"
  shows "\<not> owned_via E L r d i P index derivation recipient"
  using assms
  by (induction as) (auto simp: owned_via_def scan_test_def split: option.splits sum.splits if_splits)

lemma output_amount_opens:
  assumes "output_amount L tx ext derivation index = Inr (Some (amount, msk, ext'))"
    and "ext AND coinbase_output = 0 \<longleftrightarrow> Txin_gen \<notin> set (tx_vin tx)"
  shows "amount_opens L tx index amount msk \<and> ext' AND coinbase_output = ext AND coinbase_output"
proof -
  have "(ext OR ringct_output) AND coinbase_output = ext AND coinbase_output"
    by (simp add: bit.conj_disj_distrib2 ringct_output_def coinbase_output_def)
  then show ?thesis using assms
    by (auto simp: output_amount_def amount_opens_def decode_amount_def Let_def split: if_splits)
qed

lemma scan_output_cases:
  assumes run: "scan_output E L (scan_test r) c i derived additional mixin index s = (s', res)"
  obtains (skip) "s' = s" "res = Inr ()" "to_key (tx_vout (tc_tx c) ! index) = None \<or> \<not> out_matched L c derived additional index"
    | (unowned) P d where "to_key (tx_vout (tc_tx c) ! index) = Some P"
        "find_owner E L (scan_test r) (tc_height c) i (la_height (os_user s)) P index (attempts c derived additional index) (os_db s) = (d, None)"
        "s' = s\<lparr>os_db := d\<rparr>"
    | (undecoded) P d recipient derivation pub where "to_key (tx_vout (tc_tx c) ! index) = Some P"
        "find_owner E L (scan_test r) (tc_height c) i (la_height (os_user s)) P index (attempts c derived additional index) (os_db s)
          = (d, Some (recipient, derivation, pub))"
        "s' = s\<lparr>os_db := d\<rparr>" "output_amount L (tc_tx c) (os_ext s) derivation index = Inr None \<or> (\<exists>e. res = Inl e)"
    | (decoded) P d recipient derivation pub amt where "to_key (tx_vout (tc_tx c) ! index) = Some P"
        "find_owner E L (scan_test r) (tc_height c) i (la_height (os_user s)) P index (attempts c derived additional index) (os_db s)
          = (d, Some (recipient, derivation, pub))"
        "output_amount L (tc_tx c) (os_ext s) derivation index = Inr (Some amt)"
        "os_db s' = d" "os_ext s' = snd (snd amt)"
        "os_user s' = fst (add_received (make_output L c mixin index P pub amt (os_payment s') recipient) (os_user s))
         \<or> os_user s' = os_user s \<and> (\<exists>e. res = Inl e)"
proof (cases "to_key (tx_vout (tc_tx c) ! index)")
  case None
  then show ?thesis using run skip by (simp add: scan_output_def)
next
  case key: (Some P)
  show ?thesis
  proof (cases "out_matched L c derived additional index")
    case False
    then show ?thesis using run key skip by (simp add: scan_output_def)
  next
    case True
    obtain d own where fo: "find_owner E L (scan_test r) (tc_height c) i (la_height (os_user s)) P index (attempts c derived additional index) (os_db s) = (d, own)"
      by fastforce
    show ?thesis
    proof (cases own)
      case None
      with run key True fo have "s' = s\<lparr>os_db := d\<rparr>" by (simp add: scan_output_def)
      then show ?thesis using unowned key fo None by blast
    next
      case (Some o1)
      then obtain recipient derivation pub where o1: "own = Some (recipient, derivation, pub)" by (cases o1) auto
      note fo1 = fo [unfolded o1]
      show ?thesis
      proof (cases "output_amount L (tc_tx c) (os_ext s) derivation index")
        case (Inl e)
        then have "s' = s\<lparr>os_db := d\<rparr>" "res = Inl e" using run key True fo1 by (simp_all add: scan_output_def)
        then show ?thesis using undecoded key fo1 by blast
      next
        case (Inr am)
        show ?thesis
        proof (cases am)
          case None
          then have "s' = s\<lparr>os_db := d\<rparr>" using run key True fo1 Inr by (simp add: scan_output_def)
          then show ?thesis using undecoded key fo1 Inr None by blast
        next
          case (Some amt)
          have "os_db s' = d" "os_ext s' = snd (snd amt)"
            "os_user s' = fst (add_received (make_output L c mixin index P pub amt (os_payment s') recipient) (os_user s))
              \<or> os_user s' = os_user s \<and> (\<exists>e. res = Inl e)"
            using run key True fo1 Inr Some by (auto simp: scan_output_def scan_test_def Let_def split: if_splits)
          then show ?thesis using decoded [OF key fo1] Inr Some by blast
        qed
      qed
    qed
  qed
qed

context storage_env
begin

text \<open>One output.\<close>

lemma scan_output_step:
  assumes "scan_output E L (scan_test r) c i derived additional mixin index s = (s', res)"
    and inv: "storage_inv (os_db s)" and ext: "os_ext s AND coinbase_output = 0 \<longleftrightarrow> Txin_gen \<notin> set (tx_vin (tc_tx c))"
  shows "lookahead_run (os_db s) (os_db s')" "os_ext s' AND coinbase_output = 0 \<longleftrightarrow> Txin_gen \<notin> set (tx_vin (tc_tx c))"
    "os_user s' = os_user s \<or> (\<exists>out. os_user s' = fst (add_received out (os_user s))
       \<and> receipt E L r c i (attempts c derived additional) (os_db s') index out)"
proof -
  have run: "lookahead_run (os_db s) d"
    if "find_owner E L (scan_test r) (tc_height c) i (la_height (os_user s)) P index (attempts c derived additional index) (os_db s) = (d, x)" for P d x
    using find_owner_run [OF inv, of L "scan_test r" "tc_height c" i "la_height (os_user s)" P index "attempts c derived additional index"] that by simp
  show "lookahead_run (os_db s) (os_db s')"
    using assms(1) by (cases rule: scan_output_cases) (use run lookahead_run_refl [OF inv] in auto)
  show "os_ext s' AND coinbase_output = 0 \<longleftrightarrow> Txin_gen \<notin> set (tx_vin (tc_tx c))"
    using assms(1)
  proof (cases rule: scan_output_cases)
    case (decoded P d recipient derivation pub amt)
    obtain amount msk ext' where "amt = (amount, msk, ext')" by (cases amt)
    then show ?thesis using output_amount_opens [OF decoded(3) [unfolded \<open>amt = _\<close>] ext] ext decoded(5) by simp
  qed (use ext in simp_all)
  show "os_user s' = os_user s \<or> (\<exists>out. os_user s' = fst (add_received out (os_user s))
       \<and> receipt E L r c i (attempts c derived additional) (os_db s') index out)"
    using assms(1)
  proof (cases rule: scan_output_cases)
    case (decoded P d recipient derivation pub amt)
    obtain amount msk ext' where amt: "amt = (amount, msk, ext')" by (cases amt)
    have owned: "(derivation, pub) \<in> set (attempts c derived additional index)" "owned_via E L r (os_db s') i P index derivation recipient"
      using find_owner_sound [OF decoded(2)] lookahead_run_find [OF inv run [OF decoded(2)]] decoded(4)
      by (auto simp: owned_via_def)
    have "receipt E L r c i (attempts c derived additional) (os_db s') index (make_output L c mixin index P pub amt (os_payment s') recipient)"
      using owned decoded(1) output_amount_opens [OF decoded(3) [unfolded amt] ext]
      by (auto simp: receipt_def make_output_def amt)
    with decoded(6) show ?thesis by blast
  qed simp_all
qed

end

section \<open>All outputs of a transaction\<close>

definition receive_all :: "db_output list \<Rightarrow> lws_account \<Rightarrow> lws_account" where
  "receive_all outs user = fold (\<lambda>out u. fst (add_received out u)) outs user"

lemma receive_all_simps [simp]:
  "receive_all [] user = user"
  "receive_all (out # outs) user = receive_all outs (fst (add_received out user))"
  "receive_all (xs @ ys) user = receive_all ys (receive_all xs user)"
  by (simp_all add: receive_all_def)

lemma add_received_fields [simp]:
  "la_immutable (fst (add_received out u)) = la_immutable u" "la_height (fst (add_received out u)) = la_height u"
  "la_spends (fst (add_received out u)) = la_spends u"
  by (simp_all add: add_received_def Let_def)

lemma receive_all_fields [simp]:
  "la_immutable (receive_all outs u) = la_immutable u" "la_height (receive_all outs u) = la_height u"
  "la_spends (receive_all outs u) = la_spends u"
  by (induction outs arbitrary: u) simp_all

lemma receive_all_wf: "account_wf u \<Longrightarrow> account_wf (receive_all outs u)"
  by (induction outs arbitrary: u) (simp_all add: account_wf_add_received)

text \<open>Only the candidates are added, and each candidate's key is known afterwards.\<close>

lemma receive_all_outputs: "\<exists>new. la_outputs (receive_all outs u) = la_outputs u @ new \<and> set new \<subseteq> set outs"
proof (induction outs arbitrary: u)
  case (Cons out outs)
  have "la_outputs (fst (add_received out u)) = la_outputs u \<or> la_outputs (fst (add_received out u)) = la_outputs u @ [out]"
    by (simp add: add_received_def Let_def)
  with Cons.IH [of "fst (add_received out u)"] show ?case by fastforce
qed simp

lemma add_received_pubs:
  "account_wf u \<Longrightarrow> set (la_pubs (fst (add_received out u))) = insert (out_pub out) (set (la_pubs u))"
  by (simp add: add_received_eq) (auto simp: set_insort_key)

lemma receive_all_pubs:
  "account_wf u \<Longrightarrow> set (la_pubs (receive_all outs u)) = out_pub ` set outs \<union> set (la_pubs u)"
  by (induction outs arbitrary: u) (auto simp: add_received_pubs account_wf_add_received)

lemma receive_all_new:
  assumes "account_wf u" and "P \<in> set (la_pubs (receive_all outs u))" and "P \<notin> set (la_pubs u)"
  shows "\<exists>out \<in> set (la_outputs (receive_all outs u)). out \<in> set outs \<and> out_pub out = P"
  using assms
proof (induction outs arbitrary: u)
  case (Cons out outs)
  let ?u = "fst (add_received out u)"
  note wf = account_wf_add_received [OF Cons.prems(1), of out]
  show ?case
  proof (cases "P \<in> set (la_pubs ?u)")
    case True
    then have "out_pub out = P" "out \<in> set (la_outputs ?u)"
      using Cons.prems by (auto simp: add_received_eq set_insort_key split: if_splits)
    then have "out \<in> set (la_outputs (receive_all (out # outs) u))"
      using receive_all_outputs [of outs ?u] by (metis Un_iff receive_all_simps(2) set_append)
    then show ?thesis using \<open>out_pub out = P\<close> by auto
  next
    case False
    then show ?thesis using Cons.IH [OF wf] Cons.prems(2) by auto
  qed
qed simp

definition hidden_amount :: "transaction \<Rightarrow> nat \<Rightarrow> bool" where
  "hidden_amount tx index \<longleftrightarrow> to_amount (tx_vout tx ! index) = 0 \<and> Txin_gen \<notin> set (tx_vin tx) \<and> 1 < tx_version tx"

text \<open>The amount of the output can be decoded with the derivation.\<close>

definition decodes :: "tx_library \<Rightarrow> transaction \<Rightarrow> nat \<Rightarrow> key256 \<Rightarrow> bool" where
  "decodes L tx index derivation \<longleftrightarrow> (hidden_amount tx index \<longrightarrow>
     decode_amount L (tx_out_pk tx ! index) (tx_ecdh_info tx ! index) derivation index (tl_bulletproof2 L \<le> tx_rct_type tx) \<noteq> None)"

lemma output_amount_decodes:
  assumes "ext AND coinbase_output = 0 \<longleftrightarrow> Txin_gen \<notin> set (tx_vin tx)" and "decodes L tx index derivation"
  shows "output_amount L tx ext derivation index \<noteq> Inr None"
  using assms by (auto simp: output_amount_def decodes_def hidden_amount_def Let_def)

text \<open>
  The output at the index belongs to the account: one of the derivations leads from its key to a key of the account
  in the database \<open>d\<close> before the scan, and with each derivation that does so, for the subaddresses known up to the
  database \<open>d'\<close> after the scan, the amount can be decoded. Nothing is asked of a derivation that leads to no key
  of the account.
\<close>

definition owns_output :: "env \<Rightarrow> tx_library \<Rightarrow> subaddress_reader option \<Rightarrow> tx_context \<Rightarrow> internal \<Rightarrow> key256 \<Rightarrow> key256 list \<Rightarrow> db \<Rightarrow> db \<Rightarrow> nat \<Rightarrow> public_key \<Rightarrow> bool" where
  "owns_output E L r c i derived additional d d' index P \<longleftrightarrow>
     to_key (tx_vout (tc_tx c) ! index) = Some P \<and> out_matched L c derived additional index
     \<and> (\<exists>a \<in> set (attempts c derived additional index). \<exists>recipient. owned_via E L r d i P index (fst a) recipient)
     \<and> (\<forall>a \<in> set (attempts c derived additional index). \<forall>recipient. owned_via E L r d' i P index (fst a) recipient
          \<longrightarrow> decodes L (tc_tx c) index (fst a))"

context storage_env
begin

lemma owned_via_mono:
  "storage_inv d \<Longrightarrow> lookahead_run d d' \<Longrightarrow> owned_via E L r d i P index der rec \<Longrightarrow> owned_via E L r d' i P index der rec"
  using lookahead_run_find by (auto simp: owned_via_def)

lemma receipt_mono:
  "storage_inv d \<Longrightarrow> lookahead_run d d' \<Longrightarrow> receipt E L r c i keys d index out \<Longrightarrow> receipt E L r c i keys d' index out"
  using owned_via_mono by (auto simp: receipt_def)

lemma owns_output_mono:
  assumes "storage_inv d0" and "lookahead_run d0 d" and "storage_inv d'" and "lookahead_run d' d''"
    and "owns_output E L r c i derived additional d0 d'' index P"
  shows "owns_output E L r c i derived additional d d' index P"
  using assms(5) owned_via_mono [OF assms(1,2)] owned_via_mono [OF assms(3,4)] unfolding owns_output_def by blast

lemma scan_output_complete:
  assumes run: "scan_output E L (scan_test r) c i derived additional mixin index s = (s', Inr u)"
    and ext: "os_ext s AND coinbase_output = 0 \<longleftrightarrow> Txin_gen \<notin> set (tx_vin (tc_tx c))"
    and "owns_output E L r c i derived additional (os_db s) (os_db s') index P" and "account_wf (os_user s)"
    and inv: "storage_inv (os_db s)"
  shows "P \<in> set (la_pubs (os_user s'))"
  using run
proof (cases rule: scan_output_cases)
  case (unowned Q d)
  then show ?thesis using assms(3) find_owner_complete [OF unowned(2)] by (auto simp: owns_output_def)
next
  case (undecoded Q d recipient derivation pub)
  have "lookahead_run (os_db s) (os_db s')"
    using find_owner_run [OF inv, of L "scan_test r" "tc_height c" i "la_height (os_user s)" Q index "attempts c derived additional index"]
      undecoded(2,3) by simp
  then have "(derivation, pub) \<in> set (attempts c derived additional index)" "owned_via E L r (os_db s') i Q index derivation recipient"
    using find_owner_sound [OF undecoded(2)] owned_via_mono [OF inv] by blast+
  then show ?thesis using assms(3) undecoded(1,4) output_amount_decodes [OF ext] by (fastforce simp: owns_output_def)
next
  case (decoded Q d recipient derivation pub amt)
  then show ?thesis using assms(3,4) by (auto simp: add_received_pubs owns_output_def make_output_def split: prod.splits)
qed (use assms(3) in \<open>auto simp: owns_output_def\<close>)

lemma scan_outputs_result:
  assumes "scan_outputs E L (scan_test r) c i derived additional mixin is s = (s', res)"
    and "storage_inv (os_db s)" and "os_ext s AND coinbase_output = 0 \<longleftrightarrow> Txin_gen \<notin> set (tx_vin (tc_tx c))"
  shows "lookahead_run (os_db s) (os_db s') \<and> (\<exists>outs. os_user s' = receive_all outs (os_user s)
    \<and> (\<forall>out \<in> set outs. \<exists>index \<in> set is. receipt E L r c i (attempts c derived additional) (os_db s') index out)
    \<and> (res = Inr () \<longrightarrow> account_wf (os_user s) \<longrightarrow> (\<forall>index \<in> set is. \<forall>P. owns_output E L r c i derived additional (os_db s) (os_db s') index P
        \<longrightarrow> P \<in> out_pub ` set outs \<union> set (la_pubs (os_user s)))))"
  using assms
proof (induction "is" arbitrary: s)
  case Nil
  then show ?case using lookahead_run_refl by (auto intro: exI [of _ "[]"])
next
  case (Cons index rest)
  obtain s1 res1 where s1: "scan_output E L (scan_test r) c i derived additional mixin index s = (s1, res1)" by fastforce
  note step = scan_output_step [OF s1 Cons.prems(2,3)]
  from step(3) obtain outs1 where o1: "os_user s1 = receive_all outs1 (os_user s)"
    "\<forall>out \<in> set outs1. receipt E L r c i (attempts c derived additional) (os_db s1) index out"
  proof
    assume "os_user s1 = os_user s"
    then show thesis by (intro that [of "[]"]) simp_all
  next
    assume "\<exists>out. os_user s1 = fst (add_received out (os_user s)) \<and> receipt E L r c i (attempts c derived additional) (os_db s1) index out"
    then obtain out where "os_user s1 = fst (add_received out (os_user s))" "receipt E L r c i (attempts c derived additional) (os_db s1) index out" by blast
    then show thesis by (intro that [of "[out]"]) simp_all
  qed
  show ?case
  proof (cases res1)
    case (Inl e)
    then have "s' = s1" "res = Inl e" using Cons.prems(1) s1 by simp_all
    then show ?thesis using step(1) o1 by auto
  next
    case (Inr u)
    then have more: "scan_outputs E L (scan_test r) c i derived additional mixin rest s1 = (s', res)" using Cons.prems(1) s1 by simp
    have inv1: "storage_inv (os_db s1)" using step(1) by (rule lookahead_run_inv)
    from Cons.IH [OF more inv1 step(2)] obtain outs2 where run2: "lookahead_run (os_db s1) (os_db s')"
      and o2: "os_user s' = receive_all outs2 (os_user s1)"
      "\<forall>out \<in> set outs2. \<exists>index \<in> set rest. receipt E L r c i (attempts c derived additional) (os_db s') index out"
      and c2: "res = Inr () \<longrightarrow> account_wf (os_user s1) \<longrightarrow> (\<forall>index \<in> set rest. \<forall>P. owns_output E L r c i derived additional (os_db s1) (os_db s') index P
        \<longrightarrow> P \<in> out_pub ` set outs2 \<union> set (la_pubs (os_user s1)))" by blast
    have "lookahead_run (os_db s) (os_db s')" using step(1) run2 by (rule lookahead_run_trans)
    moreover have "os_user s' = receive_all (outs1 @ outs2) (os_user s)" using o1(1) o2(1) by simp
    moreover have "\<forall>out \<in> set (outs1 @ outs2). \<exists>j \<in> set (index # rest). receipt E L r c i (attempts c derived additional) (os_db s') j out"
      using o1(2) o2(2) receipt_mono [OF inv1 run2] by auto
    moreover have "P \<in> out_pub ` set (outs1 @ outs2) \<union> set (la_pubs (os_user s))"
      if ok: "res = Inr ()" and wf: "account_wf (os_user s)" and j: "j \<in> set (index # rest)"
        and own: "owns_output E L r c i derived additional (os_db s) (os_db s') j P" for j P
    proof -
      have pubs: "set (la_pubs (os_user s1)) = out_pub ` set outs1 \<union> set (la_pubs (os_user s))"
        using receive_all_pubs [OF wf] o1(1) by simp
      have own0: "owns_output E L r c i derived additional (os_db s) (os_db s1) j P"
        by (rule owns_output_mono [OF Cons.prems(2) lookahead_run_refl [OF Cons.prems(2)] inv1 run2 own])
      have own1: "owns_output E L r c i derived additional (os_db s1) (os_db s') j P"
        using lookahead_run_inv [OF run2] by (intro owns_output_mono [OF Cons.prems(2) step(1) _ lookahead_run_refl own])
      have "P \<in> set (la_pubs (os_user s1))" if "j = index"
        using scan_output_complete [OF s1 [unfolded Inr] Cons.prems(3)] own0 wf that Cons.prems(2) by simp
      moreover have "P \<in> out_pub ` set outs2 \<union> set (la_pubs (os_user s1))" if "j \<in> set rest"
        using c2 ok receive_all_wf [OF wf] o1(1) own1 that by simp
      ultimately show ?thesis using j pubs by auto
    qed
    ultimately show ?thesis by blast
  qed
qed

end

section \<open>All accounts\<close>

text \<open>How one account is changed, with the databases before and after the transaction.\<close>

definition scanned_with :: "env \<Rightarrow> tx_library \<Rightarrow> subaddress_reader option \<Rightarrow> tx_context \<Rightarrow> db \<Rightarrow> db \<Rightarrow> internal \<Rightarrow> key256 \<Rightarrow> lws_account \<Rightarrow> lws_account \<Rightarrow> bool" where
  "scanned_with E L r c d d' i derived u u' \<longleftrightarrow>
     (let additional = additional_derivations L (scan_test r) c (in_view_key i) in
      \<exists>outs. u' = receive_all outs (with_spends (tx_spends c u) u)
        \<and> (\<forall>out \<in> set outs. \<exists>index < length (tx_vout (tc_tx c)). receipt E L r c i (attempts c derived additional) d' index out)
        \<and> (account_wf u \<longrightarrow> (\<forall>index < length (tx_vout (tc_tx c)). \<forall>P. owns_output E L r c i derived additional d d' index P
             \<longrightarrow> P \<in> out_pub ` set outs \<union> set (la_pubs u))))"

definition account_scanned :: "env \<Rightarrow> tx_library \<Rightarrow> subaddress_reader option \<Rightarrow> tx_context \<Rightarrow> db \<Rightarrow> db \<Rightarrow> lws_account \<Rightarrow> lws_account \<Rightarrow> bool" where
  "account_scanned E L r c d d' u u' \<longleftrightarrow>
     (if tc_height c \<le> la_height u then u' = u
      else \<exists>i. la_immutable u = Some i
        \<and> (case tl_derivation L (tc_pub_key c) (in_view_key i) of None \<Rightarrow> u' = u
           | Some derived \<Rightarrow> scanned_with E L r c d d' i derived u u'))"

lemma account_wf_with_spends [simp]: "account_wf (with_spends sps u) = account_wf u"
  by (simp add: account_wf_def with_spends_def)

lemma with_spends_pubs [simp]: "la_pubs (with_spends sps u) = la_pubs u"
  by (simp add: with_spends_def)

lemma scan_inputs_db: "with_spends [] u = u"
  by (simp add: with_spends_def)

context storage_env
begin

lemma scan_user_run:
  assumes "scan_user E L (scan_test r) c u (d, ()) = ((d', ()), res)" and inv: "storage_inv d"
  shows "lookahead_run d d' \<and> (\<forall>u'. res = Inr u' \<longrightarrow> account_scanned E L r c d d' u u')"
proof (cases "tc_height c \<le> la_height u \<or> la_immutable u = None")
  case True
  then show ?thesis using assms lookahead_run_refl by (auto simp: scan_user_def account_scanned_def split: if_splits)
next
  case False
  then obtain i where i: "la_immutable u = Some i" and h: "\<not> tc_height c \<le> la_height u" by auto
  show ?thesis
  proof (cases "tl_derivation L (tc_pub_key c) (in_view_key i)")
    case None
    then show ?thesis using assms i h lookahead_run_refl by (auto simp: scan_user_def account_scanned_def)
  next
    case (Some derived)
    define additional where "additional = additional_derivations L (scan_test r) c (in_view_key i)"
    obtain us me where ins: "scan_inputs (scan_test r) c (tx_vin (tc_tx c)) (0, 0) (u, ()) = (us, me)" by fastforce
    show ?thesis
    proof (cases me)
      case (Inl e)
      then show ?thesis using assms i h Some ins lookahead_run_refl by (auto simp: scan_user_def)
    next
      case (Inr mx)
      obtain mixin ext where mx: "mx = (mixin, ext)" by (cases mx)
      from scan_inputs_spends [of r c "tx_vin (tc_tx c)" "(0, 0)" "[]" u us mx] ins Inr
      have us: "us = (with_spends (tx_spends c u) u, ())" and ext: "ext AND coinbase_output = 0 \<longleftrightarrow> Txin_gen \<notin> set (tx_vin (tc_tx c))"
        by (simp_all add: scan_inputs_db tx_spends_def mx)
      let ?s = "\<lparr>os_user = with_spends (tx_spends c u) u, os_ext = ext, os_payment = tc_unencrypted_id c, os_db = d, os_state = ()\<rparr>"
      obtain s res1 where outs: "scan_outputs E L (scan_test r) c i derived additional mixin [0..<length (tx_vout (tc_tx c))] ?s = (s, res1)" by fastforce
      have eq: "d' = os_db s" "res = (case res1 of Inl e \<Rightarrow> Inl e | Inr _ \<Rightarrow> Inr (os_user s))"
        using assms(1) i h Some ins Inr mx us outs by (auto simp: scan_user_def additional_def [symmetric] split: sum.splits)
      from scan_outputs_result [OF outs] inv ext obtain cand where run: "lookahead_run d d'"
        and cand: "os_user s = receive_all cand (with_spends (tx_spends c u) u)"
        "\<forall>out \<in> set cand. \<exists>index \<in> set [0..<length (tx_vout (tc_tx c))]. receipt E L r c i (attempts c derived additional) d' index out"
        "res1 = Inr () \<Longrightarrow> account_wf u \<Longrightarrow> \<forall>index \<in> set [0..<length (tx_vout (tc_tx c))]. \<forall>P. owns_output E L r c i derived additional d d' index P
           \<longrightarrow> P \<in> out_pub ` set cand \<union> set (la_pubs u)"
        unfolding eq by auto
      have "scanned_with E L r c d d' i derived u (os_user s)" if "res1 = Inr ()"
        unfolding scanned_with_def Let_def additional_def [symmetric]
        by (rule exI [of _ cand]) (use cand(1,2) cand(3) [OF that] in \<open>simp add: Bex_def Ball_def\<close>)
      then show ?thesis using run eq(2) i h Some by (auto simp: account_scanned_def split: sum.splits)
    qed
  qed
qed

lemma account_scanned_mono:
  assumes "storage_inv d0" and "lookahead_run d0 d" and "lookahead_run d d'" and "lookahead_run d' d''"
    and "account_scanned E L r c d d' u u'"
  shows "account_scanned E L r c d0 d'' u u'"
proof -
  have own: "owns_output E L r c i derived a d0 d'' index P \<Longrightarrow> owns_output E L r c i derived a d d' index P" for i derived a index P
    by (rule owns_output_mono [OF assms(1,2) lookahead_run_inv [OF assms(3)] assms(4)])
  have rec: "receipt E L r c i keys d' index out \<Longrightarrow> receipt E L r c i keys d'' index out" for i keys index out
    by (rule receipt_mono [OF lookahead_run_inv [OF assms(3)] assms(4)])
  have "scanned_with E L r c d0 d'' i derived u u'" if "scanned_with E L r c d d' i derived u u'" for i derived
  proof -
    from that obtain outs where "u' = receive_all outs (with_spends (tx_spends c u) u)"
      "\<forall>out \<in> set outs. \<exists>index < length (tx_vout (tc_tx c)). receipt E L r c i
         (attempts c derived (additional_derivations L (scan_test r) c (in_view_key i))) d' index out"
      "account_wf u \<longrightarrow> (\<forall>index < length (tx_vout (tc_tx c)). \<forall>P. owns_output E L r c i derived
         (additional_derivations L (scan_test r) c (in_view_key i)) d d' index P \<longrightarrow> P \<in> out_pub ` set outs \<union> set (la_pubs u))"
      unfolding scanned_with_def Let_def by blast
    then show ?thesis unfolding scanned_with_def Let_def using own rec by (intro exI [of _ outs]) blast
  qed
  then show ?thesis using assms(5) unfolding account_scanned_def by (auto split: option.splits if_splits)
qed

lemma scan_users_run:
  assumes "scan_users E L (scan_test r) c us (d, ()) = ((d', ()), res)" and "storage_inv d"
  shows "lookahead_run d d' \<and> (\<forall>us'. res = Inr us' \<longrightarrow> list_all2 (account_scanned E L r c d d') us us')"
  using assms
proof (induction us arbitrary: d d' res)
  case Nil
  then show ?case using lookahead_run_refl by auto
next
  case (Cons u us)
  obtain d1 res1 where u: "scan_user E L (scan_test r) c u (d, ()) = ((d1, ()), res1)" by (metis prod.exhaust old.unit.exhaust)
  note one = scan_user_run [OF u Cons.prems(2)]
  show ?case
  proof (cases res1)
    case (Inl e)
    then show ?thesis using Cons.prems(1) u one by auto
  next
    case (Inr u')
    obtain d2 res2 where us: "scan_users E L (scan_test r) c us (d1, ()) = ((d2, ()), res2)" by (metis prod.exhaust old.unit.exhaust)
    have inv1: "storage_inv d1" using one by (blast intro: lookahead_run_inv)
    note more = Cons.IH [OF us inv1]
    have eq: "d' = d2" "res = (case res2 of Inl e \<Rightarrow> Inl e | Inr us' \<Rightarrow> Inr (u' # us'))"
      using Cons.prems(1) u us Inr by (auto split: sum.splits)
    have "lookahead_run d d'" using one more eq(1) by (blast intro: lookahead_run_trans)
    moreover have "account_scanned E L r c d d' u u'"
      using account_scanned_mono [OF Cons.prems(2) lookahead_run_refl [OF Cons.prems(2)]] one more Inr eq(1) by blast
    moreover have "list_all2 (account_scanned E L r c d d') us us'" if "res2 = Inr us'" for us'
      using more that account_scanned_mono [OF Cons.prems(2) _ _ lookahead_run_refl] one eq(1) lookahead_run_inv
      by (auto elim!: list_all2_mono)
    ultimately show ?thesis using eq(2) by (auto split: sum.splits)
  qed
qed

lemma scan_transaction_run:
  assumes "scan_transaction E L (scan_test r) us h ts given tx ids (d, ()) = ((d', ()), res)" and "storage_inv d"
  shows "lookahead_run d d' \<and> (\<forall>us'. res = Inr us' \<longrightarrow>
    (case make_context L (scan_test r) h ts given tx ids of None \<Rightarrow> us' = us | Some c \<Rightarrow> list_all2 (account_scanned E L r c d d') us us'))"
  using assms scan_users_run [OF _ assms(2)] lookahead_run_refl
  by (auto simp: scan_transaction_def split: if_splits option.splits)

end

section \<open>Properties\<close>

text \<open>The transaction is read for the account: the account is behind its block, and the key derivation works.\<close>

definition reads_tx :: "tx_library \<Rightarrow> tx_context \<Rightarrow> lws_account \<Rightarrow> bool" where
  "reads_tx L c u \<longleftrightarrow> tc_height c > la_height u
     \<and> (\<exists>i. la_immutable u = Some i \<and> tl_derivation L (tc_pub_key c) (in_view_key i) \<noteq> None)"

definition spent_rings :: "transaction \<Rightarrow> output_id set" where
  "spent_rings tx = (\<Union>x \<in> set (tx_vin tx). case x of Txin_to_key amount offsets _ \<Rightarrow> set (ring_sources amount offsets) | _ \<Rightarrow> {})"

lemma ring_spend_source:
  assumes "account_wf u"
  shows "sp_source ` set (ring_spend c k m u source) = (if source \<in> fst ` set (la_spendable u) then {source} else {})"
proof -
  have "get_spendable source u = None \<longleftrightarrow> source \<notin> fst ` set (la_spendable u)"
    unfolding get_spendable_eq [OF assms] by (force simp: Let_def)
  then show ?thesis by (auto simp: ring_spend_def make_spend_def split: option.splits)
qed

lemma tx_spends_sources:
  assumes "account_wf u"
  shows "sp_source ` set (tx_spends c u) = spent_rings (tc_tx c) \<inter> fst ` set (la_spendable u)"
proof -
  have "sp_source ` set (input_spends c u x) =
      (case x of Txin_to_key amount offsets _ \<Rightarrow> set (ring_sources amount offsets) | _ \<Rightarrow> {}) \<inter> fst ` set (la_spendable u)" for x
    by (cases x) (auto simp: image_UN ring_spend_source [OF assms] split: if_splits)
  then show ?thesis by (simp add: tx_spends_def spent_rings_def image_UN Int_UN_distrib2)
qed

lemma account_scanned_spends:
  assumes "account_scanned E L r c d d' u u'"
  shows "la_spends u' = la_spends u @ (if reads_tx L c u then tx_spends c u else [])"
proof (cases "reads_tx L c u")
  case True
  then obtain i derived where "\<not> tc_height c \<le> la_height u" "la_immutable u = Some i"
    "tl_derivation L (tc_pub_key c) (in_view_key i) = Some derived" by (auto simp: reads_tx_def not_le)
  with assms have "scanned_with E L r c d d' i derived u u'" by (simp add: account_scanned_def)
  then show ?thesis using True by (auto simp: scanned_with_def with_spends_def Let_def)
next
  case False
  with assms have "u' = u" by (auto simp: account_scanned_def reads_tx_def split: if_splits option.splits)
  then show ?thesis using False by simp
qed

text \<open>
  C10: a scan of a transaction records a spend exactly for the ring members that are outputs of the account.
  Every account that is behind the block gets, in the order of the inputs, one spend for each ring member it
  tracks, and no other; an account at or above the block gets none, so no block counts twice.
\<close>

theorem scan_spends_exact:
  assumes "storage_env E" and "storage_inv d" and "list_all account_wf us"
    and "scan_transaction E L (scan_test r) us h ts given tx ids (d, ()) = ((d', ()), Inr us')"
    and "make_context L (scan_test r) h ts given tx ids = Some c"
  shows "list_all2 (\<lambda>u u'. la_spends u' = la_spends u @ (if reads_tx L c u then tx_spends c u else [])
    \<and> sp_source ` set (tx_spends c u) = spent_rings tx \<inter> fst ` set (la_spendable u)) us us'"
proof -
  have tx: "tc_tx c = tx" using assms(5) by (auto simp: make_context_def Let_def)
  have "list_all2 (account_scanned E L r c d d') us us'"
    using storage_env.scan_transaction_run [OF assms(1,4,2)] assms(5) by auto
  then show ?thesis using assms(3) account_scanned_spends tx_spends_sources tx
    by (auto simp: list_all2_conv_all_nth list_all_length)
qed

text \<open>
  C3: what is credited is really received. Every output a scan adds to an account stands in the transaction with
  this one-time key and index, one of the derivations from the view key leads from it to the spend key of the
  account or to a subaddress key stored for the account, and its amount is the one in the clear or opens the
  commitment of the transaction.
\<close>

theorem scan_outputs_sound:
  assumes "storage_env E" and "storage_inv d"
    and "scan_transaction E L (scan_test r) us h ts given tx ids (d, ()) = ((d', ()), Inr us')"
    and "make_context L (scan_test r) h ts given tx ids = Some c"
  shows "list_all2 (\<lambda>u u'. \<exists>new. la_outputs u' = la_outputs u @ new
    \<and> (new \<noteq> [] \<longrightarrow> reads_tx L c u)
    \<and> (\<forall>out \<in> set new. \<exists>i derived index. la_immutable u = Some i \<and> tl_derivation L (tc_pub_key c) (in_view_key i) = Some derived
        \<and> index < length (tx_vout tx)
        \<and> receipt E L r c i (attempts c derived (additional_derivations L (scan_test r) c (in_view_key i))) d' index out)) us us'"
proof -
  have tx: "tc_tx c = tx" using assms(4) by (auto simp: make_context_def Let_def)
  have "list_all2 (account_scanned E L r c d d') us us'"
    using storage_env.scan_transaction_run [OF assms(1,3,2)] assms(4) by auto
  moreover have "\<exists>new. la_outputs u' = la_outputs u @ new \<and> (new \<noteq> [] \<longrightarrow> reads_tx L c u)
    \<and> (\<forall>out \<in> set new. \<exists>i derived index. la_immutable u = Some i \<and> tl_derivation L (tc_pub_key c) (in_view_key i) = Some derived
        \<and> index < length (tx_vout tx)
        \<and> receipt E L r c i (attempts c derived (additional_derivations L (scan_test r) c (in_view_key i))) d' index out)"
    if s: "account_scanned E L r c d d' u u'" for u u'
  proof (cases "reads_tx L c u")
    case True
    then obtain i derived where i: "la_immutable u = Some i" "tl_derivation L (tc_pub_key c) (in_view_key i) = Some derived"
      and h: "\<not> tc_height c \<le> la_height u" by (auto simp: reads_tx_def)
    from s i h have "scanned_with E L r c d d' i derived u u'" by (simp add: account_scanned_def)
    then obtain outs where outs: "u' = receive_all outs (with_spends (tx_spends c u) u)"
      "\<forall>out \<in> set outs. \<exists>index < length (tx_vout tx). receipt E L r c i
         (attempts c derived (additional_derivations L (scan_test r) c (in_view_key i))) d' index out"
      unfolding scanned_with_def Let_def tx by blast
    from receive_all_outputs [of outs "with_spends (tx_spends c u) u"] outs(1) obtain new where
      "la_outputs u' = la_outputs u @ new" "set new \<subseteq> set outs" by (auto simp: with_spends_def)
    then show ?thesis using outs(2) i True by (intro exI [of _ new]) blast
  next
    case False
    with s have "u' = u" by (auto simp: account_scanned_def reads_tx_def split: if_splits option.splits)
    then show ?thesis by simp
  qed
  ultimately show ?thesis by (auto elim!: list_all2_mono)
qed

text \<open>
  C4: nothing that is received is missed. When the account is behind the block, an output that belongs to it (its
  view tag matches, the main derivation or that of the additional key leads to its spend key or to one of its stored
  subaddresses, and the amount can be decoded with each derivation that does) is recorded, unless an output with the
  same one-time key is known already. The output recorded for the key is a right one: its index, global id, keys,
  subaddress and amount are those of an output of the transaction with this key.
\<close>

theorem scan_outputs_complete:
  assumes "storage_env E" and "storage_inv d"
    and "scan_transaction E L (scan_test r) us h ts given tx ids (d, ()) = ((d', ()), Inr us')"
    and "make_context L (scan_test r) h ts given tx ids = Some c"
    and "n < length us" and "account_wf (us ! n)" and "la_height (us ! n) < h"
    and "la_immutable (us ! n) = Some i" and "tl_derivation L (tc_pub_key c) (in_view_key i) = Some derived"
    and "index < length (tx_vout tx)"
    and "owns_output E L r c i derived (additional_derivations L (scan_test r) c (in_view_key i)) d d' index P"
    and "P \<notin> set (la_pubs (us ! n))"
  shows "\<exists>out \<in> set (la_outputs (us' ! n)). out_pub out = P \<and> (\<exists>index' < length (tx_vout tx).
    receipt E L r c i (attempts c derived (additional_derivations L (scan_test r) c (in_view_key i))) d' index' out)"
proof -
  let ?u = "us ! n" and ?sp = "with_spends (tx_spends c (us ! n)) (us ! n)"
  have c: "tc_tx c = tx" "tc_height c = h" using assms(4) by (auto simp: make_context_def Let_def)
  have "list_all2 (account_scanned E L r c d d') us us'"
    using storage_env.scan_transaction_run [OF assms(1,3,2)] assms(4) by auto
  then have "account_scanned E L r c d d' ?u (us' ! n)" using assms(5) by (rule list_all2_nthD)
  then have "scanned_with E L r c d d' i derived ?u (us' ! n)"
    using assms(7-9) c(2) by (simp add: account_scanned_def not_le [symmetric])
  then obtain outs where outs: "us' ! n = receive_all outs ?sp" "P \<in> out_pub ` set outs \<union> set (la_pubs ?u)"
    "\<forall>out \<in> set outs. \<exists>index < length (tx_vout tx).
       receipt E L r c i (attempts c derived (additional_derivations L (scan_test r) c (in_view_key i))) d' index out"
    using assms(6,10,11) unfolding scanned_with_def Let_def c by blast
  then have "P \<in> set (la_pubs (receive_all outs ?sp))"
    using receive_all_pubs [of ?sp outs] assms(6) by simp
  with receive_all_new [of ?sp P outs] assms(6,12) obtain out where
    "out \<in> set (la_outputs (receive_all outs ?sp))" "out \<in> set outs" "out_pub out = P" by auto
  then show ?thesis using outs by auto
qed

text \<open>A library with linear stand-ins for the curve operations, and a transaction that spends and receives.\<close>

definition sample_library :: tx_library where
  "sample_library = \<lparr>
     tl_parse_extra = (\<lambda>bs. \<lparr>ex_pub_key = Some 500, ex_nonce = None, ex_additional = []\<rparr>),
     tl_payment_id = (\<lambda>_. None), tl_encrypted_payment_id = (\<lambda>_. None),
     tl_tx_hash = (\<lambda>_. 9), tl_prefix_hash = (\<lambda>_. 10), tl_tx_fee = (\<lambda>_. 1),
     tl_derivation = (\<lambda>pub view. Some (pub + view)), tl_can_be_to_acc = (\<lambda>_ _ _. True),
     tl_subaddress_key = (\<lambda>P derivation index. Some (P - derivation - of_nat index)),
     tl_to_scalar = (\<lambda>derivation index. derivation), tl_ecdh_decode = (\<lambda>info scalar _. info\<lparr>ecdh_amount := ecdh_amount info - scalar\<rparr>),
     tl_commit = (\<lambda>msk amount. msk + amount), tl_h2d = (\<lambda>amount. Some (ucast amount)),
     tl_fast_hash = (\<lambda>bs. bs), tl_hash_key_payment_id = 0, tl_identity = 1, tl_bulletproof2 = 4\<rparr>"

definition sample_tx :: transaction where
  "sample_tx = \<lparr>tx_version = 2, tx_unlock_time = 0, tx_extra = [], tx_vin = [Txin_to_key 0 [1, 1, 5] 77],
     tx_vout = [\<lparr>to_amount = 0, to_key = Some 502, to_view_tag = None\<rparr>, \<lparr>to_amount = 0, to_key = Some 900, to_view_tag = None\<rparr>],
     tx_rct_type = 6, tx_out_pk = [30, 40], tx_ecdh_info = [\<lparr>ecdh_mask = 20, ecdh_amount = 511\<rparr>, \<lparr>ecdh_mask = 0, ecdh_amount = 0\<rparr>]\<rparr>"

definition sample_scanners :: "lws_account list" where
  "sample_scanners = [get_full_account sample_env (\<lambda>_. ''addr'') sample_db (sample_account 1 2),
     get_full_account sample_env (\<lambda>_. ''addr'') sample_db (sample_account 2 1)]"

definition sample_context :: tx_context where
  "sample_context = \<lparr>tc_height = 3, tc_timestamp = 60, tc_link = Transaction_link 3 9, tc_tx = sample_tx, tc_out_ids = [41, 42],
     tc_pub_key = 500, tc_nonce = None, tc_unencrypted_id = no_payment_id, tc_additional = []\<rparr>"

definition sample_scan :: "(db \<times> unit) \<times> lws_account list expect" where
  "sample_scan = scan_transaction sample_env sample_library (scan_test (Some (Disk_reader 10))) sample_scanners 3 60 None sample_tx [41, 42] (sample_db, ())"

lemma sample_scan_ok:
  "scan_transaction sample_env sample_library (scan_test (Some (Disk_reader 10))) sample_scanners 3 60 None sample_tx [41, 42] (sample_db, ())
    = ((fst (fst sample_scan), ()), Inr (projr (snd sample_scan)))"
  "make_context sample_library (scan_test (Some (Disk_reader 10))) 3 60 None sample_tx [41, 42] = Some sample_context"
  "list_all account_wf sample_scanners"
proof -
  have "snd sample_scan = Inr (projr (snd sample_scan))" by (rule sum.collapse(2) [symmetric]) code_simp
  then show "scan_transaction sample_env sample_library (scan_test (Some (Disk_reader 10))) sample_scanners 3 60 None sample_tx [41, 42] (sample_db, ())
    = ((fst (fst sample_scan), ()), Inr (projr (snd sample_scan)))"
    unfolding sample_scan_def [symmetric] by (simp add: prod_eq_iff)
  show "make_context sample_library (scan_test (Some (Disk_reader 10))) 3 60 None sample_tx [41, 42] = Some sample_context"
    by (simp add: make_context_def sample_library_def sample_context_def sample_tx_def scan_test_def)
  show "list_all account_wf sample_scanners" by (simp add: sample_scanners_def get_full_account_def)
qed

theorem scan_spends_exact_witness:
  "map (\<lambda>u. map sp_source (la_spends u)) (projr (snd sample_scan)) = [[Output_id 0 1, Output_id 0 2], [Output_id 0 1]]
    \<and> sp_source ` set (tx_spends sample_context (sample_scanners ! 0)) = spent_rings sample_tx \<inter> fst ` set (la_spendable (sample_scanners ! 0))"
proof
  show "map (\<lambda>u. map sp_source (la_spends u)) (projr (snd sample_scan)) = [[Output_id 0 1, Output_id 0 2], [Output_id 0 1]]" by code_simp
  have "0 < length sample_scanners" by (simp add: sample_scanners_def)
  from list_all2_nthD [OF scan_spends_exact [OF sample_env_ok sample_db_inv sample_scan_ok(3,1,2)] this]
  show "sp_source ` set (tx_spends sample_context (sample_scanners ! 0)) = spent_rings sample_tx \<inter> fst ` set (la_spendable (sample_scanners ! 0))"
    by (rule conjunct2)
qed

theorem scan_outputs_sound_witness:
  "map (\<lambda>u. map (\<lambda>out. (out_pub out, sm_amount (out_spend_meta out))) (la_outputs u)) (projr (snd sample_scan)) = [[(502, 10)], []]
    \<and> (\<exists>out \<in> set (la_outputs (hd (projr (snd sample_scan)))). amount_opens sample_library sample_tx 0 (sm_amount (out_spend_meta out)) (out_ringct_mask out))"
proof -
  let ?us = "projr (snd sample_scan)"
  have found: "map (\<lambda>u. map (\<lambda>out. (out_pub out, sm_amount (out_spend_meta out))) (la_outputs u)) ?us = [[(502, 10)], []]" by code_simp
  have idx: "map (\<lambda>out. sm_index (out_spend_meta out)) (la_outputs (hd ?us)) = [0]" by code_simp
  have empty: "la_outputs (sample_scanners ! 0) = []" by (simp add: sample_scanners_def get_full_account_def)
  obtain u u2 where us: "?us = [u, u2]" using found by (auto simp: map_eq_Cons_conv)
  have "\<exists>out. la_outputs u = [out]" using found us by (auto simp: map_eq_Cons_conv)
  then obtain out where out: "la_outputs u = [out]" by blast
  have "0 < length sample_scanners" by (simp add: sample_scanners_def)
  from list_all2_nthD [OF scan_outputs_sound [OF sample_env_ok sample_db_inv sample_scan_ok(1,2)] this] us empty out
  obtain i derived index where rec: "index < length (tx_vout sample_tx)"
    "receipt sample_env sample_library (Some (Disk_reader 10)) sample_context i
      (attempts sample_context derived (additional_derivations sample_library (scan_test (Some (Disk_reader 10))) sample_context (in_view_key i)))
      (fst (fst sample_scan)) index out"
    by auto
  have "index = 0" using rec idx us out by (auto simp: receipt_def sample_tx_def less_Suc_eq)
  then show ?thesis using found us out rec(2) by (auto simp: receipt_def sample_context_def)
qed

text \<open>
  A transaction with additional keys: its first output is received through the key 600, and the amount does not decode with
  the derivation of the main key.
\<close>

definition additional_library :: tx_library where
  "additional_library = sample_library\<lparr>tl_parse_extra := (\<lambda>bs. \<lparr>ex_pub_key = Some 500, ex_nonce = None, ex_additional = [600, 601]\<rparr>)\<rparr>"

definition additional_tx :: transaction where
  "additional_tx = sample_tx\<lparr>tx_vout := [\<lparr>to_amount = 0, to_key = Some 602, to_view_tag = None\<rparr>, \<lparr>to_amount = 0, to_key = Some 900, to_view_tag = None\<rparr>],
     tx_ecdh_info := [\<lparr>ecdh_mask = 20, ecdh_amount = 611\<rparr>, \<lparr>ecdh_mask = 0, ecdh_amount = 0\<rparr>]\<rparr>"

definition additional_context :: tx_context where
  "additional_context = sample_context\<lparr>tc_tx := additional_tx, tc_additional := [600, 601]\<rparr>"

definition additional_scan :: "(db \<times> unit) \<times> lws_account list expect" where
  "additional_scan = scan_transaction sample_env additional_library (scan_test (Some (Disk_reader 10))) sample_scanners 3 60 None additional_tx [41, 42] (sample_db, ())"

lemma additional_scan_ok:
  "scan_transaction sample_env additional_library (scan_test (Some (Disk_reader 10))) sample_scanners 3 60 None additional_tx [41, 42] (sample_db, ())
    = ((fst (fst additional_scan), ()), Inr (projr (snd additional_scan)))"
  "make_context additional_library (scan_test (Some (Disk_reader 10))) 3 60 None additional_tx [41, 42] = Some additional_context"
proof -
  have "snd additional_scan = Inr (projr (snd additional_scan))" by (rule sum.collapse(2) [symmetric]) code_simp
  then show "scan_transaction sample_env additional_library (scan_test (Some (Disk_reader 10))) sample_scanners 3 60 None additional_tx [41, 42] (sample_db, ())
    = ((fst (fst additional_scan), ()), Inr (projr (snd additional_scan)))"
    unfolding additional_scan_def [symmetric] by (simp add: prod_eq_iff)
  show "make_context additional_library (scan_test (Some (Disk_reader 10))) 3 60 None additional_tx [41, 42] = Some additional_context"
    by (simp add: make_context_def additional_library_def sample_library_def additional_context_def sample_context_def additional_tx_def sample_tx_def scan_test_def)
qed

theorem scan_outputs_complete_witness:
  "\<not> decodes additional_library additional_tx 0 501 \<and> (\<exists>out \<in> set (la_outputs (projr (snd additional_scan) ! 0)). out_pub out = 602)"
proof -
  let ?u = "sample_scanners ! 0" and ?i = "make_internal (\<lambda>_. ''addr'') (sample_account 1 2)" and ?r = "Some (Disk_reader 10)"
    and ?d' = "fst (fst additional_scan)"
  have u: "?u = get_full_account sample_env (\<lambda>_. ''addr'') sample_db (sample_account 1 2)" by (simp add: sample_scanners_def)
  have acc: "0 < length sample_scanners" "account_wf ?u" "la_height ?u < 3" "la_immutable ?u = Some ?i" "602 \<notin> set (la_pubs ?u)"
  proof -
    show "0 < length sample_scanners" by (simp add: sample_scanners_def)
    show "account_wf ?u" unfolding u by (simp add: get_full_account_def)
    show "la_height ?u < 3" unfolding u by (simp add: get_full_account_def load_account_def make_account_def sample_account_def)
    show "la_immutable ?u = Some ?i" unfolding u by (simp add: get_full_account_def load_account_def make_account_def)
    show "602 \<notin> set (la_pubs ?u)" unfolding u by code_simp
  qed
  have der: "tl_derivation additional_library (tc_pub_key additional_context) (in_view_key ?i) = Some 501"
    by (simp add: additional_library_def sample_library_def additional_context_def sample_context_def make_internal_def sample_account_def)
  have add: "additional_derivations additional_library (scan_test ?r) additional_context (in_view_key ?i) = [601, 602]"
    by (simp add: additional_derivations_def additional_library_def sample_library_def additional_context_def sample_context_def
        additional_tx_def sample_tx_def make_internal_def sample_account_def scan_test_def)
  have att: "attempts additional_context 501 [601, 602] 0 = [(501, 500), (601, 600)]"
    by (simp add: attempts_def additional_context_def sample_context_def)
  have owned: "owned_via sample_env additional_library ?r sample_db ?i 602 0 601 (Address_index 0 0)"
    by (simp add: owned_via_def additional_library_def sample_library_def make_internal_def sample_account_def)
  have nodec: "\<not> decodes additional_library additional_tx 0 501" and dec: "decodes additional_library additional_tx 0 601" by code_simp+
  have "find_subaddress sample_env ?d' (in_id ?i) 101 = Inl MDB_NOTFOUND" by code_simp
  then have main: "\<not> owned_via sample_env additional_library ?r ?d' ?i 602 0 501 recipient" for recipient
    by (simp add: owned_via_def additional_library_def sample_library_def make_internal_def sample_account_def)
  have own: "owns_output sample_env additional_library ?r additional_context ?i 501 [601, 602] sample_db ?d' 0 602"
    unfolding owns_output_def att using owned main dec
    by (auto simp: out_matched_def additional_context_def additional_tx_def sample_tx_def additional_library_def sample_library_def)
  show ?thesis
    using nodec scan_outputs_complete [OF sample_env_ok sample_db_inv additional_scan_ok acc(1,2,3,4) der _ _ acc(5), of 0] own add
    by (auto simp: additional_tx_def sample_tx_def)
qed

end
