(* ===== verification/Scanner_Result.thy ===== *)
theory Scanner_Result
  imports Scanner Ownership_Result Update_Result
begin

text \<open>
  What the loop of a scanner thread does to the accounts and to the database: the report it
  hands to \<^verbatim>\<open>storage::update\<close> is a proper one, no block of a message is skipped, and an output of an account in any
  of them is recorded.
\<close>

section \<open>How accounts grow\<close>

definition grown :: "block_id set \<Rightarrow> lws_account \<Rightarrow> lws_account \<Rightarrow> bool" where
  "grown H u u' \<longleftrightarrow> la_immutable u' = la_immutable u \<and> la_height u' = la_height u \<and> (account_wf u \<longrightarrow> account_wf u')
     \<and> (\<exists>outs sps. la_outputs u' = la_outputs u @ outs \<and> la_spends u' = la_spends u @ sps
         \<and> (account_wf u \<longrightarrow> set (la_pubs u') = set (la_pubs u) \<union> out_pub ` set outs)
         \<and> (\<forall>out \<in> set outs. link_height (out_link out) \<in> H) \<and> (\<forall>sp \<in> set sps. link_height (sp_link sp) \<in> H))"

lemma grown_refl: "grown H u u"
  by (simp add: grown_def)

lemma grown_mono: "grown H u u' \<Longrightarrow> H \<subseteq> G \<Longrightarrow> grown G u u'"
  unfolding grown_def by blast

lemma grown_pubs: "grown H u u' \<Longrightarrow> account_wf u \<Longrightarrow> account_wf u' \<and> set (la_pubs u) \<subseteq> set (la_pubs u')"
  by (auto simp: grown_def)

lemma grown_trans:
  assumes "grown H u v" and "grown H v w"
  shows "grown H u w"
proof -
  from assms(1) obtain o1 s1 where 1: "la_outputs v = la_outputs u @ o1" "la_spends v = la_spends u @ s1"
    "account_wf u \<longrightarrow> set (la_pubs v) = set (la_pubs u) \<union> out_pub ` set o1"
    "\<forall>out \<in> set o1. link_height (out_link out) \<in> H" "\<forall>sp \<in> set s1. link_height (sp_link sp) \<in> H" by (auto simp: grown_def)
  from assms(2) obtain o2 s2 where 2: "la_outputs w = la_outputs v @ o2" "la_spends w = la_spends v @ s2"
    "account_wf v \<longrightarrow> set (la_pubs w) = set (la_pubs v) \<union> out_pub ` set o2"
    "\<forall>out \<in> set o2. link_height (out_link out) \<in> H" "\<forall>sp \<in> set s2. link_height (sp_link sp) \<in> H" by (auto simp: grown_def)
  have "la_outputs w = la_outputs u @ (o1 @ o2)" "la_spends w = la_spends u @ (s1 @ s2)"
    "\<forall>out \<in> set (o1 @ o2). link_height (out_link out) \<in> H" "\<forall>sp \<in> set (s1 @ s2). link_height (sp_link sp) \<in> H"
    using 1 2 by auto
  moreover have "account_wf u \<longrightarrow> set (la_pubs w) = set (la_pubs u) \<union> out_pub ` set (o1 @ o2)"
    using 1(3) 2(3) assms(1) by (auto simp: grown_def)
  moreover have "la_immutable w = la_immutable u" "la_height w = la_height u" "account_wf u \<longrightarrow> account_wf w"
    using assms by (auto simp: grown_def)
  ultimately show ?thesis unfolding grown_def by blast
qed

abbreviation all_grown :: "block_id set \<Rightarrow> lws_account list \<Rightarrow> lws_account list \<Rightarrow> bool" where
  "all_grown H \<equiv> list_all2 (grown H)"

lemma all_grown_refl: "all_grown H us us"
  by (simp add: list_all2_refl grown_refl)

lemma all_grown_trans: "all_grown H us vs \<Longrightarrow> all_grown H vs ws \<Longrightarrow> all_grown H us ws"
  by (rule list_all2_trans [OF grown_trans])

lemma all_grown_mono: "all_grown H us vs \<Longrightarrow> H \<subseteq> G \<Longrightarrow> all_grown G us vs"
  by (auto elim!: list_all2_mono intro: grown_mono)

lemma all_grown_heights: "all_grown H us vs \<Longrightarrow> map la_height vs = map la_height us \<and> map la_immutable vs = map la_immutable us"
  by (induction rule: list_all2_induct) (simp_all add: grown_def)

lemma receive_all_added:
  "\<exists>new. la_outputs (receive_all outs u) = la_outputs u @ new \<and> set new \<subseteq> set outs
    \<and> (account_wf u \<longrightarrow> set (la_pubs (receive_all outs u)) = set (la_pubs u) \<union> out_pub ` set new)"
proof (induction outs arbitrary: u)
  case (Cons out outs)
  let ?v = "fst (add_received out u)"
  from Cons.IH [of ?v] obtain new where new: "la_outputs (receive_all outs ?v) = la_outputs ?v @ new" "set new \<subseteq> set outs"
    "account_wf ?v \<longrightarrow> set (la_pubs (receive_all outs ?v)) = set (la_pubs ?v) \<union> out_pub ` set new" by blast
  obtain one where one: "la_outputs ?v = la_outputs u @ one" "set one \<subseteq> {out}" "account_wf u \<longrightarrow> set (la_pubs ?v) = set (la_pubs u) \<union> out_pub ` set one"
  proof (cases "la_outputs ?v = la_outputs u")
    case True
    then have "account_wf u \<longrightarrow> la_pubs ?v = la_pubs u" by (auto simp: add_received_eq split: if_splits)
    then show thesis using that [of "[]"] True by simp
  next
    case False
    then have "la_outputs ?v = la_outputs u @ [out]" by (auto simp: add_received_def Let_def split: if_splits)
    then show thesis using that [of "[out]"] add_received_pubs [of u out] by auto
  qed
  show ?case
    by (rule exI [of _ "one @ new"]) (use new one account_wf_add_received [of u out] in auto)
qed simp

lemma make_spend_link [simp]: "sp_link (make_spend c k m s i) = tc_link c"
  by (simp add: make_spend_def)

lemma tx_spends_links: "sp \<in> set (tx_spends c u) \<Longrightarrow> sp_link sp = tc_link c"
proof -
  have "sp_link sp = tc_link c" if "sp \<in> set (input_spends c u x)" for x
    using that by (cases x) (auto simp: ring_spend_def split: option.splits)
  then show "sp \<in> set (tx_spends c u) \<Longrightarrow> sp_link sp = tc_link c" by (auto simp: tx_spends_def)
qed

lemma account_scanned_grown:
  assumes "account_scanned E L r c d d' u u'" and "link_height (tc_link c) = tc_height c"
  shows "grown {tc_height c} u u'"
proof (cases "u' = u")
  case False
  then obtain i derived where "scanned_with E L r c d d' i derived u u'"
    using assms(1) by (auto simp: account_scanned_def split: if_splits option.splits)
  then obtain outs keys where u': "u' = receive_all outs (with_spends (tx_spends c u) u)"
    and rec: "\<forall>out \<in> set outs. \<exists>index. receipt E L r c i keys d' index out"
    unfolding scanned_with_def Let_def by blast
  have w: "la_outputs (with_spends (tx_spends c u) u) = la_outputs u" by (simp add: with_spends_def)
  from receive_all_added [of outs "with_spends (tx_spends c u) u", unfolded w account_wf_with_spends with_spends_pubs, folded u'] obtain new where
    new: "la_outputs u' = la_outputs u @ new" "set new \<subseteq> set outs"
    and pubs: "account_wf u \<longrightarrow> set (la_pubs u') = set (la_pubs u) \<union> out_pub ` set new" by blast
  have "out_link out = tc_link c" if "receipt E L r c i keys d' index out" for index out using that by (simp add: receipt_def)
  then have "\<forall>out \<in> set new. link_height (out_link out) = tc_height c" using rec new(2) assms(2) by fastforce
  moreover have "\<forall>sp \<in> set (tx_spends c u). link_height (sp_link sp) = tc_height c" using tx_spends_links assms(2) by fastforce
  moreover have "account_wf u \<longrightarrow> account_wf u'"
    using receive_all_wf [of "with_spends (tx_spends c u) u" outs] by (simp add: u')
  moreover have "la_spends u' = la_spends u @ tx_spends c u" "la_immutable u' = la_immutable u" "la_height u' = la_height u"
    by (simp_all add: u' with_spends_def)
  ultimately show ?thesis using new(1) pubs unfolding grown_def by auto
qed (simp add: grown_refl)

section \<open>One transaction\<close>

text \<open>The steps of the loops over transactions and blocks, as far as accounts and database are concerned.\<close>

definition progress :: "block_id set \<Rightarrow> block_state \<Rightarrow> block_state \<Rightarrow> bool" where
  "progress H s t \<longleftrightarrow> lookahead_run (bs_db s) (bs_db t) \<and> all_grown H (bs_users s) (bs_users t)"

lemma progress_refl: "storage_inv (bs_db s) \<Longrightarrow> progress H s s"
  by (simp add: progress_def lookahead_run_refl all_grown_refl)

lemma progress_trans: "progress H s t \<Longrightarrow> progress H t u \<Longrightarrow> progress H s u"
  using lookahead_run_trans all_grown_trans by (auto simp: progress_def)

lemma progress_mono: "progress H s t \<Longrightarrow> H \<subseteq> G \<Longrightarrow> progress G s t"
  using all_grown_mono by (auto simp: progress_def)

lemma progress_same: "progress H s t \<Longrightarrow> bs_db t' = bs_db t \<Longrightarrow> bs_users t' = bs_users t \<Longrightarrow> progress H s t'"
  by (simp add: progress_def)

text \<open>The reader the accounts are tested with.\<close>

definition block_reader :: "scan_env \<Rightarrow> subaddress_reader option" where
  "block_reader S = (let max_sub = so_max_subaddresses (se_options S) in if se_disk S \<and> max_sub \<noteq> 0 then Some (Disk_reader max_sub) else None)"

lemma block_test_reader: "block_test S = scan_test (block_reader S)"
  by (simp add: block_test_def block_reader_def Let_def)

text \<open>What the scan of transactions leaves alone.\<close>

definition other_fields :: "block_state \<Rightarrow> u64 \<times> hash list \<times> pow_window \<times> pow_sync list \<times> u128" where
  "other_fields s = (bs_height s, bs_chain s, bs_window s, bs_new_pow s, bs_diff s)"

text \<open>A transaction of an answer with the hash and the output ids given with it, and its context.\<close>

type_synonym block_item = "hash option \<times> transaction \<times> u64 list"

definition item_context :: "scan_env \<Rightarrow> u64 \<Rightarrow> u64 \<Rightarrow> block_item \<Rightarrow> tx_context option" where
  "item_context S height ts item =
     (case item of (given, tx, ids) \<Rightarrow> make_context (se_library S) (scan_test (block_reader S)) height ts given tx ids)"

definition item_keys :: "scan_env \<Rightarrow> tx_context \<Rightarrow> internal \<Rightarrow> key256 \<Rightarrow> nat \<Rightarrow> (key256 \<times> public_key) list" where
  "item_keys S c i derived = attempts c derived (additional_derivations (se_library S) (scan_test (block_reader S)) c (in_view_key i))"

text \<open>
  The output at the index, with the one-time key \<open>P\<close>, belongs to the account, and the account is behind its block. The
  databases are those before and after the scan.
\<close>

definition receives :: "scan_env \<Rightarrow> u64 \<Rightarrow> u64 \<Rightarrow> block_item \<Rightarrow> lws_account \<Rightarrow> db \<Rightarrow> db
    \<Rightarrow> tx_context \<Rightarrow> internal \<Rightarrow> key256 \<Rightarrow> nat \<Rightarrow> public_key \<Rightarrow> bool" where
  "receives S height ts item u d d' c i derived index P \<longleftrightarrow>
     item_context S height ts item = Some c \<and> la_height u < height \<and> la_immutable u = Some i
     \<and> tl_derivation (se_library S) (tc_pub_key c) (in_view_key i) = Some derived
     \<and> index < length (tx_vout (tc_tx c))
     \<and> owns_output (se_storage S) (se_library S) (block_reader S) c i derived
         (additional_derivations (se_library S) (scan_test (block_reader S)) c (in_view_key i)) d d' index P"

text \<open>A recorded output and the transaction it was found in, at a height and with a timestamp.\<close>

definition credited :: "scan_env \<Rightarrow> db \<Rightarrow> lws_account \<Rightarrow> u64 \<times> u64 \<times> block_item \<Rightarrow> db_output \<Rightarrow> bool" where
  "credited S d u src out \<longleftrightarrow>
     (case src of (height, ts, item) \<Rightarrow>
       \<exists>c i derived index. item_context S height ts item = Some c \<and> la_immutable u = Some i
         \<and> tl_derivation (se_library S) (tc_pub_key c) (in_view_key i) = Some derived \<and> index < length (tx_vout (tc_tx c))
         \<and> receipt (se_storage S) (se_library S) (block_reader S) c i (item_keys S c i derived) d index out)"

text \<open>Every output an account gained was found in one of these transactions.\<close>

definition gained :: "scan_env \<Rightarrow> db \<Rightarrow> (u64 \<times> u64 \<times> block_item) set \<Rightarrow> lws_account \<Rightarrow> lws_account \<Rightarrow> bool" where
  "gained S d A u v \<longleftrightarrow> (\<forall>out \<in> set (la_outputs v). out \<in> set (la_outputs u) \<or> (\<exists>src \<in> A. credited S d u src out))"

definition all_gained :: "scan_env \<Rightarrow> (u64 \<times> u64 \<times> block_item) set \<Rightarrow> block_state \<Rightarrow> block_state \<Rightarrow> bool" where
  "all_gained S A s t \<longleftrightarrow> list_all2 (gained S (bs_db t) A) (bs_users s) (bs_users t)"

lemma all_gained_same: "bs_users t = bs_users s \<Longrightarrow> all_gained S A s t"
  by (simp add: all_gained_def gained_def list_all2_refl)

lemma all_gained_trans:
  assumes env: "storage_env (se_storage S)" and st: "progress H s t" and tu: "progress G t u"
    and gains: "all_gained S A s t" "all_gained S B t u" and sub: "A \<subseteq> C" "B \<subseteq> C"
  shows "all_gained S C s u"
proof -
  have inv: "storage_inv (bs_db t)" and run: "lookahead_run (bs_db t) (bs_db u)"
    using st tu lookahead_run_inv by (auto simp: progress_def)
  have mono: "credited S (bs_db t) v src out \<Longrightarrow> credited S (bs_db u) v src out" for v src out
    using storage_env.receipt_mono [OF env inv run] unfolding credited_def by (auto split: prod.splits) blast
  have len: "length (bs_users t) = length (bs_users s)" "length (bs_users u) = length (bs_users s)"
    using gains by (simp_all add: all_gained_def list_all2_lengthD [symmetric])
  have "gained S (bs_db u) C (bs_users s ! n) (bs_users u ! n)" if n: "n < length (bs_users s)" for n
  proof -
    have "la_immutable (bs_users t ! n) = la_immutable (bs_users s ! n)"
      using st n by (auto simp: progress_def grown_def dest: list_all2_nthD)
    then have same: "credited S (bs_db u) (bs_users t ! n) src out = credited S (bs_db u) (bs_users s ! n) src out" for src out
      by (simp add: credited_def)
    have g: "gained S (bs_db t) A (bs_users s ! n) (bs_users t ! n)" "gained S (bs_db u) B (bs_users t ! n) (bs_users u ! n)"
      using gains n len by (simp_all add: all_gained_def list_all2_nthD)
    show ?thesis unfolding gained_def
    proof
      fix out assume "out \<in> set (la_outputs (bs_users u ! n))"
      then consider "out \<in> set (la_outputs (bs_users s ! n))"
        | src where "src \<in> A" "credited S (bs_db t) (bs_users s ! n) src out"
        | src where "src \<in> B" "credited S (bs_db u) (bs_users s ! n) src out"
        using g same unfolding gained_def by blast
      then show "out \<in> set (la_outputs (bs_users s ! n)) \<or> (\<exists>src \<in> C. credited S (bs_db u) (bs_users s ! n) src out)"
        by cases (use mono sub in blast)+
    qed
  qed
  then show ?thesis using len by (simp add: all_gained_def list_all2_conv_all_nth)
qed

text \<open>The candidates of one transaction.\<close>

lemma account_scanned_gained:
  assumes "account_scanned (se_storage S) (se_library S) (block_reader S) c d d' u u'" and "item_context S h ts item = Some c"
  shows "gained S d' {(h, ts, item)} u u'"
proof (cases "u' = u")
  case False
  let ?add = "\<lambda>i. additional_derivations (se_library S) (scan_test (block_reader S)) c (in_view_key i)"
  from False assms(1) obtain i derived where i: "la_immutable u = Some i" "tl_derivation (se_library S) (tc_pub_key c) (in_view_key i) = Some derived"
    and sw: "scanned_with (se_storage S) (se_library S) (block_reader S) c d d' i derived u u'"
    by (auto simp: account_scanned_def split: if_splits option.splits)
  from sw obtain outs where u': "u' = receive_all outs (with_spends (tx_spends c u) u)"
    and rec: "\<forall>out \<in> set outs. \<exists>index < length (tx_vout (tc_tx c)).
        receipt (se_storage S) (se_library S) (block_reader S) c i (item_keys S c i derived) d' index out"
    unfolding scanned_with_def Let_def item_keys_def by blast
  have "la_outputs (with_spends (tx_spends c u) u) = la_outputs u" by (simp add: with_spends_def)
  with receive_all_outputs [of outs "with_spends (tx_spends c u) u"] obtain new where
    "la_outputs u' = la_outputs u @ new" "set new \<subseteq> set outs" using u' by auto
  moreover have "credited S d' u (h, ts, item) out" if "out \<in> set outs" for out
    unfolding credited_def using rec that i assms(2) by auto
  ultimately show ?thesis unfolding gained_def by auto
qed (simp add: gained_def)

text \<open>Every output an account receives in one of these transactions is known to it afterwards.\<close>

definition tested :: "scan_env \<Rightarrow> u64 \<Rightarrow> block_item set \<Rightarrow> u64 \<Rightarrow> block_state \<Rightarrow> block_state \<Rightarrow> bool" where
  "tested S h items ts s t \<longleftrightarrow> (\<forall>n < length (bs_users s). \<forall>item \<in> items. \<forall>c i derived index P. account_wf (bs_users s ! n)
     \<longrightarrow> receives S h ts item (bs_users s ! n) (bs_db s) (bs_db t) c i derived index P \<longrightarrow> P \<in> set (la_pubs (bs_users t ! n)))"

lemma scan_tx_run:
  assumes "storage_env (se_storage S)" and "scan_tx S ts given tx ids s = (t, res)" and "storage_inv (bs_db s)"
  shows "lookahead_run (bs_db s) (bs_db t) \<and> other_fields t = other_fields s
    \<and> (\<forall>u. res = Inr u \<longrightarrow> progress {bs_height s} s t \<and> all_gained S {(bs_height s, ts, given, tx, ids)} s t
        \<and> tested S (bs_height s) {(given, tx, ids)} ts s t)"
proof -
  let ?E = "se_storage S" and ?L = "se_library S" and ?r = "block_reader S"
  obtain d r where run: "scan_transaction ?E ?L (scan_test ?r) (bs_users s) (bs_height s) ts given tx ids (bs_db s, ()) = ((d, ()), r)"
    by (metis prod.exhaust old.unit.exhaust)
  note res = storage_env.scan_transaction_run [OF assms(1) run assms(3)]
  have t: "t = (case r of Inl e \<Rightarrow> s\<lparr>bs_db := d\<rparr> | Inr us \<Rightarrow> s\<lparr>bs_db := d, bs_users := us\<rparr>)"
    "res = (case r of Inl e \<Rightarrow> Inl e | Inr us \<Rightarrow> Inr ())"
    using assms(2) run by (auto simp: scan_tx_def block_test_reader split: sum.splits)
  have frame: "lookahead_run (bs_db s) (bs_db t)" "other_fields t = other_fields s"
    using res t(1) by (auto simp: other_fields_def split: sum.splits)
  show ?thesis
  proof (cases r)
    case (Inl e)
    then show ?thesis using frame t(2) by simp
  next
    case (Inr us)
    have tt: "bs_db t = d" "bs_users t = us" using t(1) Inr by simp_all
    show ?thesis
    proof (cases "make_context ?L (scan_test ?r) (bs_height s) ts given tx ids")
      case None
      then have "us = bs_users s" using res Inr by simp
      then show ?thesis using frame None tt
        by (simp add: progress_def all_grown_refl all_gained_same tested_def receives_def item_context_def)
    next
      case (Some c)
      have c: "tc_height c = bs_height s" "link_height (tc_link c) = tc_height c" "tc_tx c = tx" using Some by (auto simp: make_context_def Let_def)
      have sc: "list_all2 (account_scanned ?E ?L ?r c (bs_db s) d) (bs_users s) us" using res Inr Some by simp
      then have "progress {bs_height s} s t"
        unfolding progress_def using account_scanned_grown [OF _ c(2)] c(1) frame(1) tt by (auto elim!: list_all2_mono)
      moreover have ctx: "item_context S (bs_height s) ts (given, tx, ids) = Some c" using Some by (simp add: item_context_def)
      have "all_gained S {(bs_height s, ts, given, tx, ids)} s t"
        unfolding all_gained_def tt using sc account_scanned_gained [OF _ ctx] by (rule list_all2_mono)
      moreover have "P \<in> set (la_pubs (us ! n))"
        if n: "n < length (bs_users s)" and wf: "account_wf (bs_users s ! n)"
          and P: "receives S (bs_height s) ts (given, tx, ids) (bs_users s ! n) (bs_db s) d c' i derived index P" for n P c' i derived index
      proof -
        let ?u = "bs_users s ! n"
        from P ctx have i: "la_height ?u < bs_height s" "la_immutable ?u = Some i"
          "tl_derivation ?L (tc_pub_key c) (in_view_key i) = Some derived" "index < length (tx_vout tx)"
          "owns_output ?E ?L ?r c i derived (additional_derivations ?L (scan_test ?r) c (in_view_key i)) (bs_db s) d index P"
          using c(3) by (auto simp: receives_def)
        from list_all2_nthD [OF sc n] i(1-3) c(1) have "scanned_with ?E ?L ?r c (bs_db s) d i derived ?u (us ! n)"
          by (simp add: account_scanned_def not_le [symmetric])
        then obtain outs where outs: "us ! n = receive_all outs (with_spends (tx_spends c ?u) ?u)" "P \<in> out_pub ` set outs \<union> set (la_pubs ?u)"
          using i(4,5) wf c(3) unfolding scanned_with_def Let_def by blast
        then show ?thesis using receive_all_pubs [of "with_spends (tx_spends c ?u) ?u" outs] wf by simp
      qed
      ultimately show ?thesis using frame tt unfolding tested_def by auto
    qed
  qed
qed

section \<open>A list of transactions\<close>

lemma receives_mono:
  assumes "storage_env (se_storage S)" and "storage_inv d0" and "lookahead_run d0 d" and "storage_inv d'" and "lookahead_run d' d''"
    and "grown H u u'" and "receives S h ts item u d0 d'' c i derived index P"
  shows "receives S h ts item u' d d' c i derived index P"
  using assms(6,7) storage_env.owns_output_mono [OF assms(1-5)] unfolding receives_def by (auto simp: grown_def)

lemma tested_after:
  assumes "storage_env (se_storage S)" and "storage_inv (bs_db s)" and "progress H s t" and "progress G t u" and "tested S h items ts t u"
  shows "tested S h items ts s u"
proof -
  have len: "length (bs_users t) = length (bs_users s)" using assms(3) by (auto simp: progress_def dest: list_all2_lengthD)
  have inv: "storage_inv (bs_db u)" using assms(4) lookahead_run_inv by (auto simp: progress_def)
  show ?thesis unfolding tested_def
  proof (intro allI ballI impI)
    fix n P item c i derived index
    assume n: "n < length (bs_users s)" and "item \<in> items" and wf: "account_wf (bs_users s ! n)"
      and P: "receives S h ts item (bs_users s ! n) (bs_db s) (bs_db u) c i derived index P"
    have g: "grown H (bs_users s ! n) (bs_users t ! n)" and run: "lookahead_run (bs_db s) (bs_db t)"
      using assms(3) n by (simp_all add: progress_def list_all2_nthD)
    have "account_wf (bs_users t ! n)" using grown_pubs [OF g wf] by simp
    then show "P \<in> set (la_pubs (bs_users u ! n))"
      using assms(5) n len \<open>item \<in> items\<close> receives_mono [OF assms(1,2) run inv lookahead_run_refl [OF inv] g P] unfolding tested_def by auto
  qed
qed

lemma tested_before:
  assumes "storage_env (se_storage S)" and "storage_inv (bs_db s)" and "tested S h items ts s t" and "progress H s t" and "progress G t u"
  shows "tested S h items ts s u"
proof -
  have len: "length (bs_users t) = length (bs_users s)" using assms(4) by (auto simp: progress_def dest: list_all2_lengthD)
  have inv: "storage_inv (bs_db t)" and run: "lookahead_run (bs_db t) (bs_db u)" using assms(4,5) lookahead_run_inv by (auto simp: progress_def)
  have sub: "set (la_pubs (bs_users t ! n)) \<subseteq> set (la_pubs (bs_users u ! n))" if "n < length (bs_users s)" "account_wf (bs_users s ! n)" for n
  proof -
    have "grown H (bs_users s ! n) (bs_users t ! n)" "grown G (bs_users t ! n) (bs_users u ! n)"
      using assms(4,5) that(1) len by (simp_all add: progress_def list_all2_nthD)
    then show ?thesis using that(2) grown_pubs by blast
  qed
  have "receives S h ts item v (bs_db s) (bs_db u) c i derived index P \<Longrightarrow> receives S h ts item v (bs_db s) (bs_db t) c i derived index P"
    for item v c i derived index P
    by (rule receives_mono [OF assms(1,2) lookahead_run_refl [OF assms(2)] inv run grown_refl])
  then show ?thesis using assms(3) sub unfolding tested_def by blast
qed

lemma tested_Un: "tested S h A ts s t \<Longrightarrow> tested S h B ts s t \<Longrightarrow> tested S h (A \<union> B) ts s t"
  unfolding tested_def by blast

text \<open>The transactions with the height and the timestamp of their block.\<close>

definition at_block :: "u64 \<Rightarrow> u64 \<Rightarrow> block_item set \<Rightarrow> (u64 \<times> u64 \<times> block_item) set" where
  "at_block h ts items = (\<lambda>item. (h, ts, item)) ` items"

lemma scan_txs_run:
  assumes "storage_env (se_storage S)" and "scan_txs S ts txs s = (t, res)" and "storage_inv (bs_db s)"
  shows "lookahead_run (bs_db s) (bs_db t) \<and> other_fields t = other_fields s
    \<and> (\<forall>u. res = Inr u \<longrightarrow> progress {bs_height s} s t
        \<and> tested S (bs_height s) ((\<lambda>(h, tx, ids). (Some h, tx, ids)) ` set txs) ts s t
        \<and> all_gained S (at_block (bs_height s) ts ((\<lambda>(h, tx, ids). (Some h, tx, ids)) ` set txs)) s t)"
  using assms(2,3)
proof (induction txs arbitrary: s)
  case Nil
  then show ?case by (auto simp: lookahead_run_refl progress_refl tested_def all_gained_same)
next
  case (Cons item txs)
  let ?items = "\<lambda>txs. (\<lambda>(h, tx, ids). (Some h, tx, ids)) ` set txs"
  obtain h tx ids where item: "item = (h, tx, ids)" by (cases item)
  show ?case
  proof (cases "so_untrusted_daemon (se_options S) \<and> tl_tx_hash (se_library S) tx \<noteq> h")
    case True
    then show ?thesis using Cons.prems item lookahead_run_refl by auto
  next
    case False
    obtain s1 r1 where s1: "scan_tx S ts (Some h) tx ids s = (s1, r1)" by fastforce
    note one = scan_tx_run [OF assms(1) s1 Cons.prems(2)]
    show ?thesis
    proof (cases r1)
      case (Inl e)
      then show ?thesis using Cons.prems(1) item False s1 one by auto
    next
      case (Inr x)
      have more: "scan_txs S ts txs s1 = (t, res)" using Cons.prems(1) item False s1 Inr by simp
      have inv1: "storage_inv (bs_db s1)" using one lookahead_run_inv by blast
      have h: "bs_height s1 = bs_height s" using one by (simp add: other_fields_def)
      note rest = Cons.IH [OF more inv1]
      have run: "lookahead_run (bs_db s) (bs_db t)" "other_fields t = other_fields s"
        using one rest lookahead_run_trans by (blast, simp)
      moreover have "progress {bs_height s} s t \<and> tested S (bs_height s) (?items (item # txs)) ts s t
          \<and> all_gained S (at_block (bs_height s) ts (?items (item # txs))) s t" if "res = Inr u" for u
      proof -
        have p1: "progress {bs_height s} s s1" using one Inr by blast
        have p2: "progress {bs_height s} s1 t" and t2: "tested S (bs_height s) (?items txs) ts s1 t"
          and g2: "all_gained S (at_block (bs_height s) ts (?items txs)) s1 t"
          using rest that h by auto
        have t1: "tested S (bs_height s) {(Some h, tx, ids)} ts s s1" and g1: "all_gained S {(bs_height s, ts, Some h, tx, ids)} s s1"
          using one Inr by blast+
        have "tested S (bs_height s) {(Some h, tx, ids)} ts s t" by (rule tested_before [OF assms(1) Cons.prems(2) t1 p1 p2])
        moreover have "tested S (bs_height s) (?items txs) ts s t"
          by (rule tested_after [OF assms(1) Cons.prems(2) p1 p2 t2])
        moreover have "all_gained S (at_block (bs_height s) ts (?items (item # txs))) s t"
          by (rule all_gained_trans [OF assms(1) p1 p2 g1 g2]) (auto simp: item at_block_def)
        ultimately show ?thesis using tested_Un progress_trans [OF p1 p2] by (fastforce simp: item)
      qed
      ultimately show ?thesis by blast
    qed
  qed
qed

section \<open>Blocks\<close>

definition block_items :: "chain_block \<Rightarrow> u64 list list \<Rightarrow> block_item set" where
  "block_items b indices = insert (None, cb_miner_tx b, hd indices)
     ((\<lambda>(h, tx, ids). (Some h, tx, ids)) ` set (zip (cb_tx_hashes b) (zip (cb_transactions b) (tl indices))))"

lemma check_block_users:
  assumes "check_block S lp ih b s = Goes_on t"
  shows "bs_db t = bs_db s \<and> bs_users t = bs_users s \<and> bs_height t = bs_height s \<and> bs_chain t = bs_chain s \<and> cb_prev_id b = last (bs_chain s)"
  using assms by (auto simp: check_block_def Let_def split: if_splits sum.splits)

text \<open>The state after a block that was accepted.\<close>

lemma scan_block_run:
  assumes "storage_env (se_storage S)" and "scan_block S lp ih b indices s = (s', Goes_on t)" and "storage_inv (bs_db s)"
  shows "progress {bs_height s + 1} s t \<and> tested S (bs_height s + 1) (block_items b indices) (cb_timestamp b) s t
    \<and> all_gained S (at_block (bs_height s + 1) (cb_timestamp b) (block_items b indices)) s t
    \<and> bs_height t = bs_height s + 1 \<and> bs_chain t = bs_chain s @ [block_hash (se_chain S) b]
    \<and> (so_untrusted_daemon (se_options S) \<longrightarrow> cb_prev_id b = last (bs_chain s))"
proof -
  let ?s0 = "s\<lparr>bs_height := bs_height s + 1\<rparr>" and ?un = "so_untrusted_daemon (se_options S)"
  obtain s1 r1 where s1: "scan_tx S (cb_timestamp b) None (cb_miner_tx b) (hd indices) ?s0 = (s1, r1)" by fastforce
  have inv0: "storage_inv (bs_db ?s0)" using assms(3) by simp
  note one = scan_tx_run [OF assms(1) s1 inv0]
  from assms(2) s1 obtain x where r1: "r1 = Inr x" by (cases r1) (auto simp: scan_block_def Let_def split: if_splits)
  obtain o2 where o2: "(if ?un then check_block S lp ih b s1 else Goes_on s1) = o2" by blast
  from assms(2) s1 r1 o2 obtain s2 where s2: "o2 = Goes_on s2" by (cases o2) (auto simp: scan_block_def Let_def split: if_splits)
  have chk: "bs_db s2 = bs_db s1 \<and> bs_users s2 = bs_users s1 \<and> bs_height s2 = bs_height s1 \<and> bs_chain s2 = bs_chain s1
      \<and> (?un \<longrightarrow> cb_prev_id b = last (bs_chain s1))"
    using o2 s2 check_block_users [of S lp ih b s1 s2] by (auto split: if_splits)
  let ?txs = "zip (cb_tx_hashes b) (zip (cb_transactions b) (tl indices))"
  obtain s3 r3 where s3: "scan_txs S (cb_timestamp b) ?txs s2 = (s3, r3)" by fastforce
  from assms(2) s1 r1 o2 s2 s3 obtain y where r3: "r3 = Inr y" by (cases r3) (auto simp: scan_block_def Let_def split: if_splits)
  have t: "bs_db t = bs_db s3" "bs_users t = bs_users s3" "bs_height t = bs_height s3" "bs_chain t = bs_chain s3 @ [block_hash (se_chain S) b]"
    using assms(2) s1 r1 o2 s2 s3 r3 by (auto simp: scan_block_def Let_def split: if_splits)
  have f1: "bs_height s1 = bs_height s + 1" "bs_chain s1 = bs_chain s" using one by (simp_all add: other_fields_def)
  have inv2: "storage_inv (bs_db s2)" using one lookahead_run_inv chk by metis
  note two = scan_txs_run [OF assms(1) s3 inv2]
  have p1: "progress {bs_height s + 1} s s2" using one r1 chk by (simp add: progress_def)
  have p2: "progress {bs_height s + 1} s2 t" using two r3 t chk f1 by (simp add: progress_def)
  have a1: "tested S (bs_height s + 1) {(None, cb_miner_tx b, hd indices)} (cb_timestamp b) s s2"
    and g1: "all_gained S {(bs_height s + 1, cb_timestamp b, None, cb_miner_tx b, hd indices)} s s2"
    using one r1 chk unfolding tested_def all_gained_def by simp_all
  have t1: "tested S (bs_height s + 1) {(None, cb_miner_tx b, hd indices)} (cb_timestamp b) s t"
    by (rule tested_before [OF assms(1,3) a1 p1 p2])
  let ?items = "(\<lambda>(h, tx, ids). (Some h, tx, ids)) ` set ?txs"
  have a2: "tested S (bs_height s + 1) ?items (cb_timestamp b) s2 t"
    and g2: "all_gained S (at_block (bs_height s + 1) (cb_timestamp b) ?items) s2 t"
    using two r3 t chk f1 unfolding tested_def all_gained_def by simp_all
  have t2: "tested S (bs_height s + 1) ?items (cb_timestamp b) s t"
    by (rule tested_after [OF assms(1,3) p1 p2 a2])
  have g: "all_gained S (at_block (bs_height s + 1) (cb_timestamp b) (block_items b indices)) s t"
    by (rule all_gained_trans [OF assms(1) p1 p2 g1 g2]) (auto simp: at_block_def block_items_def)
  have f3: "bs_height s3 = bs_height s2" "bs_chain s3 = bs_chain s2" using two by (simp_all add: other_fields_def)
  show ?thesis using progress_trans [OF p1 p2] tested_Un [OF t1 t2] g t f1 f3 chk by (simp add: block_items_def)
qed

text \<open>All blocks of a message. The heights count up from that of the block before.\<close>

lemma scan_blocks_run:
  assumes "storage_env (se_storage S)" and "scan_blocks S lp ih bs s = (s', Goes_on t)" and "storage_inv (bs_db s)"
  shows "progress ((\<lambda>k. bs_height s + of_nat k) ` {1..length bs}) s t
    \<and> (\<forall>k < length bs. tested S (bs_height s + of_nat (Suc k)) (block_items (fst (bs ! k)) (snd (bs ! k))) (cb_timestamp (fst (bs ! k))) s t)
    \<and> all_gained S (\<Union>k < length bs. at_block (bs_height s + of_nat (Suc k)) (cb_timestamp (fst (bs ! k))) (block_items (fst (bs ! k)) (snd (bs ! k)))) s t
    \<and> bs_height t = bs_height s + of_nat (length bs) \<and> bs_chain t = bs_chain s @ map (\<lambda>b. block_hash (se_chain S) (fst b)) bs
    \<and> (so_untrusted_daemon (se_options S) \<longrightarrow>
        (\<forall>k < length bs. cb_prev_id (fst (bs ! k)) = last (bs_chain s @ map (\<lambda>b. block_hash (se_chain S) (fst b)) (take k bs))))"
  using assms(2,3)
proof (induction bs arbitrary: s)
  case Nil
  then show ?case by (auto simp: progress_refl all_gained_same)
next
  case (Cons x bs)
  obtain b indices where x: "x = (b, indices)" by (cases x)
  obtain s1 o1 where s1: "scan_block S lp ih b indices s = (s1, o1)" by fastforce
  from Cons.prems(1) x s1 obtain u where o1: "o1 = Goes_on u" by (cases o1) auto
  note one = scan_block_run [OF assms(1) s1 [unfolded o1] Cons.prems(2)]
  have more: "scan_blocks S lp ih bs u = (s', Goes_on t)" using Cons.prems(1) x s1 o1 by simp
  have invu: "storage_inv (bs_db u)" using one lookahead_run_inv by (auto simp: progress_def)
  note rest = Cons.IH [OF more invu]
  let ?H = "(\<lambda>k. bs_height s + of_nat k) ` {1..length (x # bs)}"
  have hu: "bs_height u = bs_height s + 1" and cu: "bs_chain u = bs_chain s @ [block_hash (se_chain S) b]" using one by simp_all
  have "bs_height s + of_nat 1 \<in> ?H" by (rule imageI) simp
  then have p1: "progress ?H s u" using one by (auto elim: progress_mono)
  have "(\<lambda>k. bs_height u + of_nat k) ` {1..length bs} \<subseteq> ?H"
  proof
    fix y assume "y \<in> (\<lambda>k. bs_height u + of_nat k) ` {1..length bs}"
    then obtain k where "k \<in> {1..length bs}" "y = bs_height s + of_nat (Suc k)" by (auto simp: hu)
    then show "y \<in> ?H" by (auto intro!: image_eqI [of _ _ "Suc k"])
  qed
  then have p2: "progress ?H u t" using rest progress_mono by blast
  have tst: "tested S (bs_height s + of_nat (Suc k)) (block_items (fst ((x # bs) ! k)) (snd ((x # bs) ! k))) (cb_timestamp (fst ((x # bs) ! k))) s t"
    if k: "k < length (x # bs)" for k
  proof (cases k)
    case 0
    then show ?thesis using tested_before [OF assms(1) Cons.prems(2) _ p1 p2] one by (simp add: x)
  next
    case (Suc j)
    have "tested S (bs_height u + of_nat (Suc j)) (block_items (fst (bs ! j)) (snd (bs ! j))) (cb_timestamp (fst (bs ! j))) u t"
      using rest k Suc by simp
    then show ?thesis using tested_after [OF assms(1) Cons.prems(2) p1 p2] by (simp add: Suc hu add.commute add.left_commute)
  qed
  let ?at = "\<lambda>h bs k. at_block (h + of_nat (Suc k)) (cb_timestamp (fst (bs ! k))) (block_items (fst (bs ! k)) (snd (bs ! k)))"
  have "all_gained S (at_block (bs_height s + 1) (cb_timestamp b) (block_items b indices)) s u"
    and "all_gained S (\<Union>k < length bs. ?at (bs_height u) bs k) u t" using one rest by blast+
  then have gain: "all_gained S (\<Union>k < length (x # bs). ?at (bs_height s) (x # bs) k) s t"
  proof (rule all_gained_trans [OF assms(1) p1 p2])
    have "at_block (bs_height s + 1) (cb_timestamp b) (block_items b indices) = ?at (bs_height s) (x # bs) 0" by (simp add: x)
    then show "at_block (bs_height s + 1) (cb_timestamp b) (block_items b indices) \<subseteq> (\<Union>k < length (x # bs). ?at (bs_height s) (x # bs) k)" by blast
    have "?at (bs_height u) bs k = ?at (bs_height s) (x # bs) (Suc k)" for k by (simp add: hu add.commute add.left_commute)
    then show "(\<Union>k < length bs. ?at (bs_height u) bs k) \<subseteq> (\<Union>k < length (x # bs). ?at (bs_height s) (x # bs) k)" by fastforce
  qed
  have link: "cb_prev_id (fst ((x # bs) ! k)) = last (bs_chain s @ map (\<lambda>b. block_hash (se_chain S) (fst b)) (take k (x # bs)))"
    if un: "so_untrusted_daemon (se_options S)" and k: "k < length (x # bs)" for k
  proof (cases k)
    case 0
    then show ?thesis using one un by (simp add: x)
  next
    case (Suc j)
    then show ?thesis using rest un k cu by (simp add: x)
  qed
  have "bs_height t = bs_height s + of_nat (length (x # bs))" using rest hu by (simp add: add.assoc add.commute)
  moreover have "bs_chain t = bs_chain s @ map (\<lambda>b. block_hash (se_chain S) (fst b)) (x # bs)" using rest cu x by simp
  ultimately show ?case using progress_trans [OF p1 p2] tst gain link by blast
qed

section \<open>One answer of the daemon\<close>

definition last_height :: "fetched_blocks \<Rightarrow> u64" where
  "last_height fetched = fb_start_height fetched + of_nat (length (fb_blocks fetched)) - 1"

text \<open>
  The accounts a thread starts with: sorted, with nothing found yet, and the first of them at the block the
  message starts with. The message for an account at height 0 starts at block 1.
\<close>

definition fresh_users :: "lws_account list \<Rightarrow> bool" where
  "fresh_users users \<longleftrightarrow> users \<noteq> [] \<and> sorted (map la_height users)
     \<and> list_all (\<lambda>u. account_wf u \<and> la_outputs u = [] \<and> la_spends u = []) users"

definition aligned :: "fetched_blocks \<Rightarrow> lws_account list \<Rightarrow> bool" where
  "aligned fetched users \<longleftrightarrow> la_height (users ! 0) = (if fb_start_height fetched = 1 then 0 else fb_start_height fetched)"

definition message_ok :: "fetched_blocks \<Rightarrow> bool" where
  "message_ok fetched \<longleftrightarrow> fb_blocks fetched \<noteq> [] \<and> unat (fb_start_height fetched) + length (fb_blocks fetched) < 2 ^ 64"

text \<open>The state after the blocks were scanned, before they are stored.\<close>

definition scan_result :: "scan_env \<Rightarrow> fetched_blocks \<Rightarrow> loop_state \<Rightarrow> block_state option" where
  "scan_result S fetched st =
     (case first_state S fetched (ls_users st) (ls_db st) of
        Goes_on s \<Rightarrow> (case scan_blocks S (ls_last_pow st) (bs_height s) (new_blocks fetched) s of
           (_, Goes_on t) \<Rightarrow> Some t | _ \<Rightarrow> None)
      | _ \<Rightarrow> None)"

text \<open>The accounts and the database before the blocks, and all transactions of the new blocks.\<close>

definition start_state :: "loop_state \<Rightarrow> block_state \<Rightarrow> block_state" where
  "start_state st t = \<lparr>bs_db = ls_db st, bs_users = ls_users st, bs_height = 0, bs_chain = [], bs_window = bs_window t, bs_new_pow = [], bs_diff = 0\<rparr>"

definition message_items :: "fetched_blocks \<Rightarrow> u64 \<Rightarrow> (u64 \<times> u64 \<times> block_item) set" where
  "message_items fetched base = (\<Union>k < length (new_blocks fetched). at_block (base + of_nat (Suc k)) (cb_timestamp (fst (new_blocks fetched ! k)))
     (block_items (fst (new_blocks fetched ! k)) (snd (new_blocks fetched ! k))))"

lemma first_state_fields:
  assumes "first_state S fetched users d = Goes_on s"
  shows "bs_db s = d" "bs_users s = users" "bs_height s = (if fb_start_height fetched = 1 then 0 else fb_start_height fetched)"
    "length (bs_chain s) = 1"
  using assms by (auto simp: first_state_def Let_def split: sum.splits if_splits)

lemma scan_result_report:
  assumes "storage_env (se_storage S)" and "storage_inv (ls_db st)" and fresh: "fresh_users (ls_users st)" and al: "aligned fetched (ls_users st)"
    and ok: "message_ok fetched" and len: "length (fb_output_indices fetched) = length (fb_blocks fetched)"
    and res: "scan_result S fetched st = Some t"
  shows "lookahead_run (ls_db st) (bs_db t)"
    "all_grown ((\<lambda>k. la_height (ls_users st ! 0) + of_nat k) ` {1..length (new_blocks fetched)}) (ls_users st) (bs_users t)"
    "la_height (ls_users st ! 0) + of_nat (length (bs_chain t)) - 1 = last_height fetched" "bs_chain t \<noteq> []"
    "\<forall>u \<in> set (bs_users t). below (last_height fetched) u" "bs_height t = last_height fetched"
    "la_height (ls_users st ! 0) \<le> last_height fetched"
    "\<forall>k < length (new_blocks fetched). tested S (la_height (ls_users st ! 0) + of_nat (Suc k))
       (block_items (fst (new_blocks fetched ! k)) (snd (new_blocks fetched ! k))) (cb_timestamp (fst (new_blocks fetched ! k)))
       (start_state st t) t"
    "all_gained S (message_items fetched (la_height (ls_users st ! 0))) (start_state st t) t"
proof -
  let ?base = "la_height (ls_users st ! 0)" and ?n = "length (fb_blocks fetched)" and ?m = "length (new_blocks fetched)"
  from res obtain s s' where s: "first_state S fetched (ls_users st) (ls_db st) = Goes_on s"
    and t: "scan_blocks S (ls_last_pow st) (bs_height s) (new_blocks fetched) s = (s', Goes_on t)"
    by (auto simp: scan_result_def split: outcome.splits prod.splits)
  note f = first_state_fields [OF s]
  have base: "bs_height s = ?base" using al f(3) by (simp add: aligned_def)
  have inv: "storage_inv (bs_db s)" using assms(2) f(1) by simp
  note run = scan_blocks_run [OF assms(1) t inv, unfolded base]
  have m: "?m = (if fb_start_height fetched = 1 then ?n else ?n - 1)" using len by (simp add: new_blocks_def Let_def)
  have n0: "0 < ?n" using ok by (simp add: message_ok_def)
  have sub: "(of_nat (?n - 1) :: u64) = of_nat ?n - 1" using n0 of_nat_diff [of 1 ?n, where ?'a = u64] by (simp add: Suc_le_eq)
  have bt: "?base + of_nat ?m = last_height fetched"
    using al m sub by (cases "fb_start_height fetched = 1") (simp_all add: aligned_def last_height_def)
  have "length (bs_chain t) = Suc ?m" using run f(4) by simp
  then show "?base + of_nat (length (bs_chain t)) - 1 = last_height fetched" "bs_chain t \<noteq> []" using bt by auto
  show "lookahead_run (ls_db st) (bs_db t)"
    and grown: "all_grown ((\<lambda>k. ?base + of_nat k) ` {1..?m}) (ls_users st) (bs_users t)"
    using run f by (simp_all add: progress_def)
  show "bs_height t = last_height fetched" using run bt by simp
  have nowrap: "unat ?base + ?m < 2 ^ 64"
    using ok al m n0 by (auto simp: aligned_def message_ok_def split: if_splits)
  have le: "?base + of_nat k \<le> last_height fetched" if "k \<le> ?m" for k
  proof -
    have "unat (?base + of_nat k) = unat ?base + k" "unat (?base + of_nat ?m) = unat ?base + ?m"
      using nowrap that by (simp_all add: unat_add_u64)
    then show ?thesis using that unfolding bt [symmetric] word_le_nat_alt by simp
  qed
  from le [of 0] show "?base \<le> last_height fetched" by simp
  show "\<forall>u \<in> set (bs_users t). below (last_height fetched) u"
  proof
    fix u assume "u \<in> set (bs_users t)"
    then obtain j where j: "j < length (bs_users t)" "u = bs_users t ! j" by (metis in_set_conv_nth)
    have lens: "length (bs_users t) = length (ls_users st)" using list_all2_lengthD [OF grown] by simp
    let ?v = "ls_users st ! j"
    have g: "grown ((\<lambda>k. ?base + of_nat k) ` {1..?m}) ?v u" using list_all2_nthD [OF grown] j lens by simp
    have "la_outputs ?v = []" "la_spends ?v = []" using fresh j lens by (simp_all add: fresh_users_def list_all_length)
    then show "below (last_height fetched) u" using g le by (auto simp: grown_def below_def)
  qed
  show "\<forall>k < ?m. tested S (?base + of_nat (Suc k)) (block_items (fst (new_blocks fetched ! k)) (snd (new_blocks fetched ! k)))
      (cb_timestamp (fst (new_blocks fetched ! k)))
      (start_state st t) t"
    using run f(1,2) by (simp add: tested_def start_state_def)
  show "all_gained S (message_items fetched ?base) (start_state st t) t"
    using run f(1,2) by (simp add: all_gained_def message_items_def start_state_def)
qed

lemma loop_blocks_cases:
  assumes "loop_blocks S fetched st = (d', Goes_on st')"
  obtains t out where "length (fb_output_indices fetched) = length (fb_blocks fetched)" "scan_result S fetched st = Some t"
    "bs_users t = [] \<or> update (se_storage S) (la_height (bs_users t ! 0)) (bs_chain t) (bs_users t) (bs_new_pow t) (so_regtest (se_options S)) (bs_db t) = Inr (d', out)
      \<and> ls_users st' = push_updates (se_internal_pub S) (la_height (bs_users t ! 0) + of_nat (length (bs_chain t)) - 1) (bs_users t)
      \<and> ur_accounts_updated out = length (bs_users t)"
    "ls_start_height st' = ls_start_height st" "ls_db st' = d'"
proof -
  from assms obtain s where len: "length (fb_blocks fetched) = length (fb_output_indices fetched)"
    and s: "first_state S fetched (ls_users st) (ls_db st) = Goes_on s"
    by (auto simp: loop_blocks_def split: if_splits outcome.splits)
  obtain s' o1 where sb: "scan_blocks S (ls_last_pow st) (bs_height s) (new_blocks fetched) s = (s', o1)" by fastforce
  from assms len s sb obtain t where t: "o1 = Goes_on t" by (cases o1) (auto simp: loop_blocks_def)
  have sr: "scan_result S fetched st = Some t" using s sb t by (simp add: scan_result_def)
  obtain d1 x o2 where su: "store_users S (bs_chain t) (bs_users t) (bs_new_pow t) (bs_db t) = ((d1, x), o2)" by (metis prod.exhaust)
  from assms len s sb t su obtain us where us: "o2 = Goes_on us" by (cases o2) (auto simp: loop_blocks_def)
  have st': "d' = d1" "st' = st\<lparr>ls_db := d1, ls_users := us, ls_queue := update_min_height (la_height (us ! 0)) (ls_queue st)\<rparr>" using assms len s sb t su us by (auto simp: loop_blocks_def)
  from su us obtain out where "bs_users t = [] \<or> update (se_storage S) (la_height (bs_users t ! 0)) (bs_chain t) (bs_users t) (bs_new_pow t) (so_regtest (se_options S)) (bs_db t) = Inr (d', out)
      \<and> ls_users st' = push_updates (se_internal_pub S) (la_height (bs_users t ! 0) + of_nat (length (bs_chain t)) - 1) (bs_users t)
      \<and> ur_accounts_updated out = length (bs_users t)"
    by (auto simp: store_users_def Let_def st' split: if_splits sum.splits prod.splits)
  then show thesis using that len sr st' by simp
qed

text \<open>The state of a step after which the thread goes on.\<close>

definition goes_on :: "'a outcome \<Rightarrow> 'a option" where
  "goes_on r = (case r of Goes_on s \<Rightarrow> Some s | _ \<Rightarrow> None)"

section \<open>Properties\<close>

lemma grown_due: "grown H u v \<Longrightarrow> due lu v a = due lu u a \<and> la_id v = la_id u"
  by (simp add: grown_def due_def la_id_def)

lemma all_grown_due:
  assumes "all_grown H us vs"
  shows "(\<exists>v \<in> set vs. due lu v a) = (\<exists>u \<in> set us. due lu u a)" "map la_id vs = map la_id us"
  using assms by (induction rule: list_all2_induct) (simp_all add: grown_due)

lemma all_grown_address:
  assumes "all_grown H us vs" and "\<forall>u \<in> set us. same_address rows u"
  shows "\<forall>v \<in> set vs. same_address rows v"
  using assms by (induction rule: list_all2_induct) (auto simp: grown_def same_address_def db_address_def null_check_def la_id_def)

text \<open>The heights after the report was published.\<close>

lemma push_updates_heights:
  assumes "sorted (map la_height us)" and "us \<noteq> []" and "la_height (us ! 0) \<le> h"
  shows "map la_height (push_updates ip h us) = map (\<lambda>u. max (la_height u) h) us"
    "sorted (map la_height (push_updates ip h us))" "la_height (push_updates ip h us ! 0) = h"
proof -
  show eq: "map la_height (push_updates ip h us) = map (\<lambda>u. max (la_height u) h) us"
    by (auto simp: push_updates_def updated_def max_def)
  have "sorted (map (\<lambda>x. max x h) (map la_height us))"
    using assms(1) by (intro sorted_map_mono) (auto intro!: mono_onI simp: max_def)
  then show "sorted (map la_height (push_updates ip h us))" unfolding eq by (simp add: comp_def)
  have "map la_height (push_updates ip h us) ! 0 = max (la_height (us ! 0)) h" unfolding eq using assms(2) by simp
  moreover have "length (push_updates ip h us) = length us" by (simp add: push_updates_def)
  ultimately show "la_height (push_updates ip h us ! 0) = h" using assms(2,3) by (simp add: max_absorb2)
qed

lemma loop_blocks_stored:
  assumes "storage_env (se_storage S)" and "storage_inv (ls_db st)" and "fresh_users (ls_users st)" and "aligned fetched (ls_users st)"
    and "message_ok fetched" and "scan_result S fetched st = Some t"
    and "spends_unique (set (db_spends (bs_db t)) \<union> reported (bs_users t))"
    and "distinct (map la_id (ls_users st))" and "\<forall>u \<in> set (ls_users st). same_address (db_accounts (bs_db t)) u"
    and run: "loop_blocks S fetched st = (d', Goes_on st')"
  shows "storage_inv d'" "db_accounts d' = map (advance_all (last_height fetched) (ls_users st)) (db_accounts (bs_db t))"
    "set (db_outputs d') = set (db_outputs (bs_db t))
      \<union> (\<Union>user \<in> set (bs_users t). stored_rows (last_height fetched) (db_accounts (bs_db t)) (db_outputs (bs_db t)) user)"
    "map la_height (ls_users st') = map (\<lambda>u. max (la_height u) (last_height fetched)) (ls_users st)"
    "sorted (map la_height (ls_users st'))" "la_height (ls_users st' ! 0) = last_height fetched"
proof -
  let ?E = "se_storage S" and ?lu = "last_height fetched"
  from run obtain out where len: "length (fb_output_indices fetched) = length (fb_blocks fetched)"
    and up: "bs_users t = [] \<or> update ?E (la_height (bs_users t ! 0)) (bs_chain t) (bs_users t) (bs_new_pow t) (so_regtest (se_options S)) (bs_db t) = Inr (d', out)
      \<and> ls_users st' = push_updates (se_internal_pub S) (la_height (bs_users t ! 0) + of_nat (length (bs_chain t)) - 1) (bs_users t)
      \<and> ur_accounts_updated out = length (bs_users t)"
    using assms(6) by (elim loop_blocks_cases) auto
  note rep = scan_result_report [OF assms(1-5) len assms(6)]
  note heights = all_grown_heights [OF rep(2)]
  have ne: "ls_users st \<noteq> []" "bs_users t \<noteq> []" "length (bs_users t) = length (ls_users st)"
    using assms(3) list_all2_lengthD [OF rep(2)] by (auto simp: fresh_users_def)
  have h0: "la_height (bs_users t ! 0) = la_height (ls_users st ! 0)"
    using heights ne by (metis length_greater_0_conv nth_map)
  have up': "update ?E (la_height (ls_users st ! 0)) (bs_chain t) (bs_users t) (bs_new_pow t) (so_regtest (se_options S)) (bs_db t) = Inr (d', out)"
    "ls_users st' = push_updates (se_internal_pub S) ?lu (bs_users t)"
    using up ne(2) rep(3) h0 by simp_all
  have inv: "storage_inv (bs_db t)" by (rule lookahead_run_inv [OF rep(1)])
  have ok: "scan_report_ok (la_height (ls_users st ! 0)) (bs_chain t) (bs_users t) (bs_db t)"
    using rep(3,5) assms(7) by (simp add: scan_report_ok_def)
  show "storage_inv d'" by (rule storage_env.update_inv [OF assms(1) inv ok up'(1)])
  have dist: "distinct (map la_id (bs_users t))" using assms(8) all_grown_due(2) [OF rep(2)] by simp
  note res = storage_env.update_result [OF assms(1) inv ok dist all_grown_address [OF rep(2) assms(9)] up'(1), unfolded rep(3)]
  have "advance_all ?lu (bs_users t) = advance_all ?lu (ls_users st)"
    by (simp add: fun_eq_iff advance_all_def all_grown_due(1) [OF rep(2)])
  then show "db_accounts d' = map (advance_all ?lu (ls_users st)) (db_accounts (bs_db t))" using res(1) by simp
  show "set (db_outputs d') = set (db_outputs (bs_db t))
      \<union> (\<Union>user \<in> set (bs_users t). stored_rows ?lu (db_accounts (bs_db t)) (db_outputs (bs_db t)) user)" by (rule res(2))
  have srt: "sorted (map la_height (bs_users t))" using heights assms(3) by (simp add: fresh_users_def)
  note pu = push_updates_heights [OF srt ne(2), of ?lu "se_internal_pub S"] 
  have "map (\<lambda>u. max (la_height u) ?lu) (bs_users t) = map (\<lambda>x. max x ?lu) (map la_height (bs_users t))" by (simp add: comp_def)
  also have "\<dots> = map (\<lambda>u. max (la_height u) ?lu) (ls_users st)" using heights by (simp add: comp_def)
  finally show "map la_height (ls_users st') = map (\<lambda>u. max (la_height u) ?lu) (ls_users st)" using pu(1) up'(2) rep(7) h0 by simp
  show "sorted (map la_height (ls_users st'))" "la_height (ls_users st' ! 0) = ?lu" using pu(2,3) up'(2) rep(7) h0 by simp_all
qed

text \<open>
  C9: one answer of the daemon moves all accounts of a thread together. When the first account stands at the block
  the message starts with and the blocks are stored, the stored accounts that joined on advance to the last
  block of the message, every account of the thread is at that block or further, and the first one is exactly at the
  block the next request asks for: the next answer starts where this one ended. The database stays consistent,
  as the report satisfies what \<^verbatim>\<open>storage::update\<close> relies on.
\<close>

theorem scan_loop_advances:
  assumes "storage_env (se_storage S)" and "storage_inv (ls_db st)" and "fresh_users (ls_users st)" and "aligned fetched (ls_users st)"
    and "message_ok fetched" and "scan_result S fetched st = Some t"
    and "spends_unique (set (db_spends (ls_db st)) \<union> reported (bs_users t))"
    and "distinct (map la_id (ls_users st))" and "list_all (same_address (db_accounts (bs_db t))) (ls_users st)"
    and "loop_blocks S fetched st = (d', Goes_on st')"
  shows "storage_inv d'
    \<and> db_accounts d' = map (advance_all (last_height fetched) (ls_users st)) (db_accounts (bs_db t))
    \<and> map la_height (ls_users st') = map (\<lambda>u. max (la_height u) (last_height fetched)) (ls_users st)
    \<and> sorted (map la_height (ls_users st')) \<and> la_height (ls_users st' ! 0) = last_height fetched"
proof -
  from assms(10) have len: "length (fb_output_indices fetched) = length (fb_blocks fetched)" by (elim loop_blocks_cases)
  have "db_spends (bs_db t) = db_spends (ls_db st)"
    using scan_result_report(1) [OF assms(1-5) len assms(6)] by (simp add: lookahead_run_def)
  with assms(7,9) have sp: "spends_unique (set (db_spends (bs_db t)) \<union> reported (bs_users t))"
    and sa: "\<forall>u \<in> set (ls_users st). same_address (db_accounts (bs_db t)) u" by (simp_all add: list_all_iff)
  note st = loop_blocks_stored [OF assms(1-6) sp assms(8) sa assms(10)]
  from st(1,2,4-6) show ?thesis by blast
qed

section \<open>Where a stored output comes from\<close>

text \<open>The one-time key of an output of a transaction, and the hash and the global id it is stored under.\<close>

definition item_key :: "block_item \<Rightarrow> nat \<Rightarrow> public_key option" where
  "item_key item index = to_key (tx_vout (fst (snd item)) ! index)"

definition item_name :: "scan_env \<Rightarrow> block_item \<Rightarrow> nat \<Rightarrow> hash \<times> output_id" where
  "item_name S item index =
     (case item of (given, tx, ids) \<Rightarrow>
       (case given of None \<Rightarrow> tl_tx_hash (se_library S) tx | Some h \<Rightarrow> h,
        Output_id (if tx_version tx < 2 then to_amount (tx_vout tx ! index) else 0) (ids ! index)))"

text \<open>No other output of the answer has the one-time key, and none of the same block has the hash and global id.\<close>

definition sole_output :: "scan_env \<Rightarrow> fetched_blocks \<Rightarrow> nat \<Rightarrow> block_item \<Rightarrow> nat \<Rightarrow> bool" where
  "sole_output S fetched k item index \<longleftrightarrow>
     (\<forall>k' < length (new_blocks fetched). \<forall>item' \<in> block_items (fst (new_blocks fetched ! k')) (snd (new_blocks fetched ! k')).
       \<forall>index' < length (tx_vout (fst (snd item'))).
         item_key item' index' = item_key item index \<or> k' = k \<and> item_name S item' index' = item_name S item index
         \<longrightarrow> k' = k \<and> item' = item \<and> index' = index)"

lemma credited_place:
  assumes "credited S d u src out" and "src \<in> message_items fetched base"
  obtains k item c i derived index where "k < length (new_blocks fetched)"
    "item \<in> block_items (fst (new_blocks fetched ! k)) (snd (new_blocks fetched ! k))"
    "item_context S (base + of_nat (Suc k)) (cb_timestamp (fst (new_blocks fetched ! k))) item = Some c"
    "la_immutable u = Some i" "tl_derivation (se_library S) (tc_pub_key c) (in_view_key i) = Some derived"
    "index < length (tx_vout (fst (snd item)))"
    "receipt (se_storage S) (se_library S) (block_reader S) c i (item_keys S c i derived) d index out"
    "item_key item index = Some (out_pub out)"
    "output_sort out = (base + of_nat (Suc k), item_name S item index)"
proof -
  from assms(2) obtain k item where k: "k < length (new_blocks fetched)"
    "item \<in> block_items (fst (new_blocks fetched ! k)) (snd (new_blocks fetched ! k))"
    "src = (base + of_nat (Suc k), cb_timestamp (fst (new_blocks fetched ! k)), item)"
    by (auto simp: message_items_def at_block_def)
  with assms(1) obtain c i derived index where c: "item_context S (base + of_nat (Suc k)) (cb_timestamp (fst (new_blocks fetched ! k))) item = Some c"
    "la_immutable u = Some i" "tl_derivation (se_library S) (tc_pub_key c) (in_view_key i) = Some derived"
    "index < length (tx_vout (tc_tx c))"
    "receipt (se_storage S) (se_library S) (block_reader S) c i (item_keys S c i derived) d index out"
    unfolding credited_def by auto
  have tx: "tc_tx c = fst (snd item)" "tc_out_ids c = snd (snd item)" "tc_link c = Transaction_link (base + of_nat (Suc k)) (fst (item_name S item index))"
    using c(1) by (auto simp: item_context_def make_context_def item_name_def Let_def split: prod.splits)
  have "item_key item index = Some (out_pub out)" "output_sort out = (base + of_nat (Suc k), item_name S item index)"
    using c(5) tx by (auto simp: receipt_def item_key_def output_sort_def item_name_def split: prod.splits)
  then show thesis using that [OF k(1,2) c(1-3) _ c(5)] c(4) tx(1) by simp
qed

lemma scan_loop_stores:
  assumes "storage_env (se_storage S)" and "storage_inv (ls_db st)" and "fresh_users (ls_users st)" and "aligned fetched (ls_users st)"
    and "message_ok fetched" and "scan_result S fetched st = Some t"
    and "spends_unique (set (db_spends (ls_db st)) \<union> reported (bs_users t))"
    and "distinct (map la_id (ls_users st))" and "list_all (same_address (db_accounts (bs_db t))) (ls_users st)"
    and "loop_blocks S fetched st = (d', Goes_on st')"
    and "n < length (ls_users st)" and "r \<in> set (db_accounts (bs_db t))" and "due (last_height fetched) (ls_users st ! n) (snd r)"
    and "k < length (new_blocks fetched)" and "item \<in> block_items (fst (new_blocks fetched ! k)) (snd (new_blocks fetched ! k))"
    and "receives S (la_height (ls_users st ! 0) + of_nat (Suc k)) (cb_timestamp (fst (new_blocks fetched ! k))) item
      (ls_users st ! n) (ls_db st) (bs_db t) c i derived index P"
    and "acc_scan_height (snd r) < la_height (ls_users st ! 0) + of_nat (Suc k)"
    and "sole_output S fetched k item index"
    and "P \<notin> set (la_pubs (ls_users st ! n))"
  shows "storage_inv d'" "\<exists>out. (la_id (ls_users st ! n), out) \<in> set (db_outputs d') \<and> out_pub out = P
    \<and> receipt (se_storage S) (se_library S) (block_reader S) c i (item_keys S c i derived) (bs_db t) index out"
proof -
  let ?u = "ls_users st ! n" and ?v = "bs_users t ! n" and ?base = "la_height (ls_users st ! 0)" and ?dt = "bs_db t"
  let ?h = "?base + of_nat (Suc k)"
  from assms(10) have len: "length (fb_output_indices fetched) = length (fb_blocks fetched)" by (elim loop_blocks_cases)
  note rep = scan_result_report [OF assms(1-5) len assms(6)]
  have same: "db_spends ?dt = db_spends (ls_db st)" "storage_inv ?dt"
    using rep(1) lookahead_run_inv by (auto simp: lookahead_run_def)
  with assms(7,9) have sp: "spends_unique (set (db_spends ?dt) \<union> reported (bs_users t))"
    and sa: "\<forall>u \<in> set (ls_users st). same_address (db_accounts ?dt) u" by (simp_all add: list_all_iff)
  note st = loop_blocks_stored [OF assms(1-6) sp assms(8) sa assms(10)]
  show "storage_inv d'" using st by blast
  have wf: "account_wf ?u" "la_outputs ?u = []" using assms(3,11) by (simp_all add: fresh_users_def list_all_length)
  have known: "P \<in> set (la_pubs ?v)"
    using rep(8) [rule_format, OF assms(14)] assms(11,15,16) wf(1) unfolding tested_def start_state_def by auto
  have g: "grown ((\<lambda>k. ?base + of_nat k) ` {1..length (new_blocks fetched)}) ?u ?v"
    using list_all2_nthD [OF rep(2) assms(11)] .
  then obtain out where out: "out \<in> set (la_outputs ?v)" "out_pub out = P"
    using known assms(19) wf by (auto simp: grown_def)
  have gain: "gained S ?dt (message_items fetched ?base) ?u ?v"
    using rep(9) list_all2_nthD [of _ "ls_users st" "bs_users t" n] assms(11) by (simp add: all_gained_def start_state_def)
  then have origin: "\<exists>src \<in> message_items fetched ?base. credited S ?dt ?u src w" if "w \<in> set (la_outputs ?v)" for w
    using that wf(2) by (simp add: gained_def)
  note ctx = assms(16) [unfolded receives_def]
  have key: "item_key item index = Some P"
    using ctx by (auto simp: item_key_def owns_output_def item_context_def make_context_def Let_def split: prod.splits)
  \<comment> \<open>Outputs at the place of the given one.\<close>
  have place: "out_pub w = P \<and> receipt (se_storage S) (se_library S) (block_reader S) c i (item_keys S c i derived) ?dt index w
      \<and> output_sort w = (?h, item_name S item index)"
    if w: "w \<in> set (la_outputs ?v)" and hit: "out_pub w = P \<or> output_sort w = (?h, item_name S item index)" for w
  proof -
    from origin [OF w] obtain src where src: "src \<in> message_items fetched ?base" "credited S ?dt ?u src w" by blast
    from credited_place [OF src(2,1)] obtain k' item' c' i' derived' index' where p: "k' < length (new_blocks fetched)"
      "item' \<in> block_items (fst (new_blocks fetched ! k')) (snd (new_blocks fetched ! k'))"
      "item_context S (?base + of_nat (Suc k')) (cb_timestamp (fst (new_blocks fetched ! k'))) item' = Some c'"
      "la_immutable ?u = Some i'" "tl_derivation (se_library S) (tc_pub_key c') (in_view_key i') = Some derived'"
      "index' < length (tx_vout (fst (snd item')))"
      "receipt (se_storage S) (se_library S) (block_reader S) c' i' (item_keys S c' i' derived') ?dt index' w"
      "item_key item' index' = Some (out_pub w)"
      "output_sort w = (?base + of_nat (Suc k'), item_name S item' index')" by blast
    have "k' = k" if "(of_nat (Suc k') :: u64) = of_nat (Suc k)"
    proof -
      have "length (new_blocks fetched) < 2 ^ 64" using assms(5) len by (auto simp: message_ok_def new_blocks_def Let_def)
      then have "unat (of_nat (Suc k') :: u64) = Suc k'" "unat (of_nat (Suc k) :: u64) = Suc k"
        using p(1) assms(14) by (simp_all add: unat_of_nat del: of_nat_Suc)
      with that show ?thesis by simp
    qed
    then have "k' = k \<and> item_name S item' index' = item_name S item index" if "output_sort w = (?h, item_name S item index)"
      using that p(9) by simp
    with hit have "item_key item' index' = item_key item index \<or> k' = k \<and> item_name S item' index' = item_name S item index"
      using p(8) key by metis
    then have eq: "k' = k \<and> item' = item \<and> index' = index"
      by (rule assms(18) [unfolded sole_output_def, rule_format, OF p(1,2,6)])
    have "c' = c" "i' = i" using p(3,4) ctx eq by simp_all
    moreover from this have "derived' = derived" using p(5) ctx by simp
    moreover have "out_pub w = P" using p(8) key eq by simp
    ultimately show ?thesis using p(7,9) eq by simp
  qed
  have o: "output_sort out = (?h, item_name S item index)" using place [OF out(1)] out(2) by blast
  have new: "output_sort out \<notin> output_sort ` set (t_dups (db_outputs ?dt) (la_id ?u))"
  proof
    assume "output_sort out \<in> output_sort ` set (t_dups (db_outputs ?dt) (la_id ?u))"
    then obtain old where old: "(la_id ?u, old) \<in> set (db_outputs ?dt)" "output_sort old = output_sort out" by auto
    then have lh: "link_height (out_link old) = ?h" using o by (simp add: output_sort_def)
    from old(1) same(2) have "scanned ?dt (la_id ?u) ?h" using lh by (auto simp: storage_inv_def scan_inv_def)
    then obtain r' where r': "r' \<in> set (db_accounts ?dt)" "acc_id (snd r') = la_id ?u" "?h \<le> acc_scan_height (snd r')"
      by (auto simp: scanned_def)
    have "snd r' = snd r"
    proof -
      have "distinct (map (\<lambda>r. acc_id (snd r)) (db_accounts ?dt))" using same(2) by (simp add: storage_inv_def index_inv_def acc_rows_ok_def)
      from acc_unique [OF this, of "fst r'" "snd r'" "fst r" "snd r"] r'(1,2) assms(12,13) show ?thesis by (simp add: due_def)
    qed
    with r'(3) assms(17) show False by simp
  qed
  from fresh_values_keys [where sk = output_sort, OF out(1) new] obtain w where w: "w \<in> set (fresh_values output_sort (output_sort ` set (t_dups (db_outputs ?dt) (la_id ?u))) (la_outputs ?v))"
    "output_sort w = output_sort out" by blast
  then have wv: "w \<in> set (la_outputs ?v)" using fresh_values_subset by fastforce
  have "?v \<in> set (bs_users t)" using assms(11) list_all2_lengthD [OF rep(2)] by simp
  moreover have "(la_id ?u, w) \<in> stored_rows (last_height fetched) (db_accounts ?dt) (db_outputs ?dt) ?v"
    using w(1) grown_due [OF g] assms(12,13) by (auto simp: stored_rows_def)
  ultimately have "(la_id ?u, w) \<in> set (db_outputs d')" using st(3) by blast
  with place [OF wv] w(2) o show "\<exists>out. (la_id ?u, out) \<in> set (db_outputs d') \<and> out_pub out = P
      \<and> receipt (se_storage S) (se_library S) (block_reader S) c i (item_keys S c i derived) ?dt index out" by auto
qed

text \<open>
  C5: an output of an account in any block of the message ends up in the database. Take an account of the thread whose
  stored scan height joins on to the message, a transaction (the miner transaction or another) of a block above the
  scan height of the account, and an output of it that belongs to the account, to its spend key or to a subaddress
  stored before the message came. After the blocks are stored the table of outputs has, under the id of the account, this very output: with its
  one-time key, the height of the block and the hash of the transaction, its index, its global id, the transaction key
  that found it, the subaddress and the amount that opens the commitment. The key was not known before, no other output of the
  message has it, and no other output of the block has the hash and the global id (the daemon can send such).
\<close>

theorem scan_loop_complete:
  assumes "storage_env (se_storage S)" and "storage_inv (ls_db st)" and "fresh_users (ls_users st)" and "aligned fetched (ls_users st)"
    and "message_ok fetched" and "scan_result S fetched st = Some t"
    and "spends_unique (set (db_spends (ls_db st)) \<union> reported (bs_users t))"
    and "distinct (map la_id (ls_users st))" and "list_all (same_address (db_accounts (bs_db t))) (ls_users st)"
    and "loop_blocks S fetched st = (d', Goes_on st')"
    and "n < length (ls_users st)" and "r \<in> set (db_accounts (bs_db t))" and "due (last_height fetched) (ls_users st ! n) (snd r)"
    and "k < length (new_blocks fetched)" and "item \<in> block_items (fst (new_blocks fetched ! k)) (snd (new_blocks fetched ! k))"
    and "receives S (la_height (ls_users st ! 0) + of_nat (Suc k)) (cb_timestamp (fst (new_blocks fetched ! k))) item
      (ls_users st ! n) (ls_db st) (bs_db t) c i derived index P"
    and "acc_scan_height (snd r) < la_height (ls_users st ! 0) + of_nat (Suc k)"
    and "sole_output S fetched k item index"
    and "P \<notin> set (la_pubs (ls_users st ! n))"
  shows "\<exists>out. (la_id (ls_users st ! n), out) \<in> set (db_outputs d') \<and> out_pub out = P
    \<and> receipt (se_storage S) (se_library S) (block_reader S) c i (item_keys S c i derived) (bs_db t) index out"
  using scan_loop_stores(2) [OF assms] .

section \<open>An account at height 1\<close>

lemma scan_result_chain:
  assumes "storage_env (se_storage S)" and "storage_inv (ls_db st)" and "scan_result S fetched st = Some t"
  shows "bs_chain t = block_hash (se_chain S) (hd (fb_blocks fetched)) # map (\<lambda>b. block_hash (se_chain S) (fst b)) (new_blocks fetched)"
    "map la_height (bs_users t) = map la_height (ls_users st)" "db_blocks (bs_db t) = db_blocks (ls_db st)"
proof -
  from assms(3) obtain s s' where s: "first_state S fetched (ls_users st) (ls_db st) = Goes_on s"
    and t: "scan_blocks S (ls_last_pow st) (bs_height s) (new_blocks fetched) s = (s', Goes_on t)"
    by (auto simp: scan_result_def split: outcome.splits prod.splits)
  have f: "bs_db s = ls_db st" "bs_users s = ls_users st" "bs_chain s = [block_hash (se_chain S) (hd (fb_blocks fetched))]"
    using s by (auto simp: first_state_def Let_def split: sum.splits if_splits)
  have inv: "storage_inv (bs_db s)" using assms(2) f(1) by simp
  note run = scan_blocks_run [OF assms(1) t inv]
  show "bs_chain t = block_hash (se_chain S) (hd (fb_blocks fetched)) # map (\<lambda>b. block_hash (se_chain S) (fst b)) (new_blocks fetched)"
    using run f(3) by simp
  from run obtain H where "progress H s t" by blast
  then have p: "lookahead_run (bs_db s) (bs_db t)" "all_grown H (bs_users s) (bs_users t)" by (simp_all add: progress_def)
  show "map la_height (bs_users t) = map la_height (ls_users st)" using all_grown_heights [OF p(2)] f(2) by simp
  show "db_blocks (bs_db t) = db_blocks (ls_db st)" using p(1) f(1) by (simp add: lookahead_run_def)
qed

lemma update_blocks_out_of_step:
  assumes up: "update_blocks E 1 (c # cs) pow regtest d = Inr d'" and cs: "cs \<noteq> []" "length cs + 2 < 2 ^ 64"
    and top: "get_last_block E d = Inr lb" "2 \<le> bi_id lb"
  obtains k h where "k < length cs" "do_get_block_hash E d (of_nat k + 2) = Inr h" "cs ! k = h"
    | "do_get_block_hash E d (of_nat (length cs - 1) + 2) = Inl MDB_NOTFOUND"
proof -
  let ?n = "length cs" and ?lu = "of_nat (length cs) + 1 :: u64"
  have lu: "1 + of_nat (length (c # cs)) - 1 = ?lu" by simp
  have n: "unat ?lu = ?n + 1" "0 < ?n" using cs unat_add_u64 [of 1 ?n] by (simp_all add: add.commute)
  have two: "of_nat (?n - 1) + 2 = ?lu" using n(2) by (cases ?n) simp_all
  show thesis
  proof (cases "regtest \<or> env_max_height E \<le> ?lu")
    case True
    define last_same where "last_same = min (bi_id lb) ?lu"
    define k where "k = unat last_same - 2"
    have ge: "2 \<le> unat last_same" "unat last_same \<le> ?n + 1"
      using top(2) n by (auto simp: last_same_def min_def word_le_nat_alt Suc_le_eq)
    have ls: "last_same = of_nat k + 2"
      using ge(1) by (simp add: k_def word_unat_eq_iff unat_add_u64 flip: unat_of_nat)
    have off: "unat (last_same - 1) = Suc k"
      using ge(1) by (simp add: k_def unat_sub_if' word_le_nat_alt)
    from up True top(1) obtain h where h: "do_get_block_hash E d last_same = Inr h" "h = (c # cs) ! unat (last_same - 1)"
      unfolding update_blocks_def lu Let_def
      by (auto simp: last_same_def ebind_eq_Inr eunwrap_def simp del: append_block_hashes.simps append_pow.simps split: if_splits sum.splits)
    have "k < ?n" using ge by (simp add: k_def)
    moreover have "cs ! k = h" using h(2) off by simp
    ultimately show thesis using h(1) that(1) unfolding ls by blast
  next
    case False
    then have "(case get_both (tb_blocks E) (db_blocks d) blocks_version ?lu of None \<Rightarrow> True | Some b \<Rightarrow> last cs = bi_hash b)"
      using up cs(1) unfolding update_blocks_def lu Let_def by (auto split: option.splits if_splits)
    then show thesis
      using that(1) [of "?n - 1" "last cs"] that(2) n(2) cs(1) unfolding two
      by (auto simp: do_get_block_hash_def last_conv_nth split: option.splits)
  qed
qed

text \<open>Whatever comes of the blocks, only lookaheads are written before they are stored.\<close>

lemma scan_block_db:
  assumes "storage_env (se_storage S)" and "scan_block S lp ih b indices s = (s', r)" and "storage_inv (bs_db s)"
  shows "lookahead_run (bs_db s) (bs_db s')"
proof (cases "\<exists>t. r = Goes_on t")
  case True
  then obtain t where Goes_on: "r = Goes_on t" by blast
  then have "s' = t" using assms(2) by (auto simp: scan_block_def Let_def split: if_splits prod.splits sum.splits outcome.splits)
  then show ?thesis using scan_block_run [OF assms(1) assms(2) [unfolded Goes_on] assms(3)] by (simp add: progress_def)
next
  case False
  let ?s0 = "s\<lparr>bs_height := bs_height s + 1\<rparr>"
  obtain s1 r1 where s1: "scan_tx S (cb_timestamp b) None (cb_miner_tx b) (hd indices) ?s0 = (s1, r1)" by fastforce
  have run1: "lookahead_run (bs_db s) (bs_db s1)" using scan_tx_run [OF assms(1) s1] assms(3) by simp
  let ?txs = "zip (cb_tx_hashes b) (zip (cb_transactions b) (tl indices))"
  have step: "lookahead_run (bs_db s) (bs_db (fst (scan_txs S (cb_timestamp b) ?txs s2)))" if "bs_db s2 = bs_db s1" for s2
  proof -
    have "lookahead_run (bs_db s1) (bs_db (fst (scan_txs S (cb_timestamp b) ?txs s2)))"
      using scan_txs_run [OF assms(1) _ , of "cb_timestamp b" ?txs s2] lookahead_run_inv [OF run1] that by (metis prod.collapse)
    then show ?thesis by (rule lookahead_run_trans [OF run1])
  qed
  have chk: "bs_db s2 = bs_db s1" if "(if so_untrusted_daemon (se_options S) then check_block S lp ih b s1 else Goes_on s1) = Goes_on s2" for s2
    using that check_block_users [of S lp ih b s1 s2] by (auto split: if_splits)
  show ?thesis
  proof (cases "length (cb_tx_hashes b) \<noteq> length (cb_transactions b) \<or> indices = []")
    case True
    then have "s' = ?s0" using assms(2) by (cases "length (cb_tx_hashes b) = length (cb_transactions b)") (simp_all add: scan_block_def Let_def)
    then show ?thesis using lookahead_run_refl [OF assms(3)] by simp
  next
    case start: False
    show ?thesis
    proof (cases r1)
      case (Inl e)
      then show ?thesis using assms(2) start s1 run1 by (simp add: scan_block_def Let_def)
    next
      case (Inr x)
      obtain o2 where o2: "(if so_untrusted_daemon (se_options S) then check_block S lp ih b s1 else Goes_on s1) = o2" by blast
      show ?thesis
      proof (cases o2)
        case (Goes_on s2)
        then have db: "bs_db s2 = bs_db s1" using chk o2 by simp
        obtain s3 r3 where s3: "scan_txs S (cb_timestamp b) ?txs s2 = (s3, r3)" by fastforce
        have "bs_db s' = bs_db s2 \<or> bs_db s' = bs_db s3"
          using assms(2) start s1 Inr o2 Goes_on s3 by (auto simp: scan_block_def Let_def split: if_splits sum.splits)
        then show ?thesis using run1 db step [OF db] s3 by auto
      qed (use assms(2) start s1 Inr o2 run1 in \<open>simp_all add: scan_block_def Let_def\<close>)
    qed
  qed
qed

lemma scan_blocks_db:
  assumes "storage_env (se_storage S)" and "storage_inv (bs_db s)"
  shows "lookahead_run (bs_db s) (bs_db (fst (scan_blocks S lp ih bs s)))"
  using assms(2)
proof (induction bs arbitrary: s)
  case Nil
  then show ?case by (simp add: lookahead_run_refl)
next
  case (Cons x bs)
  obtain b indices where x: "x = (b, indices)" by (cases x)
  obtain s1 r where s1: "scan_block S lp ih b indices s = (s1, r)" by fastforce
  note one = scan_block_db [OF assms(1) s1 Cons.prems]
  show ?case
  proof (cases r)
    case (Goes_on u)
    then have run: "lookahead_run (bs_db s) (bs_db u)"
      using scan_block_run [OF assms(1) s1 [unfolded Goes_on] Cons.prems] by (simp add: progress_def)
    then show ?thesis using lookahead_run_trans [OF run Cons.IH [OF lookahead_run_inv [OF run]]] s1 Goes_on x by simp
  qed (use one s1 x in simp_all)
qed

lemma loop_blocks_not_stored:
  assumes "storage_env (se_storage S)" and "storage_inv (ls_db st)"
    and "\<And>t out d'. scan_result S fetched st = Some t \<Longrightarrow> bs_users t \<noteq> []
      \<and> update (se_storage S) (la_height (bs_users t ! 0)) (bs_chain t) (bs_users t) (bs_new_pow t) (so_regtest (se_options S)) (bs_db t) \<noteq> Inr (d', out)"
  shows "lookahead_run (ls_db st) (fst (loop_blocks S fetched st)) \<and> goes_on (snd (loop_blocks S fetched st)) = None"
proof (cases "first_state S fetched (ls_users st) (ls_db st)")
  case (Goes_on s)
  have f: "bs_db s = ls_db st" using first_state_fields(1) [OF Goes_on] .
  obtain s' r where sb: "scan_blocks S (ls_last_pow st) (bs_height s) (new_blocks fetched) s = (s', r)" by fastforce
  have run: "lookahead_run (ls_db st) (bs_db s')"
    using scan_blocks_db [OF assms(1), of s "ls_last_pow st" "bs_height s" "new_blocks fetched"] assms(2) sb f by simp
  show ?thesis
  proof (cases r)
    case going: (Goes_on t)
    then have sr: "scan_result S fetched st = Some t" using Goes_on sb by (simp add: scan_result_def)
    have runt: "lookahead_run (ls_db st) (bs_db t)"
      using scan_blocks_run [OF assms(1) sb [unfolded going]] assms(2) f by (simp add: progress_def)
    obtain e where e: "update (se_storage S) (la_height (bs_users t ! 0)) (bs_chain t) (bs_users t) (bs_new_pow t) (so_regtest (se_options S)) (bs_db t) = Inl e"
      and ne: "bs_users t \<noteq> []"
      using assms(3) [OF sr] by (metis obj_sumE surj_pair)
    then show ?thesis using Goes_on sb going runt lookahead_run_refl [OF assms(2)]
      by (auto simp: loop_blocks_def store_users_def goes_on_def Let_def)
  qed (use Goes_on sb run lookahead_run_refl [OF assms(2)] in \<open>auto simp: loop_blocks_def goes_on_def\<close>)
qed (use lookahead_run_refl [OF assms(2)] in \<open>auto simp: loop_blocks_def goes_on_def\<close>)

text \<open>
  C38: an account at height 1 can be stuck. The message for it starts at block 1, as for an account at height 0, and
  all its blocks are read as new, so the chain handed to \<^verbatim>\<open>storage::update\<close> has the first hash twice and is one
  block out of step with the height 1 it is said to start from. Let the chain in the database reach one block further than
  the message, with no block of the message in the place after its own. Then whatever the message holds, nothing of it is stored
  (the blocks, the outputs, the spends and the scan heights of all accounts are those before) and the thread does not go on: it
  returns or throws, and the same message meets the same fate again. An administrator reaches this with \<^verbatim>\<open>rescan\<close> to height 1 when the
  database has the blocks that the daemon sends.
\<close>

theorem height_one_never_advances:
  assumes "storage_env (se_storage S)" and "storage_inv (ls_db st)" and "ls_users st \<noteq> []"
    and "la_height (ls_users st ! 0) = 1" and "fb_start_height fetched = 1" and "fb_blocks fetched \<noteq> []"
    and "length (fb_output_indices fetched) = length (fb_blocks fetched)" and "length (fb_blocks fetched) + 2 < 2 ^ 64"
    and "get_last_block (se_storage S) (ls_db st) = Inr lb" and "2 \<le> bi_id lb"
    and "list_all (\<lambda>k. do_get_block_hash (se_storage S) (ls_db st) (of_nat k + 2) = Inr (hs ! k)) [0..<length (fb_blocks fetched)]"
    and "list_all (\<lambda>k. block_hash (se_chain S) (fb_blocks fetched ! k) \<noteq> hs ! k) [0..<length (fb_blocks fetched)]"
    and "loop_blocks S fetched st = (d', outcome)"
  shows "goes_on outcome = None \<and> db_blocks d' = db_blocks (ls_db st)
    \<and> db_outputs d' = db_outputs (ls_db st) \<and> db_spends d' = db_spends (ls_db st)
    \<and> bh_row ` set (db_accounts d') = bh_row ` set (db_accounts (ls_db st))"
proof -
  let ?E = "se_storage S" and ?bs = "fb_blocks fetched" and ?h = "block_hash (se_chain S)"
  have stuck: "bs_users t \<noteq> [] \<and> update ?E (la_height (bs_users t ! 0)) (bs_chain t) (bs_users t) (bs_new_pow t) (so_regtest (se_options S)) (bs_db t) \<noteq> Inr (d2, out)"
    if t: "scan_result S fetched st = Some t" for t d2 out
  proof -
    note ch = scan_result_chain [OF assms(1,2) t]
    have "map (\<lambda>b. ?h (fst b)) (new_blocks fetched) = map ?h (map fst (new_blocks fetched))" by simp
    also have "map fst (new_blocks fetched) = ?bs" using assms(5,7) by (simp add: new_blocks_def Let_def)
    finally have chain: "bs_chain t = ?h (hd ?bs) # map ?h ?bs" using ch(1) by simp
    have len_u: "length (bs_users t) = length (ls_users st)" using map_eq_imp_length_eq [OF ch(2)] .
    have ne: "bs_users t \<noteq> []" using len_u assms(3) by auto
    have h1: "la_height (bs_users t ! 0) = 1"
      using ch(2) assms(3,4) len_u by (metis length_greater_0_conv nth_map)
    have top: "get_last_block ?E (bs_db t) = Inr lb" using assms(9) ch(3) by (simp add: get_last_block_def)
    have hash: "do_get_block_hash ?E (bs_db t) (of_nat k + 2) = Inr (hs ! k)" "?h (?bs ! k) \<noteq> hs ! k" if "k < length ?bs" for k
      using assms(11,12) that ch(3) by (simp_all add: list_all_length do_get_block_hash_def)
    have ne_bs: "map ?h ?bs \<noteq> []" "length (map ?h ?bs) + 2 < 2 ^ 64" using assms(6,8) by simp_all
    have "update_blocks ?E 1 (?h (hd ?bs) # map ?h ?bs) (bs_new_pow t) (so_regtest (se_options S)) (bs_db t) \<noteq> Inr d1" for d1
    proof
      assume "update_blocks ?E 1 (?h (hd ?bs) # map ?h ?bs) (bs_new_pow t) (so_regtest (se_options S)) (bs_db t) = Inr d1"
      from this ne_bs top assms(10) show False
        by (rule update_blocks_out_of_step) (use hash hash(1) [of "length ?bs - 1"] assms(6) in auto)
    qed
    then show ?thesis using ne h1 chain by (auto simp: update_def Let_def ebind_eq_Inr)
  qed
  have "lookahead_run (ls_db st) (fst (loop_blocks S fetched st)) \<and> goes_on (snd (loop_blocks S fetched st)) = None"
    by (rule loop_blocks_not_stored [OF assms(1,2)]) (rule stuck)
  then have "lookahead_run (ls_db st) d'" "goes_on outcome = None" using assms(13) by simp_all
  then show ?thesis using lookahead_run_heights [OF assms(2)] by (simp add: lookahead_run_def)
qed

section \<open>A message\<close>

text \<open>Two blocks for one account; the second block pays it.\<close>

definition sample_block :: "hash \<Rightarrow> transaction list \<Rightarrow> chain_block" where
  "sample_block h txs = \<lparr>cb_major_version = 16, cb_timestamp = 60, cb_prev_id = h - 1,
     cb_miner_tx = sample_tx\<lparr>tx_vin := [], tx_vout := [], tx_out_pk := [], tx_ecdh_info := []\<rparr>, cb_tx_hashes = map (\<lambda>_. 9) txs, cb_transactions = txs\<rparr>"

definition sample_chain_library :: chain_library where
  "sample_chain_library = \<lparr>cl_block_hash = (\<lambda>b. Some (cb_prev_id b + 1)), cl_hashing_blob = (\<lambda>_. []), cl_rx_seedheight = (\<lambda>_. 0),
     cl_rx_slow_hash = (\<lambda>_ _. 0), cl_cn_slow_hash = (\<lambda>_ _ _. 0), cl_next_difficulty = (\<lambda>_ _ _. 1), cl_check_hash = (\<lambda>_ _. True),
     cl_median = hd, cl_rx_block_version = 12, cl_longhash_202612 = 0, cl_second_fork = Some 5, cl_target_v1 = 60, cl_target_v2 = 120\<rparr>"

definition sample_scan_env :: scan_env where
  "sample_scan_env = \<lparr>se_storage = sample_env, se_library = sample_library, se_chain = sample_chain_library,
     se_options = \<lparr>so_split_sync_threads = None, so_split_sync_depth = 0, so_min_block_depth = 16, so_max_subaddresses = 10, so_untrusted_daemon = False,
       so_regtest = True, so_block_depth_threading = False, so_balance_new_addresses = False\<rparr>,
     se_disk = True, se_stop = (\<lambda>_. False), se_internal_pub = False\<rparr>"

definition sample_thread :: "db \<Rightarrow> block_id \<Rightarrow> loop_state" where
  "sample_thread d h = \<lparr>ls_db = d, ls_users = [get_full_account sample_env (\<lambda>_. ''addr'') sample_db (sample_account 1 h)],
     ls_start_height = h, ls_last_pow = 0, ls_queue = new_queue, ls_waiting = False\<rparr>"

definition sample_message :: fetched_blocks where
  "sample_message = \<lparr>fb_blocks = [sample_block 102 [], sample_block 103 [sample_tx\<lparr>tx_vin := []\<rparr>]],
     fb_output_indices = [[[]], [[], [41, 42]]], fb_start_height = 2\<rparr>"

definition sample_result :: block_state where
  "sample_result = the (scan_result sample_scan_env sample_message (sample_thread sample_db 2))"

definition sample_step :: "db \<times> loop_state outcome" where
  "sample_step = loop_blocks sample_scan_env sample_message (sample_thread sample_db 2)"

lemma sample_message_ok:
  "storage_env (se_storage sample_scan_env)" "storage_inv (ls_db (sample_thread sample_db 2))" "fresh_users (ls_users (sample_thread sample_db 2))"
  "aligned sample_message (ls_users (sample_thread sample_db 2))" "message_ok sample_message"
  "scan_result sample_scan_env sample_message (sample_thread sample_db 2) = Some sample_result"
  "spends_unique (set (db_spends (ls_db (sample_thread sample_db 2))) \<union> reported (bs_users sample_result))"
  "distinct (map la_id (ls_users (sample_thread sample_db 2)))" "list_all (same_address (db_accounts (bs_db sample_result))) (ls_users (sample_thread sample_db 2))"
  "loop_blocks sample_scan_env sample_message (sample_thread sample_db 2) = (fst sample_step, Goes_on (the (goes_on (snd sample_step))))"
proof -
  show "storage_env (se_storage sample_scan_env)" "storage_inv (ls_db (sample_thread sample_db 2))" 
    using sample_env_ok sample_db_inv by (simp_all add: sample_scan_env_def sample_thread_def)
  show "fresh_users (ls_users (sample_thread sample_db 2))"
    using sample_scan_ok(3) by (simp add: fresh_users_def sample_thread_def sample_scanners_def)
      (simp add: get_full_account_def load_account_def make_account_def)
  show "aligned sample_message (ls_users (sample_thread sample_db 2))" by code_simp
  show "message_ok sample_message" by (simp add: message_ok_def sample_message_def)
  have "scan_result sample_scan_env sample_message (sample_thread sample_db 2) \<noteq> None" by code_simp
  then show "scan_result sample_scan_env sample_message (sample_thread sample_db 2) = Some sample_result" by (simp add: sample_result_def)
  have "reported (bs_users sample_result) = {}" by code_simp
  moreover have "db_spends (ls_db (sample_thread sample_db 2)) = [(1, sample_spend 2)]" by (simp add: sample_thread_def sample_db_def)
  ultimately show "spends_unique (set (db_spends (ls_db (sample_thread sample_db 2))) \<union> reported (bs_users sample_result))" by (simp add: spends_unique_def)
  show "distinct (map la_id (ls_users (sample_thread sample_db 2)))" by (simp add: sample_thread_def)
  show "list_all (same_address (db_accounts (bs_db sample_result))) (ls_users (sample_thread sample_db 2))" by code_simp
  have "goes_on (snd sample_step) \<noteq> None" by code_simp
  then show "loop_blocks sample_scan_env sample_message (sample_thread sample_db 2) = (fst sample_step, Goes_on (the (goes_on (snd sample_step))))"
    by (auto simp: sample_step_def [symmetric] goes_on_def prod_eq_iff split: outcome.splits)
qed

theorem scan_loop_advances_witness:
  "storage_inv (fst sample_step) \<and> la_height (ls_users (the (goes_on (snd sample_step))) ! 0) = 3"
  using scan_loop_advances [OF sample_message_ok] by (simp add: last_height_def sample_message_def)

text \<open>What the account of the sample gets: the first output of the transaction in the block 103.\<close>

definition sample_item :: block_item where
  "sample_item = (Some 9, sample_tx\<lparr>tx_vin := []\<rparr>, [41, 42])"

definition sample_item_context :: tx_context where
  "sample_item_context = sample_context\<lparr>tc_tx := sample_tx\<lparr>tx_vin := []\<rparr>\<rparr>"

definition sample_internal :: internal where
  "sample_internal = make_internal (\<lambda>_. ''addr'') (sample_account 1 2)"

lemma sample_message_received:
  "0 < length (ls_users (sample_thread sample_db 2))"
  "(active, sample_account 1 2) \<in> set (db_accounts (bs_db sample_result))"
  "due (last_height sample_message) (ls_users (sample_thread sample_db 2) ! 0) (snd (active, sample_account 1 2))"
  "0 < length (new_blocks sample_message)"
  "sample_item \<in> block_items (fst (new_blocks sample_message ! 0)) (snd (new_blocks sample_message ! 0))"
  "receives sample_scan_env (la_height (ls_users (sample_thread sample_db 2) ! 0) + of_nat (Suc 0)) (cb_timestamp (fst (new_blocks sample_message ! 0)))
     sample_item (ls_users (sample_thread sample_db 2) ! 0) (ls_db (sample_thread sample_db 2)) (bs_db sample_result)
     sample_item_context sample_internal 501 0 502"
  "acc_scan_height (snd (active, sample_account 1 2)) < la_height (ls_users (sample_thread sample_db 2) ! 0) + of_nat (Suc 0)"
  "sole_output sample_scan_env sample_message 0 sample_item 0"
  "502 \<notin> set (la_pubs (ls_users (sample_thread sample_db 2) ! 0))" "la_id (ls_users (sample_thread sample_db 2) ! 0) = 1"
proof -
  let ?u = "ls_users (sample_thread sample_db 2) ! 0" and ?tx = "sample_tx\<lparr>tx_vin := []\<rparr>" and ?c = sample_item_context and ?i = sample_internal
  have new: "new_blocks sample_message = [(sample_block 103 [?tx], [[], [41, 42]])]"
    by (simp add: new_blocks_def sample_message_def Let_def)
  have u: "la_id ?u = 1" "la_height ?u = 2" "la_immutable ?u = Some ?i" "502 \<notin> set (la_pubs ?u)" by code_simp+
  have r: "block_reader sample_scan_env = Some (Disk_reader 10)" by code_simp
  have items: "block_items (fst (new_blocks sample_message ! 0)) (snd (new_blocks sample_message ! 0))
      = {(None, cb_miner_tx (sample_block 103 [?tx]), []), sample_item}"
    by (simp add: new block_items_def sample_block_def sample_item_def)
  have lib: "se_library sample_scan_env = sample_library" by (simp add: sample_scan_env_def)
  have "make_context sample_library (scan_test (Some (Disk_reader 10))) 3 60 (Some 9) ?tx [41, 42] = Some ?c"
    by (simp add: make_context_def sample_library_def sample_item_context_def sample_context_def sample_tx_def scan_test_def)
  then have ctx: "item_context sample_scan_env 3 60 sample_item = Some ?c"
    by (simp add: item_context_def r lib sample_item_def)
  have owned: "owned_via sample_env sample_library (Some (Disk_reader 10)) sample_db ?i 502 0 501 (Address_index 0 0)"
    by (simp add: owned_via_def sample_library_def sample_internal_def make_internal_def sample_account_def)
  have dec: "decodes sample_library ?tx 0 501" by code_simp
  have own: "owns_output sample_env sample_library (Some (Disk_reader 10)) ?c ?i 501 [] sample_db (bs_db sample_result) 0 502"
    using owned dec by (auto simp: owns_output_def attempts_def out_matched_def sample_item_context_def sample_context_def sample_tx_def sample_library_def)
  moreover have "tl_derivation sample_library (tc_pub_key ?c) (in_view_key ?i) = Some 501"
    "additional_derivations sample_library (scan_test (Some (Disk_reader 10))) ?c (in_view_key ?i) = []"
    by (simp_all add: additional_derivations_def sample_library_def sample_item_context_def sample_context_def sample_tx_def sample_internal_def make_internal_def sample_account_def)
  ultimately have "receives sample_scan_env 3 60 sample_item ?u sample_db (bs_db sample_result) ?c ?i 501 0 502"
    unfolding receives_def using ctx u r by (simp add: sample_scan_env_def sample_item_context_def sample_tx_def)
  then show rec: "receives sample_scan_env (la_height ?u + of_nat (Suc 0)) (cb_timestamp (fst (new_blocks sample_message ! 0)))
      sample_item ?u (ls_db (sample_thread sample_db 2)) (bs_db sample_result) ?c ?i 501 0 502"
    by (simp add: new u sample_block_def) (simp add: sample_thread_def)
  show "0 < length (ls_users (sample_thread sample_db 2))" "0 < length (new_blocks sample_message)" by (simp_all add: sample_thread_def new)
  show "(active, sample_account 1 2) \<in> set (db_accounts (bs_db sample_result))"
    "due (last_height sample_message) ?u (snd (active, sample_account 1 2))" by code_simp+
  show "sample_item \<in> block_items (fst (new_blocks sample_message ! 0)) (snd (new_blocks sample_message ! 0))" by (simp add: items)
  show "acc_scan_height (snd (active, sample_account 1 2)) < la_height ?u + of_nat (Suc 0)"
    unfolding u(2) by (simp add: sample_account_def)
  show "sole_output sample_scan_env sample_message 0 sample_item 0"
    unfolding sole_output_def using items
    by (auto simp: new less_Suc_eq item_key_def item_name_def sample_item_def sample_block_def sample_tx_def)
  show "502 \<notin> set (la_pubs ?u)" "la_id ?u = 1" by (fact u(4), fact u(1))
qed

theorem scan_loop_complete_witness:
  "\<exists>out. (1, out) \<in> set (db_outputs (fst sample_step)) \<and> out_pub out = 502 \<and> sm_amount (out_spend_meta out) = 10"
proof -
  from scan_loop_complete [OF sample_message_ok sample_message_received(1-9)] sample_message_received(10)
  obtain out where out: "(1, out) \<in> set (db_outputs (fst sample_step))" "out_pub out = 502" by auto
  have "list_all (\<lambda>r. out_pub (snd r) = 502 \<longrightarrow> sm_amount (out_spend_meta (snd r)) = 10) (db_outputs (fst sample_step))" by code_simp
  then have "out_pub (snd (1 :: account_id, out)) = 502 \<longrightarrow> sm_amount (out_spend_meta (snd (1 :: account_id, out))) = 10"
    unfolding list_all_iff using out(1) by (rule bspec)
  then show ?thesis using out by auto
qed

text \<open>The chain one block longer, and the message for an account at height 1.\<close>

definition longer_db :: db where
  "longer_db = sample_db\<lparr>db_blocks := db_blocks sample_db @ [(blocks_version, \<lparr>bi_id = 3, bi_hash = 103\<rparr>)]\<rparr>"

definition first_message :: fetched_blocks where
  "first_message = \<lparr>fb_blocks = [sample_block 101 [], sample_block 102 []], fb_output_indices = [[[]], [[]]], fb_start_height = 1\<rparr>"

lemma longer_db_inv: "storage_inv longer_db"
proof -
  have "db_wf longer_db" "index_inv longer_db" "scan_inv longer_db" "image_inv longer_db" by code_simp+
  then show ?thesis by (simp add: storage_inv_def)
qed

theorem height_one_never_advances_witness:
  "goes_on (snd (loop_blocks sample_scan_env first_message (sample_thread longer_db 1))) = None
    \<and> db_outputs (fst (loop_blocks sample_scan_env first_message (sample_thread longer_db 1))) = db_outputs longer_db"
proof -
  have ok: "storage_env (se_storage sample_scan_env)" "storage_inv (ls_db (sample_thread longer_db 1))"
    using sample_env_ok longer_db_inv by (simp_all add: sample_scan_env_def sample_thread_def)
  have last: "get_last_block (se_storage sample_scan_env) (ls_db (sample_thread longer_db 1)) = Inr \<lparr>bi_id = 3, bi_hash = 103\<rparr>" by code_simp
  have hs: "list_all (\<lambda>k. do_get_block_hash (se_storage sample_scan_env) (ls_db (sample_thread longer_db 1)) (of_nat k + 2) = Inr ([102, 103] ! k))
      [0..<length (fb_blocks first_message)]"
    "list_all (\<lambda>k. block_hash (se_chain sample_scan_env) (fb_blocks first_message ! k) \<noteq> [102, 103] ! k) [0..<length (fb_blocks first_message)]" by code_simp+
  have h: "la_height (ls_users (sample_thread longer_db 1) ! 0) = 1" by code_simp
  have "ls_db (sample_thread longer_db 1) = longer_db" by (simp add: sample_thread_def)
  moreover have "goes_on (snd (loop_blocks sample_scan_env first_message (sample_thread longer_db 1))) = None
      \<and> db_blocks (fst (loop_blocks sample_scan_env first_message (sample_thread longer_db 1))) = db_blocks (ls_db (sample_thread longer_db 1))
      \<and> db_outputs (fst (loop_blocks sample_scan_env first_message (sample_thread longer_db 1))) = db_outputs (ls_db (sample_thread longer_db 1))
      \<and> db_spends (fst (loop_blocks sample_scan_env first_message (sample_thread longer_db 1))) = db_spends (ls_db (sample_thread longer_db 1))
      \<and> bh_row ` set (db_accounts (fst (loop_blocks sample_scan_env first_message (sample_thread longer_db 1)))) = bh_row ` set (db_accounts (ls_db (sample_thread longer_db 1)))"
    by (rule height_one_never_advances [OF ok _ h _ _ _ _ last _ hs prod.collapse [symmetric]]) (simp_all add: sample_thread_def first_message_def)
  ultimately show ?thesis by simp
qed

end
