(* ===== verification/Scanner_Sync.thy ===== *)
theory Scanner_Sync
  imports Scanner_Result
begin

text \<open>
  What the synchronisation with a daemon guarantees: with a trusted daemon the database changes only by \<^verbatim>\<open>sync_chain\<close>;
  with an untrusted one every block taken in is linked to the one before and, beyond the last checkpoint, has a proof of work for the
  difficulty that the window of the blocks before it gives.
\<close>

section \<open>Blocks of an untrusted daemon\<close>

text \<open>The difficulty a block needs, from the window before it, and the window after it.\<close>

definition block_diff :: "env \<Rightarrow> chain_library \<Rightarrow> block_id \<Rightarrow> pow_window \<Rightarrow> u128" where
  "block_diff E C height w =
     (case get_target_time C height of
        Inl _ \<Rightarrow> 0
      | Inr target \<Rightarrow> cl_next_difficulty C (pw_pow_timestamps (trim_window E w)) (pw_cumulative_diffs (trim_window E w)) target)"

fun window_after :: "env \<Rightarrow> chain_library \<Rightarrow> block_id \<Rightarrow> chain_block list \<Rightarrow> pow_window \<Rightarrow> pow_window" where
  "window_after E C height [] w = w"
| "window_after E C height (b # bs) w =
     window_after E C (height + 1) bs (extend_window (cb_timestamp b) (block_diff E C (height + 1) w) (trim_window E w))"

text \<open>A block at \<open>height\<close> after the hashes \<open>before\<close>, the first of which is the block at \<open>start\<close>, and the window \<open>w\<close>.\<close>

definition block_verified :: "env \<Rightarrow> chain_library \<Rightarrow> db \<Rightarrow> block_id \<Rightarrow> block_id \<Rightarrow> block_id \<Rightarrow> hash list \<Rightarrow> pow_window \<Rightarrow> chain_block \<Rightarrow> bool" where
  "block_verified E C d last_checkpoint start height before w b \<longleftrightarrow>
     cb_prev_id b = last before \<and> cl_block_hash C b \<noteq> None
     \<and> (last_checkpoint < height \<longrightarrow>
          verify_timestamp C (cb_timestamp b) (pw_median_timestamps (trim_window E w))
          \<and> (case get_block_longhash E C (cl_hashing_blob C b) height (cb_major_version b) d start before of
               Inl _ \<Rightarrow> False | Inr pow \<Rightarrow> cl_check_hash C pow (block_diff E C height w)))"

definition chain_verified :: "env \<Rightarrow> chain_library \<Rightarrow> db \<Rightarrow> block_id \<Rightarrow> block_id \<Rightarrow> hash list \<Rightarrow> block_id \<Rightarrow> pow_window \<Rightarrow> chain_block list \<Rightarrow> bool" where
  "chain_verified E C d last_checkpoint start before height w bs \<longleftrightarrow>
     (\<forall>k < length bs. block_verified E C d last_checkpoint start (height + of_nat (Suc k)) (before @ map (block_hash C) (take k bs))
        (window_after E C height (take k bs) w) (bs ! k))"

lemma chain_verified_Cons:
  "chain_verified E C d cp start before height w (b # bs) \<longleftrightarrow>
     block_verified E C d cp start (height + 1) before w b
     \<and> chain_verified E C d cp start (before @ [block_hash C b]) (height + 1)
         (extend_window (cb_timestamp b) (block_diff E C (height + 1) w) (trim_window E w)) bs"
  by (simp add: chain_verified_def All_less_Suc2 add.assoc)

lemma full_block_cases:
  assumes "full_block E C stop d cp start height b s = Inr s'"
  obtains "block_verified E C d cp start height (fs_hashes s) (fs_window s) b \<or> fs_hash s \<noteq> last (fs_hashes s)"
    "fs_hash s' = block_hash C b" "fs_hashes s' = fs_hashes s @ [block_hash C b]"
    "fs_window s' = extend_window (cb_timestamp b) (block_diff E C height (fs_window s)) (trim_window E (fs_window s))"
    "length (fs_pow s') = Suc (length (fs_pow s))"
  using assms
  by (auto simp: full_block_def block_verified_def block_diff_def block_hash_def Let_def ebind_eq_Inr eget_def split: if_splits option.splits sum.splits)

lemma full_blocks_verified:
  assumes "full_blocks E C stop d cp start height bs s = Inr s'" and "fs_hash s = last (fs_hashes s)"
  shows "chain_verified E C d cp start (fs_hashes s) height (fs_window s) bs
    \<and> fs_hashes s' = fs_hashes s @ map (block_hash C) bs"
  using assms
proof (induction bs arbitrary: height s)
  case Nil
  then show ?case by (simp add: chain_verified_def)
next
  case (Cons b bs)
  from Cons.prems(1) obtain s1 where s1: "full_block E C stop d cp start (height + 1) b s = Inr s1"
    and rest: "full_blocks E C stop d cp start (height + 1) bs s1 = Inr s'" by (auto simp: ebind_eq_Inr)
  from s1 Cons.prems(2) have b: "block_verified E C d cp start (height + 1) (fs_hashes s) (fs_window s) b"
    "fs_hash s1 = last (fs_hashes s1)" "fs_hashes s1 = fs_hashes s @ [block_hash C b]"
    "fs_window s1 = extend_window (cb_timestamp b) (block_diff E C (height + 1) (fs_window s)) (trim_window E (fs_window s))"
    by (auto elim!: full_block_cases)
  from Cons.IH [OF rest b(2)] b(1,3,4) show ?case by (simp add: chain_verified_Cons)
qed

section \<open>Synchronisation with an untrusted daemon\<close>

text \<open>A message taken in: its blocks are verified against the database as it was, and stored by \<^verbatim>\<open>sync_pow\<close>.\<close>

inductive verified_step :: "env \<Rightarrow> chain_library \<Rightarrow> db \<Rightarrow> db \<Rightarrow> bool" for E C where
  verified: "get_last_checkpoint E = Inr cp \<Longrightarrow> cl_block_hash C b = Some h \<Longrightarrow> get_pow_window E d start = Inr w \<Longrightarrow>
     chain_verified E C d (bi_id cp) start [h] start w bs \<Longrightarrow> sync_pow E start (h # map (block_hash C) bs) pow d = Inr d' \<Longrightarrow>
     verified_step E C d d'"

inductive_cases verified_stepE: "verified_step E C d d'"

lemma full_answer_verified:
  assumes "full_answer E C stop cp h resp ids d = Inr (d', ids')" and "get_last_checkpoint E = Inr cp"
    and "cl_block_hash C (hd (fb_blocks resp)) = Some h"
  shows "verified_step E C d d'"
proof -
  let ?b = "hd (fb_blocks resp)" and ?start = "fb_start_height resp"
  from assms(1) obtain w s where w: "get_pow_window E d ?start = Inr w"
    and s: "full_blocks E C stop d (bi_id cp) ?start ?start (tl (fb_blocks resp))
      \<lparr>fs_hash = h, fs_ids = [last ids], fs_window = w, fs_hashes = [h], fs_pow = [plain_entry (cb_timestamp ?b)]\<rparr> = Inr s"
    and up: "sync_pow E ?start (fs_hashes s) (fs_pow s) d = Inr d'"
    by (auto simp: full_answer_def Let_def ebind_eq_Inr eunwrap_def split: sum.splits)
  from full_blocks_verified [OF s] up show ?thesis
    by (auto intro: verified [OF assms(2,3) w])
qed

text \<open>
  C11: an untrusted daemon cannot bring in an unproven chain. Whatever it answers, the database changes only by messages whose
  blocks are each linked to the block before and, beyond the last checkpoint, have an acceptable timestamp and a proof of work for the
  difficulty of the window before them. And \<^verbatim>\<open>sync_full\<close> reports success only when the last block the daemon names is in the
  database and not below the last checkpoint.
\<close>

theorem sync_full_verified:
  assumes "sync_full E C stop resps ids d = Some (d', r)"
  shows "(verified_step E C)\<^sup>*\<^sup>* d d'
    \<and> (r = Inr () \<longrightarrow> (\<exists>resp cp h. Inr resp \<in> set resps \<and> get_last_checkpoint E = Inr cp \<and> bi_id cp \<le> fb_start_height resp
          \<and> fb_blocks resp \<noteq> [] \<and> cl_block_hash C (hd (fb_blocks resp)) = Some h \<and> get_block_hash E d' (fb_start_height resp) = Inr h))"
  using assms
proof (induction E C stop resps ids d rule: sync_full.induct)
  case (1 E C stop resps ids d)
  show ?case
  proof (cases "\<exists>e. r = Inl e \<and> d' = d")
    case True
    then show ?thesis by auto
  next
    case False
    with "1.prems" obtain resp rest h cp where resps: "resps = Inr resp # rest" and ids: "ids \<noteq> []" and ne: "fb_blocks resp \<noteq> []"
      and h: "cl_block_hash C (hd (fb_blocks resp)) = Some h" and cp: "get_last_checkpoint E = Inr cp"
      by (subst (asm) sync_full.simps) (auto split: if_splits list.splits sum.splits option.splits)
    show ?thesis
    proof (cases "length (fb_blocks resp) \<le> 1")
      case True
      with "1.prems" False resps ids ne h cp show ?thesis
        by (subst (asm) sync_full.simps) (auto split: if_splits)
    next
      case long: False
      then obtain d1 ids1 where ans: "full_answer E C stop cp h resp ids d = Inr (d1, ids1)"
        and rest: "sync_full E C stop rest ids1 d1 = Some (d', r)"
        using "1.prems" False resps ids ne h cp by (subst (asm) sync_full.simps) (auto split: if_splits sum.splits)
      have "verified_step E C d d1" by (rule full_answer_verified [OF ans cp h])
      moreover note "1.IH" [OF ids resps refl ne h cp long ans refl rest]
      ultimately show ?thesis using resps by (auto intro: converse_rtranclp_into_rtranclp)
    qed
  qed
qed


definition sample_sync_env :: env where
  "sample_sync_env = sample_env\<lparr>env_points := [(0, 100)]\<rparr>"

definition sample_pow_chain :: db where
  "sample_pow_chain = sample_chain\<lparr>db_pows := map (\<lambda>i. (pows_version, \<lparr>bp_id = i, bp_timestamp = 50, bp_cumulative_diff = Block_difficulty 0 i\<rparr>)) [0, 1, 2]\<rparr>"

definition sample_answers :: "fetched_blocks expect list" where
  "sample_answers = [Inr \<lparr>fb_blocks = [sample_block 102 [], sample_block 103 []], fb_output_indices = [], fb_start_height = 2\<rparr>,
     Inr \<lparr>fb_blocks = [sample_block 103 []], fb_output_indices = [], fb_start_height = 3\<rparr>]"

definition sample_full :: "db \<times> unit expect" where
  "sample_full = the (sync_full sample_sync_env sample_chain_library (\<lambda>_. False) sample_answers [102, 100] sample_pow_chain)"

theorem sync_full_verified_witness:
  "snd sample_full = Inr () \<and> get_block_hash sample_sync_env (fst sample_full) 3 = Inr 103
    \<and> (verified_step sample_sync_env sample_chain_library)\<^sup>*\<^sup>* sample_pow_chain (fst sample_full)"
proof -
  let ?r = "sync_full sample_sync_env sample_chain_library (\<lambda>_. False) sample_answers [102, 100] sample_pow_chain"
  have "?r \<noteq> None" by code_simp
  then have "?r = Some (fst sample_full, snd sample_full)" by (simp add: sample_full_def del: sync_full.simps)
  from sync_full_verified [OF this]
  have "(verified_step sample_sync_env sample_chain_library)\<^sup>*\<^sup>* sample_pow_chain (fst sample_full)" by blast
  moreover have "snd sample_full = Inr ()" "get_block_hash sample_sync_env (fst sample_full) 3 = Inr 103" by code_simp+
  ultimately show ?thesis by blast
qed

end
