(* ===== verification/Scanner_Thread.thy ===== *)
theory Scanner_Thread
  imports Scanner
begin

text \<open>
  A scanner thread keeps the accounts it was given: whatever the daemon answers, and whenever the server hands over
  accounts, none is lost and none is scanned by mistake.
\<close>

section \<open>The accounts of a list stay the same\<close>

abbreviation same_accounts :: "lws_account list \<Rightarrow> lws_account list \<Rightarrow> bool" where
  "same_accounts us vs \<equiv> map la_immutable us = map la_immutable vs"

definition keeps_account :: "'s ownership_test \<Rightarrow> bool" where
  "keeps_account T \<longleftrightarrow> (\<forall>u sp s. la_immutable (fst (on_spend T u sp s)) = la_immutable u)
     \<and> (\<forall>u out d s. la_immutable (fst (on_output T u out d s)) = la_immutable u)"

lemma keeps_accountD:
  "keeps_account T \<Longrightarrow> la_immutable (fst (on_spend T u sp s)) = la_immutable u"
  "keeps_account T \<Longrightarrow> la_immutable (fst (on_output T u out d s)) = la_immutable u"
  by (simp_all add: keeps_account_def)

lemma keeps_account_scan: "keeps_account (scan_test r)"
  by (simp add: keeps_account_def scan_test_def add_spend_def add_received_def Let_def)

lemma scan_ring_immutable:
  "keeps_account T \<Longrightarrow> la_immutable (fst (scan_ring T c amount k_image mixin goffset offsets us)) = la_immutable (fst us)"
  by (induction T c amount k_image mixin goffset offsets us rule: scan_ring.induct)
    (auto simp: Let_def keeps_accountD split: option.splits)

lemma scan_inputs_immutable:
  "keeps_account T \<Longrightarrow> la_immutable (fst (fst (scan_inputs T c ins me us))) = la_immutable (fst us)"
  by (induction T c ins me us rule: scan_inputs.induct) (auto simp: Let_def scan_ring_immutable)

lemma scan_output_immutable:
  assumes "keeps_account T"
  shows "la_immutable (os_user (fst (scan_output E L T c i derived additional mixin index s))) = la_immutable (os_user s)"
proof (cases "to_key (tx_vout (tc_tx c) ! index)")
  case (Some out_key)
  obtain d r where o: "find_owner E L T (tc_height c) i (la_height (os_user s)) out_key index (attempts c derived additional index) (os_db s) = (d, r)"
    by fastforce
  show ?thesis
  proof (cases r)
    case (Some a)
    then show ?thesis using \<open>to_key _ = _\<close> o keeps_accountD(2) [OF assms]
      by (cases a) (simp add: scan_output_def Let_def split: sum.splits option.splits)
  qed (use Some o in \<open>simp add: scan_output_def\<close>)
qed (simp add: scan_output_def)

lemma scan_outputs_immutable:
  "keeps_account T \<Longrightarrow> la_immutable (os_user (fst (scan_outputs E L T c i derived additional mixin ix s))) = la_immutable (os_user s)"
proof (induction ix arbitrary: s)
  case (Cons index ix)
  obtain s1 r where s1: "scan_output E L T c i derived additional mixin index s = (s1, r)" by fastforce
  have "la_immutable (os_user s1) = la_immutable (os_user s)"
    using scan_output_immutable [OF Cons.prems, of E L c i derived additional mixin index s] s1 by simp
  then show ?case using Cons s1 by (cases r) simp_all
qed simp

lemma scan_user_immutable:
  assumes "keeps_account T" and "scan_user E L T c user ds = (ds', Inr user')"
  shows "la_immutable user' = la_immutable user"
proof (cases "user' = user")
  case False
  with assms(2) obtain i derived where i: "\<not> tc_height c \<le> la_height user" "la_immutable user = Some i"
    "tl_derivation L (tc_pub_key c) (in_view_key i) = Some derived"
    by (auto simp: scan_user_def split: if_splits option.splits)
  obtain us r where us: "scan_inputs T c (tx_vin (tc_tx c)) (0, 0) (user, snd ds) = (us, r)" by fastforce
  with assms(2) i obtain mixin ext where r: "r = Inr (mixin, ext)"
    by (auto simp: scan_user_def Let_def split: sum.splits)
  let ?s = "\<lparr>os_user = fst us, os_ext = ext, os_payment = tc_unencrypted_id c, os_db = fst ds, os_state = snd us\<rparr>"
  let ?o = "scan_outputs E L T c i derived (additional_derivations L T c (in_view_key i)) mixin [0..<length (tx_vout (tc_tx c))] ?s"
  have "user' = os_user (fst ?o)" using assms(2) i us r by (auto simp: scan_user_def Let_def split: prod.splits sum.splits)
  then show ?thesis
    using scan_outputs_immutable [OF assms(1), of E L c i derived _ mixin _ ?s] scan_inputs_immutable [OF assms(1), of c "tx_vin (tc_tx c)" "(0, 0)" "(user, snd ds)"] us
    by simp
qed simp

lemma scan_users_immutable:
  "keeps_account T \<Longrightarrow> scan_users E L T c users ds = (ds', Inr users') \<Longrightarrow> same_accounts users' users"
proof (induction users arbitrary: ds ds' users')
  case (Cons user users)
  obtain ds1 r where r: "scan_user E L T c user ds = (ds1, r)" by fastforce
  obtain ds2 r2 where r2: "scan_users E L T c users ds1 = (ds2, r2)" by fastforce
  from Cons.prems(2) r r2 obtain user1 users1 where eq: "r = Inr user1" "r2 = Inr users1" "users' = user1 # users1"
    by (auto split: sum.splits)
  then show ?case using Cons.IH [OF Cons.prems(1)] scan_user_immutable [OF Cons.prems(1)] r r2 by auto
qed simp

lemma scan_tx_accounts: "scan_tx S ts given tx ids s = (t, Inr ()) \<Longrightarrow> same_accounts (bs_users t) (bs_users s)"
  by (auto simp: scan_tx_def scan_transaction_def block_test_def Let_def split: prod.splits sum.splits if_splits option.splits
      dest!: scan_users_immutable [OF keeps_account_scan])

lemma scan_txs_accounts: "scan_txs S ts txs s = (t, Inr ()) \<Longrightarrow> same_accounts (bs_users t) (bs_users s)"
proof (induction S ts txs s rule: scan_txs.induct)
  case (2 S ts h tx ids txs s)
  obtain s1 r where s1: "scan_tx S ts (Some h) tx ids s = (s1, r)" by fastforce
  with "2.prems" have "r = Inr ()" by (auto split: if_splits sum.splits)
  then show ?case using "2.prems" "2.IH" s1 scan_tx_accounts [of S ts "Some h" tx ids s s1] by (auto split: if_splits)
qed simp

lemma scan_block_accounts:
  assumes "scan_block S lp ih b indices s = (s', Goes_on t)"
  shows "same_accounts (bs_users t) (bs_users s)"
proof -
  let ?s = "s\<lparr>bs_height := bs_height s + 1\<rparr>"
  obtain s1 r1 where 1: "scan_tx S (cb_timestamp b) None (cb_miner_tx b) (hd indices) ?s = (s1, r1)" by fastforce
  from assms 1 have r1: "r1 = Inr ()" by (cases r1) (auto simp: scan_block_def Let_def split: if_splits)
  from assms 1 r1 obtain s2 where 2: "(if so_untrusted_daemon (se_options S) then check_block S lp ih b s1 else Goes_on s1) = Goes_on s2"
    by (auto simp: scan_block_def Let_def split: if_splits outcome.splits)
  obtain s3 r3 where 3: "scan_txs S (cb_timestamp b) (zip (cb_tx_hashes b) (zip (cb_transactions b) (tl indices))) s2 = (s3, r3)" by fastforce
  from assms 1 r1 2 3 have r3: "r3 = Inr ()" and t: "bs_users t = bs_users s3"
    by (auto simp: scan_block_def Let_def split: if_splits sum.splits)
  have "bs_users s2 = bs_users s1" using 2 by (auto simp: check_block_def Let_def split: if_splits sum.splits)
  then show ?thesis using scan_tx_accounts [of S _ _ _ _ ?s s1] scan_txs_accounts [of S _ _ s2 s3] 1 r1 3 r3 t by auto
qed

lemma scan_blocks_accounts: "scan_blocks S lp ih bs s = (s', Goes_on t) \<Longrightarrow> same_accounts (bs_users t) (bs_users s)"
proof (induction bs arbitrary: s)
  case (Cons x bs)
  obtain b indices where x: "x = (b, indices)" by fastforce
  obtain s1 r where s1: "scan_block S lp ih b indices s = (s1, r)" by fastforce
  with Cons.prems x obtain t1 where r: "r = Goes_on t1" by (cases r) auto
  then have "scan_blocks S lp ih bs t1 = (s', Goes_on t)" using Cons.prems s1 x by simp
  from Cons.IH [OF this] scan_block_accounts [OF s1 [unfolded r]] show ?case by simp
qed simp

lemma push_updates_accounts: "same_accounts (push_updates ip h us) us"
  by (auto simp: push_updates_def updated_def)

lemma loop_blocks_accounts:
  assumes "loop_blocks S fetched st = (d, Goes_on st')"
  shows "same_accounts (ls_users st') (ls_users st) \<and> effective (ls_queue st') users = effective (ls_queue st) users"
proof -
  from assms obtain s where s: "length (fb_blocks fetched) = length (fb_output_indices fetched)" "first_state S fetched (ls_users st) (ls_db st) = Goes_on s"
    by (auto simp: loop_blocks_def split: if_splits outcome.splits)
  obtain s1 r1 where 1: "scan_blocks S (ls_last_pow st) (bs_height s) (new_blocks fetched) s = (s1, r1)" by fastforce
  with assms s obtain t where t: "r1 = Goes_on t" by (cases r1) (auto simp: loop_blocks_def)
  obtain x r2 where 2: "store_users S (bs_chain t) (bs_users t) (bs_new_pow t) (bs_db t) = (x, r2)" by fastforce
  with assms s 1 t obtain us where us: "r2 = Goes_on us" by (cases r2; cases x) (auto simp: loop_blocks_def)
  have st': "ls_users st' = us" "ls_queue st' = update_min_height (la_height (us ! 0)) (ls_queue st)"
    using assms s 1 t 2 us by (auto simp: loop_blocks_def split: prod.splits)
  have "same_accounts us (bs_users t)"
    using 2 us push_updates_accounts by (auto simp: store_users_def Let_def split: if_splits sum.splits prod.splits)
  moreover have "bs_users s = ls_users st" using s(2) by (auto simp: first_state_def Let_def split: sum.splits)
  ultimately show ?thesis using scan_blocks_accounts 1 t st' by auto
qed

lemma scan_blocks_returns: "scan_blocks S lp ih bs s = (s', Returns r) \<Longrightarrow> r = False"
proof (induction bs arbitrary: s)
  case (Cons x bs)
  obtain b indices where x: "x = (b, indices)" by fastforce
  obtain s1 r1 where s1: "scan_block S lp ih b indices s = (s1, r1)" by fastforce
  have "r1 = Returns q \<Longrightarrow> q = False" for q
    using s1 by (auto simp: scan_block_def check_block_def Let_def split: if_splits sum.splits prod.splits outcome.splits)
  then show ?case using Cons s1 x by (cases r1) auto
qed simp

lemma loop_blocks_returns: "loop_blocks S fetched st = (d, Returns r) \<Longrightarrow> r = False"
  by (auto simp: loop_blocks_def first_state_def store_users_def Let_def dest!: scan_blocks_returns
      split: if_splits sum.splits prod.splits outcome.splits)

section \<open>Events\<close>

definition account_ids :: "lws_account list \<Rightarrow> account_id multiset" where
  "account_ids users = mset (map la_id users)"

lemma account_ids_same: "same_accounts us vs \<Longrightarrow> account_ids us = account_ids vs"
proof -
  assume same: "same_accounts us vs"
  have eq: "map la_id ws = map (\<lambda>x. case x of Some i \<Rightarrow> in_id i | None \<Rightarrow> invalid_account) (map la_immutable ws)" for ws
    by (simp add: la_id_def)
  show ?thesis unfolding account_ids_def eq same ..
qed

lemma account_ids_sort [simp]: "account_ids (sort_key f us) = account_ids us"
  by (simp add: account_ids_def)

lemma account_ids_Nil [simp]: "account_ids [] = {#}"
  by (simp add: account_ids_def)

lemma account_ids_append [simp]: "account_ids (us @ vs) = account_ids us + account_ids vs"
  by (simp add: account_ids_def)

text \<open>The accounts of a thread, with those that wait in its queue.\<close>

definition thread_ids :: "thread_state \<Rightarrow> account_id multiset" where
  "thread_ids th = (case th of Scanning st \<Rightarrow> account_ids (effective (ls_queue st) (ls_users st)) | Idle q \<Rightarrow> account_ids (effective q []) | Gone _ \<Rightarrow> {#})"

fun is_gone :: "thread_state \<Rightarrow> bool" where
  "is_gone (Gone _) = True"
| "is_gone _ = False"

lemma effective_ids:
  "account_ids us = account_ids vs \<Longrightarrow> account_ids (effective q us) = account_ids (effective q vs)"
  by (simp add: effective_def after_take_def split: option.splits)

lemma begin_scan_ids: "is_gone (begin_scan S users q d) \<or> thread_ids (begin_scan S users q d) = account_ids (effective q users)"
proof (cases "loop_start S users q d")
  case (Goes_on st)
  then have "ls_queue st = q" "account_ids (ls_users st) = account_ids users"
    by (auto simp: loop_start_def Let_def split: if_splits sum.splits)
  then show ?thesis using Goes_on effective_ids [of "ls_users st" users q] by (auto simp: begin_scan_def thread_ids_def effective_def after_take_def)
qed (auto simp: begin_scan_def thread_ids_def loop_start_def Let_def split: if_splits sum.splits)

text \<open>Taking what the queue holds, in the loop.\<close>

lemma take_accounts_ids:
  assumes "queue_get_accounts q = (status, q')"
  shows "take_accounts status users = None \<Longrightarrow> effective q users = [] \<and> effective q' [] = []"
    and "take_accounts status users = Some (resort, users') \<Longrightarrow> account_ids (effective q' users') = account_ids (effective q users)"
  using assms by (auto simp: take_accounts_def Let_def effective_def after_take_def queue_get_accounts_def do_get_accounts_def split: if_splits option.splits)

lemma loop_step_ids:
  assumes "loop_step S a st = (dq, r)"
  shows "is_gone (snd (after_loop dq r)) \<or> thread_ids (snd (after_loop dq r)) = account_ids (effective (ls_queue st) (ls_users st))"
proof (cases "\<exists>fetched. a = Daemon_answer (Inr fetched) \<and> fb_blocks fetched \<noteq> [] \<and> fb_start_height fetched = ls_start_height st")
  case False
  then show ?thesis using assms by (auto simp: loop_step_def after_loop_def split: daemon_answer.splits sum.splits if_splits)
next
  case True
  then obtain fetched where a: "a = Daemon_answer (Inr fetched)" "fb_blocks fetched \<noteq> []" "fb_start_height fetched = ls_start_height st" by blast
  obtain status q where q: "queue_get_accounts (ls_queue st) = (status, q)" by fastforce
  show ?thesis
  proof (cases "take_accounts status (ls_users st)")
    case None
    then show ?thesis using assms a q take_accounts_ids(1) [OF q None] by (auto simp: loop_step_def after_loop_def thread_ids_def)
  next
    case (Some x)
    then obtain resort users where x: "take_accounts status (ls_users st) = Some (resort, users)" by (cases x) auto
    note ids = take_accounts_ids(2) [OF q x]
    let ?st = "st\<lparr>ls_users := users, ls_queue := q, ls_start_height := fb_start_height fetched + of_nat (length (fb_blocks fetched)) - 1\<rparr>"
    consider (short) st1 where "r = Goes_on st1" "ls_users st1 = users" "ls_queue st1 = q" | (blocks) d where "loop_blocks S fetched ?st = (d, r)"
      using assms a q x by (auto simp: loop_step_def Let_def split: if_splits prod.splits)
    then show ?thesis
    proof cases
      case short
      then show ?thesis using ids by (simp add: after_loop_def thread_ids_def)
    next
      case blocks
      show ?thesis
      proof (cases r)
        case (Goes_on st1)
        from loop_blocks_accounts [OF blocks [unfolded Goes_on]]
        have "account_ids (ls_users st1) = account_ids users" "effective (ls_queue st1) us = effective q us" for us
          using account_ids_same [of "ls_users st1" users] by auto
        then show ?thesis using ids Goes_on effective_ids [of "ls_users st1" users q] by (simp add: after_loop_def thread_ids_def)
      next
        case (Returns b)
        have "b = False" by (rule loop_blocks_returns [OF blocks [unfolded Returns]])
        then show ?thesis using Returns by (cases b) (simp_all add: after_loop_def)
      qed (simp add: after_loop_def)
    qed
  qed
qed

lemma wait_step_ids:
  assumes "wait_step S time w st = ((d, sent), r)"
  shows "is_gone (snd (after_loop (d, ls_queue st) r)) \<or> thread_ids (snd (after_loop (d, ls_queue st) r)) = account_ids (effective (ls_queue st) (ls_users st))"
  using assms by (auto simp: wait_step_def after_loop_def thread_ids_def split: waited.splits if_splits prod.splits sum.splits)

fun wanted_event :: "thread_event \<Rightarrow> lws_account list \<Rightarrow> lws_account list" where
  "wanted_event (Queue_event p) users = wanted_step p users"
| "wanted_event _ users = users"

lemma queue_event_effective: "effective (queue_event p q) users = wanted_step p (effective q users)"
  by (cases p) (simp_all add: queue_event_def)

lemma wanted_step_ids: "account_ids us = account_ids vs \<Longrightarrow> account_ids (wanted_step p us) = account_ids (wanted_step p vs)"
  by (cases p) simp_all

lemma thread_step_ids:
  assumes "is_gone th \<or> thread_ids th = account_ids users"
  shows "is_gone (snd (thread_step S ev (d, th))) \<or> thread_ids (snd (thread_step S ev (d, th))) = account_ids (wanted_event ev users)"
proof (cases "is_gone th")
  case True
  then obtain e where "th = Gone e" by (cases th) auto
  then show ?thesis by (cases ev) auto
next
  case False
  with assms have ids: "thread_ids th = account_ids users" by blast
  show ?thesis
  proof (cases th)
    case (Scanning st)
    note eq = ids [unfolded Scanning thread_ids_def thread_state.case]
    show ?thesis
    proof (cases ev)
      case (Queue_event p)
      show ?thesis using wanted_step_ids [OF eq] by (simp add: Scanning Queue_event thread_ids_def queue_event_effective)
    next
      case (Answer_event a)
      obtain dq r where r: "loop_step S a (st\<lparr>ls_db := d\<rparr>) = (dq, r)" by fastforce
      from loop_step_ids [OF r] show ?thesis using Scanning Answer_event ids eq r by auto
    next
      case (Wait_event time w)
      obtain d1 sent r where r: "wait_step S time w (st\<lparr>ls_db := d\<rparr>) = ((d1, sent), r)" by (metis prod.exhaust)
      from wait_step_ids [OF r] show ?thesis using Scanning Wait_event ids eq r by auto
    qed (use Scanning ids in \<open>auto\<close>)
  next
    case (Idle q)
    note eq = ids [unfolded Idle thread_ids_def thread_state.case]
    show ?thesis
    proof (cases ev)
      case (Queue_event p)
      show ?thesis using wanted_step_ids [OF eq] by (simp add: Idle Queue_event thread_ids_def queue_event_effective)
    next
      case Wake_event
      show ?thesis
      proof (cases "wait_for_accounts q")
        case (Some x)
        then obtain status q' where x: "x = (status, q')" "do_get_accounts q = (status, q')"
          by (cases x) (auto simp: wait_for_accounts_def split: if_splits)
        then show ?thesis using Idle Wake_event Some eq begin_scan_ids [of S "after_take status []" q' d] effective_taken [OF x(2)] by auto
      qed (use Idle Wake_event ids in auto)
    qed (use Idle ids in auto)
  qed (use False in simp)
qed

text \<open>
  C14: a thread scans exactly the accounts the server wants on it. Start a thread with some accounts; let the server push and
  replace accounts, the daemon answer anything or fail, other threads write to the database and the thread wait, wake up and go idle, in any
  order. As long as the thread has not gone, the accounts it scans together with those in its queue are the ones it was started with
  or that replaced them last, and those pushed since; no account is dropped and none is there twice.
\<close>

theorem thread_keeps_accounts:
  "is_gone (snd (fold (thread_step S) evs (d, begin_scan S users new_queue d)))
   \<or> thread_ids (snd (fold (thread_step S) evs (d, begin_scan S users new_queue d))) = account_ids (fold wanted_event evs users)"
proof -
  have "is_gone (snd (fold (thread_step S) evs (d, th))) \<or> thread_ids (snd (fold (thread_step S) evs (d, th))) = account_ids (fold wanted_event evs us)"
    if "is_gone th \<or> thread_ids th = account_ids us" for th us
    using that
  proof (induction evs arbitrary: d th us)
    case (Cons ev evs)
    obtain d1 th1 where 1: "thread_step S ev (d, th) = (d1, th1)" by fastforce
    from thread_step_ids [OF Cons.prems, of S ev d] have "is_gone th1 \<or> thread_ids th1 = account_ids (wanted_event ev us)" by (simp add: 1)
    from Cons.IH [OF this] show ?case by (simp add: 1)
  qed simp
  from this [OF begin_scan_ids [of S users new_queue d]] show ?thesis by simp
qed

end
