(* ===== verification/Scanner_Server.thy ===== *)
theory Scanner_Server
  imports Scanner
begin

text \<open>
  The server that hands accounts to the scanner threads of this process and to remote scanners, and stores what remote scanners report
  (\<^verbatim>\<open>src/rpc/scanner/server.cpp\<close>), and the client side in a remote scanner (\<^verbatim>\<open>src/rpc/scanner/client.cpp\<close>). The handlers of the server run
  in its strand, one after the other; each is a function on its state. What is written to a remote scanner is kept as a
  list. Sockets, timers and the msgpack form of the messages are left out.
\<close>

section \<open>State\<close>

text \<open>A connection; \<open>rc_alive\<close> says that the weak pointer to it can be locked.\<close>

record remote_conn =
  rc_id :: nat
  rc_alive :: bool
  rc_threads :: nat
  rc_authenticated :: bool

datatype remote_command = Push_command "lws_account list" | Replace_command "lws_account list"

record scan_server =
  sv_local :: "scan_queue list"
  sv_remote :: "remote_conn list" \<comment> \<open>in the order of the set\<close>
  sv_active :: "account_id list"
  sv_next_thread :: nat
  sv_stop :: bool
  sv_balance :: bool
  sv_sent :: "(nat \<times> remote_command) list"

definition remote_threshold :: nat where "remote_threshold = 100"

definition replace_threshold :: int where "replace_threshold = 10000"

definition max_unauthenticated :: int where "max_unauthenticated = 1024 * 1024"

definition max_size :: int where "max_size = 2 ^ 64 - 1"

section \<open>Replacing the accounts of all workers\<close>

fun add_threads :: "nat \<Rightarrow> remote_conn list \<Rightarrow> nat expect" where
  "add_threads n [] = Inr n"
| "add_threads n (c # cs) =
     (if max_size - int n < int (rc_threads c) then Inl (Thrown configuration) else add_threads (n + rc_threads c) cs)"

text \<open>
  The accounts are sorted by height and given away from the end; \<open>full\<close> loads an account from the database. The second list is
  what is left.
\<close>

fun share_local :: "(account \<Rightarrow> lws_account) \<Rightarrow> nat \<Rightarrow> account list \<Rightarrow> scan_queue list \<Rightarrow> scan_queue list \<times> account list \<times> nat" where
  "share_local full remaining users [] = ([], users, remaining)"
| "share_local full remaining users (q # qs) =
     (let n = length users div remaining; k = length users - n in
      case share_local full (remaining - 1) (take k users) qs of
        (qs, users', remaining) \<Rightarrow> (replace_accounts (map full (rev (drop k users))) q # qs, users', remaining))"

fun share_remote :: "(account \<Rightarrow> lws_account) \<Rightarrow> nat \<Rightarrow> account list \<Rightarrow> remote_conn list \<Rightarrow> (nat \<times> remote_command) list \<times> account list" where
  "share_remote full remaining users [] = ([], users)"
| "share_remote full remaining users (c # cs) =
     (let users_per_thread = length users div max 1 remaining;
          n = min (max 1 users_per_thread * rc_threads c) (length users);
          k = length users - n in
      case share_remote full (remaining - min remaining (rc_threads c)) (take k users) cs of
        (sent, users') \<Rightarrow> ((rc_id c, Replace_command (map full (rev (drop k users)))) # sent, users'))"

text \<open>Sorted insertion before the accounts of the same height, as \<^verbatim>\<open>std::lower_bound\<close> with \<^verbatim>\<open>by_height\<close> finds the place.\<close>

definition users_by_height :: "account list \<Rightarrow> account list" where
  "users_by_height accounts = fold (insort_key acc_scan_height) accounts []"

definition active_ids :: "account list \<Rightarrow> account_id list" where
  "active_ids accounts = fold (\<lambda>a ids. insert_at (lower_bound ids (acc_id a)) (acc_id a) ids) accounts []"

definition do_replace_users :: "env \<Rightarrow> (account_address \<Rightarrow> string) \<Rightarrow> db \<Rightarrow> scan_server \<Rightarrow> scan_server expect" where
  "do_replace_users E address_string d s =
     (let remotes = filter rc_alive (sv_remote s) in
      ebind (add_threads (length (sv_local s)) remotes) (\<lambda>remaining.
      let s = s\<lparr>sv_remote := remotes\<rparr> in
      if remaining = 0 then Inr s
      else
        let accounts = get_accounts E d active; users = users_by_height accounts; full = get_full_account E address_string d;
            remaining = (if sv_local s \<noteq> [] \<and> length users div length (sv_local s) < remote_threshold then length (sv_local s) else remaining) in
        (case share_local full remaining users (sv_local s) of (qs, users, remaining) \<Rightarrow>
         case share_remote full remaining users remotes of (sent, _) \<Rightarrow>
           Inr (s\<lparr>sv_local := qs, sv_sent := sv_sent s @ sent, sv_next_thread := 0, sv_active := active_ids accounts\<rparr>))))"

section \<open>Looking for new accounts\<close>

text \<open>All threads and the initialised remotes, \<open>None\<close> when a connection was lost.\<close>

fun live_remotes :: "nat \<Rightarrow> remote_conn list \<Rightarrow> (nat \<times> remote_conn list) option expect" where
  "live_remotes n [] = Inr (Some (n, []))"
| "live_remotes n (c # cs) =
     (if \<not> rc_alive c then Inr None
      else if max_size - int n < int (rc_threads c) then Inl (Thrown configuration)
      else ebind (live_remotes (n + rc_threads c) cs) (\<lambda>r.
        Inr (map_option (\<lambda>(m, rs). (m, if rc_threads c \<noteq> 0 then c # rs else rs)) r)))"

record new_users =
  nu_copy :: "account_id list" \<comment> \<open>known ids not seen yet\<close>
  nu_active :: "account_id list"
  nu_new :: "lws_account list"

fun find_new :: "(account \<Rightarrow> lws_account) \<Rightarrow> account list \<Rightarrow> new_users \<Rightarrow> new_users option" where
  "find_new full [] n = Some n"
| "find_new full (user # users) n =
     (let uid = acc_id user; loc = lower_bound (nu_copy n) uid in
      if loc = length (nu_copy n) \<or> nu_copy n ! loc \<noteq> uid
      then let new = nu_new n @ [full user] in
        if replace_threshold < int (length new) then None
        else find_new full users (n\<lparr>nu_new := new, nu_active := insert_at (lower_bound (nu_active n) uid) uid (nu_active n)\<rparr>)
      else find_new full users (n\<lparr>nu_copy := take loc (nu_copy n) @ drop (Suc loc) (nu_copy n)\<rparr>))"

text \<open>The thread with the highest height not above the account, or else the lowest one; then the one with fewer accounts.\<close>

record best_so_far =
  bt_found :: bool
  bt_thread :: nat
  bt_height :: block_id
  bt_count :: int

definition consider_thread :: "block_id \<Rightarrow> nat \<times> scan_queue \<Rightarrow> best_so_far \<Rightarrow> best_so_far" where
  "consider_thread account_height iq b =
     (let i = fst iq; height = sq_min_height (snd iq); n = int (sq_user_count (snd iq));
          here = b\<lparr>bt_thread := i, bt_height := height, bt_count := n\<rparr> in
      if height \<le> account_height
      then if \<not> bt_found b \<or> bt_height b < height \<or> height = bt_height b \<and> n < bt_count b then here\<lparr>bt_found := True\<rparr> else b
      else if bt_found b then b
      else if bt_height b = 0 \<or> height < bt_height b \<or> height = bt_height b \<and> n < bt_count b then here else b)"

definition best_thread :: "block_id \<Rightarrow> scan_queue list \<Rightarrow> nat" where
  "best_thread account_height qs =
     bt_thread (fold (consider_thread account_height) (enumerate 0 qs) \<lparr>bt_found = False, bt_thread = 0, bt_height = 0, bt_count = max_size\<rparr>)"

text \<open>The new accounts are taken from the end; here they come in this order.\<close>

fun balance_loop :: "lws_account list \<Rightarrow> scan_queue list \<Rightarrow> scan_queue list" where
  "balance_loop [] qs = qs"
| "balance_loop (user # users) qs =
     (let i = best_thread (la_height user) qs in balance_loop users (qs[i := push_accounts [user] (qs ! i)]))"

fun find_remote :: "nat \<Rightarrow> nat \<Rightarrow> remote_conn list \<Rightarrow> remote_conn option" where
  "find_remote next offset [] = None"
| "find_remote next offset (c # cs) = (if next \<le> offset then Some c else find_remote next (offset + rc_threads c) cs)"

text \<open>
  The loop over the workers in turn. \<open>None\<close> is an access beyond the end of \<^verbatim>\<open>remotes\<close>, which is undefined, or a remote without threads, where the
  loop would not end.
\<close>

function robin_loop :: "nat \<Rightarrow> remote_conn list \<Rightarrow> nat \<Rightarrow> lws_account list \<Rightarrow> scan_queue list \<Rightarrow> (nat \<times> remote_command) list
    \<Rightarrow> (nat \<times> scan_queue list \<times> (nat \<times> remote_command) list) option" where
  "robin_loop n_total remotes next new qs sent =
     (if new = [] then Some (next, qs, sent)
      else if next < length qs
      then robin_loop n_total remotes (Suc next mod n_total) (butlast new) (qs[next := push_accounts [last new] (qs ! next)]) sent
      else case find_remote next (length qs) remotes of
        None \<Rightarrow> None
      | Some c \<Rightarrow>
          if rc_threads c = 0 then None
          else
            let k = length new - min (length new) (rc_threads c) in
            robin_loop n_total remotes ((next + rc_threads c) mod n_total) (take k new) qs (sent @ [(rc_id c, Push_command (drop k new))]))"
  by pat_completeness auto
termination by (relation "measure (\<lambda>(n_total, remotes, next, new, qs, sent). length new)") (auto simp: min_def)

declare robin_loop.simps [simp del]

text \<open>\<open>None\<close> as above.\<close>

definition check_users :: "env \<Rightarrow> (account_address \<Rightarrow> string) \<Rightarrow> db \<Rightarrow> scan_server \<Rightarrow> scan_server expect option" where
  "check_users E address_string d s =
     (if sv_stop s then Some (Inr s)
      else case live_remotes (length (sv_local s)) (sv_remote s) of
        Inl e \<Rightarrow> Some (Inl e)
      | Inr None \<Rightarrow> Some (do_replace_users E address_string d s)
      | Inr (Some (n_total, remotes)) \<Rightarrow>
          if n_total = 0 then Some (Inr s)
          else
            let current = get_accounts E d active in
            if length current < length (sv_active s) then Some (do_replace_users E address_string d s)
            else case find_new (get_full_account E address_string d) current \<lparr>nu_copy = sv_active s, nu_active = sv_active s, nu_new = []\<rparr> of
              None \<Rightarrow> Some (do_replace_users E address_string d s)
            | Some n \<Rightarrow>
                let s = s\<lparr>sv_active := nu_active n\<rparr> in
                if nu_copy n \<noteq> [] then Some (do_replace_users E address_string d s)
                else if sv_balance s \<and> sv_local s \<noteq> [] then Some (Inr (s\<lparr>sv_local := balance_loop (rev (nu_new n)) (sv_local s)\<rparr>))
                else map_option (\<lambda>(next, qs, sent). Inr (s\<lparr>sv_local := qs, sv_sent := sv_sent s @ sent, sv_next_thread := next\<rparr>))
                       (robin_loop n_total remotes (sv_next_thread s mod n_total) (nu_new n) (sv_local s) []))"

section \<open>Connections\<close>

definition next_size :: "remote_conn \<Rightarrow> nat \<Rightarrow> nat \<Rightarrow> nat" where
  "next_size c command_id len = (if rc_authenticated c \<or> command_id = 0 \<and> int len \<le> max_unauthenticated then len else 0)"

text \<open>
  The two handlers: \<open>None\<close> closes the connection. \<open>pass_ok\<close> is \<^verbatim>\<open>check_pass\<close>, the comparison of the salted hashes.
\<close>

definition initialize_handler :: "(string \<Rightarrow> bool) \<Rightarrow> string \<Rightarrow> u32 \<Rightarrow> remote_conn \<Rightarrow> remote_conn option" where
  "initialize_handler pass_ok pass threads c =
     (if rc_threads c \<noteq> 0 then None
      else if threads = 0 then None
      else if \<not> pass_ok pass then None
      else Some (c\<lparr>rc_authenticated := True, rc_threads := unat threads\<rparr>))"

definition update_accounts_handler :: "lws_account list \<Rightarrow> remote_conn \<Rightarrow> bool option" where
  "update_accounts_handler users c =
     (if users = [] then Some False else if \<not> rc_authenticated c then None else Some True)"

datatype remote_message = Initialize string u32 | Update_accounts "lws_account list" "hash list" | Unknown_message nat

fun message_id :: "remote_message \<Rightarrow> nat" where
  "message_id (Initialize _ _) = 0"
| "message_id (Update_accounts _ _) = 1"
| "message_id (Unknown_message n) = n + 2"

datatype server_event =
    Check_event
  | Connect_event nat
  | Message_event nat nat remote_message \<comment> \<open>connection, length of the message\<close>
  | Lost_event nat
  | Stop_event
  | Db_event db \<comment> \<open>another writer\<close>

definition close_conn :: "nat \<Rightarrow> scan_server \<Rightarrow> scan_server" where
  "close_conn i s = s\<lparr>sv_remote := map (\<lambda>c. if rc_id c = i then c\<lparr>rc_alive := False\<rparr> else c) (sv_remote s)\<rparr>"

definition set_conn :: "remote_conn \<Rightarrow> scan_server \<Rightarrow> scan_server" where
  "set_conn c s = s\<lparr>sv_remote := map (\<lambda>c'. if rc_id c' = rc_id c then c else c') (sv_remote s)\<rparr>"

definition do_stop :: "scan_server \<Rightarrow> scan_server" where
  "do_stop s = s\<lparr>sv_stop := True\<rparr>"

text \<open>An exception leaves \<^verbatim>\<open>io_context::run\<close> and ends the server.\<close>

definition or_stop :: "scan_server \<Rightarrow> scan_server expect option \<Rightarrow> scan_server" where
  "or_stop s r = (case r of Some (Inr s) \<Rightarrow> s | _ \<Rightarrow> do_stop s)"

definition server_store :: "scan_env \<Rightarrow> lws_account list \<Rightarrow> hash list \<Rightarrow> db \<times> scan_server \<Rightarrow> db \<times> scan_server" where
  "server_store S users blocks ds =
     (case store_users S blocks (sort_key la_height users) [] (fst ds) of
        ((d, _), Goes_on _) \<Rightarrow> (d, snd ds)
      | ((d, _), _) \<Rightarrow> (d, do_stop (snd ds)))"

definition handle_message :: "scan_env \<Rightarrow> (account_address \<Rightarrow> string) \<Rightarrow> (string \<Rightarrow> bool) \<Rightarrow> remote_conn \<Rightarrow> nat \<Rightarrow> remote_message \<Rightarrow> db \<times> scan_server \<Rightarrow> db \<times> scan_server" where
  "handle_message S address_string pass_ok c len m ds =
     (if next_size c (message_id m) len = 0 then (fst ds, close_conn (rc_id c) (snd ds))
      else case m of
        Initialize pass threads \<Rightarrow>
          (case initialize_handler pass_ok pass threads c of
             None \<Rightarrow> (fst ds, close_conn (rc_id c) (snd ds))
           | Some c \<Rightarrow>
               let s = set_conn c (snd ds) in
               (fst ds, or_stop s (Some (do_replace_users (se_storage S) address_string (fst ds) s))))
      | Update_accounts users blocks \<Rightarrow>
          (case update_accounts_handler users c of
             None \<Rightarrow> (fst ds, close_conn (rc_id c) (snd ds))
           | Some False \<Rightarrow> ds
           | Some True \<Rightarrow> server_store S users blocks ds)
      | Unknown_message _ \<Rightarrow> (fst ds, close_conn (rc_id c) (snd ds)))"

fun server_step :: "scan_env \<Rightarrow> (account_address \<Rightarrow> string) \<Rightarrow> (string \<Rightarrow> bool) \<Rightarrow> server_event \<Rightarrow> db \<times> scan_server \<Rightarrow> db \<times> scan_server" where
  "server_step S address_string pass_ok Check_event (d, s) = (d, or_stop s (check_users (se_storage S) address_string d s))"
| "server_step S address_string pass_ok (Connect_event i) (d, s) =
     (if sv_stop s \<or> (\<exists>c \<in> set (sv_remote s). rc_id c = i) then (d, s)
      else (d, s\<lparr>sv_remote := sv_remote s @ [\<lparr>rc_id = i, rc_alive = True, rc_threads = 0, rc_authenticated = False\<rparr>]\<rparr>))"
| "server_step S address_string pass_ok (Message_event i len m) (d, s) =
     (case find (\<lambda>c. rc_id c = i) (sv_remote s) of
        None \<Rightarrow> (d, s)
      | Some c \<Rightarrow> if rc_alive c \<and> \<not> sv_stop s then handle_message S address_string pass_ok c len m (d, s) else (d, s))"
| "server_step S address_string pass_ok (Lost_event i) (d, s) = (d, close_conn i s)"
| "server_step S address_string pass_ok Stop_event (d, s) = (d, do_stop s)"
| "server_step S address_string pass_ok (Db_event d') (d, s) = (d', s)"

section \<open>The client\<close>

text \<open>A remote scanner divides what it is given among its own threads.\<close>

record scan_client =
  sc_local :: "scan_queue list"
  sc_next_push :: nat

fun client_push :: "lws_account list \<Rightarrow> scan_client \<Rightarrow> scan_client" where
  "client_push [] c = c"
| "client_push (user # users) c =
     (let i = sc_next_push c in
      client_push users (c\<lparr>sc_local := (sc_local c)[i := push_accounts [user] (sc_local c ! i)], sc_next_push := Suc i mod length (sc_local c)\<rparr>))"

definition client_replace :: "lws_account list \<Rightarrow> scan_client \<Rightarrow> scan_client" where
  "client_replace users c =
     c\<lparr>sc_local := map2 replace_accounts (even_loop (length (sc_local c)) users) (sc_local c), sc_next_push := 0\<rparr>"

definition client_handle :: "remote_command \<Rightarrow> scan_client \<Rightarrow> scan_client" where
  "client_handle m c = (case m of Push_command users \<Rightarrow> if users = [] then c else client_push users c | Replace_command users \<Rightarrow> client_replace users c)"

end
