(* ===== verification/Scanner_Assign.thy ===== *)
theory Scanner_Assign
  imports Scanner_Server Scanner_Result
begin

text \<open>
  Who scans which account: local threads share all accounts, new accounts reach exactly one worker, and a remote scanner sees and
  stores accounts only with the password. With remote scanners the division leaves accounts to nobody.
\<close>

section \<open>Sharing among local threads\<close>

abbreviation given :: "scan_queue list \<Rightarrow> lws_account multiset" where
  "given qs \<equiv> mset (concat (map (\<lambda>q. effective q []) qs))"

lemma share_local_given:
  assumes "share_local full remaining users qs = (qs', rest, remaining')"
  shows "given qs' + image_mset full (mset rest) = image_mset full (mset users) \<and> length qs' = length qs
    \<and> remaining' = remaining - length qs \<and> (\<exists>k. rest = take k users)"
  using assms
proof (induction qs arbitrary: remaining users qs' rest remaining')
  case Nil
  then show ?case by (auto intro: exI [of _ "length users"])
next
  case (Cons q qs)
  let ?k = "length users - length users div remaining"
  obtain qs1 rest1 r1 where r: "share_local full (remaining - 1) (take ?k users) qs = (qs1, rest1, r1)" by (metis prod.exhaust)
  with Cons.prems have eq: "qs' = replace_accounts (map full (rev (drop ?k users))) q # qs1" "rest = rest1" "remaining' = r1"
    by (auto simp: Let_def)
  have split: "mset (drop ?k users) + mset (take ?k users) = mset users" by (metis append_take_drop_id mset_append union_commute)
  note IH = Cons.IH [OF r]
  have "given qs' + image_mset full (mset rest) = image_mset full (mset (drop ?k users)) + (given qs1 + image_mset full (mset rest1))"
    by (simp add: eq)
  also have "\<dots> = image_mset full (mset (drop ?k users) + mset (take ?k users))" using IH by simp
  finally show ?case using split IH eq by (auto simp: take_take min_def)
qed

lemma share_local_all:
  assumes "share_local full (length qs) users qs = (qs', rest, remaining')" and "qs \<noteq> []"
  shows "rest = []"
  using assms
proof (induction qs arbitrary: users qs' rest remaining')
  case (Cons q qs)
  show ?case
  proof (cases qs)
    case Nil
    then show ?thesis using Cons.prems by (auto simp: Let_def)
  next
    case (Cons q1 qs1)
    obtain qs2 rest2 r2 where 2: "share_local full (length qs) (take (length users - length users div Suc (length qs)) users) qs = (qs2, rest2, r2)"
      by (metis prod.exhaust)
    then have "rest = rest2" using Cons.prems(1) by (auto simp: Let_def)
    then show ?thesis using Cons.IH [OF 2] Cons by simp
  qed
qed simp

lemma share_remote_none:
  assumes "share_remote full remaining [] cs = (sent, rest)"
  shows "rest = [] \<and> sent = map (\<lambda>c. (rc_id c, Replace_command [])) cs"
  using assms by (induction cs arbitrary: remaining sent) (auto simp: Let_def split: prod.splits)

lemma mset_users_by_height: "mset (users_by_height accounts) = mset accounts"
proof -
  have "mset (fold (insort_key acc_scan_height) accounts us) = mset accounts + mset us" for us
    by (induction accounts arbitrary: us) simp_all
  then show ?thesis by (simp add: users_by_height_def)
qed

lemma sorted_users_by_height: "sorted (map acc_scan_height (users_by_height accounts))"
proof -
  have "sorted (map acc_scan_height us) \<Longrightarrow> sorted (map acc_scan_height (fold (insort_key acc_scan_height) accounts us))" for us
    by (induction accounts arbitrary: us) (simp_all add: sorted_insort_key)
  then show ?thesis by (simp add: users_by_height_def)
qed

lemma active_ids_sort: "active_ids accounts = sort (map acc_id accounts)"
proof -
  have eq: "fold (\<lambda>a ids. insert_at (lower_bound ids (acc_id a)) (acc_id a) ids) as us = fold insort (map acc_id as) us" for as us
    by (induction as arbitrary: us) (simp_all add: insert_at_lower_bound)
  have "mset (fold insort (map acc_id accounts) us) = mset (map acc_id accounts) + mset us" for us :: "account_id list"
    by (induction accounts arbitrary: us) simp_all
  moreover have "sorted us \<Longrightarrow> sorted (fold insort (map acc_id accounts) us)" for us :: "account_id list"
    by (induction accounts arbitrary: us) (simp_all add: sorted_insort)
  ultimately show ?thesis unfolding active_ids_def eq
    by (intro properties_for_sort [symmetric]) simp_all
qed

text \<open>
  With few accounts for each local thread (below 100), every active account is given to exactly one local thread, whatever the
  threads had before; remote scanners are told to scan nothing. The list of known accounts is then the list of all active ids.
\<close>

theorem local_threads_share_all:
  assumes "do_replace_users E address_string d s = Inr s'" and "sv_local s \<noteq> []"
    and "length (get_accounts E d active) div length (sv_local s) < remote_threshold"
  shows "given (sv_local s') = image_mset (get_full_account E address_string d) (mset (get_accounts E d active))
    \<and> length (sv_local s') = length (sv_local s) \<and> sv_active s' = sort (map acc_id (get_accounts E d active))
    \<and> sv_sent s' = sv_sent s @ map (\<lambda>c. (rc_id c, Replace_command [])) (filter rc_alive (sv_remote s))"
proof -
  let ?full = "get_full_account E address_string d" and ?accounts = "get_accounts E d active"
  have "length (users_by_height ?accounts) = length ?accounts" by (metis mset_users_by_height size_mset)
  then have few: "length (users_by_height ?accounts) div length (sv_local s) < remote_threshold" using assms(3) by simp
  obtain n where n: "add_threads (length (sv_local s)) (filter rc_alive (sv_remote s)) = Inr n"
    using assms(1) by (auto simp: do_replace_users_def Let_def ebind_eq_Inr)
  have mono: "add_threads k cs = Inr m \<Longrightarrow> k \<le> m" for k cs m
    by (induction k cs rule: add_threads.induct) (force split: if_splits)+
  have n0: "n \<noteq> 0" using mono [OF n] assms(2) by (metis le_zero_eq length_0_conv)
  obtain qs rest r where share: "share_local ?full (length (sv_local s)) (users_by_height ?accounts) (sv_local s) = (qs, rest, r)" by (metis prod.exhaust)
  have rest: "rest = []" by (rule share_local_all [OF share assms(2)])
  obtain sent rest2 where sent: "share_remote ?full r rest (filter rc_alive (sv_remote s)) = (sent, rest2)" by fastforce
  have s': "sv_local s' = qs" "sv_sent s' = sv_sent s @ sent" "sv_active s' = active_ids ?accounts"
    using assms(1,2) n n0 few share sent by (auto simp: do_replace_users_def Let_def)
  show ?thesis
    using s' share_local_given [OF share] share_remote_none [OF sent [unfolded rest]] rest
    by (simp add: mset_users_by_height active_ids_sort)
qed


section \<open>New accounts\<close>

text \<open>The loop over the active accounts when all known ones are still there: the new ones are collected in order.\<close>

lemma lower_bound_member:
  assumes "sorted xs"
  shows "(lower_bound xs x = length xs \<or> xs ! lower_bound xs x \<noteq> x) \<longleftrightarrow> x \<notin> set xs"
    "x \<in> set xs \<Longrightarrow> take (lower_bound xs x) xs @ drop (Suc (lower_bound xs x)) xs = remove1 x xs"
  using assms by (induction xs) (auto simp: lower_bound_Cons lower_bound_def [of "[]"] remove1_idem)

lemma find_new_result:
  assumes "sorted (nu_copy n)" and "distinct (map acc_id users)"
    and "length (nu_new n) + length (filter (\<lambda>a. acc_id a \<notin> set (nu_copy n)) users) \<le> nat replace_threshold"
  shows "find_new full users n = Some \<lparr>nu_copy = fold remove1 (map acc_id users) (nu_copy n),
      nu_active = fold insort (map acc_id (filter (\<lambda>a. acc_id a \<notin> set (nu_copy n)) users)) (nu_active n),
      nu_new = nu_new n @ map full (filter (\<lambda>a. acc_id a \<notin> set (nu_copy n)) users)\<rparr>"
  using assms
proof (induction users arbitrary: n)
  case (Cons user users)
  let ?id = "acc_id user"
  show ?case
  proof (cases "?id \<in> set (nu_copy n)")
    case True
    let ?n = "n\<lparr>nu_copy := remove1 ?id (nu_copy n)\<rparr>"
    have same: "filter (\<lambda>a. acc_id a \<notin> set (remove1 ?id (nu_copy n))) users = filter (\<lambda>a. acc_id a \<notin> set (nu_copy n)) users"
      using Cons.prems(2) by (intro filter_cong refl) (metis distinct.simps(2) imageI in_set_remove1 list.set_map list.simps(9))
    have "find_new full users ?n = Some \<lparr>nu_copy = fold remove1 (map acc_id users) (nu_copy ?n),
        nu_active = fold insort (map acc_id (filter (\<lambda>a. acc_id a \<notin> set (nu_copy ?n)) users)) (nu_active ?n),
        nu_new = nu_new ?n @ map full (filter (\<lambda>a. acc_id a \<notin> set (nu_copy ?n)) users)\<rparr>"
      by (rule Cons.IH) (use Cons.prems True same in \<open>auto simp: sorted_remove1\<close>)
    then show ?thesis using True lower_bound_member [OF Cons.prems(1), of ?id] by (auto simp: Let_def same)
  next
    case False
    let ?n = "n\<lparr>nu_new := nu_new n @ [full user], nu_active := insort ?id (nu_active n)\<rparr>"
    have "find_new full users ?n = Some \<lparr>nu_copy = fold remove1 (map acc_id users) (nu_copy ?n),
        nu_active = fold insort (map acc_id (filter (\<lambda>a. acc_id a \<notin> set (nu_copy ?n)) users)) (nu_active ?n),
        nu_new = nu_new ?n @ map full (filter (\<lambda>a. acc_id a \<notin> set (nu_copy ?n)) users)\<rparr>"
      by (rule Cons.IH) (use Cons.prems False in auto)
    then show ?thesis using False Cons.prems(3) lower_bound_member(1) [OF Cons.prems(1), of ?id]
      by (auto simp: Let_def insert_at_lower_bound remove1_idem)
  qed
qed simp

lemma fold_remove1_all:
  assumes "distinct ids" and "set xs \<subseteq> set ids" and "distinct xs"
  shows "fold remove1 ids xs = []"
proof -
  have "set (fold remove1 ids xs) = set xs - set ids" using assms(3)
    by (induction ids arbitrary: xs) auto
  then have "set (fold remove1 ids xs) = {}" using assms(2) by auto
  then show ?thesis by simp
qed

section \<open>Handing over new accounts in turn\<close>

definition sent_accounts :: "(nat \<times> remote_command) list \<Rightarrow> lws_account list" where
  "sent_accounts sent = concat (map (\<lambda>(_, m). case m of Push_command us \<Rightarrow> us | Replace_command us \<Rightarrow> us) sent)"

text \<open>The counter stands at a local thread or at the first thread of a remote scanner.\<close>

definition on_boundary :: "nat \<Rightarrow> remote_conn list \<Rightarrow> nat \<Rightarrow> bool" where
  "on_boundary n remotes next \<longleftrightarrow> next < n \<or> (\<exists>j < length remotes. next = n + sum_list (map rc_threads (take j remotes)))"

lemma find_remote_boundary:
  assumes "list_all (\<lambda>c. rc_threads c \<noteq> 0) remotes" and "j < length remotes"
  shows "find_remote (n + sum_list (map rc_threads (take j remotes))) n remotes = Some (remotes ! j)"
  using assms
proof (induction remotes arbitrary: n j)
  case (Cons c cs)
  show ?case
  proof (cases j)
    case (Suc i)
    have "find_remote (n + rc_threads c + sum_list (map rc_threads (take i cs))) (n + rc_threads c) cs = Some (cs ! i)"
      by (rule Cons.IH) (use Cons.prems Suc in auto)
    then show ?thesis using Cons.prems Suc by (simp add: add.assoc)
  qed simp
qed simp

lemma mset_push_queue:
  assumes "i < length qs"
  shows "given (qs[i := push_accounts us (qs ! i)]) = given qs + mset us"
proof -
  have qs: "qs = take i qs @ qs ! i # drop (Suc i) qs" using assms by (rule id_take_nth_drop)
  have "given (qs[i := push_accounts us (qs ! i)]) = given (take i qs @ qs ! i # drop (Suc i) qs) + mset us"
    using assms by (simp add: upd_conv_take_nth_drop)
  then show ?thesis using qs by simp
qed

lemma on_boundary_next:
  assumes "list_all (\<lambda>c. rc_threads c \<noteq> 0) remotes" and total: "n_total = n + sum_list (map rc_threads remotes)"
  shows "next < n \<Longrightarrow> on_boundary n remotes (Suc next mod n_total)"
    and "j < length remotes \<Longrightarrow> on_boundary n remotes ((n + sum_list (map rc_threads (take j remotes)) + rc_threads (remotes ! j)) mod n_total)"
proof -
  have zero: "on_boundary n remotes 0" if "n_total \<noteq> 0"
    using that total by (cases "n = 0"; cases remotes) (auto simp: on_boundary_def intro!: exI [of _ 0])
  have at: "on_boundary n remotes ((n + sum_list (map rc_threads (take j remotes))) mod n_total)" if "j \<le> length remotes" "n_total \<noteq> 0" for j
  proof (cases "j < length remotes")
    case True
    have "sum_list (map rc_threads (take (Suc j) remotes)) \<le> sum_list (map rc_threads remotes)"
      by (metis append_take_drop_id le_add1 map_append sum_list_append)
    moreover have "rc_threads (remotes ! j) \<noteq> 0" using assms(1) True by (simp add: list_all_length)
    ultimately have "n + sum_list (map rc_threads (take j remotes)) < n_total" using True total by (simp add: take_Suc_conv_app_nth)
    then show ?thesis using True by (auto simp: on_boundary_def)
  qed (use that total zero in simp)
  show "on_boundary n remotes (Suc next mod n_total)" if lt: "next < n"
  proof (cases "Suc next = n")
    case True
    then show ?thesis using at [of 0] total by simp
  next
    case False
    then show ?thesis using lt total by (simp add: on_boundary_def)
  qed
  show "on_boundary n remotes ((n + sum_list (map rc_threads (take j remotes)) + rc_threads (remotes ! j)) mod n_total)" if j: "j < length remotes"
  proof -
    have "rc_threads (remotes ! j) \<noteq> 0" "rc_threads (remotes ! j) \<le> sum_list (map rc_threads remotes)"
      using assms(1) j by (simp_all add: list_all_length member_le_sum_list)
    then have "n_total \<noteq> 0" using total by linarith
    then show ?thesis using at [of "Suc j"] j by (simp add: take_Suc_conv_app_nth add.assoc)
  qed
qed

lemma robin_loop_result:
  assumes "list_all (\<lambda>c. rc_threads c \<noteq> 0) remotes" and "n_total = length qs + sum_list (map rc_threads remotes)"
    and "on_boundary (length qs) remotes next"
  shows "\<exists>next' qs' sent'. robin_loop n_total remotes next new qs sent = Some (next', qs', sent') \<and> length qs' = length qs
    \<and> on_boundary (length qs) remotes next' \<and> given qs' + mset (sent_accounts sent') = given qs + mset (sent_accounts sent) + mset new"
  using assms
proof (induction n_total remotes "next" new qs sent rule: robin_loop.induct)
  case (1 n_total remotes "next" new qs sent)
  show ?case
  proof (cases "new = []")
    case True
    then show ?thesis using "1.prems"(3) by (subst robin_loop.simps) simp
  next
    case ne: False
    show ?thesis
    proof (cases "next < length qs")
      case True
      let ?qs = "qs[next := push_accounts [last new] (qs ! next)]"
      have "given ?qs + mset (butlast new) = given qs + mset new"
        using ne True by (simp add: mset_push_queue) (metis append_butlast_last_id mset.simps(1,2) mset_append union_commute add_mset_add_single)
      with "1.IH"(1) [OF ne True] "1.prems" on_boundary_next(1) [OF "1.prems"(1,2) True] show ?thesis
        unfolding robin_loop.simps [of n_total remotes "next" new] using ne True by (fastforce simp: ac_simps)
    next
      case False
      with "1.prems"(3) obtain j where j: "j < length remotes" "next = length qs + sum_list (map rc_threads (take j remotes))"
        by (auto simp: on_boundary_def)
      have c: "find_remote next (length qs) remotes = Some (remotes ! j)" using find_remote_boundary [OF "1.prems"(1) j(1)] j(2) by simp
      have c0: "rc_threads (remotes ! j) \<noteq> 0" using "1.prems"(1) j(1) by (simp add: list_all_length)
      let ?k = "length new - min (length new) (rc_threads (remotes ! j))"
      have "mset (drop ?k new) + mset (take ?k new) = mset new" by (metis append_take_drop_id mset_append union_commute)
      with "1.IH"(2) [OF ne False c c0 refl "1.prems"(1,2)] on_boundary_next(2) [OF "1.prems"(1,2) j(1)] j(2) show ?thesis
        unfolding robin_loop.simps [of n_total remotes "next" new] using ne False c c0 by (fastforce simp: Let_def sent_accounts_def ac_simps)
    qed
  qed
qed


lemma best_thread_bound:
  assumes "qs \<noteq> []"
  shows "best_thread h qs < length qs"
proof -
  have "bt_thread (fold (consider_thread h) iqs b) < n" if "\<forall>x \<in> set iqs. fst x < n" "bt_thread b < n" for iqs b n
    using that by (induction iqs arbitrary: b) (auto simp: consider_thread_def Let_def)
  from this [of "enumerate 0 qs" "length qs"] show ?thesis using assms by (auto simp: best_thread_def in_set_enumerate_eq)
qed

lemma balance_loop_result:
  assumes "qs \<noteq> []"
  shows "length (balance_loop new qs) = length qs \<and> given (balance_loop new qs) = given qs + mset new"
  using assms
proof (induction new qs rule: balance_loop.induct)
  case (2 user users qs)
  have "length (qs[best_thread (la_height user) qs := q]) \<noteq> 0" for q using "2.prems" by simp
  then show ?case using "2.IH" [OF refl] mset_push_queue [OF best_thread_bound [OF "2.prems"]] "2.prems"
    by (simp add: Let_def ac_simps)
qed simp

lemma live_remotes_all:
  assumes "list_all rc_alive cs" and "int (n + sum_list (map rc_threads cs)) \<le> max_size"
  shows "live_remotes n cs = Inr (Some (n + sum_list (map rc_threads cs), filter (\<lambda>c. rc_threads c \<noteq> 0) cs))"
  using assms by (induction cs arbitrary: n) auto

lemma sum_nonzero: "sum_list (map rc_threads (filter (\<lambda>c. rc_threads c \<noteq> 0) cs)) = sum_list (map rc_threads cs)"
  by (induction cs) auto

lemma fold_insort: "sorted ys \<Longrightarrow> sorted (fold insort xs ys) \<and> mset (fold insort xs ys) = mset xs + mset (ys :: account_id list)"
  by (induction xs arbitrary: ys) (auto simp: sorted_insort)

section \<open>Checking for new accounts\<close>

definition new_accounts :: "env \<Rightarrow> db \<Rightarrow> scan_server \<Rightarrow> account list" where
  "new_accounts E d s = filter (\<lambda>a. acc_id a \<notin> set (sv_active s)) (get_accounts E d active)"

text \<open>
  The server as it is between two handlers: all connections up, the known accounts still active and their ids sorted, and the counter at the start of
  a worker.
\<close>

definition server_ready :: "env \<Rightarrow> db \<Rightarrow> scan_server \<Rightarrow> bool" where
  "server_ready E d s \<longleftrightarrow> \<not> sv_stop s \<and> list_all rc_alive (sv_remote s)
     \<and> 0 < length (sv_local s) + sum_list (map rc_threads (sv_remote s)) \<and> int (length (sv_local s) + sum_list (map rc_threads (sv_remote s))) \<le> max_size
     \<and> sorted (sv_active s) \<and> distinct (sv_active s) \<and> set (sv_active s) \<subseteq> acc_id ` set (get_accounts E d active)
     \<and> on_boundary (length (sv_local s)) (filter (\<lambda>c. rc_threads c \<noteq> 0) (sv_remote s)) (sv_next_thread s)"

lemma on_boundary_less:
  assumes "on_boundary n remotes k" and "list_all (\<lambda>c. rc_threads c \<noteq> 0) remotes"
  shows "k < n + sum_list (map rc_threads remotes)"
proof (cases "k < n")
  case False
  with assms obtain j where j: "j < length remotes" "k = n + sum_list (map rc_threads (take j remotes))" by (auto simp: on_boundary_def)
  have "sum_list (map rc_threads (take (Suc j) remotes)) \<le> sum_list (map rc_threads remotes)"
    by (metis append_take_drop_id le_add1 map_append sum_list_append)
  then show ?thesis using j assms(2) by (auto simp: take_Suc_conv_app_nth list_all_length)
qed simp

lemma check_users_eq:
  fixes address_string :: "account_address \<Rightarrow> string"
  assumes "server_ready E d s" and "distinct (map acc_id (get_accounts E d active))" and "int (length (new_accounts E d s)) \<le> replace_threshold"
  defines "full \<equiv> get_full_account E address_string d"
    and "n_total \<equiv> length (sv_local s) + sum_list (map rc_threads (sv_remote s))"
    and "active' \<equiv> fold insort (map acc_id (new_accounts E d s)) (sv_active s)"
  shows "check_users E address_string d s =
      (if sv_balance s \<and> sv_local s \<noteq> []
       then Some (Inr (s\<lparr>sv_active := active', sv_local := balance_loop (rev (map full (new_accounts E d s))) (sv_local s)\<rparr>))
       else map_option (\<lambda>(next, qs, sent). Inr (s\<lparr>sv_active := active', sv_local := qs, sv_sent := sv_sent s @ sent, sv_next_thread := next\<rparr>))
              (robin_loop n_total (filter (\<lambda>c. rc_threads c \<noteq> 0) (sv_remote s)) (sv_next_thread s) (map full (new_accounts E d s)) (sv_local s) []))"
    "active' = sort (map acc_id (get_accounts E d active))"
proof -
  let ?accounts = "get_accounts E d active" and ?remotes = "filter (\<lambda>c. rc_threads c \<noteq> 0) (sv_remote s)"
  note r = assms(1) [unfolded server_ready_def]
  have live: "live_remotes (length (sv_local s)) (sv_remote s) = Inr (Some (n_total, ?remotes))"
    unfolding n_total_def by (rule live_remotes_all) (use r in auto)
  have card: "length (sv_active s) \<le> length ?accounts"
    using r assms(2) by (metis card_mono distinct_card finite_set length_map list.set_map)
  have found: "find_new full ?accounts \<lparr>nu_copy = sv_active s, nu_active = sv_active s, nu_new = []\<rparr>
      = Some \<lparr>nu_copy = [], nu_active = active', nu_new = map full (new_accounts E d s)\<rparr>"
    using find_new_result [of "\<lparr>nu_copy = sv_active s, nu_active = sv_active s, nu_new = []\<rparr>" ?accounts full] r assms(2,3)
      fold_remove1_all [OF assms(2), of "sv_active s"] by (simp add: new_accounts_def active'_def)
  have act: "sorted active'" "mset active' = mset (map acc_id (new_accounts E d s)) + mset (sv_active s)"
    using fold_insort [of "sv_active s" "map acc_id (new_accounts E d s)"] r by (simp_all add: active'_def)
  have known: "mset (map acc_id (filter (\<lambda>a. acc_id a \<in> set (sv_active s)) ?accounts)) = mset (sv_active s)"
    using r assms(2) by (intro set_eq_iff_mset_eq_distinct [THEN iffD1]) (auto simp: distinct_map inj_on_def)
  have "mset (map acc_id ?accounts) = mset (map acc_id (filter (\<lambda>a. acc_id a \<in> set (sv_active s)) ?accounts)) + mset (map acc_id (new_accounts E d s))"
    unfolding new_accounts_def mset_map mset_filter by (simp flip: image_mset_union multiset_partition)
  then show "active' = sort (map acc_id ?accounts)"
    using act known by (intro properties_for_sort [symmetric]) (simp_all add: ac_simps)
  have "0 < n_total" unfolding n_total_def using r by (elim conjE)
  moreover have "sv_next_thread s mod n_total = sv_next_thread s"
    using on_boundary_less [of "length (sv_local s)" ?remotes "sv_next_thread s"] r unfolding sum_nonzero n_total_def by (simp add: list_all_iff)
  ultimately show "check_users E address_string d s =
      (if sv_balance s \<and> sv_local s \<noteq> []
       then Some (Inr (s\<lparr>sv_active := active', sv_local := balance_loop (rev (map full (new_accounts E d s))) (sv_local s)\<rparr>))
       else map_option (\<lambda>(next, qs, sent). Inr (s\<lparr>sv_active := active', sv_local := qs, sv_sent := sv_sent s @ sent, sv_next_thread := next\<rparr>))
              (robin_loop n_total (filter (\<lambda>c. rc_threads c \<noteq> 0) (sv_remote s)) (sv_next_thread s) (map full (new_accounts E d s)) (sv_local s) []))"
    using r card found by (simp add: check_users_def Let_def live full_def)
qed

text \<open>
  C13: a new account reaches exactly one worker. When the server looks for new accounts with all connections up and none of the known
  accounts gone, the loop that hands them over ends, never leaves its tables, and each new active account is pushed to one local queue or sent
  to one remote scanner, once; nobody else gets anything. Afterwards all active accounts are known and the server is ready again.
\<close>

theorem check_users_assigns:
  assumes "server_ready E d s" and "distinct (map acc_id (get_accounts E d active))" and "int (length (new_accounts E d s)) \<le> replace_threshold"
  shows "\<exists>s' sent. check_users E address_string d s = Some (Inr s') \<and> sv_sent s' = sv_sent s @ sent
    \<and> given (sv_local s') + mset (sent_accounts sent)
        = given (sv_local s) + image_mset (get_full_account E address_string d) (mset (new_accounts E d s))
    \<and> sv_active s' = sort (map acc_id (get_accounts E d active)) \<and> server_ready E d s'"
proof -
  let ?full = "get_full_account E address_string d" and ?remotes = "filter (\<lambda>c. rc_threads c \<noteq> 0) (sv_remote s)"
  note r = assms(1) [unfolded server_ready_def] and s = check_users_eq(1) [OF assms, where address_string = address_string, unfolded check_users_eq(2) [OF assms]]
  have nz: "list_all (\<lambda>c. rc_threads c \<noteq> 0) ?remotes" by (simp add: list_all_iff)
  have active_ok: "distinct (sort (map acc_id (get_accounts E d active)))" "set (sort (map acc_id (get_accounts E d active))) = acc_id ` set (get_accounts E d active)"
    using assms(2) by simp_all
  show ?thesis
  proof (cases "sv_balance s \<and> sv_local s \<noteq> []")
    case True
    then have ne: "sv_local s \<noteq> []" by simp
    note b = balance_loop_result [OF ne, of "rev (map ?full (new_accounts E d s))"]
    show ?thesis unfolding s if_P [OF True] using b r active_ok ne by (auto simp: server_ready_def sent_accounts_def intro!: exI [of _ "[]"])
  next
    case False
    obtain next' qs' sent' where robin: "robin_loop (length (sv_local s) + sum_list (map rc_threads (sv_remote s))) ?remotes (sv_next_thread s)
        (map ?full (new_accounts E d s)) (sv_local s) [] = Some (next', qs', sent')"
      "length qs' = length (sv_local s)" "on_boundary (length (sv_local s)) ?remotes next'"
      "given qs' + mset (sent_accounts sent') = given (sv_local s) + mset (sent_accounts []) + mset (map ?full (new_accounts E d s))"
      using robin_loop_result [OF nz refl, of "sv_local s" "sv_next_thread s"] r unfolding sum_nonzero by metis
    show ?thesis unfolding s if_not_P [OF False] robin(1) using robin(2-4) r active_ok
      by (auto simp: server_ready_def sent_accounts_def)
  qed
qed

section \<open>Accounts nobody scans\<close>

text \<open>The threads from each scanner on, and how many accounts are left over when \<open>n\<close> are divided: every scanner rounds down.\<close>

fun threads_from :: "remote_conn list \<Rightarrow> nat list" where
  "threads_from [] = []"
| "threads_from (c # cs) = sum_list (map rc_threads (c # cs)) # threads_from cs"

definition left_over :: "nat \<Rightarrow> remote_conn list \<Rightarrow> nat" where
  "left_over n cs = (if n < sum_list (map rc_threads cs) then 0 else fold (\<lambda>t m. m mod t) (threads_from cs) n)"

lemma left_over_step:
  fixes n :: nat
  assumes "sum_t = sum_list (map rc_threads (c # cs))"
  shows "left_over (n - min (max 1 (n div max 1 sum_t) * rc_threads c) n) cs = left_over n (c # cs)"
proof -
  let ?t = "rc_threads c" and ?r = "sum_list (map rc_threads cs)"
  have sum_t: "sum_t = ?t + ?r" using assms by simp
  consider "sum_t = 0" | "0 < sum_t" "n < sum_t" | "0 < sum_t" "sum_t \<le> n" by linarith
  then show ?thesis
  proof cases
    case 1
    then have "?t = 0" "?r = 0" using sum_t by simp_all
    then show ?thesis unfolding left_over_def by (simp del: sum_list_eq_0_iff)
  next
    case 2
    then have "n - min (max 1 (n div max 1 sum_t) * ?t) n = n - ?t" by simp
    moreover have "n - ?t < ?r \<or> n - ?t = 0" using 2 sum_t by linarith
    moreover have "fold (\<lambda>t m. m mod t) ts 0 = (0 :: nat)" for ts by (induction ts) simp_all
    ultimately show ?thesis using 2 sum_t by (auto simp: left_over_def)
  next
    case 3
    let ?q = "n div sum_t"
    have q: "0 < ?q" using 3 by (simp add: div_greater_zero_iff)
    have split: "n = ?q * ?t + ?q * ?r + n mod sum_t" using div_mult_mod_eq [of n sum_t] by (simp add: sum_t algebra_simps)
    then have take: "n - min (max 1 (n div max 1 sum_t) * ?t) n = ?q * ?r + n mod sum_t"
      using q 3 by (simp add: max_absorb2)
    have "?r \<le> ?q * ?r" using q by simp
    then have "\<not> ?q * ?r + n mod sum_t < ?r" by linarith
    moreover have "(?q * ?r + n mod sum_t) mod ?r = n mod sum_t mod ?r" by simp
    ultimately show ?thesis unfolding take left_over_def using 3 sum_t by (cases cs) simp_all
  qed
qed

lemma share_remote_left:
  assumes "share_remote full (sum_list (map rc_threads cs)) users cs = (sent, rest)"
  shows "sent_accounts sent = map full (rev (drop (left_over (length users) cs) users)) \<and> map fst sent = map rc_id cs
    \<and> left_over (length users) cs \<le> length users"
  using assms
proof (induction cs arbitrary: users sent rest)
  case Nil
  then show ?case by (simp add: sent_accounts_def left_over_def)
next
  case (Cons c cs)
  let ?n = "length users" and ?total = "sum_list (map rc_threads (c # cs))"
  let ?k = "?n - min (max 1 (?n div max 1 ?total) * rc_threads c) ?n"
  obtain sent1 rest1 where r: "share_remote full (sum_list (map rc_threads cs)) (take ?k users) cs = (sent1, rest1)" by fastforce
  have "?total - min ?total (rc_threads c) = sum_list (map rc_threads cs)" by simp
  with Cons.prems r have sent: "sent = (rc_id c, Replace_command (map full (rev (drop ?k users)))) # sent1"
    by (auto simp: Let_def)
  have k: "?k \<le> ?n" by simp
  then have len: "length (take ?k users) = ?k" by (metis length_take min.absorb2)
  have left: "left_over ?k cs = left_over ?n (c # cs)" by (rule left_over_step [OF refl])
  note IH = Cons.IH [OF r, unfolded len left]
  let ?l = "left_over ?n (c # cs)"
  have l: "?l \<le> ?k" using IH by blast
  have "drop ?l users = drop ?l (take ?k users @ drop ?k users)" by (simp only: append_take_drop_id)
  also have "\<dots> = drop ?l (take ?k users) @ drop ?k users" unfolding drop_append len using l by (simp only: diff_is_0_eq' drop_0)
  finally have split: "drop ?l users = drop ?l (take ?k users) @ drop ?k users" .
  have "sent_accounts sent = map full (rev (drop ?k users)) @ sent_accounts sent1"
    unfolding sent by (simp only: sent_accounts_def list.map concat.simps prod.case remote_command.case)
  also have "\<dots> = map full (rev (drop ?l users))" unfolding split IH [THEN conjunct1] by (simp only: rev_append map_append)
  finally show ?case using IH l k unfolding sent by (intro conjI) (simp_all only: list.map prod.sel le_trans [OF l k])
qed

text \<open>
  C36: the division among remote scanners rounds down at each of them and leaves the rest to nobody. Without local threads, let \<open>t\<^sub>1, \<dots>, t\<^sub>k\<close> be the
  numbers of threads of the connected scanners, each added up with those after it. With at least \<open>t\<^sub>1\<close> active accounts, the number of accounts modulo \<open>t\<^sub>1\<close>, modulo \<open>t\<^sub>2\<close>, up to
  \<open>t\<^sub>k\<close>, is never sent; with fewer, all are. The ones left out are those with the lowest heights. Their ids are nevertheless in the list of
  known accounts, so the check for new accounts changes nothing, and the state stays as it is until a connection or an account comes or goes.
\<close>

theorem remote_division_starves:
  fixes address_string :: "account_address \<Rightarrow> string"
  assumes "sv_local s = []" and "\<not> sv_stop s" and "cs = filter rc_alive (sv_remote s)"
    and "0 < sum_list (map rc_threads cs)" and "int (sum_list (map rc_threads cs)) \<le> max_size"
    and "accounts = get_accounts E d active" and "distinct (map acc_id accounts)"
    and "k = (if length accounts < sum_list (map rc_threads cs) then 0 else fold (\<lambda>t m. m mod t) (threads_from cs) (length accounts))"
  shows "\<exists>s' sent. do_replace_users E address_string d s = Inr s' \<and> sv_sent s' = sv_sent s @ sent \<and> map fst sent = map rc_id cs
    \<and> sent_accounts sent = map (get_full_account E address_string d) (rev (drop k (users_by_height accounts)))
    \<and> sv_active s' = sort (map acc_id accounts) \<and> check_users E address_string d s' = Some (Inr s')"
proof -
  let ?full = "get_full_account E address_string d" and ?users = "users_by_height accounts" and ?total = "sum_list (map rc_threads cs)"
  have len: "length ?users = length accounts" by (metis mset_users_by_height size_mset)
  obtain sent rest where sent: "share_remote ?full ?total ?users cs = (sent, rest)" by fastforce
  note share = share_remote_left [OF sent, unfolded len left_over_def, folded assms(8)]
  define s' where "s' = s\<lparr>sv_remote := cs, sv_sent := sv_sent s @ sent, sv_next_thread := 0, sv_active := active_ids accounts\<rparr>"
  have add: "add_threads n cs = Inr (n + sum_list (map rc_threads cs))" if "int (n + sum_list (map rc_threads cs)) \<le> max_size" for n cs
    using that by (induction cs arbitrary: n) (auto simp: add.assoc)
  have "add_threads 0 cs = Inr ?total" using add [of 0 cs] assms(5) by simp
  then have s': "do_replace_users E address_string d s = Inr s'"
    using assms(1,4) sent by (simp add: do_replace_users_def Let_def s'_def del: sum_list_eq_0_iff flip: assms(3,6))
  have "filter (\<lambda>c. rc_threads c \<noteq> 0) cs \<noteq> []" using sum_nonzero [of cs] assms(4) by (metis less_irrefl list.map(1) sum_list.Nil)
  then have ready: "server_ready E d s'"
    using assms(1-7) by (auto simp: server_ready_def s'_def active_ids_sort on_boundary_def list_all_iff intro: exI [of _ 0])
  have none: "new_accounts E d s' = []" by (simp add: new_accounts_def s'_def active_ids_sort filter_empty_conv assms(6))
  have "check_users E address_string d s' = Some (Inr s')"
    using check_users_eq(1) [OF ready assms(7) [unfolded assms(6)], where address_string = address_string] none assms(1)
    by (simp add: s'_def robin_loop.simps replace_threshold_def)
  with s' share show ?thesis by (intro exI [of _ s'] exI [of _ sent]) (simp add: s'_def active_ids_sort)
qed


section \<open>Remote scanners\<close>

text \<open>The connections that gave the right password.\<close>

definition passed :: "(string \<Rightarrow> bool) \<Rightarrow> server_event list \<Rightarrow> nat set" where
  "passed pass_ok evs = {i. \<exists>len pass threads. Message_event i len (Initialize pass threads) \<in> set evs \<and> pass_ok pass}"

definition conn_ok :: "nat set \<Rightarrow> remote_conn \<Rightarrow> bool" where
  "conn_ok P c \<longleftrightarrow> (rc_threads c \<noteq> 0 \<longrightarrow> rc_authenticated c) \<and> (rc_authenticated c \<longrightarrow> rc_id c \<in> P)"

fun command_users :: "remote_command \<Rightarrow> lws_account list" where
  "command_users (Push_command us) = us"
| "command_users (Replace_command us) = us"

definition sent_ok :: "nat set \<Rightarrow> (nat \<times> remote_command) list \<Rightarrow> bool" where
  "sent_ok P sent \<longleftrightarrow> (\<forall>(i, m) \<in> set sent. command_users m \<noteq> [] \<longrightarrow> i \<in> P)"

definition server_inv :: "nat set \<Rightarrow> scan_server \<Rightarrow> bool" where
  "server_inv P s \<longleftrightarrow> list_all (conn_ok P) (sv_remote s) \<and> sent_ok P (sv_sent s)"

lemma server_inv_mono: "server_inv P s \<Longrightarrow> P \<subseteq> Q \<Longrightarrow> server_inv Q s"
  by (fastforce simp: server_inv_def sent_ok_def conn_ok_def list_all_iff)

lemma share_remote_ok:
  "list_all (conn_ok P) cs \<Longrightarrow> share_remote full remaining users cs = (sent, rest) \<Longrightarrow> sent_ok P sent"
proof (induction cs arbitrary: remaining users sent rest)
  case (Cons c cs)
  let ?k = "length users - min (max 1 (length users div max 1 remaining) * rc_threads c) (length users)"
  obtain sent1 rest1 where 1: "share_remote full (remaining - min remaining (rc_threads c)) (take ?k users) cs = (sent1, rest1)" by fastforce
  have "sent = (rc_id c, Replace_command (map full (rev (drop ?k users)))) # sent1" using Cons.prems(2) 1 by (simp add: Let_def)
  moreover have "sent_ok P sent1" using Cons.IH [OF _ 1] Cons.prems(1) by simp
  moreover have "rc_threads c = 0 \<Longrightarrow> drop ?k users = []" by simp
  ultimately show ?case using Cons.prems(1) by (cases "rc_threads c = 0") (auto simp: sent_ok_def conn_ok_def)
qed (simp add: sent_ok_def)

lemma sent_ok_append [simp]: "sent_ok P (xs @ ys) \<longleftrightarrow> sent_ok P xs \<and> sent_ok P ys"
  by (auto simp: sent_ok_def)

lemma do_replace_users_ok:
  assumes "server_inv P s" and "do_replace_users E address_string d s = Inr s'"
  shows "server_inv P s'"
proof -
  let ?full = "get_full_account E address_string d"
  have alive: "list_all (conn_ok P) (filter rc_alive (sv_remote s))" using assms(1) by (auto simp: server_inv_def list_all_iff)
  from assms(2) have "sv_remote s' = filter rc_alive (sv_remote s)
      \<and> (sv_sent s' = sv_sent s \<or> (\<exists>r us sent rest. share_remote ?full r us (filter rc_alive (sv_remote s)) = (sent, rest) \<and> sv_sent s' = sv_sent s @ sent))"
    by (simp add: do_replace_users_def Let_def ebind_eq_Inr split: if_splits prod.splits) auto
  then show ?thesis using assms(1) alive share_remote_ok [OF alive] unfolding server_inv_def by auto
qed

lemma find_remote_set: "find_remote k n cs = Some c \<Longrightarrow> c \<in> set cs"
  by (induction k n cs rule: find_remote.induct) (auto split: if_splits)

lemma robin_loop_ok:
  "list_all (conn_ok P) remotes \<Longrightarrow> sent_ok P sent \<Longrightarrow> robin_loop n_total remotes k new qs sent = Some (k', qs', sent') \<Longrightarrow> sent_ok P sent'"
proof (induction n_total remotes k new qs sent rule: robin_loop.induct)
  case (1 n_total remotes k new qs sent)
  show ?case
  proof (cases "new = [] \<or> k < length qs")
    case True
    then have "new = [] \<and> sent' = sent \<or> new \<noteq> [] \<and> k < length qs
        \<and> robin_loop n_total remotes (Suc k mod n_total) (butlast new) (qs[k := push_accounts [last new] (qs ! k)]) sent = Some (k', qs', sent')"
      using "1.prems"(3) by (subst (asm) robin_loop.simps) (auto split: if_splits)
    then show ?thesis using "1.prems"(1,2) "1.IH"(1) by blast
  next
    case False
    with "1.prems"(3) obtain c where c: "find_remote k (length qs) remotes = Some c" "rc_threads c \<noteq> 0"
      by (subst (asm) robin_loop.simps) (auto split: if_splits option.splits)
    have "rc_id c \<in> P" using find_remote_set [OF c(1)] c(2) "1.prems"(1) by (auto simp: conn_ok_def list_all_iff)
    then have ok: "sent_ok P (sent @ [(rc_id c, m)])" for m using "1.prems"(2) by (simp add: sent_ok_def)
    let ?k = "length new - min (length new) (rc_threads c)"
    have "robin_loop n_total remotes ((k + rc_threads c) mod n_total) (take ?k new) qs (sent @ [(rc_id c, Push_command (drop ?k new))]) = Some (k', qs', sent')"
      using "1.prems"(3) False c by (subst (asm) robin_loop.simps) (simp add: Let_def)
    with "1.IH"(2) [OF _ _ c(1,2) refl "1.prems"(1) ok] False show ?thesis by blast
  qed
qed

lemma live_remotes_set: "live_remotes n cs = Inr (Some (m, rs)) \<Longrightarrow> set rs \<subseteq> set cs"
  by (induction cs arbitrary: n m rs) (fastforce simp: ebind_eq_Inr split: if_splits)+

lemma check_users_ok:
  assumes "server_inv P s" and "check_users E address_string d s = Some (Inr s')"
  shows "server_inv P s'"
proof -
  consider (same) "s' = s" | (replace) as where "do_replace_users E address_string d (s\<lparr>sv_active := as\<rparr>) = Inr s'"
    | (balance) qs as where "s' = s\<lparr>sv_active := as, sv_local := qs\<rparr>"
    | (robin) n m rs k0 new k qs sent as where "live_remotes n (sv_remote s) = Inr (Some (m, rs))"
        "robin_loop m rs k0 new (sv_local s) [] = Some (k, qs, sent)"
        "s' = s\<lparr>sv_active := as, sv_local := qs, sv_sent := sv_sent s @ sent, sv_next_thread := k\<rparr>"
  proof (cases "\<exists>m rs n. \<not> sv_stop s \<and> live_remotes (length (sv_local s)) (sv_remote s) = Inr (Some (m, rs)) \<and> m \<noteq> 0
      \<and> \<not> length (get_accounts E d active) < length (sv_active s)
      \<and> find_new (get_full_account E address_string d) (get_accounts E d active) \<lparr>nu_copy = sv_active s, nu_active = sv_active s, nu_new = []\<rparr> = Some n
      \<and> nu_copy n = []")
    case True
    then show thesis using assms(2) that(3,4)
      by (elim exE conjE) (simp add: check_users_def Let_def split: if_splits; blast)
  next
    case False
    have self: "s\<lparr>sv_active := sv_active s\<rparr> = s" by simp
    show thesis using assms(2) False that(1) that(2) [of "sv_active s", unfolded self] that(2)
      by (simp add: check_users_def Let_def split: if_splits sum.splits option.splits prod.splits)
  qed
  then show ?thesis
  proof cases
    case replace
    show ?thesis by (rule do_replace_users_ok [OF _ replace]) (use assms(1) in \<open>simp add: server_inv_def\<close>)
  next
    case robin
    have "list_all (conn_ok P) rs" using live_remotes_set [OF robin(1)] assms(1) by (auto simp: server_inv_def list_all_iff)
    from robin_loop_ok [OF this _ robin(2)] show ?thesis using assms(1) robin(3) by (auto simp: server_inv_def sent_ok_def)
  qed (use assms(1) in \<open>simp_all add: server_inv_def\<close>)
qed


lemma or_stop_ok: "server_inv P s \<Longrightarrow> (\<And>s'. r = Some (Inr s') \<Longrightarrow> server_inv P s') \<Longrightarrow> server_inv P (or_stop s r)"
  by (cases r) (auto simp: or_stop_def do_stop_def server_inv_def split: sum.splits)

lemma close_conn_ok: "server_inv P s \<Longrightarrow> server_inv P (close_conn i s)"
  by (auto simp: close_conn_def server_inv_def list_all_iff conn_ok_def)

lemma server_store_ok: "server_inv P s \<Longrightarrow> server_inv P (snd (server_store S users blocks (d, s)))"
  by (auto simp: server_store_def server_inv_def do_stop_def split: prod.splits outcome.splits)

lemma handle_message_ok:
  assumes "server_inv P s" and "c \<in> set (sv_remote s)" and "passed pass_ok [Message_event (rc_id c) len m] \<subseteq> P"
  shows "server_inv P (snd (handle_message S address_string pass_ok c len m (d, s)))"
proof (cases "\<exists>pass threads c'. m = Initialize pass threads \<and> initialize_handler pass_ok pass threads c = Some c'")
  case True
  then obtain pass threads c' where m: "m = Initialize pass threads" "initialize_handler pass_ok pass threads c = Some c'" by blast
  then have c': "c' = c\<lparr>rc_authenticated := True, rc_threads := unat threads\<rparr>" "rc_id c \<in> P"
    using assms(3) by (auto simp: initialize_handler_def passed_def split: if_splits)
  have inv: "server_inv P (set_conn c' s)" using assms(1) c' by (auto simp: set_conn_def server_inv_def list_all_iff conn_ok_def)
  have "server_inv P (or_stop (set_conn c' s) (Some (do_replace_users (se_storage S) address_string d (set_conn c' s))))"
    by (rule or_stop_ok [OF inv]) (auto intro: do_replace_users_ok [OF inv])
  then show ?thesis using assms(1) m by (simp add: handle_message_def Let_def close_conn_ok)
next
  case False
  then show ?thesis using assms(1) close_conn_ok server_store_ok
    by (cases m) (auto simp: handle_message_def split: option.splits bool.splits)
qed

lemma handle_message_db:
  assumes "fst (handle_message S address_string pass_ok c len m (d, s)) \<noteq> d"
  shows "\<exists>users blocks. m = Update_accounts users blocks \<and> rc_authenticated c"
  using assms by (cases m) (auto simp: handle_message_def update_accounts_handler_def Let_def split: if_splits option.splits bool.splits)

lemma server_step_ok:
  assumes "server_inv P s" and "passed pass_ok [ev] \<subseteq> P"
  shows "server_inv P (snd (server_step S address_string pass_ok ev (d, s)))"
proof (cases ev)
  case Check_event
  then show ?thesis using or_stop_ok [OF assms(1)] check_users_ok [OF assms(1)] by simp
next
  case (Message_event i len m)
  show ?thesis
  proof (cases "find (\<lambda>c. rc_id c = i) (sv_remote s)")
    case (Some c)
    then have c: "c \<in> set (sv_remote s)" "rc_id c = i" by (auto simp: find_Some_iff)
    then show ?thesis using Message_event Some assms(1) handle_message_ok [OF assms(1) c(1), of pass_ok len m] assms(2) by simp
  qed (use Message_event assms(1) in simp)
qed (use assms(1) close_conn_ok in \<open>auto simp: server_inv_def do_stop_def conn_ok_def\<close>)

lemma passed_append: "passed pass_ok (evs @ evs') = passed pass_ok evs \<union> passed pass_ok evs'"
  by (rule set_eqI) (simp add: passed_def, blast)

lemma server_run_ok:
  assumes "sv_remote s = []" and "sv_sent s = []"
  shows "server_inv (passed pass_ok evs) (snd (fold (server_step S address_string pass_ok) evs (d, s)))"
proof (induction evs rule: rev_induct)
  case Nil
  then show ?case using assms by (simp add: server_inv_def sent_ok_def)
next
  case (snoc ev evs)
  obtain d1 s1 where 1: "fold (server_step S address_string pass_ok) evs (d, s) = (d1, s1)" by fastforce
  have "server_inv (passed pass_ok (evs @ [ev])) s1" using snoc 1 by (auto simp: passed_append intro: server_inv_mono)
  from server_step_ok [OF this, of pass_ok ev] show ?case using 1 by (simp add: passed_append)
qed

text \<open>
  C12: a remote scanner needs the password. In every sequence of connections, messages and checks, accounts (with their view keys) are
  sent only to a connection that gave the right password, and a message changes the database only when it comes from such a connection.
\<close>

theorem remote_needs_pass:
  assumes "sv_remote s = []" and "sv_sent s = []"
    and "fold (server_step S address_string pass_ok) evs (d, s) = (d1, s1)"
  shows "list_all (\<lambda>(i, m). command_users m = [] \<or> i \<in> passed pass_ok evs) (sv_sent s1)
    \<and> (fst (server_step S address_string pass_ok (Message_event i len msg) (d1, s1)) = d1 \<or> i \<in> passed pass_ok evs)"
proof
  have inv: "server_inv (passed pass_ok evs) s1" using server_run_ok [OF assms(1,2), of pass_ok evs S address_string d] assms(3) by simp
  then show "list_all (\<lambda>(i, m). command_users m = [] \<or> i \<in> passed pass_ok evs) (sv_sent s1)"
    by (auto simp: server_inv_def sent_ok_def list_all_iff)
  show "fst (server_step S address_string pass_ok (Message_event i len msg) (d1, s1)) = d1 \<or> i \<in> passed pass_ok evs"
  proof (rule disjCI)
    assume "i \<notin> passed pass_ok evs"
    show "fst (server_step S address_string pass_ok (Message_event i len msg) (d1, s1)) = d1"
    proof (rule ccontr)
    assume "fst (server_step S address_string pass_ok (Message_event i len msg) (d1, s1)) \<noteq> d1"
    then obtain c where c: "find (\<lambda>c. rc_id c = i) (sv_remote s1) = Some c"
      and h: "fst (handle_message S address_string pass_ok c len msg (d1, s1)) \<noteq> d1" by (auto split: option.splits if_splits)
    have "c \<in> set (sv_remote s1)" "rc_id c = i" using c by (auto simp: find_Some_iff)
    then show False using inv \<open>i \<notin> _\<close> handle_message_db [OF h] by (auto simp: server_inv_def list_all_iff conn_ok_def)
    qed
  qed
qed

section \<open>A server\<close>

definition crowded_db :: db where
  "crowded_db = sample_db\<lparr>db_accounts := [(active, sample_account 1 2), (active, sample_account 2 1), (active, sample_account 3 2)]\<rparr>"

definition sample_server :: scan_server where
  "sample_server = \<lparr>sv_local = [new_queue, new_queue], sv_remote = [], sv_active = [1], sv_next_thread = 1, sv_stop = False, sv_balance = False, sv_sent = []\<rparr>"

definition remote_only :: scan_server where
  "remote_only = sample_server\<lparr>sv_local := [], sv_remote := [\<lparr>rc_id = 7, rc_alive = True, rc_threads = 2, rc_authenticated = True\<rparr>]\<rparr>"

abbreviation sample_load :: "account \<Rightarrow> lws_account" where
  "sample_load \<equiv> get_full_account sample_env (\<lambda>_. ''addr'') crowded_db"

lemma crowded_accounts: "get_accounts sample_env crowded_db active = [sample_account 1 2, sample_account 2 1, sample_account 3 2]"
  by code_simp

theorem local_threads_share_all_witness:
  "given (sv_local (projr (do_replace_users sample_env (\<lambda>_. ''addr'') crowded_db sample_server)))
    = image_mset sample_load {#sample_account 1 2, sample_account 2 1, sample_account 3 2#}"
proof -
  let ?r = "do_replace_users sample_env (\<lambda>_. ''addr'') crowded_db sample_server"
  have "?r = Inr (projr ?r)" by (rule sum.collapse(2) [symmetric]) code_simp
  moreover have "sv_local sample_server \<noteq> []" by (simp add: sample_server_def)
  moreover have "length (get_accounts sample_env crowded_db active) div length (sv_local sample_server) < remote_threshold"
    by code_simp
  ultimately show ?thesis using local_threads_share_all [of sample_env "\<lambda>_. ''addr''" crowded_db sample_server] by (simp add: crowded_accounts)
qed

lemma sample_server_ready: "server_ready sample_env crowded_db sample_server" "distinct (map acc_id (get_accounts sample_env crowded_db active))"
  "int (length (new_accounts sample_env crowded_db sample_server)) \<le> replace_threshold"
proof -
  show "server_ready sample_env crowded_db sample_server"
    by (simp add: server_ready_def crowded_accounts sample_server_def max_size_def on_boundary_def sample_account_def)
  show "distinct (map acc_id (get_accounts sample_env crowded_db active))" by (simp add: crowded_accounts sample_account_def)
  show "int (length (new_accounts sample_env crowded_db sample_server)) \<le> replace_threshold"
    by (simp add: new_accounts_def crowded_accounts sample_server_def sample_account_def replace_threshold_def)
qed

theorem check_users_assigns_witness:
  "\<exists>s' sent. check_users sample_env (\<lambda>_. ''addr'') crowded_db sample_server = Some (Inr s')
    \<and> given (sv_local s') + mset (sent_accounts sent) = image_mset sample_load {#sample_account 2 1, sample_account 3 2#}"
proof -
  have new: "new_accounts sample_env crowded_db sample_server = [sample_account 2 1, sample_account 3 2]"
    by (simp add: new_accounts_def crowded_accounts sample_server_def sample_account_def)
  have "given (sv_local sample_server) = {#}" by (simp add: sample_server_def)
  with check_users_assigns [OF sample_server_ready, of "\<lambda>_. ''addr''"] show ?thesis unfolding new by auto
qed

theorem remote_division_starves_witness:
  "\<exists>s'. do_replace_users sample_env (\<lambda>_. ''addr'') crowded_db remote_only = Inr s'
    \<and> sent_accounts (sv_sent s') = [sample_load (sample_account 1 2), sample_load (sample_account 3 2)]
    \<and> check_users sample_env (\<lambda>_. ''addr'') crowded_db s' = Some (Inr s')"
proof -
  have users: "users_by_height [sample_account 1 2, sample_account 2 1, sample_account 3 2] = [sample_account 2 1, sample_account 3 2, sample_account 1 2]"
    by code_simp
  show ?thesis
    using remote_division_starves [OF _ _ refl _ _ refl _ refl, of remote_only sample_env crowded_db "\<lambda>_. ''addr''"] sample_server_ready(2)
    by (auto simp add: remote_only_def sample_server_def crowded_accounts max_size_def users)
qed

definition sample_events :: "server_event list" where
  "sample_events = [Connect_event 5, Connect_event 6, Message_event 5 40 (Initialize ''guess'' 2), Message_event 6 40 (Initialize ''secret'' 2), Check_event]"

theorem remote_needs_pass_witness:
  "map fst (filter (\<lambda>(i, m). command_users m \<noteq> []) (sv_sent (snd (fold (server_step sample_scan_env (\<lambda>_. ''addr'') (\<lambda>p. p = ''secret'')) sample_events
      (crowded_db, sample_server\<lparr>sv_local := []\<rparr>))))) = [6]
   \<and> list_all (\<lambda>(i, m). command_users m = [] \<or> i \<in> passed (\<lambda>p. p = ''secret'') sample_events)
       (sv_sent (snd (fold (server_step sample_scan_env (\<lambda>_. ''addr'') (\<lambda>p. p = ''secret'')) sample_events (crowded_db, sample_server\<lparr>sv_local := []\<rparr>))))"
proof
  let ?r = "fold (server_step sample_scan_env (\<lambda>_. ''addr'') (\<lambda>p. p = ''secret'')) sample_events (crowded_db, sample_server\<lparr>sv_local := []\<rparr>)"
  show "map fst (filter (\<lambda>(i, m). command_users m \<noteq> []) (sv_sent (snd ?r))) = [6]" by code_simp
  show "list_all (\<lambda>(i, m). command_users m = [] \<or> i \<in> passed (\<lambda>p. p = ''secret'') sample_events) (sv_sent (snd ?r))"
    using remote_needs_pass [of "sample_server\<lparr>sv_local := []\<rparr>", OF _ _ prod.collapse [symmetric]]
    by (simp add: sample_server_def)
qed

end
