(* ===== verification/Msgpack.thy ===== *)
theory Msgpack
  imports Prelude
begin

text \<open>
  The msgpack reader and writer (\<^verbatim>\<open>src/wire/msgpack/read.cpp\<close>, \<^verbatim>\<open>write.cpp\<close>, \<^verbatim>\<open>base.h\<close>), the encoding of the values in the database and of the messages to
  remote scanners. A reader is the bytes that remain, the number of values still expected and the depth; every function
  returns an error or a value with the new state. Integers are \<open>int\<close> with the limits of the C++ types
  written out; \<^verbatim>\<open>remove_prefix\<close> of a span removes at most what is there.
\<close>

unbundle bit_operations_syntax

section \<open>Errors\<close>

datatype wire_error =
    Schema_array | Schema_array_max_element | Schema_array_min_size | Schema_boolean | Schema_fixed_binary | Schema_integer | Schema_invalid_key | Schema_larger_integer
  | Schema_maximum_depth | Schema_number | Schema_object | Schema_smaller_integer | Schema_string
  | Msgpack_incomplete | Msgpack_integer_encoding | Msgpack_invalid | Msgpack_max_tree_size | Msgpack_not_enough_bytes | Msgpack_underflow_tree
  | Wire_logic_error

type_synonym 'a wire = "wire_error + 'a"

definition wbind :: "'a wire \<Rightarrow> ('a \<Rightarrow> 'b wire) \<Rightarrow> 'b wire" where
  "wbind r f = (case r of Inl e \<Rightarrow> Inl e | Inr x \<Rightarrow> f x)"

lemma wbind_simps [simp]: "wbind (Inl e) f = Inl e" "wbind (Inr x) f = f x"
  by (simp_all add: wbind_def)

lemma wbind_eq_Inr: "wbind r f = Inr y \<longleftrightarrow> (\<exists>x. r = Inr x \<and> f x = Inr y)"
  by (cases r) auto

lemma wbind_cong [fundef_cong]: "r = r' \<Longrightarrow> (\<And>x. r' = Inr x \<Longrightarrow> f x = f' x) \<Longrightarrow> wbind r f = wbind r' f'"
  by (cases r') auto

definition size_limit :: int where
  "size_limit = 2 ^ 64 - 1"

section \<open>Big endian\<close>

definition be_value :: "u8 list \<Rightarrow> int" where
  "be_value bs = fold (\<lambda>b n. n * 256 + uint b) bs 0"

text \<open>The last \<open>k\<close> bytes of the two's complement.\<close>

fun be_bytes :: "nat \<Rightarrow> int \<Rightarrow> u8 list" where
  "be_bytes 0 v = []"
| "be_bytes (Suc k) v = be_bytes k (v div 256) @ [word_of_int v]"

definition signed_value :: "nat \<Rightarrow> int \<Rightarrow> int" where
  "signed_value k n = (if 2 ^ (8 * k - 1) \<le> n then n - 2 ^ (8 * k) else n)"

definition read_endian :: "nat \<Rightarrow> u8 list \<Rightarrow> (int \<times> u8 list) wire" where
  "read_endian k source =
     (if length source < k then Inl Msgpack_not_enough_bytes else Inr (be_value (take k source), drop k source))"

section \<open>Tags\<close>

text \<open>Tags with a value in their low bits: the tag and the mask.\<close>

type_synonym fixed_tag = "u8 \<times> u8"

definition ftag_unsigned :: fixed_tag where "ftag_unsigned = (0x00, 0x80)"

definition ftag_signed :: fixed_tag where "ftag_signed = (0xe0, 0xe0)"

definition ftag_string :: fixed_tag where "ftag_string = (0xa0, 0xe0)"

definition ftag_array :: fixed_tag where "ftag_array = (0x90, 0xf0)"

definition ftag_object :: fixed_tag where "ftag_object = (0x80, 0xf0)"

definition ftag_matches :: "fixed_tag \<Rightarrow> u8 \<Rightarrow> bool" where
  "ftag_matches f tag \<longleftrightarrow> tag AND snd f = fst f"

definition ftag_extract :: "fixed_tag \<Rightarrow> u8 \<Rightarrow> nat" where
  "ftag_extract f tag = unat (tag AND NOT (snd f))"

definition unsigned_max :: int where "unsigned_max = 0x7f"

definition fixed_string_max :: int where "fixed_string_max = 31"

definition fixed_array_max :: int where "fixed_array_max = 15"

definition fixed_object_max :: int where "fixed_object_max = 15"

text \<open>Tags with an integer behind them: the tag and its width in bytes, in the order they are tried.\<close>

definition signed_types :: "(u8 \<times> nat) list" where "signed_types = [(0xd0, 1), (0xd1, 2), (0xd2, 4), (0xd3, 8)]"

definition unsigned_types :: "(u8 \<times> nat) list" where "unsigned_types = [(0xcc, 1), (0xcd, 2), (0xce, 4), (0xcf, 8)]"

definition string_types :: "(u8 \<times> nat) list" where "string_types = [(0xd9, 1), (0xda, 2), (0xdb, 4)]"

definition binary_types :: "(u8 \<times> nat) list" where "binary_types = [(0xc4, 1), (0xc5, 2), (0xc6, 4)]"

definition extension_types :: "(u8 \<times> nat) list" where "extension_types = [(0xc7, 1), (0xc8, 2), (0xc9, 4)]"

definition array_types :: "(u8 \<times> nat) list" where "array_types = [(0xdc, 2), (0xdd, 4)]"

definition object_types :: "(u8 \<times> nat) list" where "object_types = [(0xde, 2), (0xdf, 4)]"

definition tag_false :: u8 where "tag_false = 0xc2"

definition tag_true :: u8 where "tag_true = 0xc3"

definition tag_float32 :: u8 where "tag_float32 = 0xca"

definition tag_float64 :: u8 where "tag_float64 = 0xcb"

section \<open>Reading\<close>

text \<open>\<^verbatim>\<open>boost::numeric_cast\<close> to a type with the given limits.\<close>

definition numeric_cast :: "int \<Rightarrow> int \<Rightarrow> int \<Rightarrow> int wire" where
  "numeric_cast lo hi n = (if hi < n then Inl Schema_smaller_integer else if n < lo then Inl Schema_larger_integer else Inr n)"

definition read_integer :: "int \<Rightarrow> int \<Rightarrow> u8 \<Rightarrow> u8 list \<Rightarrow> (int \<times> u8 list) wire" where
  "read_integer lo hi tag source =
     (case map_of signed_types tag of
        Some k \<Rightarrow> wbind (read_endian k source) (\<lambda>(n, source). wbind (numeric_cast lo hi (signed_value k n)) (\<lambda>n. Inr (n, source)))
      | None \<Rightarrow>
          (case map_of unsigned_types tag of
             Some k \<Rightarrow> wbind (read_endian k source) (\<lambda>(n, source). wbind (numeric_cast lo hi n) (\<lambda>n. Inr (n, source)))
           | None \<Rightarrow> Inl Schema_integer))"

definition read_raw :: "nat \<Rightarrow> u8 list \<Rightarrow> (u8 list \<times> u8 list) wire" where
  "read_raw n source = (if length source < n then Inl Msgpack_not_enough_bytes else Inr (take n source, drop n source))"

definition read_raw_sized :: "nat \<Rightarrow> u8 list \<Rightarrow> (u8 list \<times> u8 list) wire" where
  "read_raw_sized k source = wbind (read_endian k source) (\<lambda>(n, source). read_raw (nat n) source)"

definition read_string :: "u8 \<Rightarrow> u8 list \<Rightarrow> (u8 list \<times> u8 list) wire" where
  "read_string tag source =
     (if ftag_matches ftag_string tag then read_raw (ftag_extract ftag_string tag) source
      else case map_of string_types tag of Some k \<Rightarrow> read_raw_sized k source | None \<Rightarrow> Inl Schema_string)"

definition read_binary :: "u8 \<Rightarrow> u8 list \<Rightarrow> (u8 list \<times> u8 list) wire" where
  "read_binary tag source = (case map_of binary_types tag of Some k \<Rightarrow> read_raw_sized k source | None \<Rightarrow> Inl Schema_string)"

record reader =
  rd_remaining :: "u8 list"
  rd_tags :: nat
  rd_depth :: nat

definition new_reader :: "u8 list \<Rightarrow> reader" where
  "new_reader source = \<lparr>rd_remaining = source, rd_tags = 1, rd_depth = 0\<rparr>"

definition max_read_depth :: nat where "max_read_depth = 100"

definition increment_depth :: "reader \<Rightarrow> reader wire" where
  "increment_depth r = (if Suc (rd_depth r) = max_read_depth then Inl Schema_maximum_depth else Inr (r\<lparr>rd_depth := Suc (rd_depth r)\<rparr>))"

definition decrement_depth :: "reader \<Rightarrow> reader wire" where
  "decrement_depth r = (if rd_depth r = 0 then Inl Wire_logic_error else Inr (r\<lparr>rd_depth := rd_depth r - 1\<rparr>))"

definition update_tags_remaining :: "reader \<Rightarrow> reader wire" where
  "update_tags_remaining r = (if rd_tags r \<noteq> 0 then Inr (r\<lparr>rd_tags := rd_tags r - 1\<rparr>) else Inl Msgpack_underflow_tree)"

definition peek_tag :: "reader \<Rightarrow> u8 wire" where
  "peek_tag r = (case rd_remaining r of [] \<Rightarrow> Inl Msgpack_not_enough_bytes | b # _ \<Rightarrow> Inr b)"

definition get_tag :: "reader \<Rightarrow> (u8 \<times> reader) wire" where
  "get_tag r = wbind (peek_tag r) (\<lambda>tag. Inr (tag, r\<lparr>rd_remaining := drop 1 (rd_remaining r)\<rparr>))"

text \<open>A function on the remaining bytes, on the reader.\<close>

definition on_bytes :: "(u8 list \<Rightarrow> ('a \<times> u8 list) wire) \<Rightarrow> reader \<Rightarrow> ('a \<times> reader) wire" where
  "on_bytes f r = wbind (f (rd_remaining r)) (\<lambda>(x, rest). Inr (x, r\<lparr>rd_remaining := rest\<rparr>))"

definition read_count :: "fixed_tag \<Rightarrow> (u8 \<times> nat) list \<Rightarrow> wire_error \<Rightarrow> reader \<Rightarrow> (nat \<times> reader) wire" where
  "read_count f types expected r =
     wbind (get_tag r) (\<lambda>(tag, r).
       if ftag_matches f tag then Inr (ftag_extract f tag, r)
       else case map_of types tag of
         None \<Rightarrow> Inl expected
       | Some k \<Rightarrow> wbind (on_bytes (read_endian k) r) (\<lambda>(n, r). Inr (nat n, r)))"

definition check_complete :: "reader \<Rightarrow> unit wire" where
  "check_complete r = (if rd_tags r \<noteq> 0 then Inl Msgpack_incomplete else Inr ())"

definition read_boolean :: "reader \<Rightarrow> (bool \<times> reader) wire" where
  "read_boolean r =
     wbind (update_tags_remaining r) (\<lambda>r. wbind (get_tag r) (\<lambda>(tag, r).
       if tag = tag_true then Inr (True, r) else if tag = tag_false then Inr (False, r) else Inl Schema_boolean))"

text \<open>\<^verbatim>\<open>integer()\<close> with \<^verbatim>\<open>do_integer\<close>, and \<^verbatim>\<open>unsigned_integer()\<close>.\<close>

definition reader_integer :: "reader \<Rightarrow> (int \<times> reader) wire" where
  "reader_integer r =
     wbind (update_tags_remaining r) (\<lambda>r. wbind (get_tag r) (\<lambda>(tag, r).
       if uint tag \<le> unsigned_max then Inr (uint tag, r)
       else if ftag_matches ftag_signed tag then Inr (sint tag, r)
       else on_bytes (read_integer (- (2 ^ 63)) (2 ^ 63 - 1) tag) r))"

definition reader_unsigned_integer :: "reader \<Rightarrow> (int \<times> reader) wire" where
  "reader_unsigned_integer r =
     wbind (update_tags_remaining r) (\<lambda>r. wbind (get_tag r) (\<lambda>(tag, r).
       if uint tag \<le> unsigned_max then Inr (uint tag, r)
       else on_bytes (read_integer 0 (2 ^ 64 - 1) tag) r))"

text \<open>The bits of a floating point number, with its width.\<close>

definition reader_real :: "reader \<Rightarrow> ((nat \<times> int) \<times> reader) wire" where
  "reader_real r =
     wbind (update_tags_remaining r) (\<lambda>r. wbind (get_tag r) (\<lambda>(tag, r).
       if tag = tag_float32 then wbind (on_bytes (read_endian 4) r) (\<lambda>(n, r). Inr ((4, n), r))
       else if tag = tag_float64 then wbind (on_bytes (read_endian 8) r) (\<lambda>(n, r). Inr ((8, n), r))
       else Inl Schema_number))"

definition reader_string :: "reader \<Rightarrow> (u8 list \<times> reader) wire" where
  "reader_string r = wbind (update_tags_remaining r) (\<lambda>r. wbind (get_tag r) (\<lambda>(tag, r). on_bytes (read_string tag) r))"

definition reader_binary :: "reader \<Rightarrow> (u8 list \<times> reader) wire" where
  "reader_binary r = wbind (update_tags_remaining r) (\<lambda>r. wbind (get_tag r) (\<lambda>(tag, r). on_bytes (read_binary tag) r))"

definition reader_fixed_binary :: "nat \<Rightarrow> reader \<Rightarrow> (u8 list \<times> reader) wire" where
  "reader_fixed_binary n r = wbind (reader_binary r) (\<lambda>(bs, r). if n \<noteq> length bs then Inl Schema_fixed_binary else Inr (bs, r))"

definition start_array :: "nat \<Rightarrow> reader \<Rightarrow> (nat \<times> reader) wire" where
  "start_array min_element_size r =
     wbind (read_count ftag_array array_types Schema_array r) (\<lambda>(upcoming, r).
       if size_limit - int (rd_tags r) < int upcoming then Inl Msgpack_max_tree_size
       else if length (rd_remaining r) div max min_element_size 1 < upcoming then Inl Schema_array
       else wbind (increment_depth (r\<lparr>rd_tags := rd_tags r + upcoming\<rparr>)) (\<lambda>r. Inr (upcoming, r)))"

definition is_array_end :: "nat \<Rightarrow> reader \<Rightarrow> (bool \<times> reader) wire" where
  "is_array_end n r = (if n \<noteq> 0 then Inr (False, r) else wbind (update_tags_remaining r) (\<lambda>r. Inr (True, r)))"

definition start_object :: "reader \<Rightarrow> (nat \<times> reader) wire" where
  "start_object r =
     wbind (read_count ftag_object object_types Schema_object r) (\<lambda>(upcoming, r).
       if size_limit div 2 < int upcoming then Inl Msgpack_max_tree_size
       else if size_limit - int (rd_tags r) < int upcoming * 2 then Inl Msgpack_max_tree_size
       else wbind (increment_depth (r\<lparr>rd_tags := rd_tags r + upcoming * 2\<rparr>)) (\<lambda>r. Inr (upcoming, r)))"

section \<open>Skipping a value\<close>

text \<open>The cases of the \<^verbatim>\<open>switch\<close>: a number of bytes to remove, or what is called.\<close>

datatype skip_case = Skip_bytes nat | Skip_binary | Skip_extension nat | Skip_string | Skip_array | Skip_object | Skip_default

definition skip_kind :: "u8 \<Rightarrow> skip_case" where
  "skip_kind tag =
     (if tag \<in> {0xc0, 0xc1, tag_false, tag_true} then Skip_bytes 1
      else if tag \<in> {0xc4, 0xc5, 0xc6} then Skip_binary
      else if tag = 0xc7 then Skip_extension 1
      else if tag = 0xc8 then Skip_extension 2
      else if tag = 0xc9 then Skip_extension 4
      else if tag \<in> {0xd0, 0xcc} then Skip_bytes 2
      else if tag \<in> {0xd1, 0xcd, 0xd4} then Skip_bytes 3
      else if tag \<in> {0xd2, 0xce, tag_float32} then Skip_bytes 5
      else if tag \<in> {0xd3, 0xcf, tag_float64} then Skip_bytes 9
      else if tag = 0xd5 then Skip_bytes 4
      else if tag = 0xd6 then Skip_bytes 6
      else if tag = 0xd7 then Skip_bytes 10
      else if tag = 0xd8 then Skip_bytes 18
      else if ftag_matches ftag_string tag \<or> tag \<in> {0xd9, 0xda, 0xdb} then Skip_string
      else if ftag_matches ftag_array tag \<or> tag \<in> {0xdc, 0xdd} then Skip_array
      else if ftag_matches ftag_object tag \<or> tag \<in> {0xde, 0xdf} then Skip_object
      else Skip_default)"

definition skip_one :: "reader \<Rightarrow> reader wire" where
  "skip_one r =
     wbind (peek_tag r) (\<lambda>tag.
       let rest = drop 1 (rd_remaining r) in
       case skip_kind tag of
         Skip_bytes n \<Rightarrow> Inr (r\<lparr>rd_remaining := drop n (rd_remaining r)\<rparr>)
       | Skip_binary \<Rightarrow> wbind (read_binary tag rest) (\<lambda>(_, rest). Inr (r\<lparr>rd_remaining := rest\<rparr>))
       | Skip_extension k \<Rightarrow> wbind (read_raw_sized k rest) (\<lambda>(_, rest). Inr (r\<lparr>rd_remaining := drop 1 rest\<rparr>))
       | Skip_string \<Rightarrow> wbind (read_string tag rest) (\<lambda>(_, rest). Inr (r\<lparr>rd_remaining := rest\<rparr>))
       | Skip_array \<Rightarrow> wbind (start_array 0 r) (\<lambda>(_, r). Inr r)
       | Skip_object \<Rightarrow> wbind (start_object r) (\<lambda>(_, r). Inr r)
       | Skip_default \<Rightarrow>
           if \<not> ftag_matches ftag_unsigned tag \<and> \<not> ftag_matches ftag_signed tag then Inl Msgpack_invalid
           else Inr (r\<lparr>rd_remaining := rest\<rparr>))"

lemma read_raw_length: "read_raw n source = Inr (bs, rest) \<Longrightarrow> length rest + n = length source"
  by (auto simp: read_raw_def split: if_splits)

lemma read_endian_length: "read_endian k source = Inr (n, rest) \<Longrightarrow> length rest + k = length source"
  by (auto simp: read_endian_def split: if_splits)

lemma read_raw_sized_length: "read_raw_sized k source = Inr (bs, rest) \<Longrightarrow> length rest \<le> length source"
  by (auto simp: read_raw_sized_def wbind_eq_Inr dest!: read_raw_length read_endian_length)

lemma read_string_length: "read_string tag source = Inr (bs, rest) \<Longrightarrow> length rest \<le> length source"
  by (auto simp: read_string_def split: if_splits option.splits dest!: read_raw_length read_raw_sized_length)

lemma read_binary_length: "read_binary tag source = Inr (bs, rest) \<Longrightarrow> length rest \<le> length source"
  by (auto simp: read_binary_def split: option.splits dest!: read_raw_sized_length)

lemma read_count_length: "read_count f types e r = Inr (n, r') \<Longrightarrow> length (rd_remaining r') < length (rd_remaining r) \<and> rd_tags r' = rd_tags r \<and> rd_depth r' = rd_depth r"
  by (auto simp: read_count_def get_tag_def peek_tag_def on_bytes_def wbind_eq_Inr split: list.splits if_splits option.splits dest!: read_endian_length)

lemma start_array_length:
  "start_array m r = Inr (n, r') \<Longrightarrow> length (rd_remaining r') < length (rd_remaining r) \<and> rd_tags r' = rd_tags r + n"
  by (auto simp: start_array_def increment_depth_def wbind_eq_Inr split: if_splits dest!: read_count_length)

lemma start_object_length:
  "start_object r = Inr (n, r') \<Longrightarrow> length (rd_remaining r') < length (rd_remaining r) \<and> rd_tags r' = rd_tags r + n * 2"
  by (auto simp: start_object_def increment_depth_def wbind_eq_Inr split: if_splits dest!: read_count_length)

lemma skip_kind_pos: "skip_kind tag = Skip_bytes n \<Longrightarrow> 0 < n"
  by (auto simp: skip_kind_def split: if_splits)

lemma skip_one_shorter: "skip_one r = Inr r' \<Longrightarrow> length (rd_remaining r') < length (rd_remaining r)"
proof -
  assume r': "skip_one r = Inr r'"
  then obtain tag bs where bs: "rd_remaining r = tag # bs" by (auto simp: skip_one_def peek_tag_def split: list.splits)
  then show ?thesis using r'
    by (auto simp: skip_one_def peek_tag_def Let_def wbind_eq_Inr split: skip_case.splits if_splits
        dest!: skip_kind_pos read_binary_length read_string_length read_raw_sized_length start_array_length start_object_length)
qed

text \<open>The loop ends because every round removes a byte.\<close>

function skip_loop :: "nat \<Rightarrow> reader \<Rightarrow> reader wire" where
  "skip_loop initial r =
     (case skip_one r of
        Inl e \<Rightarrow> Inl e
      | Inr r1 \<Rightarrow>
          (case update_tags_remaining r1 of
             Inl e \<Rightarrow> Inl e
           | Inr r2 \<Rightarrow> if initial \<le> rd_tags r2 then skip_loop initial r2 else Inr r2))"
  by pat_completeness auto
termination
  by (relation "measure (\<lambda>(initial, r). length (rd_remaining r))")
    (auto simp: update_tags_remaining_def dest!: skip_one_shorter split: if_splits)

declare skip_loop.simps [simp del]

definition skip_value :: "reader \<Rightarrow> reader wire" where
  "skip_value r = (if size_limit = int (rd_tags r) then Inl Msgpack_max_tree_size else skip_loop (rd_tags r) r)"

section \<open>Keys\<close>

type_synonym key_map = "(u8 list \<times> int) list"

fun index_of :: "('a \<Rightarrow> bool) \<Rightarrow> 'a list \<Rightarrow> nat" where
  "index_of P [] = 0"
| "index_of P (x # xs) = (if P x then 0 else Suc (index_of P xs))"

definition find_key :: "key_map \<Rightarrow> u8 \<Rightarrow> u8 list \<Rightarrow> (nat \<times> u8 list) wire" where
  "find_key keys tag source =
     (let single = ftag_matches ftag_unsigned tag in
      if single \<or> map_of unsigned_types tag \<noteq> None
      then wbind (if single then Inr (uint tag, source) else read_integer 0 (2 ^ 32 - 1) tag source) (\<lambda>(k, source).
             Inr (index_of (\<lambda>(_, i). i = k) keys, source))
      else if ftag_matches ftag_string tag \<or> map_of string_types tag \<noteq> None
      then wbind (read_string tag source) (\<lambda>(name, source). Inr (index_of (\<lambda>(n, _). n = name) keys, source))
      else Inl Schema_invalid_key)"

text \<open>\<^verbatim>\<open>key\<close>: whether there is a value to read, the fields left, and the index of the key.\<close>

fun reader_key :: "key_map \<Rightarrow> nat \<Rightarrow> reader \<Rightarrow> ((bool \<times> nat \<times> nat) \<times> reader) wire" where
  "reader_key keys 0 r = wbind (update_tags_remaining r) (\<lambda>r. Inr ((False, 0, length keys), r))"
| "reader_key keys (Suc n) r =
     wbind (update_tags_remaining r) (\<lambda>r. wbind (get_tag r) (\<lambda>(tag, r). wbind (on_bytes (find_key keys tag) r) (\<lambda>(i, r).
       if i < length keys then Inr ((True, n, i), r)
       else wbind (skip_value r) (\<lambda>r. reader_key keys n r))))"

section \<open>Writing\<close>

record writer =
  wr_bytes :: "u8 list"
  wr_expected :: u64
  wr_integer_keys :: bool

definition new_writer :: "bool \<Rightarrow> writer" where
  "new_writer integer_keys = \<lparr>wr_bytes = [], wr_expected = 1, wr_integer_keys = integer_keys\<rparr>"

definition put :: "u8 list \<Rightarrow> writer \<Rightarrow> writer" where
  "put bs w = w\<lparr>wr_bytes := wr_bytes w @ bs\<rparr>"

definition written :: "writer \<Rightarrow> writer" where
  "written w = w\<lparr>wr_expected := wr_expected w - 1\<rparr>"

text \<open>The first type that can hold the number.\<close>

definition write_unsigned :: "(u8 \<times> nat) list \<Rightarrow> int \<Rightarrow> u8 list wire" where
  "write_unsigned types v =
     (case find (\<lambda>(tag, k). v \<le> 256 ^ k - 1) types of None \<Rightarrow> Inl Msgpack_integer_encoding | Some (tag, k) \<Rightarrow> Inr (tag # be_bytes k v))"

definition write_signed :: "(u8 \<times> nat) list \<Rightarrow> int \<Rightarrow> u8 list wire" where
  "write_signed types v =
     (case find (\<lambda>(tag, k). - (2 ^ (8 * k - 1)) \<le> v) types of None \<Rightarrow> Inl Msgpack_integer_encoding | Some (tag, k) \<Rightarrow> Inr (tag # be_bytes k v))"

definition write_count :: "fixed_tag \<Rightarrow> int \<Rightarrow> (u8 \<times> nat) list \<Rightarrow> int \<Rightarrow> u8 list wire" where
  "write_count f fixed_max types items =
     (if items \<le> fixed_max then Inr [fst f OR word_of_int items] else write_unsigned types items)"

definition integer_bytes :: "int \<Rightarrow> u8 list wire" where
  "integer_bytes v =
     (if 0 \<le> v then if v \<le> unsigned_max then Inr [word_of_int v] else write_unsigned unsigned_types v
      else if -32 \<le> v then Inr [word_of_int v] else write_signed signed_types v)"

definition write_boolean :: "bool \<Rightarrow> writer \<Rightarrow> writer wire" where
  "write_boolean b w = Inr (written (put [if b then tag_true else tag_false] w))"

definition write_integer :: "int \<Rightarrow> writer \<Rightarrow> writer wire" where
  "write_integer v w = wbind (integer_bytes v) (\<lambda>bs. Inr (written (put bs w)))"

definition write_real :: "int \<Rightarrow> writer \<Rightarrow> writer wire" where
  "write_real bits w = Inr (written (put (tag_float64 # be_bytes 8 bits) w))"

definition write_string :: "u8 list \<Rightarrow> writer \<Rightarrow> writer wire" where
  "write_string s w = wbind (write_count ftag_string fixed_string_max string_types (int (length s))) (\<lambda>bs. Inr (written (put s (put bs w))))"

definition write_binary :: "u8 list \<Rightarrow> writer \<Rightarrow> writer wire" where
  "write_binary s w = wbind (write_unsigned binary_types (int (length s))) (\<lambda>bs. Inr (written (put s (put bs w))))"

definition write_start_array :: "nat \<Rightarrow> writer \<Rightarrow> writer wire" where
  "write_start_array items w =
     wbind (write_count ftag_array fixed_array_max array_types (int items)) (\<lambda>bs. Inr ((put bs w)\<lparr>wr_expected := wr_expected w + of_nat items\<rparr>))"

definition write_start_object :: "nat \<Rightarrow> writer \<Rightarrow> writer wire" where
  "write_start_object items w =
     wbind (write_count ftag_object fixed_object_max object_types (int items)) (\<lambda>bs. Inr ((put bs w)\<lparr>wr_expected := wr_expected w + of_nat items * 2\<rparr>))"

definition write_key :: "int \<Rightarrow> u8 list \<Rightarrow> writer \<Rightarrow> writer wire" where
  "write_key i name w = (if wr_integer_keys w then write_integer i w else write_string name w)"

definition write_end_array :: "writer \<Rightarrow> writer wire" where
  "write_end_array w = Inr (written w)"

definition write_end_object :: "writer \<Rightarrow> writer wire" where
  "write_end_object w = Inr (written w)"

definition take_msgpack :: "writer \<Rightarrow> u8 list wire" where
  "take_msgpack w = (if wr_expected w \<noteq> 0 then Inl Wire_logic_error else Inr (wr_bytes w))"

end
