(* ===== verification/Msgpack_Result.thy ===== *)
theory Msgpack_Result
  imports Msgpack
begin

text \<open>
  What the msgpack reader and writer promise: every number written is the number read, for signed and unsigned readers;
  byte strings come back as they were; and \<^verbatim>\<open>skip_value\<close>, used for the unknown fields of an
  object, removes exactly one value of any shape the writer writes.
\<close>

lemma upto_all: "list_all P [a..b] \<Longrightarrow> a \<le> v \<Longrightarrow> v \<le> b \<Longrightarrow> P v"
  by (simp add: list_all_iff)

section \<open>Big endian\<close>

lemma length_be_bytes [simp]: "length (be_bytes k v) = k"
  by (induction k arbitrary: v) auto

lemma be_value_append: "be_value (xs @ [b]) = be_value xs * 256 + uint b"
  by (simp add: be_value_def)

lemma be_value_bytes: "be_value (be_bytes k v) = v mod 256 ^ k"
proof (induction k arbitrary: v)
  case 0
  then show ?case by (simp add: be_value_def)
next
  case (Suc k)
  have "v mod (256 * 256 ^ k) = 256 * (v div 256 mod 256 ^ k) + v mod 256"
    by (rule zmod_zmult2_eq) simp
  then show ?case
    by (simp add: be_value_append Suc uint_word_of_int take_bit_eq_mod mult.commute)
qed

lemma read_endian_bytes: "read_endian k (be_bytes k v @ rest) = Inr (v mod 256 ^ k, rest)"
  by (simp add: read_endian_def be_value_bytes)

lemma signed_value_bytes:
  assumes "0 < k" "- (2 ^ (8 * k - 1)) \<le> v" "v < 0"
  shows "signed_value k (v mod 256 ^ k) = v"
proof -
  have e: "(256::int) ^ k = 2 ^ (8 * k)" by (simp add: power_mult)
  have h: "(2::int) ^ (8 * k) = 2 * 2 ^ (8 * k - 1)" using \<open>0 < k\<close>
    by (metis One_nat_def Suc_pred mult_pos_pos power_Suc zero_less_numeral)
  have p: "(0::int) < 2 ^ (8 * k - 1)" by simp
  have "v mod 2 ^ (8 * k) = v + 2 ^ (8 * k)"
    using assms h p mod_pos_pos_trivial [of "v + 2 ^ (8 * k)" "2 ^ (8 * k)"] by simp
  then show ?thesis
    using assms h p by (simp add: signed_value_def e)
qed


section \<open>Integers\<close>

lemma uint_tag: "0 \<le> v \<Longrightarrow> v < 256 \<Longrightarrow> uint (word_of_int v :: u8) = v"
  by (simp add: uint_word_of_int)

lemma small_negative:
  assumes "-32 \<le> v" "v < 0"
  shows "sint (word_of_int v :: u8) = v" "uint (word_of_int v :: u8) = v + 256"
proof -
  have "list_all (\<lambda>v. sint (word_of_int v :: u8) = v \<and> uint (word_of_int v :: u8) = v + 256) [-32..-1]" by code_simp
  then show "sint (word_of_int v :: u8) = v" "uint (word_of_int v :: u8) = v + 256" using assms by (simp_all add: list_all_iff)
qed

lemma ftag_signed_negative: "-32 \<le> v \<Longrightarrow> v < 0 \<Longrightarrow> ftag_matches ftag_signed (word_of_int v)"
proof -
  assume v: "-32 \<le> v" "v < 0"
  have "list_all (\<lambda>v. ftag_matches ftag_signed (word_of_int v)) [-32..-1]" by code_simp
  then show ?thesis using v by (simp add: list_all_iff)
qed


lemma read_integer_unsigned:
  assumes "(tag, k) \<in> set unsigned_types" "0 \<le> v" "v \<le> 256 ^ k - 1" "lo \<le> v" "v \<le> hi"
  shows "read_integer lo hi tag (be_bytes k v @ rest) = Inr (v, rest)"
proof -
  have "map_of signed_types tag = None" "map_of unsigned_types tag = Some k"
    using assms(1) by (auto simp: unsigned_types_def signed_types_def)
  moreover have "v mod 256 ^ k = v" using assms(2,3) by simp
  ultimately show ?thesis using assms(4,5) by (simp add: read_integer_def read_endian_bytes numeric_cast_def)
qed

lemma read_integer_signed:
  assumes "(tag, k) \<in> set signed_types" "- (2 ^ (8 * k - 1)) \<le> v" "v < 0" "lo \<le> v" "v \<le> hi"
  shows "read_integer lo hi tag (be_bytes k v @ rest) = Inr (v, rest)"
proof -
  have k: "map_of signed_types tag = Some k" "0 < k"
    using assms(1) by (auto simp: signed_types_def)
  then show ?thesis using assms(2-)
    by (simp add: read_integer_def read_endian_bytes numeric_cast_def signed_value_bytes)
qed

text \<open>The tag behind a written number: a wide one is no short one.\<close>

lemma find_SomeD: "find P xs = Some x \<Longrightarrow> x \<in> set xs \<and> P x"
  by (induction xs) (auto split: if_splits)

lemma find_unsigned:
  assumes "write_unsigned types v = Inr bs"
  obtains tag k where "(tag, k) \<in> set types" "v \<le> 256 ^ k - 1" "bs = tag # be_bytes k v"
  using assms by (auto simp: write_unsigned_def split: option.splits dest!: find_SomeD)

lemma find_signed:
  assumes "write_signed types v = Inr bs"
  obtains tag k where "(tag, k) \<in> set types" "- (2 ^ (8 * k - 1)) \<le> v" "bs = tag # be_bytes k v"
  using assms by (auto simp: write_signed_def split: option.splits dest!: find_SomeD)

lemma wide_tags:
  "list_all (\<lambda>(tag, k). unsigned_max < uint tag \<and> \<not> ftag_matches ftag_signed tag) (unsigned_types @ signed_types)"
  by code_simp

lemma wide_tag:
  assumes "(tag, k) \<in> set unsigned_types \<union> set signed_types"
  shows "unsigned_max < uint tag" "\<not> ftag_matches ftag_signed tag"
  using wide_tags assms by (auto simp: list_all_iff)

lemma integer_bytes_total: "- (2 ^ 63) \<le> v \<Longrightarrow> v < 2 ^ 64 \<Longrightarrow> \<exists>bs. integer_bytes v = Inr bs"
  by (auto simp: integer_bytes_def write_unsigned_def write_signed_def unsigned_types_def signed_types_def)

lemma get_tag_cons: "get_tag (r\<lparr>rd_remaining := tag # bs\<rparr>) = Inr (tag, r\<lparr>rd_remaining := bs\<rparr>)"
  by (simp add: get_tag_def peek_tag_def)

lemma update_tags_pos: "0 < rd_tags r \<Longrightarrow> update_tags_remaining r = Inr (r\<lparr>rd_tags := rd_tags r - 1\<rparr>)"
  by (simp add: update_tags_remaining_def)

text \<open>The reader after a value.\<close>

definition after_value :: "u8 list \<Rightarrow> reader \<Rightarrow> reader" where
  "after_value rest r = r\<lparr>rd_remaining := rest, rd_tags := rd_tags r - 1\<rparr>"

lemma integer_read_signed:
  assumes "integer_bytes v = Inr bs" "rd_remaining r = bs @ rest" "0 < rd_tags r" "- (2 ^ 63) \<le> v" "v < 2 ^ 63"
  shows "reader_integer r = Inr (v, after_value rest r)"
proof -
  let ?r = "r\<lparr>rd_tags := rd_tags r - 1\<rparr>"
  have start: "reader_integer r =
      wbind (get_tag ?r) (\<lambda>(tag, r). if uint tag \<le> unsigned_max then Inr (uint tag, r)
        else if ftag_matches ftag_signed tag then Inr (sint tag, r) else on_bytes (read_integer (- (2 ^ 63)) (2 ^ 63 - 1) tag) r)"
    using assms(3) by (simp add: reader_integer_def update_tags_pos)
  consider "0 \<le> v" "v \<le> unsigned_max" | "unsigned_max < v" | "-32 \<le> v" "v < 0" | "v < -32" by linarith
  then show ?thesis
  proof cases
    case 1
    then show ?thesis using assms(1,2) start
      by (auto simp: integer_bytes_def get_tag_def peek_tag_def uint_tag unsigned_max_def after_value_def)
  next
    case 2
    then have "write_unsigned unsigned_types v = Inr bs" using assms(1) by (auto simp: integer_bytes_def unsigned_max_def)
    then obtain tag k where k: "(tag, k) \<in> set unsigned_types" "v \<le> 256 ^ k - 1" "bs = tag # be_bytes k v" by (rule find_unsigned)
    have w: "unsigned_max < uint tag" "\<not> ftag_matches ftag_signed tag" using wide_tag k(1) by auto
    have "read_integer (- (2 ^ 63)) (2 ^ 63 - 1) tag (be_bytes k v @ rest) = Inr (v, rest)"
      by (rule read_integer_unsigned [OF k(1)]) (use k(2) 2 assms(5) in \<open>auto simp: unsigned_max_def\<close>)
    then show ?thesis using start w assms(2) k(3)
      by (simp add: get_tag_def peek_tag_def on_bytes_def after_value_def)
  next
    case 3
    then show ?thesis using assms(1,2) start small_negative [OF 3] ftag_signed_negative [OF 3]
      by (auto simp: integer_bytes_def get_tag_def peek_tag_def unsigned_max_def after_value_def)
  next
    case 4
    then have "write_signed signed_types v = Inr bs" using assms(1) by (auto simp: integer_bytes_def)
    then obtain tag k where k: "(tag, k) \<in> set signed_types" "- (2 ^ (8 * k - 1)) \<le> v" "bs = tag # be_bytes k v" by (rule find_signed)
    have w: "unsigned_max < uint tag" "\<not> ftag_matches ftag_signed tag" using wide_tag k(1) by auto
    have "read_integer (- (2 ^ 63)) (2 ^ 63 - 1) tag (be_bytes k v @ rest) = Inr (v, rest)"
      by (rule read_integer_signed [OF k(1,2)]) (use 4 assms(4) in auto)
    then show ?thesis using start w assms(2) k(3)
      by (simp add: get_tag_def peek_tag_def on_bytes_def after_value_def)
  qed
qed

lemma integer_read_unsigned:
  assumes "integer_bytes v = Inr bs" "rd_remaining r = bs @ rest" "0 < rd_tags r" "0 \<le> v" "v < 2 ^ 64"
  shows "reader_unsigned_integer r = Inr (v, after_value rest r)"
proof (cases "v \<le> unsigned_max")
  case True
  then show ?thesis using assms
    by (auto simp: reader_unsigned_integer_def update_tags_pos integer_bytes_def get_tag_def peek_tag_def uint_tag unsigned_max_def after_value_def)
next
  case False
  then have "write_unsigned unsigned_types v = Inr bs" using assms(1,4) by (auto simp: integer_bytes_def unsigned_max_def)
  then obtain tag k where k: "(tag, k) \<in> set unsigned_types" "v \<le> 256 ^ k - 1" "bs = tag # be_bytes k v" by (rule find_unsigned)
  have w: "unsigned_max < uint tag" using wide_tag k(1) by auto
  have "read_integer 0 (2 ^ 64 - 1) tag (be_bytes k v @ rest) = Inr (v, rest)"
    by (rule read_integer_unsigned [OF k(1)]) (use k(2) assms(4,5) in auto)
  then show ?thesis using w assms(2,3) k(3)
    by (simp add: reader_unsigned_integer_def update_tags_pos get_tag_def peek_tag_def on_bytes_def after_value_def)
qed


text \<open>The numbers the type of the reader does not have.\<close>

lemma integer_read_too_large:
  assumes "integer_bytes v = Inr bs" "rd_remaining r = bs @ rest" "0 < rd_tags r" "2 ^ 63 \<le> v"
  shows "reader_integer r = Inl Schema_smaller_integer"
proof -
  have "write_unsigned unsigned_types v = Inr bs" using assms(1,4) by (simp add: integer_bytes_def unsigned_max_def)
  then obtain tag k where k: "(tag, k) \<in> set unsigned_types" "v \<le> 256 ^ k - 1" "bs = tag # be_bytes k v" by (rule find_unsigned)
  have w: "unsigned_max < uint tag" "\<not> ftag_matches ftag_signed tag" using wide_tag k(1) by auto
  have t: "map_of signed_types tag = None" "map_of unsigned_types tag = Some k"
    using k(1) by (auto simp: unsigned_types_def signed_types_def)
  have "v mod 256 ^ k = v" using assms(4) k(2) by simp
  then show ?thesis using w t assms(2-4) k(3)
    by (simp add: reader_integer_def update_tags_pos get_tag_def peek_tag_def on_bytes_def read_integer_def read_endian_bytes numeric_cast_def)
qed

lemma signed_tags_unknown:
  "list_all (\<lambda>v. map_of signed_types (word_of_int v) = None \<and> map_of unsigned_types (word_of_int v) = None) [-32..-1]"
  by code_simp

lemma integer_read_negative:
  assumes "integer_bytes v = Inr bs" "rd_remaining r = bs @ rest" "0 < rd_tags r" "v < 0"
  shows "reader_unsigned_integer r = Inl (if -32 \<le> v then Schema_integer else Schema_larger_integer)"
proof (cases "-32 \<le> v")
  case True
  then have "bs = [word_of_int v]" using assms(1,4) by (auto simp: integer_bytes_def)
  moreover have "map_of signed_types (word_of_int v) = None" "map_of unsigned_types (word_of_int v) = None"
    using upto_all [OF signed_tags_unknown True] assms(4) by simp_all
  moreover have "unsigned_max < uint (word_of_int v :: u8)" using small_negative(2) [OF True assms(4)] True by (simp add: unsigned_max_def)
  ultimately show ?thesis using assms(2,3) True
    by (simp add: reader_unsigned_integer_def update_tags_pos get_tag_def peek_tag_def on_bytes_def read_integer_def)
next
  case False
  then have "write_signed signed_types v = Inr bs" using assms(1,4) by (auto simp: integer_bytes_def)
  then obtain tag k where k: "(tag, k) \<in> set signed_types" "- (2 ^ (8 * k - 1)) \<le> v" "bs = tag # be_bytes k v" by (rule find_signed)
  have w: "unsigned_max < uint tag" using wide_tag k(1) by auto
  have t: "map_of signed_types tag = Some k" "0 < k" using k(1) by (auto simp: signed_types_def)
  have "signed_value k (v mod 256 ^ k) = v" using signed_value_bytes t(2) k(2) assms(4) by simp
  then show ?thesis using w t assms(2-4) k(3) False
    by (simp add: reader_unsigned_integer_def update_tags_pos get_tag_def peek_tag_def on_bytes_def read_integer_def read_endian_bytes numeric_cast_def)
qed

section \<open>Byte strings\<close>

lemma fixed_string_tags:
  "list_all (\<lambda>n. ftag_matches ftag_string (fst ftag_string OR word_of_int n) \<and>
     ftag_extract ftag_string (fst ftag_string OR word_of_int n) = nat n) [0..31]"
  by code_simp

lemma string_types_wide: "list_all (\<lambda>(tag, k). \<not> ftag_matches ftag_string tag) string_types"
  by code_simp

lemma read_raw_sized_bytes:
  assumes "int (length s) \<le> 256 ^ k - 1"
  shows "read_raw_sized k (be_bytes k (int (length s)) @ s @ rest) = Inr (s, rest)"
proof -
  have "int (length s) mod 256 ^ k = int (length s)" using assms by simp
  then show ?thesis by (simp add: read_raw_sized_def read_endian_bytes read_raw_def)
qed

definition string_header :: "nat \<Rightarrow> u8 list wire" where
  "string_header n = write_count ftag_string fixed_string_max string_types (int n)"

lemma string_header_total: "int n < 2 ^ 32 \<Longrightarrow> \<exists>bs. string_header n = Inr bs"
  by (auto simp: string_header_def write_count_def write_unsigned_def string_types_def)

lemma string_header_error: "2 ^ 32 \<le> int n \<Longrightarrow> string_header n = Inl Msgpack_integer_encoding"
  by (auto simp: string_header_def write_count_def write_unsigned_def string_types_def fixed_string_max_def)

lemma read_string_header:
  assumes "string_header (length s) = Inr bs"
  obtains tag hs where "bs = tag # hs" "read_string tag (hs @ s @ rest) = Inr (s, rest)"
proof (cases "int (length s) \<le> fixed_string_max")
  case True
  let ?tag = "fst ftag_string OR word_of_int (int (length s))"
  have "ftag_matches ftag_string ?tag" "ftag_extract ftag_string ?tag = nat (int (length s))"
    using upto_all [OF fixed_string_tags, of "int (length s)"] True by (simp_all add: fixed_string_max_def)
  moreover have "bs = [?tag]" using assms True by (simp add: string_header_def write_count_def)
  ultimately show ?thesis by (intro that [of ?tag "[]"]) (simp_all add: read_string_def read_raw_def)
next
  case False
  then have "write_unsigned string_types (int (length s)) = Inr bs" using assms by (simp add: string_header_def write_count_def)
  then obtain tag k where k: "(tag, k) \<in> set string_types" "int (length s) \<le> 256 ^ k - 1" "bs = tag # be_bytes k (int (length s))"
    by (rule find_unsigned)
  have "\<not> ftag_matches ftag_string tag" using string_types_wide k(1) by (auto simp: list_all_iff)
  moreover have "map_of string_types tag = Some k" using k(1) by (auto simp: string_types_def)
  ultimately show ?thesis using k(2,3) by (intro that [of tag "be_bytes k (int (length s))"]) (simp_all add: read_string_def read_raw_sized_bytes)
qed

lemma read_binary_header:
  assumes "write_unsigned binary_types (int (length s)) = Inr bs"
  obtains tag hs where "bs = tag # hs" "tag \<in> {0xc4, 0xc5, 0xc6}" "read_binary tag (hs @ s @ rest) = Inr (s, rest)"
proof -
  obtain tag k where k: "(tag, k) \<in> set binary_types" "int (length s) \<le> 256 ^ k - 1" "bs = tag # be_bytes k (int (length s))"
    using assms by (rule find_unsigned)
  have "map_of binary_types tag = Some k" using k(1) by (auto simp: binary_types_def)
  moreover have "tag \<in> {0xc4, 0xc5, 0xc6}" using k(1) by (auto simp: binary_types_def)
  ultimately show ?thesis using k(2,3) by (intro that [of tag "be_bytes k (int (length s))"]) (simp_all add: read_binary_def read_raw_sized_bytes)
qed


section \<open>Skipping\<close>

text \<open>One round of the loop from a state the loop is in, and the loop in terms of it.\<close>

definition skip_rest :: "nat \<Rightarrow> reader \<Rightarrow> reader wire" where
  "skip_rest initial r = (if initial \<le> rd_tags r then skip_loop initial r else Inr r)"

lemma skip_loop_step:
  assumes "skip_one r = Inr r1" "0 < rd_tags r1"
  shows "skip_loop initial r = skip_rest initial (r1\<lparr>rd_tags := rd_tags r1 - 1\<rparr>)"
  using assms by (subst skip_loop.simps) (simp add: update_tags_pos skip_rest_def)

text \<open>The bytes \<open>bs\<close> hold \<open>n\<close> values with \<open>c\<close> arrays and objects, and the loop passes over them.\<close>

definition skips :: "u8 list \<Rightarrow> nat \<Rightarrow> nat \<Rightarrow> bool" where
  "skips bs n c \<longleftrightarrow> n \<le> length bs \<and>
     (\<forall>initial r rest. rd_remaining r = bs @ rest \<longrightarrow> 0 < initial \<longrightarrow> initial + n \<le> rd_tags r + 1 \<longrightarrow>
        rd_depth r + c < max_read_depth \<longrightarrow> int (rd_tags r) + int (length bs) \<le> size_limit + int n \<longrightarrow>
        skip_rest initial r = skip_rest initial \<lparr>rd_remaining = rest, rd_tags = rd_tags r - n, rd_depth = rd_depth r + c\<rparr>)"

lemma skipsD:
  assumes "skips bs n c" "rd_remaining r = bs @ rest" "0 < initial" "initial + n \<le> rd_tags r + 1"
    "rd_depth r + c < max_read_depth" "int (rd_tags r) + int (length bs) \<le> size_limit + int n"
  shows "skip_rest initial r = skip_rest initial \<lparr>rd_remaining = rest, rd_tags = rd_tags r - n, rd_depth = rd_depth r + c\<rparr>"
  using assms by (simp add: skips_def)

lemma reader_eta [simp]: "\<lparr>rd_remaining = rd_remaining r, rd_tags = rd_tags r, rd_depth = rd_depth r\<rparr> = r"
  by (cases r) simp

lemma skips_nil: "skips [] 0 0"
  by (simp add: skips_def)

lemma skips_append:
  assumes a: "skips as n c" and b: "skips bs m d"
  shows "skips (as @ bs) (n + m) (c + d)"
  unfolding skips_def
proof (intro conjI allI impI)
  have nm: "n \<le> length as" "m \<le> length bs" using a b by (simp_all add: skips_def)
  then show "n + m \<le> length (as @ bs)" by simp
  fix initial and r :: reader and rest
  assume r: "rd_remaining r = (as @ bs) @ rest" "0 < initial" "initial + (n + m) \<le> rd_tags r + 1"
    "rd_depth r + (c + d) < max_read_depth" "int (rd_tags r) + int (length (as @ bs)) \<le> size_limit + int (n + m)"
  let ?r = "\<lparr>rd_remaining = bs @ rest, rd_tags = rd_tags r - n, rd_depth = rd_depth r + c\<rparr>"
  have "skip_rest initial r = skip_rest initial ?r"
    by (rule skipsD [OF a]) (use r nm in auto)
  also have "\<dots> = skip_rest initial \<lparr>rd_remaining = rest, rd_tags = rd_tags ?r - m, rd_depth = rd_depth ?r + d\<rparr>"
    by (rule skipsD [OF b]) (use r nm in auto)
  finally show "skip_rest initial r =
      skip_rest initial \<lparr>rd_remaining = rest, rd_tags = rd_tags r - (n + m), rd_depth = rd_depth r + (c + d)\<rparr>"
    using r(3) by (simp add: add.assoc)
qed

lemma skips_leaf:
  assumes "bs \<noteq> []" and one: "\<And>r rest. rd_remaining r = bs @ rest \<Longrightarrow> skip_one r = Inr (r\<lparr>rd_remaining := rest\<rparr>)"
  shows "skips bs 1 0"
  unfolding skips_def
proof (intro conjI allI impI)
  show "1 \<le> length bs" using assms(1) by (cases bs) auto
  fix initial and r :: reader and rest
  assume r: "rd_remaining r = bs @ rest" "0 < initial" "initial + 1 \<le> rd_tags r + 1"
  have "skip_loop initial r = skip_rest initial ((r\<lparr>rd_remaining := rest\<rparr>)\<lparr>rd_tags := rd_tags (r\<lparr>rd_remaining := rest\<rparr>) - 1\<rparr>)"
    by (rule skip_loop_step [OF one [OF r(1)]]) (use r in simp)
  then show "skip_rest initial r = skip_rest initial \<lparr>rd_remaining = rest, rd_tags = rd_tags r - 1, rd_depth = rd_depth r + 0\<rparr>"
    using r(3) by (cases r) (simp add: skip_rest_def)
qed

lemma skips_container:
  assumes "hs \<noteq> []" and vs: "skips bs n c"
    and one: "\<And>r rest. rd_remaining r = hs @ rest \<Longrightarrow> int (rd_tags r) + int n \<le> size_limit \<Longrightarrow> n \<le> length rest \<Longrightarrow>
      Suc (rd_depth r) < max_read_depth \<Longrightarrow>
      skip_one r = Inr \<lparr>rd_remaining = rest, rd_tags = rd_tags r + n, rd_depth = Suc (rd_depth r)\<rparr>"
  shows "skips (hs @ bs) 1 (Suc c)"
  unfolding skips_def
proof (intro conjI allI impI)
  show "1 \<le> length (hs @ bs)" using assms(1) by (cases hs) auto
  have n: "n \<le> length bs" using vs by (simp add: skips_def)
  fix initial and r :: reader and rest
  assume r: "rd_remaining r = (hs @ bs) @ rest" "0 < initial" "initial + 1 \<le> rd_tags r + 1"
    "rd_depth r + Suc c < max_read_depth" "int (rd_tags r) + int (length (hs @ bs)) \<le> size_limit + int 1"
  obtain h hs' where l: "hs = h # hs'" using assms(1) by (cases hs) auto
  let ?r = "\<lparr>rd_remaining = bs @ rest, rd_tags = rd_tags r + n - 1, rd_depth = Suc (rd_depth r)\<rparr>"
  have "skip_one r = Inr \<lparr>rd_remaining = bs @ rest, rd_tags = rd_tags r + n, rd_depth = Suc (rd_depth r)\<rparr>"
    by (rule one) (use r n l in auto)
  from skip_loop_step [OF this, of initial] have "skip_rest initial r = skip_rest initial ?r"
    using r(2,3) by (simp add: skip_rest_def)
  also have "\<dots> = skip_rest initial \<lparr>rd_remaining = rest, rd_tags = rd_tags ?r - n, rd_depth = rd_depth ?r + c\<rparr>"
    by (rule skipsD [OF vs]) (use r l n in auto)
  finally show "skip_rest initial r = skip_rest initial \<lparr>rd_remaining = rest, rd_tags = rd_tags r - 1, rd_depth = rd_depth r + Suc c\<rparr>"
    using r(2,3) by simp
qed


section \<open>The values the writer writes\<close>

lemma skip_one_cons: "rd_remaining r = tag # bs \<Longrightarrow> skip_one r =
   (case skip_kind tag of
      Skip_bytes n \<Rightarrow> Inr (r\<lparr>rd_remaining := drop n (tag # bs)\<rparr>)
    | Skip_binary \<Rightarrow> wbind (read_binary tag bs) (\<lambda>(_, rest). Inr (r\<lparr>rd_remaining := rest\<rparr>))
    | Skip_extension k \<Rightarrow> wbind (read_raw_sized k bs) (\<lambda>(_, rest). Inr (r\<lparr>rd_remaining := drop 1 rest\<rparr>))
    | Skip_string \<Rightarrow> wbind (read_string tag bs) (\<lambda>(_, rest). Inr (r\<lparr>rd_remaining := rest\<rparr>))
    | Skip_array \<Rightarrow> wbind (start_array 0 r) (\<lambda>(_, r). Inr r)
    | Skip_object \<Rightarrow> wbind (start_object r) (\<lambda>(_, r). Inr r)
    | Skip_default \<Rightarrow>
        if \<not> ftag_matches ftag_unsigned tag \<and> \<not> ftag_matches ftag_signed tag then Inl Msgpack_invalid
        else Inr (r\<lparr>rd_remaining := bs\<rparr>))"
  by (simp add: skip_one_def peek_tag_def Let_def split: skip_case.split)

lemma small_tags:
  "list_all (\<lambda>v. skip_kind (word_of_int v) = Skip_default \<and>
     (ftag_matches ftag_unsigned (word_of_int v) \<or> ftag_matches ftag_signed (word_of_int v))) [-32..127]"
  by code_simp

lemma wide_skips: "list_all (\<lambda>(tag, k). skip_kind tag = Skip_bytes (Suc k)) (unsigned_types @ signed_types)"
  by code_simp

lemma skips_wide:
  assumes "(tag, k) \<in> set unsigned_types \<union> set signed_types"
  shows "skips (tag # be_bytes k v) 1 0"
proof (rule skips_leaf)
  have "skip_kind tag = Skip_bytes (Suc k)" using wide_skips assms by (auto simp: list_all_iff)
  then show "skip_one r = Inr (r\<lparr>rd_remaining := rest\<rparr>)" if "rd_remaining r = (tag # be_bytes k v) @ rest" for r rest
    using that skip_one_cons [of r tag "be_bytes k v @ rest"] by simp
qed simp

lemma skips_integer:
  assumes "integer_bytes v = Inr bs"
  shows "skips bs 1 0"
proof (cases "-32 \<le> v \<and> v \<le> unsigned_max")
  case True
  have bs: "bs = [word_of_int v]" using assms True by (auto simp: integer_bytes_def split: if_splits)
  show ?thesis
  proof (rule skips_leaf)
    show "skip_one r = Inr (r\<lparr>rd_remaining := rest\<rparr>)" if "rd_remaining r = bs @ rest" for r rest
      using that bs upto_all [OF small_tags] True skip_one_cons [of r "word_of_int v" rest]
      by (simp add: unsigned_max_def)
  qed (simp add: bs)
next
  case False
  then have "write_unsigned unsigned_types v = Inr bs \<or> write_signed signed_types v = Inr bs"
    using assms by (auto simp: integer_bytes_def unsigned_max_def split: if_splits)
  then obtain tag k where "(tag, k) \<in> set unsigned_types \<union> set signed_types" "bs = tag # be_bytes k v"
    by (metis UnI1 UnI2 find_signed find_unsigned)
  then show ?thesis using skips_wide by simp
qed

lemma skips_boolean: "skips [if b then tag_true else tag_false] 1 0"
  by (rule skips_leaf) (auto simp: skip_one_cons skip_kind_def tag_true_def tag_false_def)

lemma skips_real: "skips (tag_float64 # be_bytes 8 v) 1 0"
proof (rule skips_leaf)
  have "skip_kind tag_float64 = Skip_bytes 9" by code_simp
  then show "skip_one r = Inr (r\<lparr>rd_remaining := rest\<rparr>)" if "rd_remaining r = (tag_float64 # be_bytes 8 v) @ rest" for r rest
    using that skip_one_cons [of r tag_float64 "be_bytes 8 v @ rest"] by simp
qed simp

lemma string_tags:
  "list_all (\<lambda>n. skip_kind (fst ftag_string OR word_of_int n) = Skip_string) [0..31]"
  "list_all (\<lambda>(tag, k). skip_kind tag = Skip_string) string_types"
  by code_simp+

lemma skip_kind_string:
  assumes "string_header n = Inr (tag # hs)"
  shows "skip_kind tag = Skip_string"
proof (cases "int n \<le> fixed_string_max")
  case True
  then show ?thesis using assms upto_all [OF string_tags(1), of "int n"]
    by (auto simp: string_header_def write_count_def fixed_string_max_def)
next
  case False
  then have "write_unsigned string_types (int n) = Inr (tag # hs)" using assms by (simp add: string_header_def write_count_def)
  then show ?thesis using string_tags(2) by (auto simp: list_all_iff elim!: find_unsigned)
qed

lemma skips_string:
  assumes "string_header (length s) = Inr bs"
  shows "skips (bs @ s) 1 0"
proof (rule skips_leaf)
  show "bs @ s \<noteq> []" using assms by (auto elim!: read_string_header [where rest = "[]"])
  fix r :: reader and rest
  assume r: "rd_remaining r = (bs @ s) @ rest"
  obtain tag hs where t: "bs = tag # hs" "read_string tag (hs @ s @ rest) = Inr (s, rest)"
    using assms by (rule read_string_header)
  moreover have "skip_kind tag = Skip_string" using assms t(1) skip_kind_string by blast
  ultimately show "skip_one r = Inr (r\<lparr>rd_remaining := rest\<rparr>)"
    using r skip_one_cons [of r tag "hs @ s @ rest"] by simp
qed

lemma binary_tags: "list_all (\<lambda>tag. skip_kind tag = Skip_binary) [0xc4, 0xc5, 0xc6]"
  by code_simp

lemma skips_binary:
  assumes "write_unsigned binary_types (int (length s)) = Inr bs"
  shows "skips (bs @ s) 1 0"
proof (rule skips_leaf)
  show "bs @ s \<noteq> []" using assms by (auto elim!: read_binary_header [where rest = "[]"])
  fix r :: reader and rest
  assume r: "rd_remaining r = (bs @ s) @ rest"
  obtain tag hs where t: "bs = tag # hs" "tag \<in> {0xc4, 0xc5, 0xc6}" "read_binary tag (hs @ s @ rest) = Inr (s, rest)"
    using assms by (rule read_binary_header)
  have "skip_kind tag = Skip_binary" using t(2) binary_tags by auto
  then show "skip_one r = Inr (r\<lparr>rd_remaining := rest\<rparr>)"
    using r t skip_one_cons [of r tag "hs @ s @ rest"] by simp
qed


section \<open>Arrays and objects\<close>

definition array_header :: "nat \<Rightarrow> u8 list wire" where
  "array_header n = write_count ftag_array fixed_array_max array_types (int n)"

definition object_header :: "nat \<Rightarrow> u8 list wire" where
  "object_header n = write_count ftag_object fixed_object_max object_types (int n)"

text \<open>A count written is the count read, for the two kinds of header.\<close>

lemma read_count_header:
  assumes "write_count f fixed_max types (int n) = Inr bs" "rd_remaining r = bs @ rest"
    and fixed: "list_all (\<lambda>n. ftag_matches f (fst f OR word_of_int n) \<and> ftag_extract f (fst f OR word_of_int n) = nat n) [0..fixed_max]"
    and wide: "list_all (\<lambda>(tag, k). \<not> ftag_matches f tag \<and> map_of types tag = Some k) types"
  shows "read_count f types e r = Inr (n, r\<lparr>rd_remaining := rest\<rparr>)"
proof (cases "int n \<le> fixed_max")
  case True
  let ?tag = "fst f OR word_of_int (int n)"
  have "ftag_matches f ?tag" "ftag_extract f ?tag = nat (int n)"
    using upto_all [OF fixed, of "int n"] True by simp_all
  moreover have "bs = [?tag]" using assms(1) True by (simp add: write_count_def)
  ultimately show ?thesis using assms(2) by (simp add: read_count_def get_tag_def peek_tag_def)
next
  case False
  then have "write_unsigned types (int n) = Inr bs" using assms(1) by (simp add: write_count_def)
  then obtain tag k where k: "(tag, k) \<in> set types" "int n \<le> 256 ^ k - 1" "bs = tag # be_bytes k (int n)" by (rule find_unsigned)
  have "\<not> ftag_matches f tag" "map_of types tag = Some k" using wide k(1) by (auto simp: list_all_iff)
  moreover have "int n mod 256 ^ k = int n" using k(2) by simp
  ultimately show ?thesis using assms(2) k(3) by (simp add: read_count_def get_tag_def peek_tag_def on_bytes_def read_endian_bytes)
qed

lemma array_tags:
  "list_all (\<lambda>n. ftag_matches ftag_array (fst ftag_array OR word_of_int n) \<and> ftag_extract ftag_array (fst ftag_array OR word_of_int n) = nat n) [0..fixed_array_max]"
  "list_all (\<lambda>(tag, k). \<not> ftag_matches ftag_array tag \<and> map_of array_types tag = Some k) array_types"
  "list_all (\<lambda>n. skip_kind (fst ftag_array OR word_of_int n) = Skip_array) [0..fixed_array_max]"
  "list_all (\<lambda>(tag, k). skip_kind tag = Skip_array) array_types"
  by code_simp+

lemma object_tags:
  "list_all (\<lambda>n. ftag_matches ftag_object (fst ftag_object OR word_of_int n) \<and> ftag_extract ftag_object (fst ftag_object OR word_of_int n) = nat n) [0..fixed_object_max]"
  "list_all (\<lambda>(tag, k). \<not> ftag_matches ftag_object tag \<and> map_of object_types tag = Some k) object_types"
  "list_all (\<lambda>n. skip_kind (fst ftag_object OR word_of_int n) = Skip_object) [0..fixed_object_max]"
  "list_all (\<lambda>(tag, k). skip_kind tag = Skip_object) object_types"
  by code_simp+

lemma header_kind:
  assumes "write_count f fixed_max types (int n) = Inr bs"
    and "list_all (\<lambda>n. skip_kind (fst f OR word_of_int n) = kind) [0..fixed_max]" "list_all (\<lambda>(tag, k). skip_kind tag = kind) types"
  obtains tag hs where "bs = tag # hs" "skip_kind tag = kind"
proof (cases "int n \<le> fixed_max")
  case True
  then show ?thesis using assms(1) upto_all [OF assms(2), of "int n"] that
    by (auto simp: write_count_def)
next
  case False
  then have "write_unsigned types (int n) = Inr bs" using assms(1) by (simp add: write_count_def)
  then show ?thesis using assms(3) that by (auto simp: list_all_iff elim!: find_unsigned)
qed

lemma skips_array:
  assumes h: "array_header n = Inr hs" and vs: "skips bs n c"
  shows "skips (hs @ bs) 1 (Suc c)"
proof -
  obtain tag ts where t: "hs = tag # ts" "skip_kind tag = Skip_array"
    using h unfolding array_header_def by (rule header_kind [OF _ array_tags(3,4)])
  show ?thesis
  proof (rule skips_container [OF _ vs])
    fix r :: reader and rest
    assume r: "rd_remaining r = hs @ rest" "int (rd_tags r) + int n \<le> size_limit" "n \<le> length rest" "Suc (rd_depth r) < max_read_depth"
    have "read_count ftag_array array_types Schema_array r = Inr (n, r\<lparr>rd_remaining := rest\<rparr>)"
      using h r(1) unfolding array_header_def by (rule read_count_header [OF _ _ array_tags(1,2)])
    then show "skip_one r = Inr \<lparr>rd_remaining = rest, rd_tags = rd_tags r + n, rd_depth = Suc (rd_depth r)\<rparr>"
      using r t by (cases r) (simp add: skip_one_cons start_array_def increment_depth_def)
  qed (simp add: t)
qed

lemma skips_object:
  assumes h: "object_header n = Inr hs" and vs: "skips bs (2 * n) c"
  shows "skips (hs @ bs) 1 (Suc c)"
proof -
  obtain tag ts where t: "hs = tag # ts" "skip_kind tag = Skip_object"
    using h unfolding object_header_def by (rule header_kind [OF _ object_tags(3,4)])
  show ?thesis
  proof (rule skips_container [OF _ vs])
    fix r :: reader and rest
    assume r: "rd_remaining r = hs @ rest" "int (rd_tags r) + int (2 * n) \<le> size_limit" "2 * n \<le> length rest" "Suc (rd_depth r) < max_read_depth"
    have "read_count ftag_object object_types Schema_object r = Inr (n, r\<lparr>rd_remaining := rest\<rparr>)"
      using h r(1) unfolding object_header_def by (rule read_count_header [OF _ _ object_tags(1,2)])
    moreover have "\<not> size_limit div 2 < int n" using r(2) by simp
    ultimately show "skip_one r = Inr \<lparr>rd_remaining = rest, rd_tags = rd_tags r + 2 * n, rd_depth = Suc (rd_depth r)\<rparr>"
      using r t by (cases r) (simp add: skip_one_cons start_object_def increment_depth_def mult.commute)
  qed (simp add: t)
qed

section \<open>Trees\<close>

text \<open>What a type with a \<^verbatim>\<open>write_bytes\<close> function writes: a tree, fields with a number and a name.\<close>

datatype mp =
    MInt int | MBool bool | MReal int | MStr "u8 list" | MBin "u8 list"
  | MArr "mp list" | MObj "(int \<times> u8 list \<times> mp) list"

fun mp_write :: "mp \<Rightarrow> writer \<Rightarrow> writer wire" and mp_writes :: "mp list \<Rightarrow> writer \<Rightarrow> writer wire"
  and mp_fields :: "(int \<times> u8 list \<times> mp) list \<Rightarrow> writer \<Rightarrow> writer wire" where
  "mp_write (MInt i) w = write_integer i w"
| "mp_write (MBool b) w = write_boolean b w"
| "mp_write (MReal d) w = write_real d w"
| "mp_write (MStr s) w = write_string s w"
| "mp_write (MBin s) w = write_binary s w"
| "mp_write (MArr vs) w = wbind (write_start_array (length vs) w) (\<lambda>w. wbind (mp_writes vs w) write_end_array)"
| "mp_write (MObj fs) w = wbind (write_start_object (length fs) w) (\<lambda>w. wbind (mp_fields fs w) write_end_object)"
| "mp_writes [] w = Inr w"
| "mp_writes (v # vs) w = wbind (mp_write v w) (mp_writes vs)"
| "mp_fields [] w = Inr w"
| "mp_fields ((i, name, v) # fs) w = wbind (write_key i name w) (\<lambda>w. wbind (mp_write v w) (mp_fields fs))"

text \<open>The number of arrays and objects of a tree.\<close>

fun mp_containers :: "mp \<Rightarrow> nat" where
  "mp_containers (MArr vs) = Suc (sum_list (map mp_containers vs))"
| "mp_containers (MObj fs) = Suc (sum_list (map (\<lambda>(i, name, v). mp_containers v) fs))"
| "mp_containers _ = 0"


text \<open>A writing step appends values the reader passes over and accounts for them.\<close>

definition writes :: "nat \<Rightarrow> nat \<Rightarrow> writer \<Rightarrow> writer \<Rightarrow> bool" where
  "writes n c w w' \<longleftrightarrow> (\<exists>bs. wr_bytes w' = wr_bytes w @ bs \<and> skips bs n c) \<and> wr_expected w' = wr_expected w - of_nat n"

lemma writes_leaf:
  assumes "skips bs 1 0"
  shows "writes 1 0 w (written (put bs w))"
  using assms by (auto simp: writes_def written_def put_def)

lemma writes_string: "write_string s w = Inr w' \<Longrightarrow> writes 1 0 w w'"
  using skips_string [of s] writes_leaf by (auto simp: write_string_def wbind_eq_Inr string_header_def written_def put_def writes_def)

lemma writes_binary: "write_binary s w = Inr w' \<Longrightarrow> writes 1 0 w w'"
  using skips_binary [of s] by (auto simp: write_binary_def wbind_eq_Inr written_def put_def writes_def)

lemma writes_integer: "write_integer i w = Inr w' \<Longrightarrow> writes 1 0 w w'"
  using skips_integer [of i] writes_leaf by (auto simp: write_integer_def wbind_eq_Inr)

lemma writes_key: "write_key i name w = Inr w' \<Longrightarrow> writes 1 0 w w'"
  by (auto simp: write_key_def split: if_splits dest: writes_string writes_integer)

lemma writes_trans:
  assumes "writes n c w w1" "writes m d w1 w2"
  shows "writes (n + m) (c + d) w w2"
proof -
  obtain as bs where "wr_bytes w1 = wr_bytes w @ as" "skips as n c" "wr_bytes w2 = wr_bytes w1 @ bs" "skips bs m d"
    using assms by (auto simp: writes_def)
  then show ?thesis using assms skips_append [of as n c bs m d] by (auto simp: writes_def)
qed

lemma writes_array:
  assumes "array_header n = Inr hs" "writes n c ((put hs w)\<lparr>wr_expected := wr_expected w + of_nat n\<rparr>) w'"
  shows "writes 1 (Suc c) w (written w')"
proof -
  obtain bs where "wr_bytes w' = wr_bytes w @ hs @ bs" "skips bs n c" using assms(2) by (auto simp: writes_def put_def)
  then show ?thesis using assms(2) skips_array [OF assms(1)] by (auto simp: writes_def written_def)
qed

lemma writes_object:
  assumes "object_header n = Inr hs" "writes (2 * n) c ((put hs w)\<lparr>wr_expected := wr_expected w + of_nat n * 2\<rparr>) w'"
  shows "writes 1 (Suc c) w (written w')"
proof -
  obtain bs where "wr_bytes w' = wr_bytes w @ hs @ bs" "skips bs (2 * n) c" using assms(2) by (auto simp: writes_def put_def)
  then show ?thesis using assms(2) skips_object [OF assms(1)] by (auto simp: writes_def written_def)
qed

lemma mp_write_writes:
  "mp_write v w = Inr w' \<Longrightarrow> writes 1 (mp_containers v) w w'"
  "mp_writes vs w = Inr w' \<Longrightarrow> writes (length vs) (sum_list (map mp_containers vs)) w w'"
  "mp_fields fs w = Inr w' \<Longrightarrow> writes (2 * length fs) (sum_list (map (\<lambda>(i, name, v). mp_containers v) fs)) w w'"
proof (induction v w and vs w and fs w arbitrary: w' and w' and w' rule: mp_write_mp_writes_mp_fields.induct)
  case (1 i w)
  then show ?case using writes_integer by simp
next
  case (2 b w)
  then show ?case using writes_leaf [OF skips_boolean [of b], of w] by (simp add: write_boolean_def)
next
  case (3 d w)
  then show ?case using writes_leaf [OF skips_real [of d], of w] by (simp add: write_real_def)
next
  case (4 s w)
  then show ?case using writes_string by simp
next
  case (5 s w)
  then show ?case using writes_binary by simp
next
  case (6 vs w)
  then show ?case
    by (auto simp: wbind_eq_Inr write_start_array_def write_end_array_def array_header_def [symmetric] intro: writes_array [unfolded One_nat_def])
next
  case (7 fs w)
  then show ?case
    by (auto simp: wbind_eq_Inr write_start_object_def write_end_object_def object_header_def [symmetric] intro: writes_object [unfolded One_nat_def])
next
  case (8 w)
  then show ?case by (simp add: writes_def skips_nil)
next
  case (9 v vs w)
  then obtain w1 where "mp_write v w = Inr w1" "mp_writes vs w1 = Inr w'" by (auto simp: wbind_eq_Inr)
  then show ?case using 9 writes_trans by fastforce
next
  case (10 w)
  then show ?case by (simp add: writes_def skips_nil)
next
  case (11 i name v fs w)
  then obtain w1 w2 where "write_key i name w = Inr w1" "mp_write v w1 = Inr w2" "mp_fields fs w2 = Inr w'" by (auto simp: wbind_eq_Inr)
  then show ?case using 11 writes_trans [OF writes_trans [OF writes_key]] by fastforce
qed


section \<open>The properties\<close>

text \<open>
  C20: whatever tree of values the writer writes, its account of expected values comes out even, and a reader that skips
  a value there (an unknown field of an object) stands exactly behind the tree with one value less to come, if the
  depth of the reader plus the number of arrays and objects of the tree stays below the limit of 100.
\<close>

theorem skip_value_exact:
  assumes "mp_write v (new_writer integer_keys) = Inr w" "rd_remaining r = bs @ rest" "take_msgpack w = Inr bs"
    and "0 < rd_tags r" "int (rd_tags r) + int (length bs) \<le> size_limit"
    and "rd_depth r + mp_containers v < max_read_depth"
  shows "skip_value r = Inr (after_value rest (r\<lparr>rd_depth := rd_depth r + mp_containers v\<rparr>))"
proof -
  have "writes 1 (mp_containers v) (new_writer integer_keys) w" using assms(1) by (rule mp_write_writes)
  then have bs: "skips bs 1 (mp_containers v)"
    using assms(3) by (auto simp: writes_def take_msgpack_def new_writer_def split: if_splits)
  then have l: "1 \<le> length bs" by (simp add: skips_def)
  have "skip_value r = skip_rest (rd_tags r) r"
    using assms(5) l by (simp add: skip_value_def skip_rest_def)
  also have "\<dots> = skip_rest (rd_tags r) \<lparr>rd_remaining = rest, rd_tags = rd_tags r - 1, rd_depth = rd_depth r + mp_containers v\<rparr>"
    by (rule skipsD [OF bs assms(2)]) (use assms in auto)
  also have "\<dots> = Inr (after_value rest (r\<lparr>rd_depth := rd_depth r + mp_containers v\<rparr>))"
    using assms(4) by (auto simp: skip_rest_def after_value_def)
  finally show ?thesis .
qed

text \<open>An array of an object and a truth value, behind it the next value of the reader.\<close>

definition sample_tree :: mp where
  "sample_tree = MArr [MObj [(1, [0x61], MInt (- 300)), (2, [0x62], MStr [0x63, 0x64])], MBool True]"

theorem skip_value_exact_witness:
  "skip_value \<lparr>rd_remaining = [0x92, 0x82, 0xa1, 0x61, 0xd1, 0xfe, 0xd4, 0xa1, 0x62, 0xa2, 0x63, 0x64, 0xc3, 0xc2], rd_tags = 2, rd_depth = 0\<rparr>
     = Inr \<lparr>rd_remaining = [0xc2], rd_tags = 1, rd_depth = 2\<rparr>"
proof -
  let ?bs = "[0x92, 0x82, 0xa1, 0x61, 0xd1, 0xfe, 0xd4, 0xa1, 0x62, 0xa2, 0x63, 0x64, 0xc3] :: u8 list"
  let ?w = "\<lparr>wr_bytes = ?bs, wr_expected = 0, wr_integer_keys = False\<rparr>"
  have w: "mp_write sample_tree (new_writer False) = Inr ?w" by code_simp
  have c: "mp_containers sample_tree = 2" by code_simp
  show ?thesis
    using skip_value_exact [OF w, of "\<lparr>rd_remaining = ?bs @ [0xc2], rd_tags = 2, rd_depth = 0\<rparr>" ?bs "[0xc2]"] c
    by (simp add: take_msgpack_def size_limit_def max_read_depth_def after_value_def)
qed

lemma mp_write_complete: "mp_write v (new_writer integer_keys) = Inr w \<Longrightarrow> take_msgpack w = Inr (wr_bytes w)"
  using mp_write_writes(1) [of v "new_writer integer_keys" w] by (simp add: writes_def take_msgpack_def new_writer_def)

lemma skips_empty_arrays: "skips (replicate n 0x90) n n"
proof (induction n)
  case 0
  then show ?case by (simp add: skips_nil)
next
  case (Suc n)
  have "array_header 0 = Inr [0x90]" by code_simp
  from skips_append [OF skips_array [OF this skips_nil] Suc] show ?case by simp
qed

lemma write_empty_arrays:
  "mp_writes (replicate n (MArr [])) w = Inr (w\<lparr>wr_bytes := wr_bytes w @ replicate n 0x90, wr_expected := wr_expected w - of_nat n\<rparr>)"
proof (induction n arbitrary: w)
  case 0
  then show ?case by simp
next
  case (Suc n)
  have "array_header 0 = Inr [0x90]" by code_simp
  then show ?case
    by (simp add: Suc write_start_array_def array_header_def write_end_array_def written_def put_def algebra_simps)
qed

text \<open>
  The depth a skipped array or object takes is never given back. An array of 100 empty arrays, two levels deep, is
  what the writer writes for it, and an unknown field that holds it is refused for its depth.
\<close>

theorem skip_depth_not_restored:
  "mp_write (MArr (replicate 100 (MArr []))) (new_writer True)
     = Inr \<lparr>wr_bytes = [0xdc, 0, 100] @ replicate 100 0x90, wr_expected = 0, wr_integer_keys = True\<rparr> \<and>
   skip_value (new_reader ([0xdc, 0, 100] @ replicate 100 0x90)) = Inl Schema_maximum_depth"
proof
  have "array_header 100 = Inr [0xdc, 0, 100]" by code_simp
  then show "mp_write (MArr (replicate 100 (MArr []))) (new_writer True)
     = Inr \<lparr>wr_bytes = [0xdc, 0, 100] @ replicate 100 0x90, wr_expected = 0, wr_integer_keys = True\<rparr>"
    by (simp add: write_start_array_def array_header_def write_empty_arrays write_end_array_def written_def put_def new_writer_def)
  let ?rest = "replicate 98 0x90 @ [0x90, 0x90] :: u8 list"
  have one: "skip_one (new_reader ([0xdc, 0, 100] @ ?rest)) = Inr \<lparr>rd_remaining = ?rest, rd_tags = 101, rd_depth = 1\<rparr>"
    by code_simp
  have "skip_value (new_reader ([0xdc, 0, 100] @ ?rest)) = skip_rest 1 \<lparr>rd_remaining = ?rest, rd_tags = 100, rd_depth = 1\<rparr>"
    using skip_loop_step [OF one, of 1] by (simp add: skip_value_def size_limit_def new_reader_def)
  also have "\<dots> = skip_rest 1 \<lparr>rd_remaining = [0x90, 0x90], rd_tags = 100 - 98, rd_depth = 1 + 98\<rparr>"
    using skipsD [OF skips_empty_arrays [of 98], of "\<lparr>rd_remaining = ?rest, rd_tags = 100, rd_depth = 1\<rparr>" "[0x90, 0x90]" 1]
    by (simp add: max_read_depth_def size_limit_def)
  also have "\<dots> = Inl Schema_maximum_depth" by code_simp
  finally show "skip_value (new_reader ([0xdc, 0, 100] @ replicate 100 0x90)) = Inl Schema_maximum_depth"
    using replicate_add [of 98 2 "0x90 :: u8"] by (simp add: numeral_2_eq_2)
qed

text \<open>
  C19: every number of 64 bits, signed or unsigned, is encoded, and reading it back gives this number and leaves the bytes
  behind it: \<^verbatim>\<open>integer()\<close> for what fits \<^verbatim>\<open>std::intmax_t\<close>,
  \<^verbatim>\<open>unsigned_integer()\<close> for what is not negative. Outside the type of the reader the answer is
  an error and never another number.
\<close>

theorem integer_roundtrip:
  assumes "- (2 ^ 63) \<le> v" "v < 2 ^ 64" "0 < rd_tags r"
  shows "\<exists>bs. integer_bytes v = Inr bs \<and>
    (\<forall>rest. reader_integer (r\<lparr>rd_remaining := bs @ rest\<rparr>)
               = (if v < 2 ^ 63 then Inr (v, after_value rest r) else Inl Schema_smaller_integer) \<and>
            reader_unsigned_integer (r\<lparr>rd_remaining := bs @ rest\<rparr>)
               = (if 0 \<le> v then Inr (v, after_value rest r)
                  else Inl (if -32 \<le> v then Schema_integer else Schema_larger_integer)))"
proof -
  obtain bs where bs: "integer_bytes v = Inr bs" using integer_bytes_total assms(1,2) by blast
  have a: "after_value rest (r\<lparr>rd_remaining := bs @ rest\<rparr>) = after_value rest r" for rest by (simp add: after_value_def)
  have "reader_integer (r\<lparr>rd_remaining := bs @ rest\<rparr>)
      = (if v < 2 ^ 63 then Inr (v, after_value rest r) else Inl Schema_smaller_integer)" for rest
    using integer_read_signed [OF bs, of "r\<lparr>rd_remaining := bs @ rest\<rparr>" rest]
      integer_read_too_large [OF bs, of "r\<lparr>rd_remaining := bs @ rest\<rparr>" rest] assms a by simp
  moreover have "reader_unsigned_integer (r\<lparr>rd_remaining := bs @ rest\<rparr>)
      = (if 0 \<le> v then Inr (v, after_value rest r) else Inl (if -32 \<le> v then Schema_integer else Schema_larger_integer))" for rest
    using integer_read_unsigned [OF bs, of "r\<lparr>rd_remaining := bs @ rest\<rparr>" rest]
      integer_read_negative [OF bs, of "r\<lparr>rd_remaining := bs @ rest\<rparr>" rest] assms a by simp
  ultimately show ?thesis using bs by blast
qed

theorem integer_roundtrip_witness:
  "\<exists>bs. integer_bytes (- 300) = Inr bs \<and>
     reader_integer ((new_reader [])\<lparr>rd_remaining := bs @ [0xc3]\<rparr>) = Inr (- 300, after_value [0xc3] (new_reader []))"
  using integer_roundtrip [of "- 300" "new_reader []"] by (auto simp: new_reader_def)

end
