(* ===== verification/Mempool.thy ===== *)
theory Mempool
  imports Ownership_Result Light_Wallet "HOL-Library.AList"
begin

text \<open>
  The transactions of the pool and the cache of scans (\<^verbatim>\<open>src/mempool.cpp\<close>). A REST request scans the pool for one account, with the ownership test;
  the hashes of transactions that did not belong to the account are remembered under its address and the ranges of its subaddresses, for at most
  999 addresses, those used last. Every method holds the mutex, so a run is a sequence of methods. The order in which an
  unordered map is read is the parameter \<open>ord\<close>, a permutation.
\<close>

section \<open>The cache\<close>

definition max_cache_size :: nat where "max_cache_size = 1000"

record cache_entry =
  ce_subaddrs :: "subaddress_dict list"
  ce_txids :: "hash list"

record address_cache =
  ac_map :: "(account_address \<times> cache_entry) list"
  ac_order :: "account_address list"

definition empty_cache :: address_cache where
  "empty_cache = \<lparr>ac_map = [], ac_order = []\<rparr>"

definition cache_get :: "account_address \<Rightarrow> subaddress_dict list \<Rightarrow> address_cache \<Rightarrow> hash list" where
  "cache_get address subaddrs c =
     (case map_of (ac_map c) address of
        None \<Rightarrow> []
      | Some e \<Rightarrow> if ce_subaddrs e \<noteq> subaddrs then [] else ce_txids e)"

definition cache_set :: "account_address \<Rightarrow> subaddress_dict list \<Rightarrow> hash list \<Rightarrow> address_cache \<Rightarrow> address_cache" where
  "cache_set address subaddrs txids c =
     (let m = AList.update address \<lparr>ce_subaddrs = subaddrs, ce_txids = txids\<rparr> (ac_map c) in
      if map_of (ac_map c) address = None
      then
        let new_order = address # ac_order c in
        if max_cache_size \<le> length m
        then \<lparr>ac_map = AList.delete (last new_order) m, ac_order = butlast new_order\<rparr>
        else \<lparr>ac_map = m, ac_order = new_order\<rparr>
      else \<lparr>ac_map = m, ac_order = address # remove1 address (ac_order c)\<rparr>)"

section \<open>The pool\<close>

record pool_entry =
  pe_tx :: transaction
  pe_timestamp :: u64

type_synonym pool_table = "(hash \<times> pool_entry) list"

record mempool =
  mp_state :: pool_table
  mp_cache :: address_cache
  mp_snapshot :: "pool_table option"

definition emplace_tx :: "hash \<Rightarrow> pool_entry \<Rightarrow> pool_table \<Rightarrow> pool_table" where
  "emplace_tx h e txs = (if map_of txs h = None then txs @ [(h, e)] else txs)"

definition add_txs :: "tx_library \<Rightarrow> u64 \<Rightarrow> transaction list \<Rightarrow> mempool \<Rightarrow> mempool" where
  "add_txs L now txs p =
     p\<lparr>mp_snapshot := None, mp_state := fold (\<lambda>tx. emplace_tx (tl_tx_hash L tx) \<lparr>pe_tx = tx, pe_timestamp = now\<rparr>) txs (mp_state p)\<rparr>"

definition reset_txs :: "pool_table \<Rightarrow> mempool \<Rightarrow> mempool" where
  "reset_txs txs p = p\<lparr>mp_snapshot := None, mp_state := txs\<rparr>"

text \<open>The answer of the daemon for the whole pool, as \<^verbatim>\<open>pool_update_loop\<close> stores it.\<close>

definition pool_answer :: "u64 \<Rightarrow> (hash \<times> transaction) list \<Rightarrow> mempool \<Rightarrow> mempool" where
  "pool_answer now txs p = reset_txs (fold (\<lambda>(h, tx). emplace_tx h \<lparr>pe_tx = tx, pe_timestamp = now\<rparr>) txs []) p"

definition take_snapshot :: "(pool_table \<Rightarrow> pool_table) \<Rightarrow> mempool \<Rightarrow> pool_table" where
  "take_snapshot ord p = (case mp_snapshot p of Some txs \<Rightarrow> txs | None \<Rightarrow> ord (mp_state p))"

section \<open>Scanning for an account\<close>

text \<open>The element of a transaction is the last one, or a new one.\<close>

definition found_at :: "hash \<Rightarrow> (found_pool_tx \<Rightarrow> found_pool_tx) \<Rightarrow> found_pool_tx list \<Rightarrow> found_pool_tx list" where
  "found_at h f found =
     (if found = [] \<or> fp_hash (last found) \<noteq> h
      then found @ [f \<lparr>fp_hash = h, fp_spends = [], fp_outputs = []\<rparr>]
      else butlast found @ [f (last found)])"

definition found_test :: "found_pool_tx list ownership_test" where
  "found_test = \<lparr>
     on_spend = (\<lambda>user sp found. (user, found_at (tx_hash (sp_link sp)) (\<lambda>x. x\<lparr>fp_spends := fp_spends x @ [sp]\<rparr>) found)),
     on_output = (\<lambda>user out d found. (user, found_at (tx_hash (out_link out)) (\<lambda>x. x\<lparr>fp_outputs := fp_outputs x @ [out]\<rparr>) found)),
     ot_subaddress = Some Borrowed_reader\<rparr>"

text \<open>One transaction. Account and database stay as they are: the callbacks only collect, the reader is borrowed.\<close>

definition pool_scan :: "env \<Rightarrow> tx_library \<Rightarrow> lws_account \<Rightarrow> db \<Rightarrow> hash \<Rightarrow> pool_entry \<Rightarrow> found_pool_tx list \<Rightarrow> found_pool_tx list expect" where
  "pool_scan E L user d h e found =
     (case scan_transaction E L found_test [user] txpool_block (pe_timestamp e) (Some h) (pe_tx e) (replicate 256 (- 1)) (d, found) of
        (ds, Inl err) \<Rightarrow> Inl err
      | (ds, Inr _) \<Rightarrow> Inr (snd ds))"

fun scan_pool :: "env \<Rightarrow> tx_library \<Rightarrow> lws_account \<Rightarrow> db \<Rightarrow> hash list \<Rightarrow> pool_table \<Rightarrow> found_pool_tx list \<times> hash list \<Rightarrow> (found_pool_tx list \<times> hash list) expect" where
  "scan_pool E L user d skip [] acc = Inr acc"
| "scan_pool E L user d skip ((h, e) # txs) (found, skipped) =
     ebind (if h \<in> set skip then Inr found else pool_scan E L user d h e found) (\<lambda>found.
       scan_pool E L user d skip txs (found, if found = [] \<or> fp_hash (last found) \<noteq> h then skipped @ [h] else skipped))"

definition scan_account :: "(pool_table \<Rightarrow> pool_table) \<Rightarrow> env \<Rightarrow> tx_library \<Rightarrow> lws_account \<Rightarrow> db \<Rightarrow> mempool \<Rightarrow> mempool \<times> found_pool_tx list expect" where
  "scan_account ord E L user d p =
     (case db_address user of
        Inl e \<Rightarrow> (p, Inl e)
      | Inr address \<Rightarrow>
          let subaddrs = get_subaddresses E d (la_id user);
              skip = cache_get address subaddrs (mp_cache p);
              snapshot = take_snapshot ord p;
              p = p\<lparr>mp_snapshot := Some snapshot\<rparr> in
          (case scan_pool E L user d skip snapshot ([], []) of
             Inl e \<Rightarrow> (p, Inl e)
           | Inr (found, skipped) \<Rightarrow> (p\<lparr>mp_cache := cache_set address subaddrs skipped (mp_cache p)\<rparr>, Inr found)))"

end
