(* ===== verification/Mempool_Result.thy ===== *)
theory Mempool_Result
  imports Mempool
begin

text \<open>
  The cache of pool scans keeps exactly the addresses used last, and as long as the account it was filled for has not changed, a scan with the cache
  finds what a scan without it finds. When the account has changed, it may not.
\<close>

section \<open>Least recently used\<close>

type_synonym cache_op = "account_address \<times> subaddress_dict list \<times> hash list"

definition cache_run :: "cache_op list \<Rightarrow> address_cache" where
  "cache_run ops = fold (\<lambda>(address, subaddrs, txids). cache_set address subaddrs txids) ops empty_cache"

text \<open>The addresses in the order of their last use, and what was set last for an address.\<close>

definition last_used :: "cache_op list \<Rightarrow> account_address list" where
  "last_used ops = fold (\<lambda>(address, _) as. address # remove1 address as) ops []"

definition last_value :: "cache_op list \<Rightarrow> account_address \<Rightarrow> cache_entry option" where
  "last_value ops = map_of (rev (map (\<lambda>(address, subaddrs, txids). (address, \<lparr>ce_subaddrs = subaddrs, ce_txids = txids\<rparr>)) ops))"

lemma take_remove1_known: "a \<in> set (take (Suc n) l) \<Longrightarrow> remove1 a (take (Suc n) l) = take n (remove1 a l)"
proof (induction l arbitrary: n)
  case (Cons x l)
  then show ?case by (cases n) (auto split: if_splits)
qed simp

lemma take_remove1_new: "a \<notin> set (take n l) \<Longrightarrow> take n (remove1 a l) = take n l"
proof (induction l arbitrary: n)
  case (Cons x l)
  then show ?case by (cases n) auto
qed simp

lemma distinct_last_used: "distinct (last_used ops)"
  by (induction ops rule: rev_induct) (auto simp: last_used_def)

definition lru_ok :: "nat \<Rightarrow> account_address list \<Rightarrow> (account_address \<Rightarrow> cache_entry option) \<Rightarrow> address_cache \<Rightarrow> bool" where
  "lru_ok n used val c \<longleftrightarrow> ac_order c = take n used \<and> distinct (map fst (ac_map c)) \<and>
     (\<forall>a. map_of (ac_map c) a = (if a \<in> set (take n used) then val a else None)) \<and> (\<forall>a \<in> set (take n used). val a \<noteq> None)"

lemma lru_ok_keys: "lru_ok n used val c \<Longrightarrow> fst ` set (ac_map c) = set (take n used)"
proof -
  assume c: "lru_ok n used val c"
  have "fst ` set (ac_map c) = dom (map_of (ac_map c))" by (simp add: dom_map_of_conv_image_fst)
  also have "\<dots> = set (take n used)" using c by (auto simp: lru_ok_def split: if_splits)
  finally show ?thesis .
qed

lemma lru_ok_length: "lru_ok n used val c \<Longrightarrow> distinct used \<Longrightarrow> length (ac_map c) = length (take n used)"
  using lru_ok_keys [of n used val c] distinct_card [of "map fst (ac_map c)"] distinct_card [of "take n used"]
  by (simp add: lru_ok_def)

lemma length_update_new:
  assumes "distinct (map fst m)" "map_of m k = None"
  shows "length (AList.update k v m) = Suc (length m)"
proof -
  have "length (AList.update k v m) = card (fst ` set (AList.update k v m))"
    using distinct_card [OF distinct_update [OF assms(1), of k v]] by simp
  also have "\<dots> = Suc (card (fst ` set m))" using assms(2) by (simp add: dom_update map_of_eq_None_iff)
  finally show ?thesis using distinct_card [OF assms(1)] by simp
qed

lemma lru_ok_known:
  assumes c: "lru_ok (Suc k) used val c" and d: "distinct used" and known: "address \<in> set (take (Suc k) used)"
  shows "lru_ok (Suc k) (address # remove1 address used) (val(address \<mapsto> e))
    \<lparr>ac_map = AList.update address e (ac_map c), ac_order = address # remove1 address (ac_order c)\<rparr>"
proof -
  have used: "take (Suc k) (address # remove1 address used) = address # remove1 address (take (Suc k) used)"
    using take_remove1_known [OF known] by simp
  have dt: "distinct (take (Suc k) used)" using d by simp
  show ?thesis unfolding lru_ok_def used using c known dt
    by (auto simp: lru_ok_def update_conv' distinct_update set_remove1_eq)
qed

lemma lru_ok_new:
  assumes c: "lru_ok (Suc k) used val c" and d: "distinct used" and new: "address \<notin> set (take (Suc k) used)"
  shows "lru_ok (Suc k) (address # remove1 address used) (val(address \<mapsto> e))
    (let m = AList.update address e (ac_map c); new_order = address # ac_order c in
     if Suc (Suc k) \<le> length m then \<lparr>ac_map = AList.delete (last new_order) m, ac_order = butlast new_order\<rparr>
     else \<lparr>ac_map = m, ac_order = new_order\<rparr>)"
proof -
  let ?m = "AList.update address e (ac_map c)"
  have wf: "distinct (map fst (ac_map c))" "ac_order c = take (Suc k) used"
    "\<And>a. map_of (ac_map c) a = (if a \<in> set (take (Suc k) used) then val a else None)"
    "\<And>a. a \<in> set (take (Suc k) used) \<Longrightarrow> val a \<noteq> None" using c by (auto simp: lru_ok_def)
  have "address \<notin> set (take k used)" using new set_take_subset_set_take [of k "Suc k" used] by auto
  then have used: "take (Suc k) (address # remove1 address used) = address # take k used" by (simp add: take_remove1_new)
  have len: "length ?m = Suc (length (take (Suc k) used))"
    using length_update_new [OF wf(1)] wf(3) [of address] new lru_ok_length [OF c d] by simp
  have m: "distinct (map fst ?m)" "map_of ?m = (map_of (ac_map c))(address \<mapsto> e)" using wf(1) by (simp_all add: distinct_update update_conv')
  show ?thesis
  proof (cases "Suc k \<le> length used")
    case True
    then have split: "take (Suc k) used = take k used @ [used ! k]" by (simp add: take_Suc_conv_app_nth)
    then have full: "Suc (Suc k) \<le> length ?m" "used ! k \<noteq> address" using len True new by auto
    have old: "used ! k \<notin> set (take k used)" using d split by (metis distinct_append distinct_take disjoint_insert(1) list.simps(15))
    show ?thesis unfolding lru_ok_def used Let_def wf(2) split
      using full m wf(3,4) old new by (auto simp: split delete_conv' distinct_delete fun_upd_def)
  next
    case False
    then have short: "take (Suc k) used = used" "take k used = used" by simp_all
    have "\<not> Suc (Suc k) \<le> length ?m" using len False short by simp
    then show ?thesis unfolding lru_ok_def used Let_def wf(2) short
      using m wf(3,4) new by (auto simp: short)
  qed
qed

lemma lru_ok_set:
  assumes c: "lru_ok (max_cache_size - 1) used val c" and d: "distinct used"
  shows "lru_ok (max_cache_size - 1) (address # remove1 address used) (val(address \<mapsto> \<lparr>ce_subaddrs = subaddrs, ce_txids = txids\<rparr>))
    (cache_set address subaddrs txids c)"
proof -
  have "max_cache_size = Suc (Suc 998)" by (simp add: max_cache_size_def)
  then obtain k where k: "max_cache_size = Suc (Suc k)" ..
  then have N: "max_cache_size - 1 = Suc k" by (metis diff_Suc_1)
  note c' = c [unfolded N]
  have none: "map_of (ac_map c) address = None \<longleftrightarrow> address \<notin> set (take (Suc k) used)" using c' by (auto simp: lru_ok_def)
  then show ?thesis unfolding N
  proof (cases "address \<in> set (take (Suc k) used)")
    case True
    from lru_ok_known [OF c' d this] show "lru_ok (Suc k) (address # remove1 address used)
        (val(address \<mapsto> \<lparr>ce_subaddrs = subaddrs, ce_txids = txids\<rparr>)) (cache_set address subaddrs txids c)"
      using True none by (simp only: cache_set_def Let_def simp_thms if_False)
  next
    case False
    from lru_ok_new [OF c' d this] show "lru_ok (Suc k) (address # remove1 address used)
        (val(address \<mapsto> \<lparr>ce_subaddrs = subaddrs, ce_txids = txids\<rparr>)) (cache_set address subaddrs txids c)"
      unfolding cache_set_def Let_def k using False none by (simp only: simp_thms if_True)
  qed
qed

lemma lru_ok_run: "lru_ok (max_cache_size - 1) (last_used ops) (last_value ops) (cache_run ops)"
proof (induction ops rule: rev_induct)
  case Nil
  then show ?case by (simp add: lru_ok_def last_used_def last_value_def cache_run_def empty_cache_def)
next
  case (snoc op ops)
  obtain address subaddrs txids where op: "op = (address, subaddrs, txids)" by (cases op)
  have "last_value (ops @ [op]) = (last_value ops)(address \<mapsto> \<lparr>ce_subaddrs = subaddrs, ce_txids = txids\<rparr>)"
    by (simp add: last_value_def op fun_eq_iff)
  moreover have "last_used (ops @ [op]) = address # remove1 address (last_used ops)" by (simp add: last_used_def op)
  moreover have "cache_run (ops @ [op]) = cache_set address subaddrs txids (cache_run ops)" by (simp add: cache_run_def op)
  ultimately show ?case using lru_ok_set [OF snoc distinct_last_used] by (simp only:)
qed

text \<open>
  C18: the cache holds exactly the addresses used last. After any sequence of scans its order is that of the last use, newest first, cut off at 999;
  for these addresses it answers what was set last, for every other address nothing, and its size stays below the limit of 1000.
\<close>

theorem cache_is_lru:
  "ac_order (cache_run ops) = take 999 (last_used ops)
   \<and> map_of (ac_map (cache_run ops)) = (\<lambda>a. if a \<in> set (take 999 (last_used ops)) then last_value ops a else None)
   \<and> length (ac_map (cache_run ops)) < max_cache_size"
proof -
  have N: "max_cache_size - 1 = 999" by (simp add: max_cache_size_def)
  have "lru_ok 999 (last_used ops) (last_value ops) (cache_run ops)" using lru_ok_run [of ops] unfolding N .
  moreover from lru_ok_length [OF this distinct_last_used] have "length (ac_map (cache_run ops)) < max_cache_size"
    by (simp add: max_cache_size_def)
  ultimately show ?thesis by (auto simp: lru_ok_def)
qed

section \<open>A scan of one transaction\<close>

text \<open>
  What is found for a transaction does not depend on what was found before, if that ends with another transaction. The states of
  the two runs are related by \<open>found_after\<close>.
\<close>

definition apart :: "found_pool_tx list \<Rightarrow> hash \<Rightarrow> bool" where
  "apart F h \<longleftrightarrow> F = [] \<or> fp_hash (last F) \<noteq> h"

definition found_after :: "found_pool_tx list \<Rightarrow> hash \<Rightarrow> found_pool_tx list \<Rightarrow> found_pool_tx list \<Rightarrow> bool" where
  "found_after F h s s' \<longleftrightarrow> s' = F @ s \<and> (\<forall>x \<in> set s. fp_hash x = h)"

lemma found_at_after:
  assumes "apart F h" "found_after F h s s'" "\<And>x. fp_hash (f x) = fp_hash x"
  shows "found_after F h (found_at h f s) (found_at h f s')"
  using assms by (cases s rule: rev_cases) (auto simp: found_after_def found_at_def apart_def butlast_append)

lemma on_found:
  assumes "apart F h" "found_after F h s s'"
  shows "tx_hash (sp_link sp) = h \<Longrightarrow> \<exists>t t'. on_spend found_test u sp s = (u, t) \<and> on_spend found_test u sp s' = (u, t') \<and> found_after F h t t'"
    "tx_hash (out_link out) = h \<Longrightarrow> \<exists>t t'. on_output found_test u out d s = (u, t) \<and> on_output found_test u out d s' = (u, t') \<and> found_after F h t t'"
  using found_at_after [OF assms] by (auto simp: found_test_def)

lemma scan_ring_after:
  assumes "apart F h" "tx_hash (tc_link c) = h" "found_after F h s s'"
  shows "\<exists>t t'. scan_ring found_test c a k m g offs (u, s) = (u, t) \<and> scan_ring found_test c a k m g offs (u, s') = (u, t') \<and> found_after F h t t'"
  using assms(3)
proof (induction offs arbitrary: g s s')
  case Nil
  then show ?case by simp
next
  case (Cons o1 offs)
  show ?case
  proof (cases "get_spendable (Output_id a (g + o1)) u")
    case None
    then show ?thesis using Cons by (simp add: Let_def)
  next
    case (Some i)
    have "tx_hash (sp_link (make_spend c k m (Output_id a (g + o1)) i)) = h" using assms(2) by (simp add: make_spend_def)
    from on_found(1) [OF assms(1) Cons.prems this, of u] obtain t t' where
      "on_spend found_test u (make_spend c k m (Output_id a (g + o1)) i) s = (u, t)"
      "on_spend found_test u (make_spend c k m (Output_id a (g + o1)) i) s' = (u, t')" "found_after F h t t'" by blast
    with Cons.IH [OF this(3), of "g + o1"] Some show ?thesis by (simp add: Let_def)
  qed
qed

lemma scan_inputs_after:
  assumes "apart F h" "tx_hash (tc_link c) = h" "found_after F h s s'"
  shows "\<exists>t t' r. scan_inputs found_test c ins me (u, s) = ((u, t), r) \<and> scan_inputs found_test c ins me (u, s') = ((u, t'), r) \<and> found_after F h t t'"
  using assms(3)
proof (induction ins arbitrary: me s s')
  case (Cons x ins)
  show ?case
  proof (cases x)
    case (Txin_to_key amount offs k_image)
    let ?n = "max 1 (length offs) - 1"
    obtain t t' where t: "scan_ring found_test c amount k_image (of_nat ?n) 0 offs (u, s) = (u, t)"
      "scan_ring found_test c amount k_image (of_nat ?n) 0 offs (u, s') = (u, t')" "found_after F h t t'"
      using scan_ring_after [OF assms(1,2) Cons.prems] by blast
    show ?thesis using Cons.IH [OF t(3)] Cons.prems t(1,2) Txin_to_key by (simp add: Let_def)
  qed (use Cons in simp_all)
qed simp

lemma find_owner_borrowed: "fst (find_owner E L found_test height i scan_height key index as d) = d"
  by (induction as) (auto simp: found_test_def reader_update_lookahead_def split: option.splits sum.splits)

lemma scan_output_after:
  assumes "apart F h" "tx_hash (tc_link c) = h" "found_after F h (os_state z) y"
  shows "\<exists>z1 y1 r. scan_output E L found_test c i derived additional mixin index z = (z1, r)
    \<and> scan_output E L found_test c i derived additional mixin index (z\<lparr>os_state := y\<rparr>) = (z1\<lparr>os_state := y1\<rparr>, r)
    \<and> found_after F h (os_state z1) y1 \<and> os_user z1 = os_user z \<and> os_db z1 = os_db z"
proof (cases "to_key (tx_vout (tc_tx c) ! index)")
  case None
  then show ?thesis using assms(3) by (auto simp: scan_output_def)
next
  case key: (Some out_key)
  let ?own = "find_owner E L found_test (tc_height c) i (la_height (os_user z)) out_key index (attempts c derived additional index) (os_db z)"
  obtain o1 where own: "?own = (os_db z, o1)" using find_owner_borrowed by (metis prod.collapse)
  show ?thesis
  proof (cases "out_matched L c derived additional index \<and> o1 \<noteq> None")
    case False
    then have "\<not> out_matched L c derived additional index \<or> o1 = None" by blast
    then show ?thesis using assms(3) by (auto simp: scan_output_def key own)
  next
    case True
    then obtain recipient derivation active_pub where o1: "o1 = Some (recipient, derivation, active_pub)" by (cases o1) auto
    show ?thesis
    proof (cases "output_amount L (tc_tx c) (os_ext z) derivation index")
      case (Inl e)
      then show ?thesis using assms(3) key own True o1 by (auto simp: scan_output_def)
    next
      case (Inr a)
      show ?thesis
      proof (cases a)
        case None
        then show ?thesis using assms(3) key own True o1 Inr by (auto simp: scan_output_def)
      next
        case (Some amt)
        let ?out = "make_output L c mixin index out_key active_pub amt (output_payment_id L c (os_payment z) derivation) recipient"
        have "tx_hash (out_link ?out) = h" using assms(2) by (cases amt) (simp add: make_output_def)
        from on_found(2) [OF assms(1,3) this, of "os_user z" "os_db z"] obtain t t' where
          "on_output found_test (os_user z) ?out (os_db z) (os_state z) = (os_user z, t)"
          "on_output found_test (os_user z) ?out (os_db z) y = (os_user z, t')" "found_after F h t t'" by blast
        then show ?thesis using assms(3) True key own o1 Inr Some by (cases z) (auto simp: scan_output_def Let_def)
      qed
    qed
  qed
qed

lemma scan_outputs_after:
  assumes "apart F h" "tx_hash (tc_link c) = h" "found_after F h (os_state z) y"
  shows "\<exists>z1 y1 r. scan_outputs E L found_test c i derived additional mixin is z = (z1, r)
    \<and> scan_outputs E L found_test c i derived additional mixin is (z\<lparr>os_state := y\<rparr>) = (z1\<lparr>os_state := y1\<rparr>, r)
    \<and> found_after F h (os_state z1) y1 \<and> os_user z1 = os_user z \<and> os_db z1 = os_db z"
  using assms(3)
proof (induction "is" arbitrary: z y)
  case Nil
  then show ?case by auto
next
  case (Cons index rest)
  from scan_output_after [OF assms(1,2) Cons.prems] obtain z1 y1 r where
    one: "scan_output E L found_test c i derived additional mixin index z = (z1, r)"
      "scan_output E L found_test c i derived additional mixin index (z\<lparr>os_state := y\<rparr>) = (z1\<lparr>os_state := y1\<rparr>, r)"
      "found_after F h (os_state z1) y1" "os_user z1 = os_user z" "os_db z1 = os_db z" by metis
  show ?case
  proof (cases r)
    case (Inl e)
    with one show ?thesis by (cases z1) auto
  next
    case (Inr u)
    with Cons.IH [OF one(3)] one show ?thesis by simp
  qed
qed

lemma scan_user_after:
  assumes "apart F h" "tx_hash (tc_link c) = h" "found_after F h s s'"
  shows "\<exists>t t' r. scan_user E L found_test c user (d, s) = ((d, t), r) \<and> scan_user E L found_test c user (d, s') = ((d, t'), r)
    \<and> found_after F h t t' \<and> (\<forall>u. r = Inr u \<longrightarrow> u = user)"
proof (cases "tc_height c \<le> la_height user \<or> la_immutable user = None")
  case True
  then show ?thesis using assms(3) by (auto simp: scan_user_def)
next
  case False
  then obtain i where i: "la_immutable user = Some i" "\<not> tc_height c \<le> la_height user" by auto
  show ?thesis
  proof (cases "tl_derivation L (tc_pub_key c) (in_view_key i)")
    case None
    then show ?thesis using assms(3) i by (simp add: scan_user_def)
  next
    case (Some derived)
    let ?add = "additional_derivations L found_test c (in_view_key i)"
    obtain t t' r where ins: "scan_inputs found_test c (tx_vin (tc_tx c)) (0, 0) (user, s) = ((user, t), r)"
      "scan_inputs found_test c (tx_vin (tc_tx c)) (0, 0) (user, s') = ((user, t'), r)" "found_after F h t t'"
      using scan_inputs_after [OF assms] by metis
    show ?thesis
    proof (cases r)
      case (Inl e)
      then show ?thesis using ins i Some by (simp add: scan_user_def Let_def)
    next
      case (Inr me)
      obtain mixin ext where me: "me = (mixin, ext)" by (cases me)
      let ?z = "\<lparr>os_user = user, os_ext = ext, os_payment = tc_unencrypted_id c, os_db = d, os_state = t\<rparr>"
      have "found_after F h (os_state ?z) t'" using ins(3) by simp
      from scan_outputs_after [OF assms(1,2) this] obtain z1 y1 r1 where
        "scan_outputs E L found_test c i derived ?add mixin [0..<length (tx_vout (tc_tx c))] ?z = (z1, r1)"
        "scan_outputs E L found_test c i derived ?add mixin [0..<length (tx_vout (tc_tx c))] (?z\<lparr>os_state := t'\<rparr>) = (z1\<lparr>os_state := y1\<rparr>, r1)"
        "found_after F h (os_state z1) y1" "os_user z1 = user" "os_db z1 = d" by (metis output_state.select_convs(1,4))
      then show ?thesis using ins i Some Inr me by (cases r1) (simp_all add: scan_user_def Let_def)
    qed
  qed
qed

lemma pool_scan_after:
  assumes "apart F h"
  shows "pool_scan E L user d h e F = (case pool_scan E L user d h e [] of Inl err \<Rightarrow> Inl err | Inr G \<Rightarrow> Inr (F @ G))
    \<and> (\<forall>G. pool_scan E L user d h e [] = Inr G \<longrightarrow> (\<forall>x \<in> set G. fp_hash x = h))"
proof -
  let ?ids = "replicate 256 (- 1)"
  have start: "found_after F h [] F" by (simp add: found_after_def)
  show ?thesis
  proof (cases "2 < tx_version (pe_tx e)")
    case True
    then show ?thesis by (simp add: pool_scan_def scan_transaction_def)
  next
    case False
    show ?thesis
    proof (cases "make_context L found_test txpool_block (pe_timestamp e) (Some h) (pe_tx e) ?ids")
      case None
      with False show ?thesis by (simp add: pool_scan_def scan_transaction_def)
    next
      case (Some c)
      then have "tx_hash (tc_link c) = h" by (auto simp: make_context_def Let_def)
      from scan_user_after [OF assms this start, of E L user d] obtain t t' r where
        "scan_user E L found_test c user (d, []) = ((d, t), r)" "scan_user E L found_test c user (d, F) = ((d, t'), r)" "found_after F h t t'" by metis
      with False Some show ?thesis by (cases r) (simp_all add: pool_scan_def scan_transaction_def found_after_def)
    qed
  qed
qed

section \<open>A scan with the cache\<close>

text \<open>A transaction in which the account finds nothing.\<close>

definition nothing_found :: "env \<Rightarrow> tx_library \<Rightarrow> lws_account \<Rightarrow> db \<Rightarrow> hash \<times> pool_entry \<Rightarrow> bool" where
  "nothing_found E L user d tx \<longleftrightarrow> pool_scan E L user d (fst tx) (snd tx) [] = Inr []"

lemma apart_keys: "fp_hash ` set F \<inter> insert h K = {} \<Longrightarrow> apart F h"
  by (auto simp: apart_def dest: last_in_set)

lemma found_part:
  assumes "pool_scan E L user d h e [] = Inr G" "apart F h"
  shows "F @ G = [] \<or> fp_hash (last (F @ G)) \<noteq> h \<longleftrightarrow> G = []"
proof -
  have "\<forall>x \<in> set G. fp_hash x = h" using pool_scan_after [OF assms(2)] assms(1) by blast
  then show ?thesis using assms(2) last_in_set [of G] by (cases G) (auto simp: apart_def)
qed

lemma scan_pool_skip:
  assumes "distinct (map fst txs)" "fp_hash ` set F \<inter> fst ` set txs = {}" "\<forall>tx \<in> set txs. fst tx \<in> set skip \<longrightarrow> nothing_found E L user d tx"
  shows "scan_pool E L user d skip txs (F, K) = scan_pool E L user d [] txs (F, K)
    \<and> (\<forall>F1 K1. scan_pool E L user d [] txs (F, K) = Inr (F1, K1) \<longrightarrow> set K1 \<subseteq> set K \<union> fst ` {tx \<in> set txs. nothing_found E L user d tx})"
  using assms
proof (induction txs arbitrary: F K)
  case Nil
  then show ?case by simp
next
  case (Cons tx txs)
  obtain h e where tx: "tx = (h, e)" by (cases tx)
  have ap: "apart F h" by (rule apart_keys [where K = "fst ` set txs"]) (use Cons.prems(2) tx in auto)
  show ?case
  proof (cases "pool_scan E L user d h e []")
    case (Inl err)
    then have "\<not> nothing_found E L user d tx" by (simp add: nothing_found_def tx)
    then have "h \<notin> set skip" using Cons.prems(3) tx by auto
    then show ?thesis using pool_scan_after [OF ap, of E L user d e] Inl by (simp add: tx ebind_def)
  next
    case (Inr G)
    have scan: "pool_scan E L user d h e F = Inr (F @ G)" and G: "\<forall>x \<in> set G. fp_hash x = h"
      using pool_scan_after [OF ap, of E L user d e] Inr by simp_all
    have skipped: "h \<in> set skip \<Longrightarrow> G = []" using Cons.prems(3) Inr by (simp add: tx nothing_found_def)
    let ?K = "if G = [] then K @ [h] else K"
    have step: "scan_pool E L user d sk (tx # txs) (F, K) = scan_pool E L user d sk txs (F @ G, ?K)" if "h \<in> set sk \<Longrightarrow> G = []" for sk
      using that scan found_part [OF Inr ap] by (auto simp: tx)
    have "fp_hash ` set (F @ G) \<inter> fst ` set txs = {}" using Cons.prems(1,2) G by (auto simp: tx)
    with Cons.prems have IH: "scan_pool E L user d skip txs (F @ G, ?K) = scan_pool E L user d [] txs (F @ G, ?K)"
      "\<And>F1 K1. scan_pool E L user d [] txs (F @ G, ?K) = Inr (F1, K1) \<Longrightarrow>
         set K1 \<subseteq> set ?K \<union> fst ` {tx \<in> set txs. nothing_found E L user d tx}"
      using Cons.IH [of "F @ G" ?K] by auto
    have "G = [] \<Longrightarrow> nothing_found E L user d tx" using Inr by (simp add: nothing_found_def tx)
    then have sub: "set ?K \<union> fst ` {tx \<in> set txs. nothing_found E L user d tx} \<subseteq> set K \<union> fst ` {tx1 \<in> set (tx # txs). nothing_found E L user d tx1}"
      by (cases "G = []") (force simp: tx)+
    have "set K1 \<subseteq> set K \<union> fst ` {tx1 \<in> set (tx # txs). nothing_found E L user d tx1}"
      if "scan_pool E L user d [] (tx # txs) (F, K) = Inr (F1, K1)" for F1 K1
    proof -
      have "scan_pool E L user d [] txs (F @ G, ?K) = Inr (F1, K1)" using that step [of "[]"] by simp
      from IH(2) [OF this] sub show ?thesis by (rule subset_trans)
    qed
    moreover have "scan_pool E L user d skip (tx # txs) (F, K) = scan_pool E L user d [] (tx # txs) (F, K)"
      using IH(1) step [OF skipped] step [of "[]"] by simp
    ultimately show ?thesis by blast
  qed
qed

section \<open>The pool in use\<close>

text \<open>
  Requests for the accounts \<open>acct\<close> scan the pool while new transactions arrive. The accounts and the database do not change
  meanwhile.
\<close>

datatype pool_op = Scan account_address | Add u64 "transaction list"

fun pool_step :: "(pool_table \<Rightarrow> pool_table) \<Rightarrow> env \<Rightarrow> tx_library \<Rightarrow> (account_address \<Rightarrow> lws_account) \<Rightarrow> db \<Rightarrow> pool_op \<Rightarrow> mempool \<Rightarrow> mempool" where
  "pool_step ord E L acct d (Scan address) p = fst (scan_account ord E L (acct address) d p)"
| "pool_step ord E L acct d (Add now txs) p = add_txs L now txs p"

text \<open>What is remembered for an account is in the pool and not for the account; the snapshot is the pool.\<close>

definition remembered_ok :: "env \<Rightarrow> tx_library \<Rightarrow> lws_account \<Rightarrow> db \<Rightarrow> pool_table \<Rightarrow> hash list \<Rightarrow> bool" where
  "remembered_ok E L user d txs hs \<longleftrightarrow> set hs \<subseteq> fst ` {tx \<in> set txs. nothing_found E L user d tx}"

definition pool_ok :: "env \<Rightarrow> tx_library \<Rightarrow> (account_address \<Rightarrow> lws_account) \<Rightarrow> db \<Rightarrow> mempool \<Rightarrow> bool" where
  "pool_ok E L acct d p \<longleftrightarrow> distinct (map fst (mp_state p))
     \<and> (\<forall>txs. mp_snapshot p = Some txs \<longrightarrow> mset txs = mset (mp_state p))
     \<and> (\<forall>address e. map_of (ac_map (mp_cache p)) address = Some e \<longrightarrow> remembered_ok E L (acct address) d (mp_state p) (ce_txids e))"

lemma remembered_ok_mset: "mset txs = mset txs' \<Longrightarrow> remembered_ok E L user d txs = remembered_ok E L user d txs'"
  using mset_eq_setD [of txs txs'] by (simp add: remembered_ok_def fun_eq_iff)

lemma emplace_keeps:
  assumes "distinct (map fst txs)"
  shows "distinct (map fst (emplace_tx h e txs)) \<and> set txs \<subseteq> set (emplace_tx h e txs)"
  using assms by (auto simp: emplace_tx_def map_of_eq_None_iff)

lemma add_txs_keeps:
  assumes "distinct (map fst st)"
  shows "distinct (map fst (fold (\<lambda>tx. emplace_tx (f tx) (g tx)) txs st)) \<and> set st \<subseteq> set (fold (\<lambda>tx. emplace_tx (f tx) (g tx)) txs st)"
  using assms
proof (induction txs arbitrary: st)
  case (Cons tx txs)
  from emplace_keeps [OF Cons.prems, of "f tx" "g tx"] Cons.IH [of "emplace_tx (f tx) (g tx) st"] show ?case by auto
qed simp

lemma cache_set_lookup:
  assumes "map_of (ac_map (cache_set address subaddrs txids c)) a = Some e"
  shows "e = \<lparr>ce_subaddrs = subaddrs, ce_txids = txids\<rparr> \<and> a = address \<or> map_of (ac_map c) a = Some e"
proof -
  have "map_of (AList.delete x (AList.update address \<lparr>ce_subaddrs = subaddrs, ce_txids = txids\<rparr> (ac_map c))) a = Some e \<Longrightarrow>
      map_of (AList.update address \<lparr>ce_subaddrs = subaddrs, ce_txids = txids\<rparr> (ac_map c)) a = Some e" for x
    by (auto simp: delete_conv' split: if_splits)
  then have "map_of (AList.update address \<lparr>ce_subaddrs = subaddrs, ce_txids = txids\<rparr> (ac_map c)) a = Some e"
    using assms by (auto simp: cache_set_def Let_def split: if_splits)
  then show ?thesis by (auto simp: update_conv' split: if_splits)
qed

lemma scan_account_ok:
  assumes ord: "\<And>txs. mset (ord txs) = mset txs" and ok: "pool_ok E L acct d p" and user: "db_address (acct address) = Inr address"
  shows "snd (scan_account ord E L (acct address) d p) = snd (scan_account ord E L (acct address) d (p\<lparr>mp_cache := empty_cache\<rparr>))
    \<and> pool_ok E L acct d (fst (scan_account ord E L (acct address) d p))"
proof -
  let ?user = "acct address" and ?snap = "take_snapshot ord p"
  let ?subs = "get_subaddresses E d (la_id ?user)"
  let ?skip = "cache_get address ?subs (mp_cache p)"
  have snap: "mset ?snap = mset (mp_state p)" using ok ord by (auto simp: take_snapshot_def pool_ok_def split: option.split)
  then have "mset (map fst ?snap) = mset (map fst (mp_state p))" by simp
  moreover have "distinct (map fst (mp_state p))" using ok by (simp add: pool_ok_def)
  ultimately have d: "distinct (map fst ?snap)" by (metis mset_eq_imp_distinct_iff)
  have "remembered_ok E L ?user d (mp_state p) ?skip"
  proof (cases "map_of (ac_map (mp_cache p)) address")
    case None
    then show ?thesis by (simp add: cache_get_def remembered_ok_def)
  next
    case (Some e)
    then have "remembered_ok E L ?user d (mp_state p) (ce_txids e)" using ok by (simp add: pool_ok_def)
    then show ?thesis using Some by (simp add: cache_get_def remembered_ok_def)
  qed
  then have "remembered_ok E L ?user d ?snap ?skip" by (simp add: remembered_ok_mset [OF snap])
  then have rem: "set ?skip \<subseteq> fst ` {tx \<in> set ?snap. nothing_found E L ?user d tx}" by (simp add: remembered_ok_def)
  have clean: "\<forall>tx \<in> set ?snap. fst tx \<in> set ?skip \<longrightarrow> nothing_found E L ?user d tx"
  proof (intro ballI impI)
    fix tx assume tx: "tx \<in> set ?snap" "fst tx \<in> set ?skip"
    with rem obtain tx1 where tx1: "tx1 \<in> set ?snap" "nothing_found E L ?user d tx1" "fst tx1 = fst tx" by auto
    with d tx(1) have "tx1 = tx" by (simp add: distinct_map inj_on_def)
    with tx1(2) show "nothing_found E L ?user d tx" by simp
  qed
  have none: "cache_get address ?subs empty_cache = []" by (simp add: cache_get_def empty_cache_def)
  have other: "take_snapshot ord (p\<lparr>mp_cache := empty_cache\<rparr>) = ?snap" by (simp add: take_snapshot_def split: option.split)
  from scan_pool_skip [OF d _ clean, of "[]" "[]"] have same:
    "scan_pool E L ?user d ?skip ?snap ([], []) = scan_pool E L ?user d [] ?snap ([], [])"
    "\<And>F1 K1. scan_pool E L ?user d [] ?snap ([], []) = Inr (F1, K1) \<Longrightarrow> remembered_ok E L ?user d ?snap K1"
    by (auto simp: remembered_ok_def)
  show ?thesis
  proof (cases "scan_pool E L ?user d [] ?snap ([], [])")
    case (Inl err)
    then show ?thesis using ok snap same(1) by (simp add: scan_account_def user none other pool_ok_def Let_def)
  next
    case (Inr r)
    obtain F1 K1 where r: "r = (F1, K1)" by (cases r)
    have K1: "remembered_ok E L ?user d (mp_state p) K1" using same(2) [of F1 K1] Inr r by (simp add: remembered_ok_mset [OF snap])
    have "pool_ok E L acct d (p\<lparr>mp_snapshot := Some ?snap, mp_cache := cache_set address ?subs K1 (mp_cache p)\<rparr>)"
      using ok snap K1 by (auto simp: pool_ok_def dest!: cache_set_lookup)
    then show ?thesis using same(1) Inr r by (simp add: scan_account_def user none other Let_def)
  qed
qed

lemma add_txs_ok:
  assumes "pool_ok E L acct d p"
  shows "pool_ok E L acct d (add_txs L now txs p)"
proof -
  from assms have "distinct (map fst (mp_state p))" by (simp add: pool_ok_def)
  from add_txs_keeps [OF this, of "tl_tx_hash L" "\<lambda>tx. \<lparr>pe_tx = tx, pe_timestamp = now\<rparr>" txs] assms show ?thesis
    unfolding pool_ok_def remembered_ok_def add_txs_def by fastforce
qed

text \<open>
  C17: the cache of pool scans changes no answer. Start with any pool and an empty cache, let requests scan it for accounts and let transactions
  arrive, in any order. As long as accounts and database stay the same, every further scan finds, in the same order, what it finds with an empty cache,
  and fails exactly when that one fails.
\<close>

theorem pool_cache_transparent:
  assumes "\<And>txs. mset (ord txs) = mset txs" and "\<And>address. db_address (acct address) = Inr address"
    and "mp_cache p0 = empty_cache" and "mp_snapshot p0 = None" and "distinct (map fst (mp_state p0))"
    and "p = fold (pool_step ord E L acct d) ops p0"
  shows "snd (scan_account ord E L (acct address) d p) = snd (scan_account ord E L (acct address) d (p\<lparr>mp_cache := empty_cache\<rparr>))"
proof -
  have "pool_ok E L acct d (fold (pool_step ord E L acct d) ops p1)" if "pool_ok E L acct d p1" for p1
    using that
  proof (induction ops arbitrary: p1)
    case (Cons op ops)
    have "pool_ok E L acct d (pool_step ord E L acct d op p1)"
      by (cases op) (use Cons.prems scan_account_ok [OF assms(1) Cons.prems assms(2)] add_txs_ok in auto)
    from Cons.IH [OF this] show ?case by simp
  qed simp
  moreover have "pool_ok E L acct d p0" using assms(3-5) by (simp add: pool_ok_def empty_cache_def)
  ultimately show ?thesis using scan_account_ok [where ord = ord and p = p and address = address and acct = acct, OF assms(1) _ assms(2)] assms(6) by simp
qed

definition sample_owner :: "account_address \<Rightarrow> lws_account" where
  "sample_owner address = (sample_scanners ! 0)\<lparr>la_immutable := Some \<lparr>in_address = ''addr'', in_id = 1, in_pubs = address, in_view_key = 1\<rparr>\<rparr>"

definition sample_pool :: mempool where
  "sample_pool = \<lparr>mp_state = [(8, \<lparr>pe_tx = sample_tx\<lparr>tx_vin := [], tx_vout := []\<rparr>, pe_timestamp = 5\<rparr>)], mp_cache = empty_cache, mp_snapshot = None\<rparr>"

definition sample_pool_ops :: "pool_op list" where
  "sample_pool_ops = [Scan (Account_address 1001 1), Add 6 [sample_tx], Scan (Account_address 1001 1)]"

theorem pool_cache_transparent_witness:
  "let p = fold (pool_step rev sample_env sample_library sample_owner sample_db) sample_pool_ops sample_pool in
     cache_get (Account_address 1001 1) (get_subaddresses sample_env sample_db 1) (mp_cache p) = [8]
     \<and> map_sum id (map fp_hash) (snd (scan_account rev sample_env sample_library (sample_owner (Account_address 1001 1)) sample_db p)) = Inr [9]
     \<and> map_sum id (map fp_hash) (snd (scan_account rev sample_env sample_library (sample_owner (Account_address 1001 1)) sample_db (p\<lparr>mp_cache := empty_cache\<rparr>))) = Inr [9]"
proof -
  let ?p = "fold (pool_step rev sample_env sample_library sample_owner sample_db) sample_pool_ops sample_pool"
  have "cache_get (Account_address 1001 1) (get_subaddresses sample_env sample_db 1) (mp_cache ?p) = [8]" by code_simp
  moreover have "map_sum id (map fp_hash) (snd (scan_account rev sample_env sample_library (sample_owner (Account_address 1001 1)) sample_db ?p)) = Inr [9]" by code_simp
  moreover have "snd (scan_account rev sample_env sample_library (sample_owner (Account_address 1001 1)) sample_db ?p)
      = snd (scan_account rev sample_env sample_library (sample_owner (Account_address 1001 1)) sample_db (?p\<lparr>mp_cache := empty_cache\<rparr>))"
    by (rule pool_cache_transparent [where ops = sample_pool_ops and ?p0.0 = sample_pool, OF _ _ _ _ _ refl])
      (simp_all add: sample_owner_def db_address_def null_check_def sample_pool_def)
  ultimately show ?thesis by (simp add: Let_def)
qed

text \<open>What a scan remembers: the transactions without an element. With hashes to skip it finds what is left without them.\<close>

lemma scan_pool_found:
  assumes "distinct (map fst txs)" "fp_hash ` set F \<inter> fst ` set txs = {}" "scan_pool E L user d skip txs (F, K) = Inr (F1, K1)"
  shows "\<exists>G. F1 = F @ G \<and> fp_hash ` set G \<subseteq> fst ` set txs \<and> set K1 = set K \<union> (fst ` set txs - fp_hash ` set G)"
  using assms
proof (induction txs arbitrary: F K)
  case Nil
  then show ?case by simp
next
  case (Cons tx txs)
  obtain h e where tx: "tx = (h, e)" by (cases tx)
  have ap: "apart F h" by (rule apart_keys [where K = "fst ` set txs"]) (use Cons.prems(2) tx in auto)
  obtain F2 where F2: "(if h \<in> set skip then Inr F else pool_scan E L user d h e F) = Inr F2"
    "scan_pool E L user d skip txs (F2, if F2 = [] \<or> fp_hash (last F2) \<noteq> h then K @ [h] else K) = Inr (F1, K1)"
    using Cons.prems(3) unfolding tx scan_pool.simps ebind_eq_Inr by metis
  have "\<exists>G. F2 = F @ G \<and> (\<forall>x \<in> set G. fp_hash x = h)"
    using F2(1) pool_scan_after [OF ap, of E L user d e] by (auto split: if_splits sum.splits)
  then obtain G where G: "F2 = F @ G" "\<forall>x \<in> set G. fp_hash x = h" by blast
  have part: "F2 = [] \<or> fp_hash (last F2) \<noteq> h \<longleftrightarrow> G = []"
    using G ap last_in_set [of G] by (cases G) (auto simp: apart_def)
  have "fp_hash ` set F2 \<inter> fst ` set txs = {}" using Cons.prems(1,2) G by (auto simp: tx)
  from Cons.IH [OF _ this F2(2) [unfolded part]] Cons.prems(1) obtain G2 where G2: "F1 = F2 @ G2" "fp_hash ` set G2 \<subseteq> fst ` set txs"
    "set K1 = set (if G = [] then K @ [h] else K) \<union> (fst ` set txs - fp_hash ` set G2)" by (auto simp: tx)
  have new: "h \<notin> fst ` set txs" using Cons.prems(1) by (simp add: tx)
  have hash: "fp_hash ` set (G @ G2) = (if G = [] then {} else {h}) \<union> fp_hash ` set G2"
    using G(2) by (cases G) auto
  show ?case
  proof (intro exI conjI)
    show "F1 = F @ (G @ G2)" using G2(1) G(1) by simp
    show "fp_hash ` set (G @ G2) \<subseteq> fst ` set (tx # txs)" unfolding hash using G2(2) by (auto simp: tx)
    show "set K1 = set K \<union> (fst ` set (tx # txs) - fp_hash ` set (G @ G2))"
      unfolding hash G2(3) using G2(2) new by (auto simp: tx)
  qed
qed

lemma scan_pool_rest:
  assumes "distinct (map fst txs)" "fp_hash ` set F \<inter> fst ` set txs = {}" "fp_hash ` set F' \<inter> fst ` set txs = {}"
    and "scan_pool E L user d [] txs (F, K) = Inr (F1, K1)"
  shows "\<exists>G K2. F1 = F @ G \<and> scan_pool E L user d skip txs (F', K') = Inr (F' @ filter (\<lambda>x. fp_hash x \<notin> set skip) G, K2)"
  using assms
proof (induction txs arbitrary: F K F' K')
  case Nil
  then show ?case by simp
next
  case (Cons tx txs)
  obtain h e where tx: "tx = (h, e)" by (cases tx)
  have ap: "apart F h" "apart F' h" by (rule apart_keys [where K = "fst ` set txs"]; use Cons.prems(2,3) tx in auto)+
  obtain F2 K2 where F2: "pool_scan E L user d h e F = Inr F2" "scan_pool E L user d [] txs (F2, K2) = Inr (F1, K1)"
    using Cons.prems(4) unfolding tx scan_pool.simps ebind_eq_Inr by (metis empty_iff empty_set)
  then obtain G where G: "pool_scan E L user d h e [] = Inr G" "F2 = F @ G"
    using pool_scan_after [OF ap(1), of E L user d e] by (auto split: sum.splits)
  then have hash: "\<forall>x \<in> set G. fp_hash x = h" and again: "pool_scan E L user d h e F' = Inr (F' @ G)"
    using pool_scan_after [OF ap(2), of E L user d e] by simp_all
  let ?F = "if h \<in> set skip then F' else F' @ G"
  have one: "F' @ filter (\<lambda>x. fp_hash x \<notin> set skip) G = ?F" using hash by (auto simp: filter_id_conv)
  have apart: "fp_hash ` set F2 \<inter> fst ` set txs = {}" "fp_hash ` set ?F \<inter> fst ` set txs = {}"
    using Cons.prems(1-3) G(2) hash by (auto simp: tx)
  let ?K = "if ?F = [] \<or> fp_hash (last ?F) \<noteq> h then K' @ [h] else K'"
  have "scan_pool E L user d skip (tx # txs) (F', K') = scan_pool E L user d skip txs (?F, ?K)"
    using again by (simp add: tx)
  then obtain K3 where "scan_pool E L user d skip (tx # txs) (F', K') = scan_pool E L user d skip txs (?F, K3)" by blast
  moreover have "distinct (map fst txs)" using Cons.prems(1) by simp
  from Cons.IH [OF this apart F2(2)] obtain G2 K4 where "F1 = F2 @ G2"
    "scan_pool E L user d skip txs (?F, K3) = Inr (?F @ filter (\<lambda>x. fp_hash x \<notin> set skip) G2, K4)" by metis
  ultimately show ?case using G(2) unfolding one [symmetric] by (intro exI [of _ "G @ G2"] exI [of _ K4]) simp
qed

lemma cache_set_get:
  "cache_get address subaddrs (cache_set address subaddrs txids (cache_run ops)) = txids"
proof -
  let ?ops = "ops @ [(address, subaddrs, txids)]"
  have run: "cache_set address subaddrs txids (cache_run ops) = cache_run ?ops" by (simp add: cache_run_def)
  have "max_cache_size - 1 = Suc 998" by (simp add: max_cache_size_def)
  then have "address \<in> set (take (max_cache_size - 1) (last_used ?ops))" by (simp add: last_used_def)
  moreover have "last_value ?ops address = Some \<lparr>ce_subaddrs = subaddrs, ce_txids = txids\<rparr>" by (simp add: last_value_def)
  ultimately show ?thesis unfolding run cache_get_def using lru_ok_run [of ?ops] by (simp add: lru_ok_def)
qed

text \<open>
  C37: the cache does not notice that the account has changed. Let a request scan the pool for an account and let the account then change, its
  known outputs above all, but not its address and its table of subaddresses. As long as the pool stays, the next request gets, of all that a scan
  without the cache finds for the account as it is now, only the transactions in which the first scan had already found something. A spend of an output stored in between, in a
  transaction that was not found before, is not shown.
\<close>

theorem stale_cache_hides_spend:
  assumes "mp_cache p = cache_run ops" and "distinct (map fst (take_snapshot ord p))"
    and "db_address before = Inr address" and "db_address after = Inr address"
    and "get_subaddresses E d' (la_id after) = get_subaddresses E d (la_id before)"
    and "scan_account ord E L before d p = (p1, Inr seen)"
    and "snd (scan_account ord E L after d' (p1\<lparr>mp_cache := empty_cache\<rparr>)) = Inr full"
  shows "snd (scan_account ord E L after d' p1) = Inr (filter (\<lambda>x. fp_hash x \<in> fp_hash ` set seen) full)"
proof -
  let ?snap = "take_snapshot ord p" and ?subs = "get_subaddresses E d (la_id before)"
  from assms(3,6) obtain skipped where first: "scan_pool E L before d (cache_get address ?subs (mp_cache p)) ?snap ([], []) = Inr (seen, skipped)"
    and p1: "p1 = p\<lparr>mp_snapshot := Some ?snap, mp_cache := cache_set address ?subs skipped (mp_cache p)\<rparr>"
    by (auto simp: scan_account_def Let_def split: sum.splits)
  have get: "cache_get address ?subs (mp_cache p1) = skipped" unfolding p1 using cache_set_get assms(1) by simp
  have snap: "take_snapshot ord p1 = ?snap" "take_snapshot ord (p1\<lparr>mp_cache := empty_cache\<rparr>) = ?snap" unfolding p1 by (simp_all add: take_snapshot_def)
  have "cache_get address ?subs empty_cache = []" by (simp add: cache_get_def empty_cache_def)
  then obtain K where full: "scan_pool E L after d' [] ?snap ([], []) = Inr (full, K)"
    using assms(7) snap(2) by (auto simp: scan_account_def assms(4,5) Let_def split: sum.splits)
  from scan_pool_found [OF assms(2) _ first] have skipped: "set skipped = fst ` set ?snap - fp_hash ` set seen" by auto
  from scan_pool_found [OF assms(2) _ full] have "fp_hash ` set full \<subseteq> fst ` set ?snap" by auto
  then have same: "filter (\<lambda>x. fp_hash x \<notin> set skipped) full = filter (\<lambda>x. fp_hash x \<in> fp_hash ` set seen) full"
    unfolding skipped by (intro filter_cong refl) auto
  from scan_pool_rest [OF assms(2) _ _ full, of "[]" skipped "[]"] same
  obtain K2 where "scan_pool E L after d' skipped ?snap ([], []) = Inr (filter (\<lambda>x. fp_hash x \<in> fp_hash ` set seen) full, K2)" by auto
  then show ?thesis by (simp add: scan_account_def assms(4,5) Let_def snap get)
qed

theorem stale_cache_hides_spend_witness:
  "let address = Account_address 1001 1;
       p = sample_pool\<lparr>mp_state := [(9, \<lparr>pe_tx = sample_tx\<lparr>tx_vout := []\<rparr>, pe_timestamp = 5\<rparr>)]\<rparr>;
       p1 = fst (scan_account id sample_env sample_library ((sample_owner address)\<lparr>la_spendable := []\<rparr>) sample_db p) in
     map_sum id (map fp_hash) (snd (scan_account id sample_env sample_library (sample_owner address) sample_db (p1\<lparr>mp_cache := empty_cache\<rparr>))) = Inr [9]
     \<and> snd (scan_account id sample_env sample_library (sample_owner address) sample_db p1) = Inr []"
proof -
  let ?address = "Account_address 1001 1"
  let ?p = "sample_pool\<lparr>mp_state := [(9, \<lparr>pe_tx = sample_tx\<lparr>tx_vout := []\<rparr>, pe_timestamp = 5\<rparr>)]\<rparr>"
  let ?before = "(sample_owner ?address)\<lparr>la_spendable := []\<rparr>" and ?after = "sample_owner ?address"
  let ?first = "scan_account id sample_env sample_library ?before sample_db ?p"
  let ?second = "\<lambda>c. snd (scan_account id sample_env sample_library ?after sample_db ((fst ?first)\<lparr>mp_cache := c\<rparr>))"
  have seen: "map_sum id (map fp_hash) (snd ?first) = Inr []" and full: "map_sum id (map fp_hash) (?second empty_cache) = Inr [9]" by code_simp+
  from seen have first: "?first = (fst ?first, Inr [])" by (cases ?first; cases "snd ?first") auto
  from full obtain found where found: "?second empty_cache = Inr found" by (cases "?second empty_cache") auto
  have pool: "mp_cache ?p = cache_run []" "distinct (map fst (take_snapshot id ?p))" by (simp_all add: cache_run_def sample_pool_def take_snapshot_def)
  have user: "db_address ?before = Inr ?address" "db_address ?after = Inr ?address" "la_id ?after = la_id ?before"
    by (simp_all add: sample_owner_def db_address_def null_check_def la_id_def)
  then have "get_subaddresses sample_env sample_db (la_id ?after) = get_subaddresses sample_env sample_db (la_id ?before)" by simp
  from stale_cache_hides_spend [OF pool user(1,2) this first found]
  have "snd (scan_account id sample_env sample_library ?after sample_db (fst ?first)) = Inr []" by simp
  with full show ?thesis by (simp only: Let_def simp_thms)
qed

end
