(* ===== verification/Spec2Isabelle.thy ===== *)
theory Spec2Isabelle
  imports Storage_Findings Update_Result Random_Outputs Rest_Totals Rest_Admin Scanner_Sync Scanner_Thread Scanner_Assign Msgpack_Result Mempool_Result
begin

text \<open>
  A verification development for monero-lws, a light wallet server for Monero. Wallets give the server their view keys; the
  server scans every block for outputs received and ring members spent, keeps the results in an LMDB database, and answers
  the requests of wallets from it.

  \<^bold>\<open>The program and its model.\<close>
  \<^item> Storage (\<^verbatim>\<open>src/db/storage.cpp\<close>, \<^verbatim>\<open>data.h\<close>, \<^verbatim>\<open>data.cpp\<close>). \<open>Prelude\<close> has the integer types, the errors and the
    \<^verbatim>\<open>expect\<close> results; \<open>Lmdb_Table\<close> the interface of a sorted table with duplicates, as a record of operations and a locale
    of their laws, and its implementation by lists; \<open>Data\<close> the structs; \<open>Storage_State\<close> the record of all tables. \<open>Storage_Chain\<close>,
    \<open>Storage_Subaddress\<close>, \<open>Storage_Accounts\<close> and \<open>Storage_Update\<close> model the operations: blocks and proof of work,
    rollback, synchronisation; subaddress ranges and lookahead; accounts, status, rescan, requests; the storing of a scan with its webhooks.
  \<^item> Accounts in memory (\<^verbatim>\<open>src/db/account.cpp\<close>): \<open>Account\<close>.
  \<^item> The test of a transaction (\<^verbatim>\<open>src/util/ownership_test.cpp\<close>, \<^verbatim>\<open>transactions.cpp\<close>): \<open>Ownership\<close>.
  \<^item> The scanner (\<^verbatim>\<open>src/scanner.cpp\<close>, \<^verbatim>\<open>src/util/blocks.cpp\<close>): \<open>Scanner_Threads\<close> divides accounts among threads,
    \<open>Scanner\<close> has the loop of a thread (answers of the daemon, account changes, waiting, proof of work, storing) and the synchronisation
    before it, \<open>Scanner_Queue\<close> the queue to a thread (\<^verbatim>\<open>src/rpc/scanner/queue.cpp\<close>), \<open>Scanner_Server\<close> the server and the
    client for remote scanners (\<^verbatim>\<open>src/rpc/scanner/server.cpp\<close>, \<^verbatim>\<open>client.cpp\<close>, \<^verbatim>\<open>read_commands.h\<close>).
  \<^item> The REST server (\<^verbatim>\<open>src/rest_server.cpp\<close>, \<^verbatim>\<open>src/rpc/light_wallet.cpp\<close>, \<^verbatim>\<open>login.cpp\<close>) and its administration
    (\<^verbatim>\<open>src/rpc/admin.cpp\<close>): \<open>Light_Wallet\<close> merges outputs and spends into transactions, \<open>Rest\<close> has the handlers, \<open>Rest_Admin\<close> the
    administration requests, the tables of endpoints and the dispatch.
  \<^item> Decoys for new transactions (\<^verbatim>\<open>src/util/gamma_picker.cpp\<close>, \<^verbatim>\<open>random_outputs.cpp\<close>): \<open>Random_Outputs\<close>.
  \<^item> The pool (\<^verbatim>\<open>src/mempool.cpp\<close>), scanned for a wallet by the same test, with a cache: \<open>Mempool\<close>.
  \<^item> The msgpack format (\<^verbatim>\<open>src/wire/msgpack\<close>), used in the database and to remote scanners: \<open>Msgpack\<close>.

  Scanner threads take accounts from their queue, fetch blocks, test every transaction, and hand the results to
  \<^verbatim>\<open>storage::update\<close>, which moves the accounts forward only if they still join on. The REST handlers read the
  same tables. State is passed explicitly: an operation maps the database record to an error or the new record, an operation that is one
  write transaction leaves the old record on an error. Objects with threads behind a mutex or a strand are sequences of their operations.

  \<^bold>\<open>What is shown.\<close>
  \<^item> \<open>Storage_Index\<close>, \<open>Storage_Rollback\<close>, \<open>Storage_Steps\<close>, \<open>Storage_Reach\<close>: in every reachable database the tables are sorted, the two
    account indexes agree with the accounts, nothing is stored above a scan height, every spend has its key image; a rollback
    removes exactly what is at or above its height.
  \<^item> \<open>Storage_Directory\<close>: the account operations refine a map from addresses to accounts. \<open>Subaddress_Upsert\<close>: ranges, limits and
    lookup of subaddresses. \<open>Update_Result\<close>: which accounts advance and the exact rows of outputs afterwards. \<open>Storage_Findings\<close>: two ways
    in which a transaction that is meant to change all or nothing changes a part.
  \<^item> \<open>Ownership_Result\<close>: spends are recorded exactly, credited outputs belong to the account and open their commitments, and no output is missed.
  \<^item> \<open>Scanner_Result\<close>: one answer of the daemon moves a thread forward without a gap and stores every output as it is in the block; \<open>Scanner_Sync\<close>: an
    untrusted daemon brings in only proven blocks; \<open>Scanner_Thread\<close>, \<open>Scanner_Queue\<close>, \<open>Scanner_Assign\<close>: accounts are neither lost nor
    scanned twice on their way to threads and remote scanners, with the exceptions stated there, and remote scanners need the password.
  \<^item> \<open>Rest_Safety\<close>, \<open>Rest_Admin\<close>: requests without the view key of an account leave it alone, requests without an administrator key have
    no effect. \<open>Rest_Totals\<close>, \<open>Light_Wallet\<close>: lists and totals are those of the stored outputs and spends, and of the pool where it counts.
  \<^item> \<open>Mempool_Result\<close>: the cache keeps the addresses used last and changes no answer while the account stays the same; exactly which
    transactions are not shown when it has changed.
  \<^item> \<open>Random_Outputs\<close>: the rings returned. \<open>Msgpack_Result\<close>: numbers round trip, and unknown values are skipped exactly.
  \<^item> This theory: an output received in a block is shown to the wallet, from the test of the transaction through the storage to the response.

  \<^bold>\<open>Parameters and bounds.\<close> LMDB is the locale \<open>dupsort_table\<close>, interpreted on sorted lists. Cryptography, the daemon, random numbers,
  the clock, address encoding and the password check are parameters. Hypotheses that appear in properties: \<open>storage_env\<close> (the tables follow the laws
  of LMDB), \<open>storage_inv\<close> (the invariant of reachable databases), \<open>scan_report_ok\<close> and \<open>spends_unique\<close> (a report has the form a thread gives it, and
  no spend is stored under two outputs), \<open>sources_ok\<close> (a stored spend has its output stored at or before it), \<open>client_inv\<close> (the state a client
  leaves), and that numbers of rows and blocks stay below the width of their counters. The only fuel is that of the code: 64 rounds of decoys and 100 tries per
  pick. Loops over messages of a daemon take the list of its answers; the loop that hands over accounts and \<^verbatim>\<open>skip_value\<close> have termination proofs.

  \<^bold>\<open>Not modelled.\<close> LMDB input and output errors and limits on the size of a value; version conversion of the files; JSON and the field lists
  of messages; sockets, TLS, ZeroMQ, timers and the asynchronous resumption of REST requests that wait for the daemon; exchange rates, webhook delivery, command lines. Floating point appears only as parameters.
\<close>

section \<open>From the block to the wallet\<close>

text \<open>
  C6: an output received in a block is shown to the wallet. Take an output of an account in any block of an answer of the daemon, as in the
  property of the scan loop, and let the blocks be stored. The list of transactions \<^verbatim>\<open>get_address_txs\<close> then
  builds for the account is built without an error, and among the outputs received is this very one: with its one-time key, height, transaction, index,
  global id, subaddress and the amount that opens the commitment. The spends stored for the account must have their outputs stored at or before them.
\<close>

theorem received_is_shown:
  assumes "storage_env (se_storage S)" and "storage_inv (ls_db st)" and "fresh_users (ls_users st)" and "aligned fetched (ls_users st)"
    and "message_ok fetched" and "scan_result S fetched st = Some t"
    and "spends_unique (set (db_spends (ls_db st)) \<union> reported (bs_users t))"
    and "distinct (map la_id (ls_users st))" and "list_all (same_address (db_accounts (bs_db t))) (ls_users st)"
    and "loop_blocks S fetched st = (d', Goes_on st')"
    and "n < length (ls_users st)" and "r \<in> set (db_accounts (bs_db t))" and "due (last_height fetched) (ls_users st ! n) (snd r)"
    and "k < length (new_blocks fetched)" and "item \<in> block_items (fst (new_blocks fetched ! k)) (snd (new_blocks fetched ! k))"
    and "receives S (la_height (ls_users st ! 0) + of_nat (Suc k)) (cb_timestamp (fst (new_blocks fetched ! k))) item
      (ls_users st ! n) (ls_db st) (bs_db t) c i derived index P"
    and "acc_scan_height (snd r) < la_height (ls_users st ! 0) + of_nat (Suc k)"
    and "sole_output S fetched k item index"
    and "P \<notin> set (la_pubs (ls_users st ! n))"
    and "acc_id acct = la_id (ls_users st ! n)" and "get_last_block (se_storage S) d' = Inr b"
    and "sources_ok [] (get_outputs (se_storage S) d' (acc_id acct)) (get_spends (se_storage S) d' (acc_id acct))"
  shows "\<exists>resp shown. load_address_txs (se_storage S) d' acct None True = Inr resp
    \<and> shown \<in> set (concat (map tx_receives (at_transactions resp))) \<and> out_pub shown = P
    \<and> receipt (se_storage S) (se_library S) (block_reader S) c i (item_keys S c i derived) (bs_db t) index shown"
proof -
  note stored = scan_loop_stores [OF assms(1-19)]
  from stored(2) obtain shown where shown: "(acc_id acct, shown) \<in> set (db_outputs d')" "out_pub shown = P"
    "receipt (se_storage S) (se_library S) (block_reader S) c i (item_keys S c i derived) (bs_db t) index shown"
    unfolding assms(20) by blast
  have "get_outputs (se_storage S) d' (acc_id acct) = t_dups (db_outputs d') (acc_id acct)"
    using dupsort_table.dups_law [OF storage_env.outputs [OF assms(1)]] by (simp add: get_outputs_def)
  with shown(1) have listed: "shown \<in> set (get_outputs (se_storage S) d' (acc_id acct))" by (auto simp: set_t_dups)
  have "db_wf d'" using stored(1) by (simp add: storage_inv_def)
  from load_address_txs_result [OF assms(1) this assms(21,22)] obtain resp where
    "load_address_txs (se_storage S) d' acct None True = Inr resp"
    "concat (map tx_receives (at_transactions resp)) = get_outputs (se_storage S) d' (acc_id acct)" by blast
  with listed shown(2,3) show ?thesis by metis
qed

theorem received_is_shown_witness:
  "\<exists>resp shown. load_address_txs sample_env (fst sample_step) (sample_account 1 3) None True = Inr resp
    \<and> shown \<in> set (concat (map tx_receives (at_transactions resp))) \<and> out_pub shown = 502"
proof -
  have S: "se_storage sample_scan_env = sample_env" by (simp add: sample_scan_env_def)
  have a: "acc_id (sample_account 1 3) = la_id (ls_users (sample_thread sample_db 2) ! 0)"
    using sample_message_received(10) by (simp add: sample_account_def)
  have b: "get_last_block sample_env (fst sample_step) = Inr (projr (get_last_block sample_env (fst sample_step)))"
    by (rule sum.collapse(2) [symmetric]) code_simp
  have c: "sources_ok [] (get_outputs sample_env (fst sample_step) (acc_id (sample_account 1 3))) (get_spends sample_env (fst sample_step) (acc_id (sample_account 1 3)))"
    by code_simp
  show ?thesis
    using received_is_shown [OF sample_message_ok sample_message_received(1-9) a, unfolded S, OF b c] by blast
qed

end
